(* ===== verification/Prelude.thy ===== *)
theory Prelude
  imports Main "HOL-Library.Word" "HOL-Library.Multiset"
begin

text \<open>
  Shared vocabulary of the development: names for the machine types the code uses (an \<open>i32\<close> is read with \<open>sint\<close>), the C++
  integer division, the named collections of simplification rules the component theories fill,
  and the generic facts about lists and sums that several components use.
\<close>

unbundle bit_operations_syntax

type_synonym u8 = "8 word"
type_synonym u16 = "16 word"
type_synonym u32 = "32 word"
type_synonym u64 = "64 word"
type_synonym i32 = "32 word"
type_synonym bytes = "char list"

text \<open>Unfolding rules for the definitions of a component, collected where they are declared.\<close>

named_theorems fence_defs \<open>definitions of the disk job fence\<close>
named_theorems bw_defs \<open>definitions of the bandwidth limiter\<close>
named_theorems bdec_defs \<open>definitions of the bdecoder\<close>
named_theorems picker_defs \<open>definitions of the piece picker\<close>

section \<open>C++ integers\<close>

text \<open>
  The division of C++11 truncates towards zero; the division of HOL rounds down. The two agree
  on non-negative operands, which is where most of the code divides.
\<close>

definition tdiv :: "int \<Rightarrow> int \<Rightarrow> int" where
  "tdiv a b = sgn a * sgn b * (\<bar>a\<bar> div \<bar>b\<bar>)"

abbreviation int32_max :: int where "int32_max \<equiv> 2147483647"
abbreviation int64_max :: int where "int64_max \<equiv> 9223372036854775807"
abbreviation int64_min :: int where "int64_min \<equiv> - 9223372036854775808"

text \<open>The remainder that goes with it: it has the sign of the dividend.\<close>

definition tmod :: "int \<Rightarrow> int \<Rightarrow> int" where
  "tmod a b = a - b * tdiv a b"

lemma tdiv_nonneg [simp]: "0 \<le> a \<Longrightarrow> 0 \<le> b \<Longrightarrow> tdiv a b = a div b"
  by (cases "a = 0"; cases "b = 0") (auto simp: tdiv_def)

lemma tdiv_neg: "a \<le> 0 \<Longrightarrow> 0 < b \<Longrightarrow> tdiv a b = - ((- a) div b)"
  by (cases "a = 0") (auto simp: tdiv_def)

lemma tdiv_nonpos: "a \<le> 0 \<Longrightarrow> 0 < b \<Longrightarrow> tdiv a b \<le> 0"
  by (simp add: tdiv_neg pos_imp_zdiv_nonneg_iff)

text \<open>The conversion of a wider integer to a 32 bit \<open>int\<close>, as two's complement.\<close>

definition to_int32 :: "int \<Rightarrow> int" where
  "to_int32 x = (x + 2147483648) mod 4294967296 - 2147483648"

lemma to_int32_id [simp]: "- 2147483648 \<le> x \<Longrightarrow> x \<le> int32_max \<Longrightarrow> to_int32 x = x"
  by (simp add: to_int32_def)

section \<open>Lists\<close>

lemma sum_list_div_le:
  fixes d :: int
  assumes "0 \<le> d" and "0 < t" and "\<And>x. x \<in> set xs \<Longrightarrow> 0 \<le> p x"
  shows "sum_list (map (\<lambda>x. d * p x div t) xs) * t \<le> d * sum_list (map p xs)"
  using assms(3)
proof (induction xs)
  case Nil
  then show ?case by simp
next
  case (Cons x xs)
  have "d * p x div t * t \<le> d * p x"
    using pos_mod_sign [OF assms(2), of "d * p x"] minus_mod_eq_div_mult [of "d * p x" t] by linarith
  with Cons show ?case
    by (simp add: distrib_left distrib_right)
qed

lemma sum_list_map_update:
  fixes f :: "'a \<Rightarrow> int"
  assumes "i < length xs"
  shows "sum_list (map f (xs[i := y])) = sum_list (map f xs) - f (xs ! i) + f y"
  using assms by (induction xs arbitrary: i) (auto split: nat.splits)

lemma length_takeWhile_less_iff:
  "length (takeWhile P xs) < length xs \<longleftrightarrow> (\<exists>x\<in>set xs. \<not> P x)"
proof
  assume "length (takeWhile P xs) < length xs"
  then show "\<exists>x\<in>set xs. \<not> P x"
    by (metis nth_length_takeWhile nth_mem)
next
  assume "\<exists>x\<in>set xs. \<not> P x"
  then show "length (takeWhile P xs) < length xs"
    by (induction xs) auto
qed

section \<open>Transition systems\<close>

text \<open>
  The states a component can get into: one of its initial states, then any number of its steps.
  The contract of an invariant is stated once; a component interprets it with its own initial
  states, steps and invariant, and gets the invariant of every reachable state from it.
\<close>

inductive reach :: "('s \<Rightarrow> bool) \<Rightarrow> ('s \<Rightarrow> 's \<Rightarrow> bool) \<Rightarrow> 's \<Rightarrow> bool"
  for start :: "'s \<Rightarrow> bool" and step :: "'s \<Rightarrow> 's \<Rightarrow> bool" where
  reach_start: "start s \<Longrightarrow> reach start step s"
| reach_step: "reach start step s \<Longrightarrow> step s t \<Longrightarrow> reach start step t"

locale invariant_system =
  fixes start :: "'s \<Rightarrow> bool"
    and step :: "'s \<Rightarrow> 's \<Rightarrow> bool"
    and inv :: "'s \<Rightarrow> bool"
  assumes inv_start: "start s \<Longrightarrow> inv s"
    and inv_step: "inv s \<Longrightarrow> step s t \<Longrightarrow> inv t"
begin

lemma inv_reach: "reach start step s \<Longrightarrow> inv s"
  by (induction rule: reach.induct) (auto intro: inv_start inv_step)

end

end
