(* ===== verification/Disk_Job_Fence.thy ===== *)
theory Disk_Job_Fence
  imports Prelude
begin

text \<open>
  The disk job fence of one storage (\<open>disk_job_fence.cpp\<close>): jobs that need the storage for
  themselves raise a fence, every later job waits in a queue until the fence job has run.

  The first part translates the operations. The second part closes the system with the jobs that
  are currently executing, as the disk threads see them, and proves that a fence job never runs
  beside another job and that a blocked job always has a running job in front of it.
\<close>

section \<open>Jobs and the fence\<close>

record disk_io_job =
  job_id :: nat
  fence_flag :: bool
  in_progress :: bool

record disk_job_fence =
  m_has_fence :: int
  m_blocked_jobs :: "disk_io_job list"
  m_outstanding_jobs :: int

datatype fence_post = fence_post_fence | fence_post_flush | fence_post_none

definition new_fence :: disk_job_fence where
  "new_fence = \<lparr>m_has_fence = 0, m_blocked_jobs = [], m_outstanding_jobs = 0\<rparr>"

definition start_job :: "disk_io_job \<Rightarrow> disk_io_job" where
  "start_job j = j\<lparr>in_progress := True\<rparr>"

definition is_blocked :: "disk_io_job \<Rightarrow> disk_job_fence \<Rightarrow> bool \<times> disk_io_job \<times> disk_job_fence" where
  "is_blocked j s =
     (if m_has_fence s = 0
      then (False, start_job j, s\<lparr>m_outstanding_jobs := m_outstanding_jobs s + 1\<rparr>)
      else (True, j, s\<lparr>m_blocked_jobs := m_blocked_jobs s @ [j]\<rparr>))"

definition has_fence :: "disk_job_fence \<Rightarrow> bool" where
  "has_fence s \<longleftrightarrow> m_has_fence s \<noteq> 0"

definition num_blocked :: "disk_job_fence \<Rightarrow> nat" where
  "num_blocked s = length (m_blocked_jobs s)"

text \<open>
  \<open>raise_fence j fj cnt\<close>: the result is what the caller has to post, the two jobs with their new
  flags, the counter of blocked jobs and the fence.
\<close>

definition raise_fence ::
  "disk_io_job \<Rightarrow> disk_io_job \<Rightarrow> int \<Rightarrow> disk_job_fence \<Rightarrow>
     fence_post \<times> disk_io_job \<times> disk_io_job \<times> int \<times> disk_job_fence" where
  "raise_fence j fj cnt s =
     (let j = j\<lparr>fence_flag := True\<rparr> in
      if m_has_fence s = 0 \<and> m_outstanding_jobs s = 0
      then (fence_post_fence, start_job j, fj, cnt,
            s\<lparr>m_has_fence := m_has_fence s + 1, m_outstanding_jobs := m_outstanding_jobs s + 1\<rparr>)
      else
        let s1 = s\<lparr>m_has_fence := m_has_fence s + 1\<rparr> in
        if m_has_fence s1 > 1
        then (fence_post_none, j, fj, cnt + 2,
              s1\<lparr>m_blocked_jobs := m_blocked_jobs s1 @ [fj, j]\<rparr>)
        else (fence_post_flush, j, start_job fj, cnt + 1,
              s1\<lparr>m_outstanding_jobs := m_outstanding_jobs s1 + 1,
                 m_blocked_jobs := m_blocked_jobs s1 @ [j]\<rparr>))"

text \<open>
  The loop of \<open>job_complete\<close> that posts the jobs queued up behind a fence, up to the next fence.
  The arguments are the blocked queue, the number of outstanding jobs, the caller's queue
  and the number of jobs posted so far.
\<close>

fun post_blocked ::
  "disk_io_job list \<Rightarrow> int \<Rightarrow> disk_io_job list \<Rightarrow> int \<Rightarrow>
     int \<times> disk_io_job list \<times> disk_io_job list \<times> int" where
  "post_blocked [] out jobs ret = (ret, jobs, [], out)"
| "post_blocked (bj # bs) out jobs ret =
     (if fence_flag bj
      then (if out = 0 \<and> jobs = []
            then (ret + 1, jobs @ [start_job bj], bs, out + 1)
            else (ret, jobs, bj # bs, out))
      else post_blocked bs (out + 1) (jobs @ [start_job bj]) (ret + 1))"

text \<open>
  \<open>job_complete j jobs\<close>: the number of jobs posted, the job, the caller's queue and the fence.
  The code pops the blocked queue under an assertion that it is not empty; the model leaves the
  fence alone where the assertion would fail, and \<open>fence_inv\<close> below shows this never happens.
\<close>

definition job_complete ::
  "disk_io_job \<Rightarrow> disk_io_job list \<Rightarrow> disk_job_fence \<Rightarrow>
     int \<times> disk_io_job \<times> disk_io_job list \<times> disk_job_fence" where
  "job_complete j jobs s =
     (let j' = j\<lparr>in_progress := False\<rparr>;
          s1 = s\<lparr>m_outstanding_jobs := m_outstanding_jobs s - 1\<rparr>
      in if fence_flag j
         then (case post_blocked (m_blocked_jobs s1) (m_outstanding_jobs s1) jobs 0 of
                 (ret, jobs', bs, out) \<Rightarrow>
                   (ret, j', jobs',
                    s1\<lparr>m_has_fence := m_has_fence s1 - 1, m_blocked_jobs := bs,
                       m_outstanding_jobs := out\<rparr>))
         else if m_outstanding_jobs s1 > 0 \<or> m_has_fence s1 = 0 then (0, j', jobs, s1)
         else (case m_blocked_jobs s1 of
                 [] \<Rightarrow> (0, j', jobs, s1)
               | bj # bs \<Rightarrow>
                   (1, j', start_job bj # jobs,
                    s1\<lparr>m_blocked_jobs := bs, m_outstanding_jobs := m_outstanding_jobs s1 + 1\<rparr>)))"

lemmas fence_op_defs [fence_defs] =
  new_fence_def start_job_def is_blocked_def raise_fence_def job_complete_def Let_def

section \<open>The fence together with the running jobs\<close>

text \<open>
  \<open>running\<close> are the jobs between their start (\<open>is_blocked\<close> or \<open>raise_fence\<close> let them through, or
  \<open>job_complete\<close> posted them) and their completion. The queue \<open>jobs\<close> a completion posts to
  is shared with other storages, so a step may find any jobs in it already.
\<close>

record fence_sys =
  fs :: disk_job_fence
  running :: "disk_io_job multiset"

definition fresh_job :: "disk_io_job \<Rightarrow> bool" where
  "fresh_job j \<longleftrightarrow> \<not> fence_flag j \<and> \<not> in_progress j"

definition fence_init :: "fence_sys \<Rightarrow> bool" where
  "fence_init \<sigma> \<longleftrightarrow> \<sigma> = \<lparr>fs = new_fence, running = {#}\<rparr>"

definition raised :: "fence_post \<Rightarrow> disk_io_job \<Rightarrow> disk_io_job \<Rightarrow> disk_io_job multiset" where
  "raised p j fj = (case p of fence_post_fence \<Rightarrow> {#j#} | fence_post_flush \<Rightarrow> {#fj#}
                            | fence_post_none \<Rightarrow> {#})"

inductive fence_step :: "fence_sys \<Rightarrow> fence_sys \<Rightarrow> bool" where
  submit: "fresh_job j \<Longrightarrow> is_blocked j (fs \<sigma>) = (b, j', s') \<Longrightarrow>
     fence_step \<sigma> \<lparr>fs = s', running = running \<sigma> + (if b then {#} else {#j'#})\<rparr>"
| raise: "fresh_job j \<Longrightarrow> fresh_job fj \<Longrightarrow> raise_fence j fj cnt (fs \<sigma>) = (p, j', fj', cnt', s') \<Longrightarrow>
     fence_step \<sigma> \<lparr>fs = s', running = running \<sigma> + raised p j' fj'\<rparr>"
| complete: "j \<in># running \<sigma> \<Longrightarrow> job_complete j jobs (fs \<sigma>) = (ret, j', jobs', s') \<Longrightarrow>
     fence_step \<sigma> \<lparr>fs = s', running = running \<sigma> - {#j#} + (mset jobs' - mset jobs)\<rparr>"

text \<open>
  The invariant. The counters count what they say; a running fence runs alone and the
  queue behind it does not start with another fence (\<open>raise_fence\<close> queues a flush job in front of
  every fence but the first); with a fence raised and none running, the queue starts
  with that fence and something is still running in front of it.
\<close>

definition fence_inv :: "fence_sys \<Rightarrow> bool" where
  "fence_inv \<sigma> \<longleftrightarrow>
     m_outstanding_jobs (fs \<sigma>) = int (size (running \<sigma>)) \<and>
     m_has_fence (fs \<sigma>) = int (size (filter_mset fence_flag (running \<sigma>)))
        + int (length (filter fence_flag (m_blocked_jobs (fs \<sigma>)))) \<and>
     (\<forall>j\<in>#running \<sigma>. in_progress j) \<and>
     (\<forall>j\<in>set (m_blocked_jobs (fs \<sigma>)). \<not> in_progress j) \<and>
     (\<forall>j\<in>#running \<sigma>. fence_flag j \<longrightarrow> running \<sigma> = {#j#}) \<and>
     successively (\<lambda>a b. \<not> (fence_flag a \<and> fence_flag b)) (m_blocked_jobs (fs \<sigma>)) \<and>
     (m_blocked_jobs (fs \<sigma>) \<noteq> [] \<longrightarrow>
        running \<sigma> \<noteq> {#} \<and>
        (fence_flag (hd (m_blocked_jobs (fs \<sigma>))) \<longleftrightarrow> (\<forall>j\<in>#running \<sigma>. \<not> fence_flag j)))"

section \<open>What the operations do\<close>

abbreviation plain_job :: "disk_io_job \<Rightarrow> bool" where
  "plain_job j \<equiv> \<not> fence_flag j"

lemma start_job_simps [simp]:
  "in_progress (start_job j)" "fence_flag (start_job j) = fence_flag j"
  "job_id (start_job j) = job_id j"
  by (simp_all add: start_job_def)

text \<open>Unless a fence heads the queue of an idle storage, the loop posts the jobs before the next fence.\<close>

lemma post_blocked_eq:
  assumes "0 \<le> out" and "bs = [] \<or> plain_job (hd bs) \<or> out \<noteq> 0 \<or> jobs \<noteq> []"
  shows "post_blocked bs out jobs ret =
    (ret + int (length (takeWhile plain_job bs)),
     jobs @ map start_job (takeWhile plain_job bs),
     dropWhile plain_job bs,
     out + int (length (takeWhile plain_job bs)))"
  using assms by (induction bs out jobs ret rule: post_blocked.induct) auto

lemma mset_post [simp]: "mset (jobs @ xs) - mset jobs = mset xs"
  by simp

lemma successively_dropWhile [simp]:
  "successively P xs \<Longrightarrow> successively P (dropWhile Q xs)"
  by (induction xs) (auto simp: successively_Cons)

lemma filter_fence_dropWhile [simp]:
  "filter fence_flag (dropWhile plain_job bs) = filter fence_flag bs"
  by (induction bs) auto

lemma hd_dropWhile_fence: "dropWhile plain_job bs \<noteq> [] \<Longrightarrow> fence_flag (hd (dropWhile plain_job bs))"
  using hd_dropWhile by blast

section \<open>Every step keeps the invariant\<close>

lemma fence_inv_has_fence:
  assumes "fence_inv \<sigma>"
  shows "m_has_fence (fs \<sigma>) = 0 \<longleftrightarrow>
    m_blocked_jobs (fs \<sigma>) = [] \<and> (\<forall>j\<in>#running \<sigma>. plain_job j)"
proof -
  have "m_has_fence (fs \<sigma>) = 0 \<longleftrightarrow>
      (\<forall>j\<in>#running \<sigma>. plain_job j) \<and> (\<forall>j\<in>set (m_blocked_jobs (fs \<sigma>)). plain_job j)"
    using assms by (auto simp: fence_inv_def filter_mset_eq_conv filter_empty_conv
        add_nonneg_eq_0_iff)
  moreover have "m_blocked_jobs (fs \<sigma>) \<noteq> [] \<longrightarrow>
      (\<forall>j\<in>#running \<sigma>. plain_job j) \<longrightarrow> fence_flag (hd (m_blocked_jobs (fs \<sigma>)))"
    using assms by (simp add: fence_inv_def)
  ultimately show ?thesis by (metis empty_iff hd_in_set list.set(1))
qed

lemma fence_inv_init: "fence_init \<sigma> \<Longrightarrow> fence_inv \<sigma>"
  by (simp add: fence_init_def fence_inv_def new_fence_def)

lemma fence_inv_submit:
  assumes inv: "fence_inv \<sigma>" and fresh: "fresh_job j" and eq: "is_blocked j (fs \<sigma>) = (b, j', s')"
  shows "fence_inv \<lparr>fs = s', running = running \<sigma> + (if b then {#} else {#j'#})\<rparr>"
proof (cases "m_has_fence (fs \<sigma>) = 0")
  case True
  with fence_inv_has_fence [OF inv] inv fresh eq show ?thesis
    by (auto simp: fence_inv_def is_blocked_def fresh_job_def)
next
  case False
  with fence_inv_has_fence [OF inv] inv fresh eq show ?thesis
    by (auto simp: fence_inv_def is_blocked_def fresh_job_def successively_append_iff hd_append
        split: if_splits)
qed

lemma fence_inv_raise:
  assumes inv: "fence_inv \<sigma>" and fresh: "fresh_job j" "fresh_job fj"
    and eq: "raise_fence j fj cnt (fs \<sigma>) = (p, j', fj', cnt', s')"
  shows "fence_inv \<lparr>fs = s', running = running \<sigma> + raised p j' fj'\<rparr>"
proof -
  let ?s = "fs \<sigma>"
  have nonneg: "0 \<le> m_has_fence ?s" using inv by (simp add: fence_inv_def)
  consider (idle) "m_has_fence ?s = 0" "m_outstanding_jobs ?s = 0"
    | (flush) "m_has_fence ?s = 0" "m_outstanding_jobs ?s \<noteq> 0"
    | (queue) "0 < m_has_fence ?s"
    using nonneg by linarith
  then show ?thesis
  proof cases
    case idle
    with fence_inv_has_fence [OF inv] inv fresh eq show ?thesis
      by (auto simp: fence_inv_def raise_fence_def fresh_job_def raised_def Let_def)
  next
    case flush
    with fence_inv_has_fence [OF inv] inv fresh eq show ?thesis
      by (auto simp: fence_inv_def raise_fence_def fresh_job_def raised_def Let_def)
  next
    case queue
    with fence_inv_has_fence [OF inv] inv fresh eq show ?thesis
      by (auto simp: fence_inv_def raise_fence_def fresh_job_def raised_def Let_def
          successively_append_iff hd_append split: if_splits)
  qed
qed

lemma job_complete_fence:
  assumes "fence_flag j" and "m_outstanding_jobs s = 1"
    and "m_blocked_jobs s = [] \<or> plain_job (hd (m_blocked_jobs s))"
  shows "job_complete j jobs s =
    (int (length (takeWhile plain_job (m_blocked_jobs s))), j\<lparr>in_progress := False\<rparr>,
     jobs @ map start_job (takeWhile plain_job (m_blocked_jobs s)),
     s\<lparr>m_has_fence := m_has_fence s - 1,
       m_blocked_jobs := dropWhile plain_job (m_blocked_jobs s),
       m_outstanding_jobs := int (length (takeWhile plain_job (m_blocked_jobs s)))\<rparr>)"
  using assms by (auto simp: job_complete_def Let_def post_blocked_eq)

lemma fence_invI:
  assumes "m_outstanding_jobs s = int (size R)"
    and "m_has_fence s = int (size (filter_mset fence_flag R)) + int (length (filter fence_flag (m_blocked_jobs s)))"
    and "\<forall>j\<in>#R. in_progress j"
    and "\<forall>j\<in>set (m_blocked_jobs s). \<not> in_progress j"
    and "(\<forall>j\<in>#R. plain_job j) \<or> (\<exists>j. R = {#j#})"
    and "successively (\<lambda>a b. \<not> (fence_flag a \<and> fence_flag b)) (m_blocked_jobs s)"
    and "m_blocked_jobs s \<noteq> [] \<Longrightarrow> R \<noteq> {#}"
    and "m_blocked_jobs s \<noteq> [] \<Longrightarrow> fence_flag (hd (m_blocked_jobs s)) \<longleftrightarrow> (\<forall>j\<in>#R. plain_job j)"
  shows "fence_inv \<lparr>fs = s, running = R\<rparr>"
  using assms unfolding fence_inv_def by auto

lemma plain_mset_no_fence: "\<forall>j\<in>#R. plain_job j \<Longrightarrow> filter_mset fence_flag R = {#}"
  by (simp add: filter_mset_eq_conv)

lemma fence_inv_complete_fence:
  assumes inv: "fence_inv \<sigma>" and j: "j \<in># running \<sigma>" "fence_flag j"
    and eq: "job_complete j jobs (fs \<sigma>) = (ret, j', jobs', s')"
  shows "fence_inv \<lparr>fs = s', running = running \<sigma> - {#j#} + (mset jobs' - mset jobs)\<rparr>"
proof -
  let ?b = "m_blocked_jobs (fs \<sigma>)"
  let ?post = "map start_job (takeWhile plain_job ?b)"
  have run: "running \<sigma> = {#j#}" using inv j by (auto simp: fence_inv_def)
  have hd: "?b = [] \<or> plain_job (hd ?b)" using inv j by (auto simp: fence_inv_def)
  have out: "m_outstanding_jobs (fs \<sigma>) = 1" using inv run by (simp add: fence_inv_def)
  have res: "jobs' = jobs @ ?post" "m_has_fence s' = m_has_fence (fs \<sigma>) - 1"
    "m_blocked_jobs s' = dropWhile plain_job ?b" "m_outstanding_jobs s' = int (length ?post)"
    using eq [unfolded job_complete_fence [OF j(2) out hd]] by auto
  have np: "\<forall>x\<in>set ?b. \<not> in_progress x" using inv by (simp add: fence_inv_def)
  have succ: "successively (\<lambda>a b. \<not> (fence_flag a \<and> fence_flag b)) ?b"
    using inv by (simp add: fence_inv_def)
  have R: "running \<sigma> - {#j#} + (mset jobs' - mset jobs) = mset ?post"
    by (simp add: res(1) run)
  have plain: "\<forall>x\<in>#mset ?post. plain_job x" by (auto dest: set_takeWhileD)
  have hf: "m_has_fence (fs \<sigma>) = 1 + int (length (filter fence_flag ?b))"
    using inv run j by (simp add: fence_inv_def)
  have ne: "dropWhile plain_job ?b \<noteq> [] \<Longrightarrow> ?post \<noteq> []"
    using hd by (cases ?b) auto
  show ?thesis
    unfolding R
  proof (rule fence_invI)
    show "m_has_fence s' = int (size (filter_mset fence_flag (mset ?post)))
        + int (length (filter fence_flag (m_blocked_jobs s')))"
      unfolding plain_mset_no_fence [OF plain] by (simp add: res hf)
    show "\<forall>x\<in>set (m_blocked_jobs s'). \<not> in_progress x"
      using np by (auto simp: res dest: set_dropWhileD)
    show "(\<forall>x\<in>#mset ?post. plain_job x) \<or> (\<exists>x. mset ?post = {#x#})" using plain ..
    show "successively (\<lambda>a b. \<not> (fence_flag a \<and> fence_flag b)) (m_blocked_jobs s')"
      unfolding res by (rule successively_dropWhile [OF succ])
    show "m_blocked_jobs s' \<noteq> [] \<Longrightarrow> mset ?post \<noteq> {#}"
      using ne by (simp add: res)
    show "m_blocked_jobs s' \<noteq> [] \<Longrightarrow>
        fence_flag (hd (m_blocked_jobs s')) \<longleftrightarrow> (\<forall>x\<in>#mset ?post. plain_job x)"
      using plain hd_dropWhile_fence [of ?b] by (simp only: res simp_thms)
  qed (simp_all add: res)
qed

lemma fence_inv_complete_plain:
  assumes inv: "fence_inv \<sigma>" and j: "j \<in># running \<sigma>" "plain_job j"
    and eq: "job_complete j jobs (fs \<sigma>) = (ret, j', jobs', s')"
  shows "fence_inv \<lparr>fs = s', running = running \<sigma> - {#j#} + (mset jobs' - mset jobs)\<rparr>"
proof -
  obtain R where R: "running \<sigma> = add_mset j R" using j(1) by (metis mset_add)
  have out: "m_outstanding_jobs (fs \<sigma>) = int (size R) + 1" using inv R by (simp add: fence_inv_def)
  have plain: "\<forall>x\<in>#running \<sigma>. plain_job x" using inv j R by (auto simp: fence_inv_def)
  show ?thesis
  proof (cases "R = {#} \<and> m_has_fence (fs \<sigma>) \<noteq> 0")
    case True
    then obtain bj bs where b: "m_blocked_jobs (fs \<sigma>) = bj # bs"
      using fence_inv_has_fence [OF inv] plain by (cases "m_blocked_jobs (fs \<sigma>)") auto
    have bj: "fence_flag bj" using inv plain b by (simp add: fence_inv_def)
    from True out j have "m_outstanding_jobs (fs \<sigma>) = 1" "m_has_fence (fs \<sigma>) \<noteq> 0" by auto
    with eq j b have res: "jobs' = start_job bj # jobs"
      "s' = fs \<sigma>\<lparr>m_blocked_jobs := bs, m_outstanding_jobs := 1\<rparr>"
      by (auto simp: job_complete_def Let_def)
    show ?thesis
      using inv b bj R True j(2)
      by (intro fence_invI) (auto simp: res fence_inv_def successively_Cons)
  next
    case False
    with eq out j have res: "s' = fs \<sigma>\<lparr>m_outstanding_jobs := int (size R)\<rparr>" "jobs' = jobs"
      by (auto simp: job_complete_def Let_def split: if_splits list.splits)
    have ne: "m_blocked_jobs (fs \<sigma>) \<noteq> [] \<Longrightarrow> R \<noteq> {#}"
      using False fence_inv_has_fence [OF inv] by auto
    show ?thesis
      using inv R plain ne
      by (intro fence_invI) (auto simp: res fence_inv_def)
  qed
qed

lemma fence_inv_step: "fence_inv \<sigma> \<Longrightarrow> fence_step \<sigma> \<tau> \<Longrightarrow> fence_inv \<tau>"
  by (erule fence_step.cases)
    (blast intro: fence_inv_submit fence_inv_raise fence_inv_complete_fence fence_inv_complete_plain)+

interpretation fence_machine: invariant_system fence_init fence_step fence_inv
  by unfold_locales (auto intro: fence_inv_init fence_inv_step)

abbreviation fence_reachable :: "fence_sys \<Rightarrow> bool" where
  "fence_reachable \<equiv> reach fence_init fence_step"

section \<open>Draining the fence\<close>

text \<open>Completions only: \<open>completes n \<sigma> \<tau>\<close> when \<open>\<tau>\<close> is reached from \<open>\<sigma>\<close> by \<open>n\<close> completions.\<close>

definition fence_load :: "fence_sys \<Rightarrow> nat" where
  "fence_load \<sigma> = size (running \<sigma>) + length (m_blocked_jobs (fs \<sigma>))"

inductive completes :: "nat \<Rightarrow> fence_sys \<Rightarrow> fence_sys \<Rightarrow> bool" where
  completes_0: "completes 0 \<sigma> \<sigma>"
| completes_Suc: "completes n \<sigma> \<tau> \<Longrightarrow> j \<in># running \<tau> \<Longrightarrow>
     job_complete j jobs (fs \<tau>) = (ret, j', jobs', s') \<Longrightarrow>
     completes (Suc n) \<sigma> \<lparr>fs = s', running = running \<tau> - {#j#} + (mset jobs' - mset jobs)\<rparr>"

lemma job_complete_load:
  assumes inv: "fence_inv \<sigma>" and j: "j \<in># running \<sigma>"
    and eq: "job_complete j jobs (fs \<sigma>) = (ret, j', jobs', s')"
  shows "Suc (fence_load \<lparr>fs = s', running = running \<sigma> - {#j#} + (mset jobs' - mset jobs)\<rparr>) = fence_load \<sigma>"
proof (cases "fence_flag j")
  case True
  let ?b = "m_blocked_jobs (fs \<sigma>)"
  have run: "running \<sigma> = {#j#}" using inv j True by (auto simp: fence_inv_def)
  have hd: "?b = [] \<or> plain_job (hd ?b)" using inv j True by (auto simp: fence_inv_def)
  have out: "m_outstanding_jobs (fs \<sigma>) = 1" using inv run by (simp add: fence_inv_def)
  have "length (takeWhile plain_job ?b) + length (dropWhile plain_job ?b) = length ?b"
    by (metis length_append takeWhile_dropWhile_id)
  with eq [unfolded job_complete_fence [OF True out hd]] run show ?thesis
    by (auto simp: fence_load_def simp del: mset_map)
next
  case False
  obtain R where "running \<sigma> = add_mset j R" using j by (metis mset_add)
  with eq False show ?thesis
    by (auto simp: fence_load_def job_complete_def Let_def split: if_splits list.splits)
qed

lemma completes_inv: "completes n \<sigma> \<tau> \<Longrightarrow> fence_inv \<sigma> \<Longrightarrow> fence_inv \<tau> \<and> fence_load \<tau> + n = fence_load \<sigma>"
proof (induction rule: completes.induct)
  case (completes_Suc n \<sigma> \<tau> j jobs ret j' jobs' s')
  then show ?case
    using job_complete_load [of \<tau> j jobs ret j' jobs' s'] fence_inv_step [OF _ fence_step.complete]
    by fastforce
qed simp

section \<open>Properties\<close>

text \<open>
  C10: in every reachable state a running fence job is the only running job of the storage: the
  job that raised the fence has exclusive access.
\<close>

theorem fence_exclusive:
  assumes "fence_reachable \<sigma>" and "j \<in># running \<sigma>" and "fence_flag j"
  shows "running \<sigma> = {#j#}"
  using fence_machine.inv_reach [OF assms(1)] assms(2,3) by (simp add: fence_inv_def)

text \<open>
  C23: the fence never gets stuck and every blocked job is released: after any number of
  completions from a reachable state, each completion has retired exactly one job of
  the storage, and as long as a job is left, running or blocked, some job is running.
\<close>

theorem fence_drains:
  assumes "fence_reachable \<sigma>" and "completes n \<sigma> \<tau>"
  shows "fence_load \<tau> + n = fence_load \<sigma> \<and> (0 < fence_load \<tau> \<longrightarrow> running \<tau> \<noteq> {#})"
  using completes_inv [OF assms(2) fence_machine.inv_reach [OF assms(1)]]
  by (auto simp: fence_load_def fence_inv_def)

text \<open>
  C25: when a fence job completes, the jobs queued before the next fence are posted in the
  order they were queued, appended to the caller's queue whatever it holds, and the next
  fence stays at the head of the blocked queue.
\<close>

theorem fence_complete_posts:
  assumes "fence_reachable \<sigma>" and "j \<in># running \<sigma>" and "fence_flag j"
  shows "\<exists>s'. job_complete j jobs (fs \<sigma>) =
      (int (length (takeWhile plain_job (m_blocked_jobs (fs \<sigma>)))), j\<lparr>in_progress := False\<rparr>,
       jobs @ map start_job (takeWhile plain_job (m_blocked_jobs (fs \<sigma>))), s') \<and>
     m_blocked_jobs s' = dropWhile plain_job (m_blocked_jobs (fs \<sigma>)) \<and>
     m_has_fence s' = m_has_fence (fs \<sigma>) - 1"
proof -
  have inv: "fence_inv \<sigma>" using assms(1) by (rule fence_machine.inv_reach)
  then have "m_outstanding_jobs (fs \<sigma>) = 1"
    "m_blocked_jobs (fs \<sigma>) = [] \<or> plain_job (hd (m_blocked_jobs (fs \<sigma>)))"
    using assms(2,3) by (auto simp: fence_inv_def)
  from job_complete_fence [OF assms(3) this] show ?thesis by simp
qed

text \<open>A concrete run for the witnesses: a fence raised on an idle storage, then a blocked job.\<close>

definition demo_job :: "nat \<Rightarrow> disk_io_job" where
  "demo_job n = \<lparr>job_id = n, fence_flag = False, in_progress = False\<rparr>"

definition demo_fence_job :: disk_io_job where
  "demo_fence_job = \<lparr>job_id = 0, fence_flag = True, in_progress = True\<rparr>"

definition demo_sys :: fence_sys where
  "demo_sys = \<lparr>fs = \<lparr>m_has_fence = 1, m_blocked_jobs = [demo_job 2], m_outstanding_jobs = 1\<rparr>,
     running = {#demo_fence_job#}\<rparr>"

lemma demo_reachable: "fence_reachable demo_sys"
proof -
  let ?s0 = "\<lparr>fs = new_fence, running = {#}\<rparr>"
  let ?s1 = "\<lparr>fs = \<lparr>m_has_fence = 1, m_blocked_jobs = [], m_outstanding_jobs = 1\<rparr>,
     running = {#demo_fence_job#}\<rparr>"
  have "fence_reachable ?s0" by (rule reach_start) (simp add: fence_init_def)
  moreover have "fence_step ?s0 ?s1"
    using fence_step.raise [of "demo_job 0" "demo_job 1" 0 ?s0]
    by (simp add: fresh_job_def demo_job_def demo_fence_job_def raised_def fence_defs)
  ultimately have "fence_reachable ?s1" by (rule reach_step)
  moreover have "fence_step ?s1 demo_sys"
    using fence_step.submit [of "demo_job 2" ?s1]
    by (simp add: fresh_job_def demo_job_def demo_fence_job_def demo_sys_def fence_defs)
  ultimately show ?thesis by (rule reach_step)
qed

theorem fence_exclusive_witness:
  "demo_fence_job \<in># running demo_sys \<and> running demo_sys = {#demo_fence_job#}"
proof -
  have m: "demo_fence_job \<in># running demo_sys" by (simp add: demo_sys_def)
  with fence_exclusive [OF demo_reachable m] show ?thesis by (simp add: demo_fence_job_def)
qed

text \<open>The fence job completes, and posts the job that waited behind it.\<close>

lemma demo_completes:
  "completes 1 demo_sys \<lparr>fs = \<lparr>m_has_fence = 0, m_blocked_jobs = [], m_outstanding_jobs = 1\<rparr>, running = {#start_job (demo_job 2)#}\<rparr>"
  using completes_Suc [OF completes_0, of demo_fence_job demo_sys "[]"]
  by (simp add: demo_sys_def demo_fence_job_def demo_job_def fence_defs)

theorem fence_drains_witness:
  "\<exists>\<tau>. completes 1 demo_sys \<tau> \<and> fence_load \<tau> + 1 = 2 \<and> running \<tau> \<noteq> {#}"
proof -
  have "fence_load demo_sys = 2" by (simp add: fence_load_def demo_sys_def)
  with fence_drains [OF demo_reachable demo_completes] show ?thesis
    by (intro exI conjI) (rule demo_completes, simp_all)
qed

theorem fence_complete_posts_witness:
  "\<exists>s'. job_complete demo_fence_job [demo_job 7] (fs demo_sys) =
     (1, demo_fence_job\<lparr>in_progress := False\<rparr>, [demo_job 7, start_job (demo_job 2)], s')"
proof -
  have m: "demo_fence_job \<in># running demo_sys" "fence_flag demo_fence_job"
    by (simp_all add: demo_sys_def demo_fence_job_def)
  show ?thesis
    using fence_complete_posts [OF demo_reachable m, of "[demo_job 7]"]
    by (auto simp: demo_sys_def demo_job_def)
qed

end
