(* ===== verification/Bandwidth.thy ===== *)
theory Bandwidth
  imports Prelude
begin

text \<open>
  The rate limiter: \<open>bandwidth_limit.cpp\<close> (a channel with its quota), \<open>bandwidth_queue_entry.cpp\<close>
  (one request, limited by up to ten channels) and \<open>bandwidth_manager.cpp\<close> (the queue of requests
  and the periodic distribution of quota).

  Channels are shared between requests through pointers: the model keeps them in a store from
  channel numbers to channels and a request holds channel numbers. A callback to a peer
  (\<open>bandwidth_socket::assign_bandwidth\<close>) is an element of the list of calls an operation returns;
  the operations make the callbacks last, when the manager's own state is final. The sum of the priorities on a channel,
  \<open>tmp\<close>, is a mathematical integer: the code asserts that it stays below \<open>INT_MAX\<close>.
\<close>

section \<open>Channels\<close>

record bandwidth_channel =
  tmp :: int
  distribute_quota :: int
  m_quota_left :: int
  m_limit :: int

abbreviation inf :: int where "inf \<equiv> int32_max"

definition new_channel :: bandwidth_channel where
  "new_channel = \<lparr>tmp = 0, distribute_quota = 0, m_quota_left = 0, m_limit = 0\<rparr>"

definition throttle :: "int \<Rightarrow> bandwidth_channel \<Rightarrow> bandwidth_channel" where
  "throttle limit ch = ch\<lparr>m_limit := limit\<rparr>"

definition quota_left :: "bandwidth_channel \<Rightarrow> int" where
  "quota_left ch = (if m_limit ch = 0 then inf else max (to_int32 (m_quota_left ch)) 0)"

definition update_quota :: "int \<Rightarrow> bandwidth_channel \<Rightarrow> bandwidth_channel" where
  "update_quota dt_milliseconds ch =
     (if m_limit ch = 0 then ch
      else
        let to_add = tdiv (m_limit ch * dt_milliseconds + 500) 1000;
            q = (if to_add > inf - m_quota_left ch then inf
                 else
                   let q1 = m_quota_left ch + to_add;
                       q2 = (if tdiv q1 3 > m_limit ch then m_limit ch * 3 else q1)
                   in min q2 inf)
        in ch\<lparr>m_quota_left := q, distribute_quota := to_int32 (max q 0)\<rparr>)"

definition return_quota :: "int \<Rightarrow> bandwidth_channel \<Rightarrow> bandwidth_channel" where
  "return_quota amount ch =
     (if m_limit ch = 0 then ch else ch\<lparr>m_quota_left := m_quota_left ch + amount\<rparr>)"

definition use_quota :: "int \<Rightarrow> bandwidth_channel \<Rightarrow> bandwidth_channel" where
  "use_quota amount ch =
     (if m_limit ch = 0 then ch else ch\<lparr>m_quota_left := m_quota_left ch - amount\<rparr>)"

definition need_queueing :: "int \<Rightarrow> bandwidth_channel \<Rightarrow> bool \<times> bandwidth_channel" where
  "need_queueing amount ch =
     (if m_quota_left ch - amount < m_limit ch then (True, ch)
      else (False, ch\<lparr>m_quota_left := m_quota_left ch - amount\<rparr>))"

section \<open>Requests\<close>

type_synonym chan_store = "nat \<Rightarrow> bandwidth_channel"

record bw_request =
  bw_peer :: nat
  bw_priority :: int
  assigned :: int
  request_size :: int
  bw_ttl :: int
  bw_channel :: "nat list"

abbreviation max_bandwidth_channels :: nat where "max_bandwidth_channels \<equiv> 10"

definition new_request :: "nat \<Rightarrow> int \<Rightarrow> int \<Rightarrow> bw_request" where
  "new_request pe blk prio =
     \<lparr>bw_peer = pe, bw_priority = prio, assigned = 0, request_size = blk, bw_ttl = 20, bw_channel = []\<rparr>"

text \<open>The loop that lowers the quota to the share of the most limiting channel.\<close>

fun limit_quota :: "chan_store \<Rightarrow> int \<Rightarrow> nat list \<Rightarrow> int \<Rightarrow> int" where
  "limit_quota ch prio [] quota = quota"
| "limit_quota ch prio (c # cs) quota =
     (if m_limit (ch c) = 0 \<or> tmp (ch c) = 0 then limit_quota ch prio cs quota
      else limit_quota ch prio cs
             (min (to_int32 (tdiv (distribute_quota (ch c) * prio) (tmp (ch c)))) quota))"

fun use_channels :: "chan_store \<Rightarrow> nat list \<Rightarrow> int \<Rightarrow> chan_store" where
  "use_channels ch [] quota = ch"
| "use_channels ch (c # cs) quota = use_channels (ch(c := use_quota quota (ch c))) cs quota"

definition assign_bandwidth :: "chan_store \<Rightarrow> bw_request \<Rightarrow> int \<times> chan_store \<times> bw_request" where
  "assign_bandwidth ch r =
     (let quota = request_size r - assigned r;
          r1 = r\<lparr>bw_ttl := bw_ttl r - 1\<rparr>
      in if quota = 0 then (quota, ch, r1)
         else
           let q = limit_quota ch (bw_priority r) (take 5 (bw_channel r)) quota
           in (q, use_channels ch (take 5 (bw_channel r)) q, r1\<lparr>assigned := assigned r1 + q\<rparr>))"

section \<open>The manager\<close>

record bandwidth_manager =
  m_queue :: "bw_request list"
  m_queued_bytes :: int
  m_channel :: int
  m_abort :: bool

text \<open>A callback: the peer and the number of bytes it is assigned.\<close>

type_synonym bw_call = "nat \<times> int"

datatype bw_error = channel_overflow

definition new_manager :: "int \<Rightarrow> bandwidth_manager" where
  "new_manager channel =
     \<lparr>m_queue = [], m_queued_bytes = 0, m_channel = channel, m_abort = False\<rparr>"

abbreviation bw_answer :: "bw_request \<Rightarrow> bw_call" where
  "bw_answer r \<equiv> (bw_peer r, assigned r)"

definition bw_close :: "bandwidth_manager \<Rightarrow> bw_call list \<times> bandwidth_manager" where
  "bw_close m =
     (map bw_answer (rev (m_queue m)), m\<lparr>m_abort := True, m_queue := [], m_queued_bytes := 0\<rparr>)"

definition queue_size :: "bandwidth_manager \<Rightarrow> nat" where
  "queue_size m = length (m_queue m)"

text \<open>
  The loop over the caller's channels: the channels that need queueing, in order. Writing an eleventh
  one is past the end of the request's array.
\<close>

fun pick_channels :: "chan_store \<Rightarrow> nat list \<Rightarrow> int \<Rightarrow> nat list \<Rightarrow> bw_error + (chan_store \<times> nat list)" where
  "pick_channels ch [] blk ks = Inr (ch, ks)"
| "pick_channels ch (c # cs) blk ks =
     (case need_queueing blk (ch c) of (q, chan) \<Rightarrow>
        let ch' = ch(c := chan) in
        if \<not> q then pick_channels ch' cs blk ks
        else if length ks < max_bandwidth_channels then pick_channels ch' cs blk (ks @ [c])
        else Inl channel_overflow)"

definition request_bandwidth ::
  "chan_store \<Rightarrow> bandwidth_manager \<Rightarrow> nat \<Rightarrow> int \<Rightarrow> int \<Rightarrow> nat list \<Rightarrow>
     bw_error + (int \<times> chan_store \<times> bandwidth_manager)" where
  "request_bandwidth ch m pe blk prio chan =
     (if m_abort m then Inr (0, ch, m)
      else if chan = [] then Inr (blk, ch, m)
      else case pick_channels ch chan blk [] of
             Inl e \<Rightarrow> Inl e
           | Inr (ch', ks) \<Rightarrow>
               if ks = [] then Inr (blk, ch', m)
               else Inr (0, ch',
                      m\<lparr>m_queued_bytes := m_queued_bytes m + blk,
                        m_queue := m_queue m @ [(new_request pe blk prio)\<lparr>bw_channel := ks\<rparr>]\<rparr>))"

text \<open>
  \<open>update_quotas\<close> in its four passes. First pass: requests of disconnecting peers leave the queue and give their
  quota back; the channels of the others are reset.
\<close>

fun return_channels :: "chan_store \<Rightarrow> nat list \<Rightarrow> int \<Rightarrow> chan_store" where
  "return_channels ch [] amount = ch"
| "return_channels ch (c # cs) amount = return_channels (ch(c := return_quota amount (ch c))) cs amount"

fun reset_channels :: "chan_store \<Rightarrow> nat list \<Rightarrow> chan_store" where
  "reset_channels ch [] = ch"
| "reset_channels ch (c # cs) = reset_channels (ch(c := (ch c)\<lparr>tmp := 0\<rparr>)) cs"

fun drop_disconnecting ::
  "(nat \<Rightarrow> bool) \<Rightarrow> bw_request list \<Rightarrow> chan_store \<Rightarrow> int \<Rightarrow>
     bw_request list \<times> bw_request list \<times> chan_store \<times> int" where
  "drop_disconnecting disc [] ch queued = ([], [], ch, queued)"
| "drop_disconnecting disc (r # rs) ch queued =
     (if disc (bw_peer r)
      then case drop_disconnecting disc rs (return_channels ch (bw_channel r) (assigned r))
                  (queued - (request_size r - assigned r)) of
             (kept, gone, ch', queued') \<Rightarrow> (kept, r\<lparr>assigned := 0\<rparr> # gone, ch', queued')
      else case drop_disconnecting disc rs (reset_channels ch (bw_channel r)) queued of
             (kept, gone, ch', queued') \<Rightarrow> (r # kept, gone, ch', queued'))"

text \<open>Second pass: the sum of the priorities on each channel, and the channels in use.\<close>

fun add_priority :: "chan_store \<Rightarrow> nat list \<Rightarrow> int \<Rightarrow> nat list \<Rightarrow> chan_store \<times> nat list" where
  "add_priority ch [] prio channels = (ch, channels)"
| "add_priority ch (c # cs) prio channels =
     add_priority (ch(c := (ch c)\<lparr>tmp := tmp (ch c) + prio\<rparr>)) cs prio
       (if tmp (ch c) = 0 then channels @ [c] else channels)"

fun collect_channels :: "bw_request list \<Rightarrow> chan_store \<Rightarrow> nat list \<Rightarrow> chan_store \<times> nat list" where
  "collect_channels [] ch channels = (ch, channels)"
| "collect_channels (r # rs) ch channels =
     (case add_priority ch (bw_channel r) (bw_priority r) channels of
        (ch', channels') \<Rightarrow> collect_channels rs ch' channels')"

text \<open>Third pass: the channels in use get their quota for the time passed.\<close>

fun update_channels :: "int \<Rightarrow> nat list \<Rightarrow> chan_store \<Rightarrow> chan_store" where
  "update_channels dt [] ch = ch"
| "update_channels dt (c # cs) ch = update_channels dt cs (ch(c := update_quota dt (ch c)))"

text \<open>Fourth pass: the requests take their share; finished requests leave the queue.\<close>

definition request_done :: "bw_request \<Rightarrow> bool" where
  "request_done r \<longleftrightarrow> assigned r = request_size r \<or> (bw_ttl r \<le> 0 \<and> assigned r > 0)"

fun assign_round ::
  "bw_request list \<Rightarrow> chan_store \<Rightarrow> int \<Rightarrow> bw_request list \<times> bw_request list \<times> chan_store \<times> int" where
  "assign_round [] ch queued = ([], [], ch, queued)"
| "assign_round (r # rs) ch queued =
     (case assign_bandwidth ch r of (a, ch1, r1) \<Rightarrow>
        if request_done r1
        then case assign_round rs ch1 (queued - (a + (request_size r1 - assigned r1))) of
               (kept, out, ch', queued') \<Rightarrow> (kept, r1 # out, ch', queued')
        else case assign_round rs ch1 (queued - a) of
               (kept, out, ch', queued') \<Rightarrow> (r1 # kept, out, ch', queued'))"

definition update_quotas ::
  "(nat \<Rightarrow> bool) \<Rightarrow> int \<Rightarrow> chan_store \<Rightarrow> bandwidth_manager \<Rightarrow>
     bw_call list \<times> chan_store \<times> bandwidth_manager" where
  "update_quotas disc dt ch m =
     (if m_abort m then ([], ch, m)
      else if m_queue m = [] then ([], ch, m)
      else
        let dt_milliseconds = (if dt > 3000 then 3000 else dt) in
        case drop_disconnecting disc (m_queue m) ch (m_queued_bytes m) of
          (kept, gone, ch1, queued1) \<Rightarrow>
        case collect_channels kept ch1 [] of (ch2, channels) \<Rightarrow>
        case assign_round kept (update_channels dt_milliseconds channels ch2) queued1 of
          (kept', out, ch3, queued2) \<Rightarrow>
            (map bw_answer (rev (gone @ out)), ch3,
             m\<lparr>m_queue := kept', m_queued_bytes := queued2\<rparr>))"

section \<open>Invariants\<close>

abbreviation open_bytes :: "bw_request \<Rightarrow> int" where
  "open_bytes r \<equiv> request_size r - assigned r"

definition request_ok :: "bw_request \<Rightarrow> bool" where
  "request_ok r \<longleftrightarrow> 0 \<le> assigned r \<and> assigned r < request_size r \<and> 0 < bw_priority r
     \<and> length (bw_channel r) \<le> max_bandwidth_channels"

definition bw_inv :: "bandwidth_manager \<Rightarrow> bool" where
  "bw_inv m \<longleftrightarrow> m_queued_bytes m = sum_list (map open_bytes (m_queue m))
     \<and> (\<forall>r\<in>set (m_queue m). request_ok r)"

definition chan_ok :: "bandwidth_channel \<Rightarrow> bool" where
  "chan_ok c \<longleftrightarrow> 0 \<le> m_limit c \<and> m_limit c < inf"

text \<open>What a request needs of a channel to get a share of it: a quota to give out and its weight counted.\<close>

definition share_ok :: "chan_store \<Rightarrow> int \<Rightarrow> nat \<Rightarrow> bool" where
  "share_ok ch prio c \<longleftrightarrow> m_limit (ch c) = 0 \<or>
     (0 \<le> distribute_quota (ch c) \<and> distribute_quota (ch c) \<le> inf \<and> 0 < prio \<and> prio \<le> tmp (ch c))"

section \<open>One channel\<close>

lemma update_quota_limit [simp]: "m_limit (update_quota dt ch) = m_limit ch"
  and update_quota_tmp [simp]: "tmp (update_quota dt ch) = tmp ch"
  by (simp_all add: update_quota_def Let_def)

lemma update_quota_bounds:
  assumes "m_limit ch \<noteq> 0"
  shows "m_quota_left (update_quota dt ch) \<le> inf"
    and "distribute_quota (update_quota dt ch) = max (m_quota_left (update_quota dt ch)) 0"
  using assms by (auto simp: update_quota_def Let_def)

lemma update_quota_nonneg:
  assumes "chan_ok ch" and "0 \<le> dt" and "0 \<le> m_quota_left ch"
  shows "0 \<le> m_quota_left (update_quota dt ch)"
proof -
  have "0 \<le> tdiv (m_limit ch * dt + 500) 1000"
    using assms by (simp add: chan_ok_def pos_imp_zdiv_nonneg_iff)
  with assms show ?thesis
    by (auto simp: update_quota_def Let_def chan_ok_def)
qed

section \<open>The shares of one request\<close>

lemma share_bounds:
  assumes "share_ok ch prio c" and "m_limit (ch c) \<noteq> 0"
  shows "to_int32 (tdiv (distribute_quota (ch c) * prio) (tmp (ch c)))
      = distribute_quota (ch c) * prio div tmp (ch c)"
    and "0 \<le> distribute_quota (ch c) * prio div tmp (ch c)"
proof -
  let ?d = "distribute_quota (ch c)" and ?t = "tmp (ch c)"
  have dt: "0 \<le> ?d" "?d \<le> inf" "0 < prio" "prio \<le> ?t" using assms by (auto simp: share_ok_def)
  show nonneg: "0 \<le> ?d * prio div ?t" using dt by (simp add: pos_imp_zdiv_nonneg_iff)
  have "?d * prio \<le> ?d * ?t" using dt by (simp add: mult_left_mono)
  then have "?d * prio div ?t \<le> ?d * ?t div ?t" using dt by (intro zdiv_mono1) auto
  also have "?d * ?t div ?t = ?d" using dt by simp
  finally show "to_int32 (tdiv (?d * prio) ?t) = ?d * prio div ?t"
    using dt nonneg by simp
qed

lemma limit_quota_bounds:
  assumes "\<forall>c\<in>set cs. share_ok ch prio c" and "0 \<le> quota"
  shows "0 \<le> limit_quota ch prio cs quota \<and> limit_quota ch prio cs quota \<le> quota"
  using assms
proof (induction cs arbitrary: quota)
  case (Cons c cs)
  show ?case
  proof (cases "m_limit (ch c) = 0 \<or> tmp (ch c) = 0")
    case False
    let ?s = "distribute_quota (ch c) * prio div tmp (ch c)"
    have "0 \<le> min ?s quota" using share_bounds(2) [of ch prio c] Cons.prems False by simp
    with Cons.IH [of "min ?s quota"] Cons.prems False share_bounds(1) [of ch prio c] show ?thesis
      by auto
  qed (use Cons in auto)
qed simp

lemma limit_quota_share:
  assumes "\<forall>c\<in>set cs. share_ok ch prio c" and "0 \<le> quota" and "c \<in> set cs" and "m_limit (ch c) \<noteq> 0"
  shows "limit_quota ch prio cs quota \<le> distribute_quota (ch c) * prio div tmp (ch c)"
  using assms
proof (induction cs arbitrary: quota)
  case (Cons a cs)
  let ?s = "\<lambda>a. distribute_quota (ch a) * prio div tmp (ch a)"
  have pos: "m_limit (ch a) = 0 \<or> tmp (ch a) \<noteq> 0" using Cons.prems(1) by (auto simp: share_ok_def)
  show ?case
  proof (cases "m_limit (ch a) = 0")
    case True
    with Cons show ?thesis by auto
  next
    case False
    have nonneg: "0 \<le> min (?s a) quota" using share_bounds(2) [of ch prio a] Cons.prems False by simp
    have eq: "limit_quota ch prio (a # cs) quota = limit_quota ch prio cs (min (?s a) quota)"
      using False pos share_bounds(1) [of ch prio a] Cons.prems by simp
    show ?thesis
    proof (cases "c = a")
      case True
      have "limit_quota ch prio cs (min (?s a) quota) \<le> min (?s a) quota"
        using limit_quota_bounds [OF _ nonneg, of cs ch prio] Cons.prems(1)
        by (meson list.set_intros(2))
      with eq True show ?thesis by simp
    next
      case False
      with Cons.IH [OF _ nonneg] Cons.prems eq show ?thesis by simp
    qed
  qed
qed simp

text \<open>Using a quota changes the quota left of the limited channels and nothing else.\<close>

lemma use_channels_eq:
  "use_channels ch cs q c =
     (if m_limit (ch c) = 0 then ch c
      else (ch c)\<lparr>m_quota_left := m_quota_left (ch c) - int (count_list cs c) * q\<rparr>)"
  by (induction cs arbitrary: ch) (auto simp: use_quota_def algebra_simps)

definition same_shares :: "chan_store \<Rightarrow> chan_store \<Rightarrow> bool" where
  "same_shares ch ch' \<longleftrightarrow> (\<forall>c. m_limit (ch' c) = m_limit (ch c) \<and> tmp (ch' c) = tmp (ch c)
     \<and> distribute_quota (ch' c) = distribute_quota (ch c))"

lemma same_shares_use [simp]: "same_shares ch (use_channels ch cs q)"
  by (simp add: same_shares_def use_channels_eq)

lemma same_shares_refl [simp]: "same_shares ch ch"
  by (simp add: same_shares_def)

lemma same_shares_share_ok: "same_shares ch ch' \<Longrightarrow> share_ok ch' prio c = share_ok ch prio c"
  by (simp add: same_shares_def share_ok_def)

lemma same_shares_limit_quota:
  "same_shares ch ch' \<Longrightarrow> limit_quota ch' prio cs q = limit_quota ch prio cs q"
  by (induction cs arbitrary: q) (auto simp: same_shares_def)

section \<open>The fourth pass\<close>

text \<open>What a request takes in a round, and what all requests of a queue take through a channel.\<close>

definition round_share :: "chan_store \<Rightarrow> bw_request \<Rightarrow> int" where
  "round_share ch r =
     (if open_bytes r = 0 then 0
      else limit_quota ch (bw_priority r) (take 5 (bw_channel r)) (open_bytes r))"

definition taken :: "chan_store \<Rightarrow> bw_request list \<Rightarrow> nat \<Rightarrow> int" where
  "taken ch rs c = sum_list (map (\<lambda>r. int (count_list (take 5 (bw_channel r)) c) * round_share ch r) rs)"

definition weight :: "bw_request list \<Rightarrow> nat \<Rightarrow> int" where
  "weight rs c = sum_list (map (\<lambda>r. bw_priority r * int (count_list (bw_channel r) c)) rs)"

definition request_shares_ok :: "chan_store \<Rightarrow> bw_request \<Rightarrow> bool" where
  "request_shares_ok ch r \<longleftrightarrow> (\<forall>c\<in>set (bw_channel r). share_ok ch (bw_priority r) c)"

lemma assign_bandwidth_eq:
  "assign_bandwidth ch r =
     (round_share ch r, use_channels ch (take 5 (bw_channel r)) (round_share ch r),
      r\<lparr>bw_ttl := bw_ttl r - 1, assigned := assigned r + round_share ch r\<rparr>)"
proof (cases "open_bytes r = 0")
  case True
  have "use_channels ch cs 0 = ch" for cs
    by (rule ext) (simp add: use_channels_eq)
  with True show ?thesis by (simp add: assign_bandwidth_def round_share_def Let_def)
next
  case False
  then show ?thesis by (simp add: assign_bandwidth_def round_share_def Let_def)
qed

lemma same_shares_round_share: "same_shares ch ch' \<Longrightarrow> round_share ch' r = round_share ch r"
  by (simp add: round_share_def same_shares_limit_quota)

lemma same_shares_request: "same_shares ch ch' \<Longrightarrow> request_shares_ok ch' r = request_shares_ok ch r"
  by (simp add: request_shares_ok_def same_shares_share_ok)

lemma same_shares_taken: "same_shares ch ch' \<Longrightarrow> taken ch' rs c = taken ch rs c"
  by (simp add: taken_def same_shares_round_share)

lemma round_share_bounds:
  assumes "request_ok r" and "request_shares_ok ch r"
  shows "0 \<le> round_share ch r" and "round_share ch r \<le> open_bytes r"
proof -
  have "\<forall>c\<in>set (take 5 (bw_channel r)). share_ok ch (bw_priority r) c" "0 \<le> open_bytes r"
    using assms by (auto simp: request_shares_ok_def request_ok_def dest: in_set_takeD)
  from limit_quota_bounds [OF this]
  show "0 \<le> round_share ch r" and "round_share ch r \<le> open_bytes r"
    by (auto simp: round_share_def)
qed

lemma round_share_channel:
  assumes "request_ok r" and "request_shares_ok ch r" and "m_limit (ch c) \<noteq> 0"
  shows "int (count_list (take 5 (bw_channel r)) c) * round_share ch r * tmp (ch c)
    \<le> distribute_quota (ch c) * (bw_priority r * int (count_list (bw_channel r) c))"
proof (cases "c \<in> set (take 5 (bw_channel r))")
  case False
  have "0 \<le> bw_priority r" using assms by (simp add: request_ok_def)
  moreover have "c \<in> set (bw_channel r) \<Longrightarrow> 0 \<le> distribute_quota (ch c)"
    using assms by (auto simp: request_shares_ok_def share_ok_def)
  moreover have "count_list (take 5 (bw_channel r)) c = 0" using False by (simp add: count_list_0_iff)
  ultimately show ?thesis
    by (cases "c \<in> set (bw_channel r)") (auto simp: count_list_0_iff)
next
  case True
  let ?k = "int (count_list (take 5 (bw_channel r)) c)" and ?n = "int (count_list (bw_channel r) c)"
  let ?d = "distribute_quota (ch c)" and ?t = "tmp (ch c)" and ?p = "bw_priority r"
  have sh: "\<forall>c\<in>set (take 5 (bw_channel r)). share_ok ch ?p c"
    using assms(2) by (auto simp: request_shares_ok_def dest: in_set_takeD)
  have c: "0 \<le> ?d" "0 < ?p" "0 < ?t" using sh True assms(3) by (auto simp: share_ok_def)
  have "0 \<le> open_bytes r" "open_bytes r \<noteq> 0" using assms(1) by (auto simp: request_ok_def)
  from limit_quota_share [OF sh this(1) True assms(3)] this(2)
  have "round_share ch r \<le> ?d * ?p div ?t" by (simp add: round_share_def)
  then have "round_share ch r * ?t \<le> ?d * ?p div ?t * ?t" using c by simp
  also have "\<dots> \<le> ?d * ?p"
    using pos_mod_sign [OF c(3), of "?d * ?p"] minus_mod_eq_div_mult [of "?d * ?p" ?t] by linarith
  finally have "?k * (round_share ch r * ?t) \<le> ?k * (?d * ?p)" by (simp add: mult_left_mono)
  also have "\<dots> \<le> ?n * (?d * ?p)"
  proof (rule mult_right_mono)
    have "count_list (take 5 (bw_channel r)) c \<le> count_list (bw_channel r) c"
      by (metis append_take_drop_id count_list_append le_add1)
    then show "?k \<le> ?n" by simp
  qed (use c in simp)
  finally show ?thesis by (simp add: algebra_simps)
qed

lemma taken_le_quota:
  assumes "\<forall>r\<in>set rs. request_ok r \<and> request_shares_ok ch r" and "m_limit (ch c) \<noteq> 0"
    and "tmp (ch c) = weight rs c" and "0 \<le> distribute_quota (ch c)"
  shows "taken ch rs c \<le> distribute_quota (ch c)"
proof (cases "tmp (ch c) = 0")
  case True
  have "\<forall>r\<in>set rs. c \<notin> set (bw_channel r)"
    using assms(1,2) True by (fastforce simp: request_shares_ok_def share_ok_def)
  then have "\<forall>r\<in>set rs. count_list (take 5 (bw_channel r)) c = 0"
    by (meson count_list_0_iff in_set_takeD)
  then have "taken ch rs c = 0"
    unfolding taken_def by (induction rs) auto
  with assms(4) show ?thesis by simp
next
  case False
  have "0 \<le> weight rs c" using assms(1) unfolding weight_def
    by (intro sum_list_nonneg) (auto simp: request_ok_def)
  with False assms(3) have pos: "0 < tmp (ch c)" by simp
  have "taken ch rs c * tmp (ch c) \<le> distribute_quota (ch c) * weight rs c"
    using assms(1)
  proof (induction rs)
    case (Cons r rs)
    with round_share_channel [of r ch c] assms(2) show ?case
      by (simp add: taken_def weight_def distrib_left distrib_right)
  qed (simp add: taken_def weight_def)
  with assms(3) pos show ?thesis by simp
qed

abbreviation after_round :: "chan_store \<Rightarrow> bw_request \<Rightarrow> bw_request" where
  "after_round ch r \<equiv> r\<lparr>bw_ttl := bw_ttl r - 1, assigned := assigned r + round_share ch r\<rparr>"

abbreviation channels_after :: "chan_store \<Rightarrow> bw_request \<Rightarrow> chan_store" where
  "channels_after ch r \<equiv> use_channels ch (take 5 (bw_channel r)) (round_share ch r)"

lemma assign_round_ConsE:
  assumes "assign_round (r # rs) ch queued = (kept, out, ch', queued')"
  obtains (answered) out1 where "request_done (after_round ch r)" "out = after_round ch r # out1"
      "assign_round rs (channels_after ch r) (queued - open_bytes r) = (kept, out1, ch', queued')"
    | (waiting) kept1 where "\<not> request_done (after_round ch r)" "kept = after_round ch r # kept1"
      "assign_round rs (channels_after ch r) (queued - round_share ch r) = (kept1, out, ch', queued')"
  using assms by (cases "request_done (after_round ch r)") (auto simp: assign_bandwidth_eq split: prod.splits)

lemma assign_round_channels:
  assumes "assign_round rs ch queued = (kept, out, ch', queued')"
  shows "same_shares ch ch' \<and> m_quota_left (ch' c) =
    m_quota_left (ch c) - (if m_limit (ch c) = 0 then 0 else taken ch rs c)"
  using assms
proof (induction rs arbitrary: ch queued kept out)
  case Nil
  then show ?case by (simp add: taken_def)
next
  case (Cons r rs)
  let ?ch1 = "channels_after ch r"
  have "same_shares ?ch1 ch' \<and> m_quota_left (ch' c) =
      m_quota_left (?ch1 c) - (if m_limit (?ch1 c) = 0 then 0 else taken ?ch1 rs c)"
    using Cons.prems by (rule assign_round_ConsE) (rule Cons.IH, assumption)+
  moreover have "taken ?ch1 rs c = taken ch rs c"
    by (rule same_shares_taken) simp
  moreover have "same_shares ?ch1 ch' \<Longrightarrow> same_shares ch ch'"
    by (simp add: same_shares_def use_channels_eq)
  ultimately show ?case
    by (auto simp: use_channels_eq taken_def)
qed

lemma assign_round_inv:
  assumes "assign_round rs ch queued = (kept, out, ch', queued')"
    and "\<forall>r\<in>set rs. request_ok r \<and> request_shares_ok ch r"
  shows "queued' = queued - sum_list (map open_bytes rs) + sum_list (map open_bytes kept)
    \<and> (\<forall>r\<in>set kept. request_ok r) \<and> (\<forall>r\<in>set out. 0 < assigned r \<and> assigned r \<le> request_size r)"
  using assms
proof (induction rs arbitrary: ch queued kept out)
  case Nil
  then show ?case by simp
next
  case (Cons r rs)
  have q: "0 \<le> round_share ch r" "round_share ch r \<le> open_bytes r"
    using round_share_bounds Cons.prems(2) by auto
  have ok: "\<forall>r\<in>set rs. request_ok r \<and> request_shares_ok (channels_after ch r') r" for r'
    using Cons.prems(2) same_shares_request [OF same_shares_use] by simp
  have r: "request_ok r" using Cons.prems(2) by simp
  from Cons.prems(1) show ?case
  proof (cases rule: assign_round_ConsE)
    case (answered out1)
    with q r have "0 < assigned (after_round ch r) \<and> assigned (after_round ch r) \<le> request_size r"
      by (auto simp: request_done_def request_ok_def)
    with Cons.IH [OF answered(3) ok] answered(2) show ?thesis by simp
  next
    case (waiting kept1)
    with q r have "request_ok (after_round ch r)" by (auto simp: request_done_def request_ok_def)
    with Cons.IH [OF waiting(3) ok] waiting(2) show ?thesis by simp
  qed
qed

section \<open>The first three passes\<close>

lemma return_channels_eq:
  "return_channels ch cs q c =
     (if m_limit (ch c) = 0 then ch c
      else (ch c)\<lparr>m_quota_left := m_quota_left (ch c) + int (count_list cs c) * q\<rparr>)"
  by (induction cs arbitrary: ch) (auto simp: return_quota_def algebra_simps)

lemma reset_channels_eq:
  "reset_channels ch cs c = (if c \<in> set cs then (ch c)\<lparr>tmp := 0\<rparr> else ch c)"
  by (induction cs arbitrary: ch) auto

definition in_use :: "bw_request list \<Rightarrow> nat set" where
  "in_use rs = (\<Union>r\<in>set rs. set (bw_channel r))"

lemma drop_disconnecting_ConsE:
  assumes "drop_disconnecting disc (r # rs) ch queued = (kept, gone, ch', queued')"
  obtains (gone) gone1 where "disc (bw_peer r)" "gone = r\<lparr>assigned := 0\<rparr> # gone1"
      "drop_disconnecting disc rs (return_channels ch (bw_channel r) (assigned r))
         (queued - open_bytes r) = (kept, gone1, ch', queued')"
    | (kept) kept1 where "\<not> disc (bw_peer r)" "kept = r # kept1"
      "drop_disconnecting disc rs (reset_channels ch (bw_channel r)) queued = (kept1, gone, ch', queued')"
  using assms by (cases "disc (bw_peer r)") (auto split: prod.splits)

lemma drop_disconnecting_queue:
  assumes "drop_disconnecting disc rs ch queued = (kept, gone, ch', queued')"
  shows "kept = filter (\<lambda>r. \<not> disc (bw_peer r)) rs
    \<and> gone = map (\<lambda>r. r\<lparr>assigned := 0\<rparr>) (filter (\<lambda>r. disc (bw_peer r)) rs)
    \<and> queued' - sum_list (map open_bytes kept) = queued - sum_list (map open_bytes rs)"
  using assms
proof (induction rs arbitrary: ch queued kept gone)
  case (Cons r rs)
  from Cons.prems show ?case
    by (rule drop_disconnecting_ConsE) (use Cons.IH in \<open>fastforce+\<close>)
qed simp

lemma drop_disconnecting_channels:
  assumes "drop_disconnecting disc rs ch queued = (kept, gone, ch', queued')"
    and "\<forall>r\<in>set rs. request_ok r"
  shows "m_limit (ch' c) = m_limit (ch c) \<and> m_quota_left (ch c) \<le> m_quota_left (ch' c)
    \<and> (c \<in> in_use kept \<or> tmp (ch c) = 0 \<longrightarrow> tmp (ch' c) = 0)"
  using assms
proof (induction rs arbitrary: ch queued kept gone)
  case Nil
  then show ?case by (auto simp: in_use_def)
next
  case (Cons r rs)
  from Cons.prems(1) show ?case
  proof (cases rule: drop_disconnecting_ConsE)
    case (gone gone1)
    let ?ch1 = "return_channels ch (bw_channel r) (assigned r)"
    have "m_limit (?ch1 c) = m_limit (ch c)" "tmp (?ch1 c) = tmp (ch c)"
      "m_quota_left (ch c) \<le> m_quota_left (?ch1 c)"
      using Cons.prems(2) by (auto simp: return_channels_eq request_ok_def)
    with Cons.IH [OF gone(3)] Cons.prems(2) show ?thesis by auto
  next
    case (kept kept1)
    with Cons.IH [OF kept(3)] Cons.prems(2) show ?thesis
      by (auto simp: reset_channels_eq in_use_def split: if_splits)
  qed
qed

lemma add_priority_tmp:
  "add_priority ch cs prio channels = (ch', channels') \<Longrightarrow>
     ch' c = (ch c)\<lparr>tmp := tmp (ch c) + prio * int (count_list cs c)\<rparr>"
  by (induction ch cs prio channels arbitrary: ch' channels' rule: add_priority.induct)
    (auto simp: algebra_simps simp del: fun_upd_apply, auto simp: algebra_simps)

lemma add_priority_mono:
  "add_priority ch cs prio channels = (ch', channels') \<Longrightarrow> set channels \<subseteq> set channels'"
  by (induction ch cs prio channels arbitrary: ch' channels' rule: add_priority.induct)
    (fastforce split: if_splits)+

lemma add_priority_in_use:
  assumes "add_priority ch cs prio channels = (ch', channels')"
    and "0 < prio" and "0 \<le> tmp (ch c)" and "tmp (ch c) = 0 \<or> c \<in> set channels" and "c \<in> set cs"
  shows "c \<in> set channels'"
  using assms
proof (induction ch cs prio channels arbitrary: ch' channels' rule: add_priority.induct)
  case (2 ch d cs prio channels)
  show ?case
  proof (cases "c = d")
    case True
    have "set (if tmp (ch d) = 0 then channels @ [d] else channels) \<subseteq> set channels'"
      by (rule add_priority_mono) (use "2.prems"(1) in simp)
    moreover have "c \<in> set (if tmp (ch d) = 0 then channels @ [d] else channels)"
      using "2.prems"(4) True by auto
    ultimately show ?thesis by blast
  next
    case False
    show ?thesis
      by (rule "2.IH" [of ch' channels']) (use "2.prems" False in \<open>auto simp: fun_upd_def\<close>)
  qed
qed simp

lemma collect_channels_weight:
  assumes "collect_channels rs ch channels = (ch', channels')"
    and "\<forall>r\<in>set rs. 0 < bw_priority r"
  shows "ch' c = (ch c)\<lparr>tmp := tmp (ch c) + weight rs c\<rparr> \<and> set channels \<subseteq> set channels'
    \<and> (0 \<le> tmp (ch c) \<and> (tmp (ch c) = 0 \<or> c \<in> set channels) \<and> c \<in> in_use rs \<longrightarrow> c \<in> set channels')"
  using assms
proof (induction rs arbitrary: ch channels)
  case Nil
  then show ?case by (simp add: weight_def in_use_def)
next
  case (Cons r rs)
  obtain ch1 channels1 where ap: "add_priority ch (bw_channel r) (bw_priority r) channels = (ch1, channels1)"
    by force
  with Cons.prems have rec: "collect_channels rs ch1 channels1 = (ch', channels')" by simp
  note IH = Cons.IH [OF rec]
  have prio: "0 < bw_priority r" using Cons.prems by simp
  have t: "ch1 c = (ch c)\<lparr>tmp := tmp (ch c) + bw_priority r * int (count_list (bw_channel r) c)\<rparr>"
    using ap by (rule add_priority_tmp)
  have mono: "set channels \<subseteq> set channels1" using ap by (rule add_priority_mono)
  have use: "c \<in> set (bw_channel r) \<Longrightarrow> 0 \<le> tmp (ch c) \<Longrightarrow> tmp (ch c) = 0 \<or> c \<in> set channels \<Longrightarrow>
      c \<in> set channels1"
    using add_priority_in_use [OF ap prio] by blast
  have zero: "c \<notin> set (bw_channel r) \<Longrightarrow> tmp (ch1 c) = tmp (ch c)"
    by (simp add: t count_list_0_iff)
  show ?case
  proof (intro conjI impI)
    show "ch' c = (ch c)\<lparr>tmp := tmp (ch c) + weight (r # rs) c\<rparr>"
      using IH Cons.prems(2) by (simp add: t weight_def)
    show "set channels \<subseteq> set channels'" using IH Cons.prems(2) mono by auto
    assume "0 \<le> tmp (ch c) \<and> (tmp (ch c) = 0 \<or> c \<in> set channels) \<and> c \<in> in_use (r # rs)"
    then show "c \<in> set channels'"
      using IH Cons.prems(2) mono use zero by (cases "c \<in> set (bw_channel r)") (auto simp: in_use_def)
  qed
qed

lemma update_channels_eq:
  assumes "chan_ok (ch c)" and "0 \<le> dt"
  shows "m_limit (update_channels dt cs ch c) = m_limit (ch c) \<and>
    tmp (update_channels dt cs ch c) = tmp (ch c) \<and>
    (0 \<le> m_quota_left (ch c) \<longrightarrow> 0 \<le> m_quota_left (update_channels dt cs ch c)) \<and>
    ((c \<in> set cs \<or> distribute_quota (ch c) = max (m_quota_left (ch c)) 0 \<and> m_quota_left (ch c) \<le> inf)
       \<longrightarrow> m_limit (ch c) \<noteq> 0 \<longrightarrow>
       distribute_quota (update_channels dt cs ch c) = max (m_quota_left (update_channels dt cs ch c)) 0 \<and>
       m_quota_left (update_channels dt cs ch c) \<le> inf)"
  using assms(1)
proof (induction cs arbitrary: ch)
  case (Cons d cs)
  define ch1 where "ch1 = ch(d := update_quota dt (ch d))"
  have ch1: "ch1 c = (if c = d then update_quota dt (ch c) else ch c)" by (simp add: ch1_def)
  have rec: "update_channels dt (d # cs) ch = update_channels dt cs ch1" by (simp add: ch1_def)
  have "chan_ok (ch1 c)" using Cons.prems by (auto simp: ch1 chan_ok_def)
  note IH = Cons.IH [where ch = ch1, OF this]
  show ?case
    unfolding rec
  proof (cases "c = d")
    case True
    then have ch1c: "ch1 c = update_quota dt (ch c)" by (simp add: ch1_def)
    have "m_limit (ch1 c) = m_limit (ch c)" "tmp (ch1 c) = tmp (ch c)"
      "0 \<le> m_quota_left (ch c) \<longrightarrow> 0 \<le> m_quota_left (ch1 c)"
      "m_limit (ch c) \<noteq> 0 \<Longrightarrow> distribute_quota (ch1 c) = max (m_quota_left (ch1 c)) 0"
      "m_limit (ch c) \<noteq> 0 \<Longrightarrow> m_quota_left (ch1 c) \<le> inf"
      using update_quota_nonneg [OF Cons.prems assms(2)] update_quota_bounds [of "ch c" dt]
      by (simp_all add: ch1c)
    with IH True show "m_limit (update_channels dt cs ch1 c) = m_limit (ch c) \<and>
      tmp (update_channels dt cs ch1 c) = tmp (ch c) \<and>
      (0 \<le> m_quota_left (ch c) \<longrightarrow> 0 \<le> m_quota_left (update_channels dt cs ch1 c)) \<and>
      ((c \<in> set (d # cs) \<or> distribute_quota (ch c) = max (m_quota_left (ch c)) 0 \<and> m_quota_left (ch c) \<le> inf)
       \<longrightarrow> m_limit (ch c) \<noteq> 0 \<longrightarrow>
       distribute_quota (update_channels dt cs ch1 c) = max (m_quota_left (update_channels dt cs ch1 c)) 0 \<and>
       m_quota_left (update_channels dt cs ch1 c) \<le> inf)" by simp
  qed (use IH ch1 in simp)
qed simp

section \<open>A whole round\<close>

lemma weight_ge:
  assumes "r \<in> set rs" and "c \<in> set (bw_channel r)" and "\<forall>r\<in>set rs. 0 < bw_priority r"
  shows "bw_priority r \<le> weight rs c"
proof -
  have "bw_priority r * 1 \<le> bw_priority r * int (count_list (bw_channel r) c)"
    using assms count_list_0_iff [of "bw_channel r" c]
    by (intro mult_left_mono) (auto simp: less_imp_le Suc_leI)
  also have "\<dots> \<le> weight rs c"
    unfolding weight_def using assms
    by (intro member_le_sum_list) (auto simp: less_imp_le)
  finally show ?thesis by simp
qed

text \<open>The intermediate values of a round over a non-empty queue, with the facts the properties need.\<close>

lemma update_quotas_round:
  assumes inv: "bw_inv m" and ch: "\<forall>c. chan_ok (ch c)" and dt: "0 \<le> dt"
    and run: "\<not> m_abort m" "m_queue m \<noteq> []"
    and eq: "update_quotas disc dt ch m = (calls, ch3, m')"
  obtains kept ch2 out queued1 where
    "\<forall>r\<in>set kept. request_ok r \<and> request_shares_ok ch2 r"
    "queued1 = sum_list (map open_bytes kept)"
    "assign_round kept ch2 queued1 = (m_queue m', out, ch3, m_queued_bytes m')"
    "\<And>c. m_limit (ch c) \<noteq> 0 \<Longrightarrow> c \<in> in_use kept \<Longrightarrow>
       tmp (ch2 c) = weight kept c \<and> distribute_quota (ch2 c) = max (m_quota_left (ch2 c)) 0"
    "\<And>c. m_limit (ch2 c) = m_limit (ch c) \<and> (0 \<le> m_quota_left (ch c) \<longrightarrow> 0 \<le> m_quota_left (ch2 c))"
    "kept = filter (\<lambda>r. \<not> disc (bw_peer r)) (m_queue m)"
proof -
  let ?dt = "if dt > 3000 then 3000 else dt"
  obtain kept gone ch1 queued1 where d: "drop_disconnecting disc (m_queue m) ch (m_queued_bytes m) = (kept, gone, ch1, queued1)"
    by (metis prod_cases4)
  obtain ch1' channels where c: "collect_channels kept ch1 [] = (ch1', channels)" by force
  let ?ch2 = "update_channels ?dt channels ch1'"
  obtain kept' out ch3' queued2 where a: "assign_round kept ?ch2 queued1 = (kept', out, ch3', queued2)"
    by (metis prod_cases4)
  have res: "ch3 = ch3'" "m_queue m' = kept'" "m_queued_bytes m' = queued2"
    using eq run d c a by (auto simp: update_quotas_def Let_def)
  have ok: "\<forall>r\<in>set (m_queue m). request_ok r" using inv by (simp add: bw_inv_def)
  have kept: "kept = filter (\<lambda>r. \<not> disc (bw_peer r)) (m_queue m)"
    and q1: "queued1 = sum_list (map open_bytes kept)"
    using drop_disconnecting_queue [OF d] inv by (simp_all add: bw_inv_def)
  have prio: "\<forall>r\<in>set kept. 0 < bw_priority r" using ok by (auto simp: kept request_ok_def)
  note D = drop_disconnecting_channels [OF d ok] and W = collect_channels_weight [OF c prio]
  have lim1: "m_limit (ch1' c) = m_limit (ch c)" and left1: "m_quota_left (ch c) \<le> m_quota_left (ch1' c)" for c
    using D [of c] W [of c] by simp_all
  have cok: "chan_ok (ch1' c)" for c using ch lim1 by (simp add: chan_ok_def)
  have "0 \<le> ?dt" using dt by simp
  note U0 = update_channels_eq [where ch = ch1' and cs = channels, OF cok this]
  have U: "m_limit (?ch2 c) = m_limit (ch c) \<and> tmp (?ch2 c) = tmp (ch1' c) \<and>
      (0 \<le> m_quota_left (ch c) \<longrightarrow> 0 \<le> m_quota_left (?ch2 c))" for c
    using U0 [of c] lim1 [of c] left1 [of c] by auto
  have used: "tmp (?ch2 c) = weight kept c \<and> distribute_quota (?ch2 c) = max (m_quota_left (?ch2 c)) 0
      \<and> m_quota_left (?ch2 c) \<le> inf" if "m_limit (ch c) \<noteq> 0" "c \<in> in_use kept" for c
    using U0 [of c] lim1 [of c] D [of c] W [of c] that by auto
  have shares: "\<forall>r\<in>set kept. request_ok r \<and> request_shares_ok ?ch2 r"
  proof
    fix r assume r: "r \<in> set kept"
    have "share_ok ?ch2 (bw_priority r) c" if "c \<in> set (bw_channel r)" "m_limit (ch c) \<noteq> 0" for c
    proof -
      have "c \<in> in_use kept" using r that by (auto simp: in_use_def)
      with used that have "tmp (?ch2 c) = weight kept c" "0 \<le> distribute_quota (?ch2 c)"
        "distribute_quota (?ch2 c) \<le> inf" by auto
      moreover have "bw_priority r \<le> weight kept c"
        using weight_ge [OF r that(1)] prio by simp
      ultimately show ?thesis using r prio by (simp add: share_ok_def)
    qed
    then have "request_shares_ok ?ch2 r"
      using U by (auto simp: request_shares_ok_def share_ok_def)
    then show "request_ok r \<and> request_shares_ok ?ch2 r" using ok r by (simp add: kept)
  qed
  show ?thesis
    by (rule that [of kept ?ch2 queued1 out]) (use shares q1 a res used U kept in \<open>simp_all\<close>)
qed

section \<open>The manager as a machine\<close>

lemma pick_channels_ok:
  assumes "pick_channels ch cs blk ks = Inr (ch', ks')" and "length ks \<le> max_bandwidth_channels"
  shows "length ks' \<le> max_bandwidth_channels \<and> (\<forall>c. m_limit (ch' c) = m_limit (ch c))"
  using assms
proof (induction cs arbitrary: ch ks)
  case (Cons c cs)
  obtain q chan where nq: "need_queueing blk (ch c) = (q, chan)" by force
  then have lim: "m_limit chan = m_limit (ch c)" by (auto simp: need_queueing_def split: if_splits)
  define ch1 where "ch1 = ch(c := chan)"
  have "\<forall>d. m_limit (ch1 d) = m_limit (ch d)" by (simp add: ch1_def lim)
  moreover have "\<exists>ks1. length ks1 \<le> max_bandwidth_channels \<and> pick_channels ch1 cs blk ks1 = Inr (ch', ks')"
    using Cons.prems nq
    by (cases q) (auto simp: Let_def ch1_def split: if_splits intro: exI [of _ ks] exI [of _ "ks @ [c]"])
  ultimately show ?case using Cons.IH [of ch1] by auto
qed auto

inductive bw_step :: "chan_store \<times> bandwidth_manager \<Rightarrow> chan_store \<times> bandwidth_manager \<Rightarrow> bool" where
  request: "0 < blk \<Longrightarrow> 0 < prio \<Longrightarrow> request_bandwidth ch m pe blk prio chan = Inr (ret, ch', m') \<Longrightarrow>
     bw_step (ch, m) (ch', m')"
| round: "0 \<le> dt \<Longrightarrow> update_quotas disc dt ch m = (calls, ch', m') \<Longrightarrow> bw_step (ch, m) (ch', m')"
| closing: "bw_close m = (calls, m') \<Longrightarrow> bw_step (ch, m) (ch, m')"
| limit: "0 \<le> l \<Longrightarrow> l < inf \<Longrightarrow> bw_step (ch, m) (ch(c := throttle l (ch c)), m)"

definition bw_start :: "chan_store \<times> bandwidth_manager \<Rightarrow> bool" where
  "bw_start s \<longleftrightarrow> (\<exists>n. s = (\<lambda>_. new_channel, new_manager n))"

definition bw_sys_inv :: "chan_store \<times> bandwidth_manager \<Rightarrow> bool" where
  "bw_sys_inv s \<longleftrightarrow> (\<forall>c. chan_ok (fst s c)) \<and> bw_inv (snd s)"

lemma request_bandwidth_inv:
  assumes "bw_sys_inv (ch, m)" and "0 < blk" and "0 < prio"
    and "request_bandwidth ch m pe blk prio chan = Inr (ret, ch', m')"
  shows "bw_sys_inv (ch', m')"
proof -
  have "\<forall>c. m_limit (ch' c) = m_limit (ch c)"
    using assms(4) pick_channels_ok [of ch chan blk "[]"]
    by (auto simp: request_bandwidth_def split: if_splits sum.splits)
  moreover have "bw_inv m'"
    using assms pick_channels_ok [of ch chan blk "[]"]
    by (auto simp: request_bandwidth_def bw_sys_inv_def bw_inv_def request_ok_def new_request_def
        split: if_splits sum.splits)
  ultimately show ?thesis using assms(1) by (simp add: bw_sys_inv_def chan_ok_def)
qed

lemma update_quotas_idle:
  "m_abort m \<or> m_queue m = [] \<Longrightarrow> update_quotas disc dt ch m = ([], ch, m)"
  by (auto simp: update_quotas_def)

lemma update_quotas_inv:
  assumes inv: "bw_sys_inv (ch, m)" and dt: "0 \<le> dt"
    and eq: "update_quotas disc dt ch m = (calls, ch', m')"
  shows "bw_sys_inv (ch', m')"
proof (cases "m_abort m \<or> m_queue m = []")
  case True
  with inv eq show ?thesis by (simp add: update_quotas_idle)
next
  case False
  have bi: "bw_inv m" and co: "\<forall>c. chan_ok (ch c)" using inv by (auto simp: bw_sys_inv_def)
  from False have run: "\<not> m_abort m" "m_queue m \<noteq> []" by auto
  obtain kept ch2 out queued1 where r:
    "\<forall>r\<in>set kept. request_ok r \<and> request_shares_ok ch2 r"
    "queued1 = sum_list (map open_bytes kept)"
    "assign_round kept ch2 queued1 = (m_queue m', out, ch', m_queued_bytes m')"
    "\<And>c. m_limit (ch c) \<noteq> 0 \<Longrightarrow> c \<in> in_use kept \<Longrightarrow>
       tmp (ch2 c) = weight kept c \<and> distribute_quota (ch2 c) = max (m_quota_left (ch2 c)) 0"
    "\<And>c. m_limit (ch2 c) = m_limit (ch c) \<and> (0 \<le> m_quota_left (ch c) \<longrightarrow> 0 \<le> m_quota_left (ch2 c))"
    "kept = filter (\<lambda>r. \<not> disc (bw_peer r)) (m_queue m)"
    by (rule update_quotas_round [OF bi co dt run eq]) (rule that, assumption+)
  have "bw_inv m'" using assign_round_inv [OF r(3,1)] r(2) by (simp add: bw_inv_def)
  moreover have "m_limit (ch' c) = m_limit (ch c)" for c
    using assign_round_channels [OF r(3), of c] r(5) [of c] by (simp add: same_shares_def)
  ultimately show ?thesis using co by (simp add: bw_sys_inv_def chan_ok_def)
qed

lemma bw_step_inv: "bw_step s t \<Longrightarrow> bw_sys_inv s \<Longrightarrow> bw_sys_inv t"
proof (induction rule: bw_step.induct)
  case (closing m calls m' ch)
  then show ?case by (auto simp: bw_close_def bw_sys_inv_def bw_inv_def)
next
  case (limit l ch m c)
  then show ?case by (auto simp: bw_sys_inv_def chan_ok_def throttle_def)
qed (blast intro: request_bandwidth_inv update_quotas_inv)+

lemma bw_start_inv: "bw_start s \<Longrightarrow> bw_sys_inv s"
  by (auto simp: bw_start_def bw_sys_inv_def bw_inv_def chan_ok_def new_manager_def new_channel_def)

interpretation bw_machine: invariant_system bw_start bw_step bw_sys_inv
  by unfold_locales (blast intro: bw_step_inv bw_start_inv)+

section \<open>Properties\<close>

text \<open>
  C24: in every state the limiter reaches, through requests, rounds, limit changes and closing, the
  counter of queued bytes is the sum of what the queued requests still wait for, and every queued
  request is for more than it has been assigned, with at most ten channels.
\<close>

theorem bw_queued_bytes_exact:
  assumes "reach bw_start bw_step (ch, m)"
  shows "m_queued_bytes m = sum_list (map open_bytes (m_queue m)) \<and> (\<forall>r\<in>set (m_queue m). request_ok r)"
  using bw_machine.inv_reach [OF assms] by (simp add: bw_sys_inv_def bw_inv_def)

text \<open>
  C11: a round never overdraws a limited channel. If the channel had a non-negative quota before the
  round, it has one afterwards: all requests together take no more through it than it
  distributes, however many requests and channels there are.
\<close>

theorem bw_no_overdraft:
  assumes reach: "reach bw_start bw_step (ch, m)" and dt: "0 \<le> dt"
    and eq: "update_quotas disc dt ch m = (calls, ch', m')"
    and c: "m_limit (ch c) \<noteq> 0" "0 \<le> m_quota_left (ch c)"
  shows "0 \<le> m_quota_left (ch' c)"
proof (cases "m_abort m \<or> m_queue m = []")
  case True
  with eq c show ?thesis by (simp add: update_quotas_idle)
next
  case False
  have bi: "bw_inv m" and co: "\<forall>c. chan_ok (ch c)"
    using bw_machine.inv_reach [OF reach] by (auto simp: bw_sys_inv_def)
  from False have run: "\<not> m_abort m" "m_queue m \<noteq> []" by auto
  obtain kept ch2 out queued1 where r:
    "\<forall>r\<in>set kept. request_ok r \<and> request_shares_ok ch2 r"
    "queued1 = sum_list (map open_bytes kept)"
    "assign_round kept ch2 queued1 = (m_queue m', out, ch', m_queued_bytes m')"
    "\<And>c. m_limit (ch c) \<noteq> 0 \<Longrightarrow> c \<in> in_use kept \<Longrightarrow>
       tmp (ch2 c) = weight kept c \<and> distribute_quota (ch2 c) = max (m_quota_left (ch2 c)) 0"
    "\<And>c. m_limit (ch2 c) = m_limit (ch c) \<and> (0 \<le> m_quota_left (ch c) \<longrightarrow> 0 \<le> m_quota_left (ch2 c))"
    "kept = filter (\<lambda>r. \<not> disc (bw_peer r)) (m_queue m)"
    by (rule update_quotas_round [OF bi co dt run eq]) (rule that, assumption+)
  have left: "m_quota_left (ch' c) = m_quota_left (ch2 c) - taken ch2 kept c"
    using assign_round_channels [OF r(3), of c] r(5) [of c] c by simp
  show ?thesis
  proof (cases "c \<in> in_use kept")
    case True
    with r(4) [OF c(1)] r(5) [of c] taken_le_quota [OF r(1), of c] c left show ?thesis by simp
  next
    case False
    then have "\<forall>r\<in>set kept. c \<notin> set (take 5 (bw_channel r))"
      by (auto simp: in_use_def dest: in_set_takeD)
    then have "taken ch2 kept c = 0"
      unfolding taken_def by (induction kept) (auto simp: count_list_0_iff)
    with left r(5) [of c] c show ?thesis by simp
  qed
qed

abbreviation must_queue :: "chan_store \<Rightarrow> int \<Rightarrow> nat \<Rightarrow> bool" where
  "must_queue ch blk c \<equiv> m_quota_left (ch c) - blk < m_limit (ch c)"

lemma pick_channels_overflow:
  "distinct cs \<Longrightarrow> pick_channels ch cs blk ks = Inl channel_overflow \<longleftrightarrow>
     filter (must_queue ch blk) cs \<noteq> [] \<and>
     max_bandwidth_channels < length ks + length (filter (must_queue ch blk) cs)"
proof (induction cs arbitrary: ch ks)
  case (Cons c cs)
  define ch1 where "ch1 = (if must_queue ch blk c then ch
    else ch(c := (ch c)\<lparr>m_quota_left := m_quota_left (ch c) - blk\<rparr>))"
  have "filter (must_queue ch1 blk) cs = filter (must_queue ch blk) cs"
    using Cons.prems by (intro filter_cong) (auto simp: ch1_def)
  with Cons.IH [of ch1 ks] Cons.IH [of ch1 "ks @ [c]"] Cons.prems show ?case
    by (auto simp: need_queueing_def ch1_def Let_def)
qed simp

text \<open>
  C31: a request is refused only by running past the request's array of channels: this happens exactly
  when more than ten of the caller's channels cannot serve it at once. Every other request is
  answered with the whole size or queued.
\<close>

theorem request_bandwidth_overflow:
  assumes "distinct chan"
  shows "request_bandwidth ch m pe blk prio chan = Inl channel_overflow \<longleftrightarrow>
    \<not> m_abort m \<and> max_bandwidth_channels < length (filter (must_queue ch blk) chan)"
  using pick_channels_overflow [OF assms, of ch blk "[]"]
  by (auto simp: request_bandwidth_def split: sum.splits)

lemma limit_quota_other: "c \<notin> set cs \<Longrightarrow> limit_quota (ch(c := x)) prio cs quota = limit_quota ch prio cs quota"
  by (induction cs arbitrary: quota) auto

lemma use_channels_other: "c \<notin> set cs \<Longrightarrow> use_channels (ch(c := x)) cs q = (use_channels ch cs q)(c := x)"
  by (rule ext) (auto simp: use_channels_eq count_list_0_iff)

text \<open>
  C32: a request of more than five channels. A channel behind the fifth does not limit the request and is not charged:
  whatever state the channel is in, \<open>assign_bandwidth\<close> gives the same bytes to the request, leaves that channel as it was and
  does the same to the others. But when the peer disconnects before the request is done, the next \<open>update_quotas\<close>
  returns the assigned bytes to all of its channels: that channel ends up with more quota than it had, by exactly those bytes.
\<close>

theorem sixth_channel_gains_quota:
  assumes "c \<in> set (drop 5 (bw_channel r))" and "distinct (bw_channel r)" and "m_limit (ch c) \<noteq> 0" and "assigned r = 0"
    and "assign_bandwidth ch r = (a, ch', r')"
    and "m_queue m = [r']" and "\<not> m_abort m" and "disc (bw_peer r')"
  shows "ch' c = ch c \<and> (\<forall>x. assign_bandwidth (ch(c := x)) r = (a, ch'(c := x), r'))
    \<and> m_quota_left (fst (snd (update_quotas disc dt ch' m)) c) = m_quota_left (ch c) + a"
proof -
  let ?cs = "take 5 (bw_channel r)"
  have c: "c \<notin> set ?cs" "c \<in> set (bw_channel r)" using assms(1,2) set_take_disj_set_drop_if_distinct [of "bw_channel r" 5 5]
    by (auto dest: in_set_dropD)
  have same: "round_share (ch(c := x)) r = round_share ch r" for x using c(1) by (simp add: round_share_def limit_quota_other)
  have r: "a = round_share ch r" "ch' = use_channels ch ?cs a" "bw_channel r' = bw_channel r" "assigned r' = a"
    using assms(4,5) by (auto simp: assign_bandwidth_eq)
  have "ch' c = ch c" using c(1) by (simp add: r(2) use_channels_eq)
  moreover have "assign_bandwidth (ch(c := x)) r = (a, ch'(c := x), r')" for x
    using assms(5) same [of x] use_channels_other [OF c(1), of ch x a] r by (simp add: assign_bandwidth_eq)
  moreover have "fst (snd (update_quotas disc dt ch' m)) = return_channels ch' (bw_channel r) a"
    using assms(6-8) r by (simp add: update_quotas_def)
  moreover have "count_list (bw_channel r) c = 1" 
    using c(2) assms(2) by (metis count_mset distinct_count_atmost_1 set_mset_mset)
  ultimately show ?thesis using assms(3) by (simp add: return_channels_eq)
qed

text \<open>A run for the witnesses: one channel limited to 1000 bytes per second, one queued request.\<close>

definition demo_channels :: chan_store where
  "demo_channels = (\<lambda>_. new_channel)(0 := throttle 1000 new_channel)"

definition demo_manager :: bandwidth_manager where
  "demo_manager = (new_manager 0)\<lparr>m_queued_bytes := 500,
     m_queue := [(new_request 7 500 1)\<lparr>bw_channel := [0]\<rparr>]\<rparr>"

lemma demo_request:
  "request_bandwidth demo_channels (new_manager 0) 7 500 1 [0] = Inr (0, demo_channels, demo_manager)"
  by (simp add: request_bandwidth_def need_queueing_def demo_channels_def new_channel_def throttle_def
      new_manager_def demo_manager_def Let_def)

lemma demo_bw_reach: "reach bw_start bw_step (demo_channels, demo_manager)"
proof -
  have "reach bw_start bw_step (\<lambda>_. new_channel, new_manager 0)"
    by (rule reach_start) (auto simp: bw_start_def)
  moreover have "bw_step (\<lambda>_. new_channel, new_manager 0) (demo_channels, new_manager 0)"
    unfolding demo_channels_def by (rule bw_step.limit) auto
  ultimately have "reach bw_start bw_step (demo_channels, new_manager 0)" by (rule reach_step)
  moreover have "bw_step (demo_channels, new_manager 0) (demo_channels, demo_manager)"
    by (rule bw_step.request [OF _ _ demo_request]) auto
  ultimately show ?thesis by (rule reach_step)
qed

theorem bw_queued_bytes_exact_witness:
  "m_queued_bytes demo_manager = 500 \<and> sum_list (map open_bytes (m_queue demo_manager)) = 500"
  using bw_queued_bytes_exact [OF demo_bw_reach] by (simp add: demo_manager_def)

theorem bw_no_overdraft_witness:
  "\<exists>calls ch' m'. update_quotas (\<lambda>_. False) 1000 demo_channels demo_manager = (calls, ch', m') \<and>
     calls = [(7, 500)] \<and> 0 \<le> m_quota_left (ch' 0) \<and> m_quota_left (ch' 0) = 500"
proof -
  obtain calls ch' m' where eq: "update_quotas (\<lambda>_. False) 1000 demo_channels demo_manager = (calls, ch', m')"
    by (metis prod_cases3)
  have c: "m_limit (demo_channels 0) \<noteq> 0" "0 \<le> m_quota_left (demo_channels 0)"
    by (simp_all add: demo_channels_def throttle_def new_channel_def)
  have "0 \<le> m_quota_left (ch' 0)" by (rule bw_no_overdraft [OF demo_bw_reach _ eq c]) simp
  moreover have "calls = [(7, 500)] \<and> m_quota_left (ch' 0) = 500"
    using eq
    by (simp add: update_quotas_def demo_channels_def demo_manager_def new_request_def new_manager_def
        throttle_def new_channel_def update_quota_def assign_bandwidth_def request_done_def use_quota_def
        Let_def) auto
  ultimately show ?thesis using eq by blast
qed

theorem request_bandwidth_overflow_witness:
  "distinct [0..<11] \<and>
   request_bandwidth (\<lambda>_. throttle 1000 new_channel) (new_manager 0) 7 500 1 [0..<11] = Inl channel_overflow"
  using request_bandwidth_overflow [of "[0..<11]" "\<lambda>_. throttle 1000 new_channel" "new_manager 0" 7 500 1]
  by (simp add: throttle_def new_channel_def new_manager_def)

definition demo_six :: bw_request where
  "demo_six = (new_request 7 500 1)\<lparr>bw_channel := [0, 1, 2, 3, 4, 5]\<rparr>"

definition demo_six_channels :: chan_store where
  "demo_six_channels = (\<lambda>_. \<lparr>tmp = 1, distribute_quota = 100, m_quota_left = 100, m_limit = 1000\<rparr>)"

definition demo_six_left :: "chan_store \<times> bw_request" where
  "demo_six_left = snd (assign_bandwidth demo_six_channels demo_six)"

text \<open>A request of 500 bytes over six channels that give it 100; then its peer disconnects.\<close>

theorem sixth_channel_gains_quota_witness:
  "fst demo_six_left 5 = demo_six_channels 5 \<and>
     m_quota_left (fst (snd (update_quotas (\<lambda>_. True) 0 (fst demo_six_left) ((new_manager 0)\<lparr>m_queue := [snd demo_six_left]\<rparr>))) 5) = 100 + 100"
proof -
  have ch: "5 \<in> set (drop 5 (bw_channel demo_six))" "distinct (bw_channel demo_six)"
    "m_limit (demo_six_channels 5) \<noteq> 0" "assigned demo_six = 0"
    by (simp_all add: demo_six_def new_request_def demo_six_channels_def)
  have eq: "assign_bandwidth demo_six_channels demo_six = (100, fst demo_six_left, snd demo_six_left)"
    by (simp add: demo_six_left_def assign_bandwidth_def demo_six_def new_request_def demo_six_channels_def Let_def)
  have "m_quota_left (demo_six_channels 5) = 100" by (simp add: demo_six_channels_def)
  with sixth_channel_gains_quota [OF ch eq, of "(new_manager 0)\<lparr>m_queue := [snd demo_six_left]\<rparr>" "\<lambda>_. True" 0]
  show ?thesis by (simp add: new_manager_def)
qed

end
