(* ===== verification/Bencode.thy ===== *)
theory Bencode
  imports Prelude "HOL-Library.List_Lexorder" "HOL-Library.Char_ord"
begin

text \<open>
  The data type \<open>entry\<close> (\<open>entry.hpp\<close>), its printing of integers (\<open>entry.cpp\<close>) and the encoder
  (\<open>bencode.hpp\<close>). A dictionary is a \<open>std::map\<close> keyed by strings: an association list in the order of
  the keys, which is the lexicographic order of the unsigned bytes.

  An encoder writes through an output iterator that appends and returns the number of bytes it claims to have
  written; the model returns both. The number is an \<open>int\<close>: sizes are converted to 32 bits and sums wrap around, so it is
  a 32 bit word that is read with \<open>sint\<close> (in C++ the overflow of a sum is undefined; it needs an encoding of \<open>2 ^ 31\<close> bytes).
  \<open>None\<close> is the one input on which the printing of an integer overflows: the negation of the least 64 bit integer.
\<close>

section \<open>Entries\<close>

datatype entry =
    Int_e int
  | String_e bytes
  | List_e "entry list"
  | Dict_e "(bytes \<times> entry) list"
  | Preformatted_e bytes
  | Undefined_e

abbreviation digit_char :: "int \<Rightarrow> char" where
  "digit_char d \<equiv> char_of (nat (48 + d))"

text \<open>
  The loop of \<open>integer_to_str\<close>: \<open>room\<close> is the distance of the write pointer from the first
  character the digits may use, \<open>acc\<close> what has been written behind it.
\<close>

fun write_digits :: "nat \<Rightarrow> int \<Rightarrow> bytes \<Rightarrow> bytes" where
  "write_digits room val acc =
     (if 0 < room \<and> val \<noteq> 0
      then write_digits (room - 1) (tdiv val 10) (digit_char (val - 10 * tdiv val 10) # acc)
      else acc)"

declare write_digits.simps [simp del]

text \<open>
  \<open>integer_to_str n val\<close> with a buffer of \<open>n\<close> characters. The last one holds the terminating zero, so
  the write pointer starts at index \<open>n - 2\<close>; the digits stop above index \<open>sign\<close>.
\<close>

definition integer_to_str :: "nat \<Rightarrow> int \<Rightarrow> bytes option" where
  "integer_to_str n val =
     (if val = int64_min then None
      else
        let sign = (if val < 0 then 1 else 0);
            v = \<bar>val\<bar>;
            zero = (if v = 0 then ''0'' else []);
            ptr = n - 2 - length zero;
            digits = write_digits (ptr - sign) v zero
        in Some (if val < 0 then CHR ''-'' # digits else digits))"

definition write_integer :: "int \<Rightarrow> (bytes \<times> i32) option" where
  "write_integer val =
     (case integer_to_str 21 val of None \<Rightarrow> None | Some str \<Rightarrow> Some (str, of_nat (length str)))"

section \<open>The encoder\<close>

definition write_string :: "bytes \<Rightarrow> bytes \<times> i32" where
  "write_string s = (s, of_nat (length s))"

fun bencode_recursive :: "entry \<Rightarrow> (bytes \<times> i32) option"
  and bencode_list :: "entry list \<Rightarrow> (bytes \<times> i32) option"
  and bencode_dict :: "(bytes \<times> entry) list \<Rightarrow> (bytes \<times> i32) option" where
  "bencode_recursive (Int_e v) =
     (case write_integer v of None \<Rightarrow> None
      | Some (b, n) \<Rightarrow> Some (''i'' @ b @ ''e'', n + 2))"
| "bencode_recursive (String_e s) =
     (case write_integer (int (length s)) of None \<Rightarrow> None
      | Some (b, n) \<Rightarrow> Some (b @ '':'' @ fst (write_string s), n + snd (write_string s) + 1))"
| "bencode_recursive (List_e es) =
     (case bencode_list es of None \<Rightarrow> None
      | Some (b, n) \<Rightarrow> Some (''l'' @ b @ ''e'', n + 2))"
| "bencode_recursive (Dict_e kvs) =
     (case bencode_dict kvs of None \<Rightarrow> None
      | Some (b, n) \<Rightarrow> Some (''d'' @ b @ ''e'', n + 2))"
| "bencode_recursive (Preformatted_e b) = Some (b, of_nat (length b))"
| "bencode_recursive Undefined_e = Some (''0:'', 2)"
| "bencode_list [] = Some ([], 0)"
| "bencode_list (e # es) =
     (case bencode_recursive e of None \<Rightarrow> None
      | Some (b, n) \<Rightarrow>
          (case bencode_list es of None \<Rightarrow> None
           | Some (b', n') \<Rightarrow> Some (b @ b', n + n')))"
| "bencode_dict [] = Some ([], 0)"
| "bencode_dict ((k, e) # kvs) =
     (case write_integer (int (length k)) of None \<Rightarrow> None
      | Some (kb, kn) \<Rightarrow>
          (case bencode_recursive e of None \<Rightarrow> None
           | Some (b, n) \<Rightarrow>
               (case bencode_dict kvs of None \<Rightarrow> None
                | Some (b', n') \<Rightarrow>
                    Some (kb @ '':'' @ fst (write_string k) @ b @ b',
                          kn + snd (write_string k) + n + 1 + n'))))"

definition bencode :: "entry \<Rightarrow> (bytes \<times> i32) option" where
  "bencode e = bencode_recursive e"

section \<open>Decimal numbers\<close>

text \<open>The decimal digits of a natural number, the reading of a digit string and the digit characters.\<close>

fun dec :: "nat \<Rightarrow> bytes" where
  "dec n = (if n < 10 then [char_of (48 + n)] else dec (n div 10) @ [char_of (48 + n mod 10)])"

declare dec.simps [simp del]

definition numeric :: "char \<Rightarrow> bool" where
  "numeric c \<longleftrightarrow> CHR ''0'' \<le> c \<and> c \<le> CHR ''9''"

lemma numeric_iff: "numeric c \<longleftrightarrow> 48 \<le> (of_char c :: nat) \<and> (of_char c :: nat) \<le> 57"
  by (simp add: numeric_def less_eq_char_def)

lemma numeric_digit [simp]: "d < 10 \<Longrightarrow> numeric (char_of (48 + d :: nat))"
  by (simp add: numeric_iff)

definition digit_val :: "char \<Rightarrow> int" where
  "digit_val c = int (of_char c) - 48"

lemma digit_val_digit [simp]: "d < 10 \<Longrightarrow> digit_val (char_of (48 + d :: nat)) = int d"
  by (simp add: digit_val_def)

lemma dec_numeric: "c \<in> set (dec n) \<Longrightarrow> numeric c"
proof (induction n rule: dec.induct)
  case (1 n)
  then show ?case by (cases "n < 10") (auto simp: dec.simps [of n])
qed

lemma dec_nonempty [simp]: "dec n \<noteq> []"
  by (simp add: dec.simps [of n])

lemma dec_length: "n < 10 ^ k \<Longrightarrow> 0 < k \<Longrightarrow> length (dec n) \<le> k"
proof (induction k arbitrary: n)
  case (Suc k)
  show ?case
  proof (cases "n < 10")
    case False
    with Suc.prems have "n div 10 < 10 ^ k" "0 < k"
      by (auto simp: less_mult_imp_div_less mult.commute intro: gr0I)
    with Suc.IH False show ?thesis by (simp add: dec.simps [of n])
  qed (simp add: dec.simps [of n])
qed simp

lemma write_digits_dec:
  assumes "0 < n" and "length (dec n) \<le> room"
  shows "write_digits room (int n) acc = dec n @ acc"
  using assms
proof (induction n arbitrary: room acc rule: dec.induct)
  case (1 n)
  have "int n - 10 * (int n div 10) = int (n mod 10)" by (simp add: minus_mult_div_eq_mod zmod_int)
  then have step: "write_digits room (int n) acc =
      write_digits (room - 1) (int (n div 10)) (char_of (48 + n mod 10) # acc)"
    using "1.prems" dec_nonempty [of n]
    by (subst write_digits.simps) (auto simp: zdiv_int nat_add_distrib simp del: dec_nonempty)
  show ?case
  proof (cases "n < 10")
    case True
    then show ?thesis by (simp add: step write_digits.simps [of _ 0] dec.simps [of n])
  next
    case False
    then have "write_digits (room - 1) (int (n div 10)) (char_of (48 + n mod 10) # acc)
        = dec (n div 10) @ (char_of (48 + n mod 10) # acc)"
      using 1 by (intro "1.IH") (auto simp: dec.simps [of n])
    with False show ?thesis by (simp add: step dec.simps [of n])
  qed
qed

lemma write_digits_length: "length (write_digits room v acc) \<le> room + length acc"
proof (induction room arbitrary: v acc)
  case (Suc room)
  then show ?case
    using Suc.IH [of "tdiv v 10" "digit_char (v - 10 * tdiv v 10) # acc"]
    by (subst write_digits.simps) auto
qed (simp add: write_digits.simps)

lemma dec_length_lower: "10 ^ k \<le> n \<Longrightarrow> k < length (dec n)"
proof (induction k arbitrary: n)
  case (Suc k)
  then have "10 ^ k \<le> n div 10"
    by (auto simp: less_eq_div_iff_mult_less_eq mult.commute)
  moreover have "\<not> n < 10"
  proof -
    have "(1 :: nat) \<le> 10 ^ k" by simp
    with Suc.prems show ?thesis unfolding power_Suc by linarith
  qed
  ultimately show ?case using Suc.IH by (simp add: dec.simps [of n])
qed simp

text \<open>The printed form of the integers that are printed correctly.\<close>

definition dec_int :: "int \<Rightarrow> bytes" where
  "dec_int v = (if v < 0 then CHR ''-'' # dec (nat (- v)) else dec (nat v))"

lemma dec_int_of_nat [simp]: "dec_int (int n) = dec n"
  by (simp add: dec_int_def)

lemma integer_to_str_dec:
  assumes "- (10 ^ 18) < v" and "v \<le> int64_max"
  shows "integer_to_str 21 v = Some (dec_int v)"
proof -
  consider "v = 0" | "0 < v" | "v < 0" by linarith
  then show ?thesis
  proof cases
    case 1
    then show ?thesis
      by (simp add: integer_to_str_def dec_int_def write_digits.simps dec.simps [of 0] char_of_def bit_0 Let_def)
  next
    case 2
    then have "length (dec (nat v)) \<le> 19" using assms by (intro dec_length) auto
    with 2 write_digits_dec [of "nat v" 19 "[]"] show ?thesis
      by (simp add: integer_to_str_def dec_int_def Let_def)
  next
    case 3
    then have "length (dec (nat (- v))) \<le> 18" using assms by (intro dec_length) auto
    with 3 assms write_digits_dec [of "nat (- v)" 18 "[]"] show ?thesis
      by (simp add: integer_to_str_def dec_int_def Let_def)
  qed
qed

lemma write_integer_dec:
  "- (10 ^ 18) < v \<Longrightarrow> v \<le> int64_max \<Longrightarrow> write_integer v = Some (dec_int v, of_nat (length (dec_int v)))"
  by (simp add: write_integer_def integer_to_str_dec)

section \<open>Properties\<close>

lemma write_integer_count: "write_integer v = Some (b, n) \<Longrightarrow> n = of_nat (length b)"
  by (auto simp: write_integer_def split: option.splits)

lemma bencode_counts:
  "bencode_recursive e = Some (b, n) \<Longrightarrow> n = of_nat (length b)"
  "bencode_list es = Some (b, n) \<Longrightarrow> n = of_nat (length b)"
  "bencode_dict kvs = Some (b, n) \<Longrightarrow> n = of_nat (length b)"
proof (induction e and es and kvs arbitrary: b n and b n and b n
    rule: bencode_recursive_bencode_list_bencode_dict.induct)
  case (8 e es)
  from "8.prems" obtain b1 n1 b2 n2 where
    "bencode_recursive e = Some (b1, n1)" "bencode_list es = Some (b2, n2)" "b = b1 @ b2" "n = n1 + n2"
    by (auto split: option.splits)
  with 8 show ?case by simp
next
  case (10 k e kvs)
  from "10.prems" obtain kb kn b1 n1 b2 n2 where w: "write_integer (int (length k)) = Some (kb, kn)"
    and r: "bencode_recursive e = Some (b1, n1)" "bencode_dict kvs = Some (b2, n2)"
    and "b = kb @ '':'' @ k @ b1 @ b2" "n = kn + of_nat (length k) + n1 + 1 + n2"
    by (auto simp: write_string_def split: option.splits)
  moreover have "n1 = of_nat (length b1)" "n2 = of_nat (length b2)"
    using "10.IH" w r by (auto simp: option.case_eq_if)
  ultimately show ?case using write_integer_count [OF w] by simp
qed (auto simp: write_string_def dest: write_integer_count split: option.splits)

lemma sint_of_nat_exact: "sint (of_nat k :: i32) = int k \<longleftrightarrow> k < 2 ^ 31"
proof
  assume "sint (of_nat k :: i32) = int k"
  then show "k < 2 ^ 31" using sint_lt [of "of_nat k :: i32"] by simp
next
  assume "k < 2 ^ 31"
  then show "sint (of_nat k :: i32) = int k" by (simp add: signed_of_nat signed_take_bit_int_eq_self)
qed

text \<open>
  C29: the count \<open>bencode\<close> returns. It is the number of bytes written, in 32 bits: as an \<open>int\<close> it is exact if
  and only if fewer than \<open>2 ^ 31\<close> bytes were written.
\<close>

theorem bencode_count_exact:
  assumes "bencode e = Some (b, n)"
  shows "n = of_nat (length b) \<and> (sint n = int (length b) \<longleftrightarrow> length b < 2 ^ 31)"
  using bencode_counts(1) [of e b n] assms sint_of_nat_exact [of "length b"] by (simp add: bencode_def)

theorem bencode_count_exact_witness:
  "\<exists>b. bencode (List_e [Int_e 7, Undefined_e]) = Some (b, 7) \<and> length b = 7 \<and> sint (7 :: i32) = int (length b)"
proof -
  have dec7: "write_integer 7 = Some (''7'', 1)"
    by (simp add: write_integer_dec dec_int_def dec.simps char_of_def bit_0)
  then have "bencode (List_e [Int_e 7, Undefined_e]) = Some (''li7e0:e'', 7)"
    by (simp add: bencode_def)
  with bencode_count_exact [OF this] show ?thesis by simp
qed

text \<open>
  C30: the printing of integers into the 21 character buffer is wrong for the negative numbers of
  nineteen digits: the loop keeps one character too many in reserve for the sign and drops the
  leading digit, so that \<open>-1000000000000000000\<close> is encoded as \<open>-000000000000000000\<close>. For every other
  integer of 64 bits but the least one, the result is the decimal representation.
\<close>

theorem integer_to_str_range:
  assumes "int64_min \<le> v" and "v \<le> int64_max"
  shows "integer_to_str 21 v = Some (dec_int v) \<longleftrightarrow> - (10 ^ 18) < v"
proof (cases "- (10 ^ 18) < v")
  case True
  with integer_to_str_dec assms show ?thesis by simp
next
  case False
  then have "18 < length (dec (nat (- v)))" by (intro dec_length_lower) auto
  then have "length (dec_int v) > 19" using False by (simp add: dec_int_def)
  moreover have "length str \<le> 19" if "integer_to_str 21 v = Some str" for str
    using that False write_digits_length [of 18 "- v" "[]"]
    by (auto simp: integer_to_str_def Let_def split: if_splits)
  ultimately show ?thesis using False by fastforce
qed

theorem integer_to_str_range_witness:
  "int64_min \<le> - (10 ^ 18) \<and> integer_to_str 21 (- (10 ^ 18)) \<noteq> Some (dec_int (- (10 ^ 18)))"
  using integer_to_str_range [of "- (10 ^ 18)"] by simp

end
