(* ===== verification/Bdecode.thy ===== *)
theory Bdecode
  imports Bencode
begin

text \<open>
  The decoder \<open>bdecode.cpp\<close>: a parser without recursion that turns a buffer into a flat vector of
  tokens, and the accessors of \<open>bdecode_node\<close> that read values back out of buffer and tokens.

  A pointer \<open>start\<close> into the buffer is modelled by the rest of the buffer from \<open>start\<close> to \<open>end\<close>, so
  that \<open>start == end\<close> is the empty rest and \<open>start - orig_start\<close> is the difference of the lengths.
  The array \<open>stack\<close> with its stack pointer is a list with the top frame first.
\<close>

section \<open>Errors, integers\<close>

datatype bdecode_error =
    no_error | expected_digit | expected_colon | unexpected_eof | expected_value
  | depth_exceeded | limit_exceeded | overflow

text \<open>The \<open>do\<close> loop of \<open>check_integer\<close>: the rest, the number of digits and the error.\<close>

fun check_digits :: "bytes \<Rightarrow> nat \<Rightarrow> bytes \<times> nat \<times> bdecode_error" where
  "check_digits [] digits = ([], digits, unexpected_eof)"
| "check_digits (c # cs) digits =
     (if \<not> numeric c then (c # cs, digits, expected_digit)
      else case cs of
             [] \<Rightarrow> ([], digits + 1, unexpected_eof)
           | c' # _ \<Rightarrow> if c' = CHR ''e'' then (cs, digits + 1, no_error)
                        else check_digits cs (digits + 1))"

definition check_integer :: "bytes \<Rightarrow> bytes \<times> bdecode_error" where
  "check_integer start =
     (case start of
        [] \<Rightarrow> (start, unexpected_eof)
      | c # cs \<Rightarrow>
          let start1 = (if c = CHR ''-'' then cs else start) in
          if start1 = [] then (start1, unexpected_eof)
          else case check_digits start1 0 of
                 (rest, digits, e) \<Rightarrow> (rest, if digits > 20 then overflow else e))"

fun parse_int :: "bytes \<Rightarrow> char \<Rightarrow> int \<Rightarrow> bytes \<times> int \<times> bdecode_error" where
  "parse_int [] delimiter val = ([], val, no_error)"
| "parse_int (c # cs) delimiter val =
     (if c = delimiter then (c # cs, val, no_error)
      else if \<not> numeric c then (c # cs, val, expected_digit)
      else if val > int64_max div 10 then (c # cs, val, overflow)
      else if val * 10 > int64_max - digit_val c then (c # cs, val * 10, overflow)
      else parse_int cs delimiter (val * 10 + digit_val c))"

section \<open>Tokens\<close>

datatype token_type = t_none | t_dict | t_list | t_string | t_integer | t_end

record bdecode_token =
  offset :: nat
  ttype :: token_type
  next_item :: nat
  header :: nat

abbreviation max_offset :: nat where "max_offset \<equiv> 2 ^ 29 - 1"
abbreviation max_next_item :: nat where "max_next_item \<equiv> 2 ^ 29 - 1"
abbreviation max_header :: nat where "max_header \<equiv> 2 ^ 3 - 1"

definition mk_token :: "nat \<Rightarrow> nat \<Rightarrow> token_type \<Rightarrow> nat \<Rightarrow> bdecode_token" where
  "mk_token off next t header_size =
     \<lparr>offset = off, ttype = t, next_item = next,
      header = (if t = t_string then header_size - 2 else 0)\<rparr>"

definition start_offset :: "bdecode_token \<Rightarrow> nat" where
  "start_offset t = header t + 2"

section \<open>The parser\<close>

text \<open>A stack frame: the index of the container's token and whether a value is expected (1) or a key (0).\<close>

type_synonym stack_frame = "nat \<times> nat"

text \<open>The outcome of the loop: the error, its position, \<open>start\<close>, the tokens and the stack at \<open>done\<close>.\<close>

type_synonym bdecode_outcome =
  "bdecode_error \<times> nat \<times> bytes \<times> bdecode_token list \<times> stack_frame list"

definition in_dict :: "bdecode_token list \<Rightarrow> stack_frame list \<Rightarrow> bool" where
  "in_dict toks stack = (case stack of [] \<Rightarrow> False | (i, s) # _ \<Rightarrow> ttype (toks ! i) = t_dict)"

definition flip_state :: "bdecode_token list \<Rightarrow> stack_frame list \<Rightarrow> stack_frame list" where
  "flip_state toks stack =
     (case stack of [] \<Rightarrow> []
      | (i, s) # fs \<Rightarrow> if ttype (toks ! i) = t_dict then (i, (s + 1) mod 2) # fs else stack)"

text \<open>
  One pass through the body of the loop, from the rest of the buffer: either the parse failed
  (\<open>Inl\<close>, the outcome), or the new rest, tokens and stack. \<open>pos\<close> is \<open>start - orig_start\<close>. The parent
  frame changes its state before a new frame is pushed on it; the code does so right after.
\<close>

definition bdecode_string ::
  "nat \<Rightarrow> bytes \<Rightarrow> bdecode_token list \<Rightarrow> stack_frame list \<Rightarrow>
     bdecode_outcome + (bytes \<times> bdecode_token list \<times> stack_frame list)" where
  "bdecode_string bufsize start toks stack =
     (let pos = (\<lambda>r. bufsize - length r);
          fail = (\<lambda>e r. Inl (e, pos r, r, toks, stack)) in
      case start of [] \<Rightarrow> fail unexpected_eof start
      | t # start1 \<Rightarrow>
        if \<not> numeric t then fail expected_value start
        else if start1 = [] then fail unexpected_eof start1
        else case parse_int start1 CHR '':'' (digit_val t) of
          (start2, len, e) \<Rightarrow>
            if e \<noteq> no_error then fail e start2
            else if start2 = [] then fail expected_colon start2
            else if len > int (length start2) - 1 then fail unexpected_eof start2
            else if len < 0 then fail overflow start2
            else
              let start3 = tl start2; hdr = length start - length start3 in
              if hdr - 2 > max_header then fail limit_exceeded start3
              else Inr (drop (nat len) start3,
                        toks @ [mk_token (pos start) 1 t_string hdr],
                        flip_state toks stack))"

definition bdecode_step ::
  "nat \<Rightarrow> bytes \<Rightarrow> bdecode_token list \<Rightarrow> stack_frame list \<Rightarrow>
     bdecode_outcome + (bytes \<times> bdecode_token list \<times> stack_frame list)" where
  "bdecode_step bufsize start toks stack =
     (let pos = (\<lambda>r. bufsize - length r);
          fail = (\<lambda>e r. Inl (e, pos r, r, toks, stack)) in
      case start of [] \<Rightarrow> fail unexpected_eof start
      | t # start1 \<Rightarrow>
        if in_dict toks stack \<and> snd (hd stack) = 0 \<and> \<not> numeric t \<and> t \<noteq> CHR ''e''
        then fail expected_digit start
        else if t = CHR ''d''
        then Inr (start1, toks @ [mk_token (pos start) 0 t_dict 0],
                  (length toks, 0) # flip_state toks stack)
        else if t = CHR ''l''
        then Inr (start1, toks @ [mk_token (pos start) 0 t_list 0],
                  (length toks, 0) # flip_state toks stack)
        else if t = CHR ''i''
        then (case check_integer start1 of (start2, e) \<Rightarrow>
                if e \<noteq> no_error then Inl (e, pos start2, start, toks, stack)
                else Inr (tl start2, toks @ [mk_token (pos start) 1 t_integer 1],
                          flip_state toks stack))
        else if t = CHR ''e''
        then (case stack of [] \<Rightarrow> fail unexpected_eof start
              | (ct, s) # frames \<Rightarrow>
                  if in_dict toks stack \<and> s = 1 then fail expected_value start
                  else
                    let toks1 = toks @ [mk_token (pos start) 1 t_end 0] in
                    if length toks1 - ct > max_next_item
                    then Inl (limit_exceeded, pos start, start, toks1, stack)
                    else Inr (start1,
                              toks1[ct := (toks1 ! ct)\<lparr>next_item := length toks1 - ct\<rparr>], frames))
        else bdecode_string bufsize start toks stack)"

function bdecode_loop ::
  "int \<Rightarrow> nat \<Rightarrow> bytes \<Rightarrow> bdecode_token list \<Rightarrow> stack_frame list \<Rightarrow> int \<Rightarrow> bdecode_outcome" where
  "bdecode_loop depth_limit bufsize start toks stack token_limit =
     (let fail = (\<lambda>e. (e, bufsize - length start, start, toks, stack)) in
      if start = [] then fail unexpected_eof
      else if int (length stack) \<ge> depth_limit then fail depth_exceeded
      else if token_limit - 1 < 0 then fail limit_exceeded
      else case bdecode_step bufsize start toks stack of
             Inl r \<Rightarrow> r
           | Inr (start', toks', stack') \<Rightarrow>
               if stack' = [] then (no_error, bufsize - length start', start', toks', stack')
               else bdecode_loop depth_limit bufsize start' toks' stack' (token_limit - 1))"
  by pat_completeness auto
termination
  by (relation "measure (\<lambda>(dl, sz, st, t, s, tl). nat tl)") auto

declare bdecode_loop.simps [simp del]

text \<open>The loop at \<open>done\<close>: whatever is still open is closed, so that the tokens form a tree.\<close>

fun unwind :: "nat \<Rightarrow> bdecode_token list \<Rightarrow> stack_frame list \<Rightarrow> bdecode_token list" where
  "unwind pos toks [] = toks"
| "unwind pos toks ((ct, s) # frames) =
     (let toks1 = (if ttype (toks ! ct) = t_dict \<and> s = 1
                   then toks @ [mk_token pos 2 t_dict 0, mk_token pos 0 t_end 0] else toks);
          toks2 = toks1[ct := (toks1 ! ct)\<lparr>next_item := length toks1 - ct\<rparr>]
      in unwind pos (toks2 @ [mk_token pos 1 t_end 0]) frames)"

section \<open>Nodes\<close>

record bdecode_node =
  root_tokens :: "bdecode_token list"
  nbuffer :: bytes
  token_idx :: int
  last_index :: int
  last_token :: int
  msize :: int

definition no_node :: bdecode_node where
  "no_node = \<lparr>root_tokens = [], nbuffer = [], token_idx = -1, last_index = -1, last_token = -1, msize = -1\<rparr>"

definition mk_node :: "bdecode_token list \<Rightarrow> bytes \<Rightarrow> int \<Rightarrow> bdecode_node" where
  "mk_node toks buf idx =
     \<lparr>root_tokens = toks, nbuffer = buf, token_idx = idx, last_index = -1, last_token = -1, msize = -1\<rparr>"

text \<open>
  \<open>bdecode\<close> returns the node, the error code and the error position. The code sets \<open>*error_pos\<close> only where it fails; on success
  the third component is the number of bytes that were parsed, which the code does not return.
\<close>

definition bdecode :: "bytes \<Rightarrow> int \<Rightarrow> int \<Rightarrow> bdecode_node \<times> bdecode_error \<times> nat" where
  "bdecode buffer depth_limit token_limit =
     (if length buffer > max_offset then (no_node, limit_exceeded, 0)
      else
        case (if buffer = [] then (unexpected_eof, 0, [], [], [])
              else bdecode_loop depth_limit (length buffer) buffer [] [] token_limit) of
          (e, epos, start, toks, stack) \<Rightarrow>
            let pos = length buffer - length start in
            (mk_node (unwind pos toks stack @ [mk_token pos 0 t_end 0]) buffer 0, e, epos))"

definition token_at :: "bdecode_node \<Rightarrow> int \<Rightarrow> bdecode_token" where
  "token_at n i = root_tokens n ! nat i"

definition node_type :: "bdecode_node \<Rightarrow> token_type" where
  "node_type n = (if token_idx n = -1 then t_none else ttype (token_at n (token_idx n)))"

text \<open>The distance from a token's offset to the next token's.\<close>

definition token_source_span :: "bdecode_node \<Rightarrow> int \<Rightarrow> nat" where
  "token_source_span n i = offset (token_at n (i + 1)) - offset (token_at n i)"

definition string_value :: "bdecode_node \<Rightarrow> bytes" where
  "string_value n =
     (let t = token_at n (token_idx n) in
      take (token_source_span n (token_idx n) - start_offset t)
           (drop (offset t + start_offset t) (nbuffer n)))"

definition string_length :: "bdecode_node \<Rightarrow> nat" where
  "string_length n = token_source_span n (token_idx n) - start_offset (token_at n (token_idx n))"

definition int_value :: "bdecode_node \<Rightarrow> int" where
  "int_value n =
     (let t = token_at n (token_idx n);
          ptr = drop (offset t + 1) (nbuffer n);
          negative = (ptr \<noteq> [] \<and> hd ptr = CHR ''-'')
      in case parse_int (drop (if negative then 1 else 0) (take (token_source_span n (token_idx n)) ptr))
                CHR ''e'' 0 of
           (rest, val, ec) \<Rightarrow> if ec \<noteq> no_error then 0 else if negative then - val else val)"

fun skip_items :: "bdecode_node \<Rightarrow> nat \<Rightarrow> int \<Rightarrow> int" where
  "skip_items n 0 token = token"
| "skip_items n (Suc k) token = skip_items n k (token + int (next_item (token_at n token)))"

text \<open>
  The accessors cache the last position they found, in mutable fields of a constant object: each
  returns its result and the node with its new cache.
\<close>

definition list_at :: "bdecode_node \<Rightarrow> int \<Rightarrow> bdecode_node \<times> bdecode_node" where
  "list_at n i =
     (let (token, item) =
        (if last_index n \<le> i \<and> last_index n \<noteq> -1 then (last_token n, last_index n)
         else (token_idx n + 1, 0));
          token' = skip_items n (nat (i - item)) token
      in (mk_node (root_tokens n) (nbuffer n) token', n\<lparr>last_token := token', last_index := i\<rparr>))"

text \<open>The loop that counts the items up to the end token; \<open>None\<close> where it runs off the tokens.\<close>

fun count_items :: "bdecode_node \<Rightarrow> nat \<Rightarrow> int \<Rightarrow> int \<Rightarrow> int option" where
  "count_items n 0 token ret = None"
| "count_items n (Suc k) token ret =
     (if ttype (token_at n token) = t_end then Some ret
      else count_items n k (token + int (next_item (token_at n token))) (ret + 1))"

definition list_size :: "bdecode_node \<Rightarrow> (int \<times> bdecode_node) option" where
  "list_size n =
     (if msize n \<noteq> -1 then Some (msize n, n)
      else
        let (token, ret) = (if last_index n \<noteq> -1 then (last_token n, last_index n)
                            else (token_idx n + 1, 0))
        in map_option (\<lambda>r. (r, n\<lparr>msize := r\<rparr>)) (count_items n (length (root_tokens n)) token ret))"

definition dict_at :: "bdecode_node \<Rightarrow> int \<Rightarrow> (bytes \<times> bdecode_node) \<times> bdecode_node" where
  "dict_at n i =
     (let (token, item) =
        (if last_index n \<le> i \<and> last_index n \<noteq> -1 then (last_token n, last_index n)
         else (token_idx n + 1, 0));
          token' = skip_items n (2 * nat (i - item)) token;
          value_token = token' + int (next_item (token_at n token'))
      in ((string_value (mk_node (root_tokens n) (nbuffer n) token'),
           mk_node (root_tokens n) (nbuffer n) value_token),
          if i > 0 then n\<lparr>last_token := token', last_index := i\<rparr> else n))"

definition dict_size :: "bdecode_node \<Rightarrow> (int \<times> bdecode_node) option" where
  "dict_size n =
     (if msize n \<noteq> -1 then Some (msize n, n)
      else
        let (token, ret) = (if last_index n \<noteq> -1 then (last_token n, last_index n * 2)
                            else (token_idx n + 1, 0))
        in map_option (\<lambda>r. (tdiv r 2, n\<lparr>msize := tdiv r 2\<rparr>))
             (count_items n (length (root_tokens n)) token ret))"

fun dict_find_from :: "bdecode_node \<Rightarrow> bytes \<Rightarrow> nat \<Rightarrow> int \<Rightarrow> bdecode_node option" where
  "dict_find_from n key 0 token = None"
| "dict_find_from n key (Suc k) token =
     (let t = token_at n token;
          sz = token_source_span n token - start_offset t;
          val = token + int (next_item t)
      in if ttype t = t_end then Some no_node
         else if length key = sz \<and> key = take sz (drop (offset t + start_offset t) (nbuffer n))
         then Some (mk_node (root_tokens n) (nbuffer n) val)
         else dict_find_from n key k (val + int (next_item (token_at n val))))"

definition dict_find :: "bdecode_node \<Rightarrow> bytes \<Rightarrow> bdecode_node option" where
  "dict_find n key = dict_find_from n key (length (root_tokens n)) (token_idx n + 1)"

definition dict_find_int_value :: "bdecode_node \<Rightarrow> bytes \<Rightarrow> int \<Rightarrow> int option" where
  "dict_find_int_value n key default_val =
     map_option (\<lambda>c. if node_type c \<noteq> t_integer then default_val else int_value c) (dict_find n key)"

definition dict_find_string_value :: "bdecode_node \<Rightarrow> bytes \<Rightarrow> bytes \<Rightarrow> bytes option" where
  "dict_find_string_value n key default_val =
     map_option (\<lambda>c. if node_type c \<noteq> t_string then default_val else string_value c) (dict_find n key)"

text \<open>
  The assignment of a node to an \<open>entry\<close> (\<open>entry.cpp\<close>). The recursion follows the nesting of the tokens;
  \<open>fuel\<close> bounds its depth, and \<open>None\<close> is fuel that ran out. The accessors are called with
  the node as it was passed in: what their cache holds makes no difference to what they return.
\<close>

fun dict_assign :: "bytes \<Rightarrow> entry \<Rightarrow> (bytes \<times> entry) list \<Rightarrow> (bytes \<times> entry) list" where
  "dict_assign k v [] = [(k, v)]"
| "dict_assign k v ((k', v') # d) =
     (if k < k' then (k, v) # (k', v') # d
      else if k = k' then (k, v) # d
      else (k', v') # dict_assign k v d)"

fun entry_of_node :: "nat \<Rightarrow> bdecode_node \<Rightarrow> entry option" where
  "entry_of_node 0 n = None"
| "entry_of_node (Suc fuel) n =
     (case node_type n of
        t_string \<Rightarrow> Some (String_e (string_value n))
      | t_integer \<Rightarrow> Some (Int_e (int_value n))
      | t_dict \<Rightarrow>
          (case dict_size n of None \<Rightarrow> None
           | Some (sz, _) \<Rightarrow>
               map_option (\<lambda>kvs. Dict_e (fold (\<lambda>(k, v). dict_assign k v) kvs []))
                 (those (map (\<lambda>i. case fst (dict_at n (int i)) of (k, c) \<Rightarrow>
                                map_option (Pair k) (entry_of_node fuel c)) [0..<nat sz])))
      | t_list \<Rightarrow>
          (case list_size n of None \<Rightarrow> None
           | Some (sz, _) \<Rightarrow>
               map_option List_e
                 (those (map (\<lambda>i. entry_of_node fuel (fst (list_at n (int i)))) [0..<nat sz])))
      | t_none \<Rightarrow> Some Undefined_e
      | t_end \<Rightarrow> Some Undefined_e)"

section \<open>What the decoder makes of an encoded entry\<close>

text \<open>
  The entries that survive encoding: integers in the range that is printed correctly, strings
  whose length prefix fits a token's header, dictionaries in key order.
\<close>

fun encodable :: "entry \<Rightarrow> bool"
  and encodable_list :: "entry list \<Rightarrow> bool"
  and encodable_dict :: "(bytes \<times> entry) list \<Rightarrow> bool" where
  "encodable (Int_e v) \<longleftrightarrow> - (10 ^ 18) < v \<and> v \<le> int64_max"
| "encodable (String_e s) \<longleftrightarrow> length s < 10 ^ 8"
| "encodable (List_e es) \<longleftrightarrow> encodable_list es"
| "encodable (Dict_e kvs) \<longleftrightarrow> sorted_wrt (<) (map fst kvs) \<and> encodable_dict kvs"
| "encodable (Preformatted_e b) \<longleftrightarrow> False"
| "encodable Undefined_e \<longleftrightarrow> False"
| "encodable_list [] \<longleftrightarrow> True"
| "encodable_list (e # es) \<longleftrightarrow> encodable e \<and> encodable_list es"
| "encodable_dict [] \<longleftrightarrow> True"
| "encodable_dict ((k, e) # kvs) \<longleftrightarrow> length k < 10 ^ 8 \<and> encodable e \<and> encodable_dict kvs"

abbreviation enc_string :: "bytes \<Rightarrow> bytes" where
  "enc_string s \<equiv> dec (length s) @ '':'' @ s"

fun enc :: "entry \<Rightarrow> bytes"
  and enc_list :: "entry list \<Rightarrow> bytes"
  and enc_dict :: "(bytes \<times> entry) list \<Rightarrow> bytes" where
  "enc (Int_e v) = ''i'' @ dec_int v @ ''e''"
| "enc (String_e s) = enc_string s"
| "enc (List_e es) = ''l'' @ enc_list es @ ''e''"
| "enc (Dict_e kvs) = ''d'' @ enc_dict kvs @ ''e''"
| "enc (Preformatted_e b) = b"
| "enc Undefined_e = ''0:''"
| "enc_list [] = []"
| "enc_list (e # es) = enc e @ enc_list es"
| "enc_dict [] = []"
| "enc_dict ((k, e) # kvs) = enc_string k @ enc e @ enc_dict kvs"

lemma write_integer_length:
  "length s < 10 ^ 8 \<Longrightarrow> write_integer (int (length s)) = Some (dec (length s), of_nat (length (dec (length s))))"
  by (subst write_integer_dec) (auto simp: dec_int_def)

lemma bencode_enc_aux:
  "encodable e \<Longrightarrow> \<exists>n. bencode_recursive e = Some (enc e, n)"
  "encodable_list es \<Longrightarrow> \<exists>n. bencode_list es = Some (enc_list es, n)"
  "encodable_dict kvs \<Longrightarrow> \<exists>n. bencode_dict kvs = Some (enc_dict kvs, n)"
  by (induction e and es and kvs rule: encodable_encodable_list_encodable_dict.induct)
    (auto simp: write_integer_dec write_integer_length write_string_def)

lemma bencode_enc: "encodable e \<Longrightarrow> bencode e = Some (enc e, of_nat (length (enc e)))"
  using bencode_enc_aux(1) [of e] bencode_counts(1) [of e "enc e"] by (auto simp: bencode_def)

text \<open>The number of tokens of an entry, its nesting depth and the tokens themselves, from an offset on.\<close>

fun ntok :: "entry \<Rightarrow> nat"
  and ntok_list :: "entry list \<Rightarrow> nat"
  and ntok_dict :: "(bytes \<times> entry) list \<Rightarrow> nat" where
  "ntok (Int_e v) = 1"
| "ntok (String_e s) = 1"
| "ntok (List_e es) = 2 + ntok_list es"
| "ntok (Dict_e kvs) = 2 + ntok_dict kvs"
| "ntok (Preformatted_e b) = 0"
| "ntok Undefined_e = 1"
| "ntok_list [] = 0"
| "ntok_list (e # es) = ntok e + ntok_list es"
| "ntok_dict [] = 0"
| "ntok_dict ((k, e) # kvs) = 1 + ntok e + ntok_dict kvs"

fun edepth :: "entry \<Rightarrow> nat"
  and edepth_list :: "entry list \<Rightarrow> nat"
  and edepth_dict :: "(bytes \<times> entry) list \<Rightarrow> nat" where
  "edepth (Int_e v) = 0"
| "edepth (String_e s) = 0"
| "edepth (List_e es) = Suc (edepth_list es)"
| "edepth (Dict_e kvs) = Suc (edepth_dict kvs)"
| "edepth (Preformatted_e b) = 0"
| "edepth Undefined_e = 0"
| "edepth_list [] = 0"
| "edepth_list (e # es) = max (edepth e) (edepth_list es)"
| "edepth_dict [] = 0"
| "edepth_dict ((k, e) # kvs) = max (edepth e) (edepth_dict kvs)"

abbreviation string_token :: "nat \<Rightarrow> bytes \<Rightarrow> bdecode_token" where
  "string_token off s \<equiv> mk_token off 1 t_string (length (dec (length s)) + 1)"

fun etoks :: "nat \<Rightarrow> entry \<Rightarrow> bdecode_token list"
  and etoks_list :: "nat \<Rightarrow> entry list \<Rightarrow> bdecode_token list"
  and etoks_dict :: "nat \<Rightarrow> (bytes \<times> entry) list \<Rightarrow> bdecode_token list" where
  "etoks off (Int_e v) = [mk_token off 1 t_integer 1]"
| "etoks off (String_e s) = [string_token off s]"
| "etoks off (List_e es) =
     mk_token off (2 + ntok_list es) t_list 0 # etoks_list (off + 1) es
       @ [mk_token (off + 1 + length (enc_list es)) 1 t_end 0]"
| "etoks off (Dict_e kvs) =
     mk_token off (2 + ntok_dict kvs) t_dict 0 # etoks_dict (off + 1) kvs
       @ [mk_token (off + 1 + length (enc_dict kvs)) 1 t_end 0]"
| "etoks off (Preformatted_e b) = []"
| "etoks off Undefined_e = [string_token off []]"
| "etoks_list off [] = []"
| "etoks_list off (e # es) = etoks off e @ etoks_list (off + length (enc e)) es"
| "etoks_dict off [] = []"
| "etoks_dict off ((k, e) # kvs) =
     string_token off k # etoks (off + length (enc_string k)) e
       @ etoks_dict (off + length (enc_string k) + length (enc e)) kvs"

lemma length_etoks [simp]:
  "length (etoks off e) = ntok e"
  "length (etoks_list off es) = ntok_list es"
  "length (etoks_dict off kvs) = ntok_dict kvs"
  by (induction off e and off es and off kvs rule: etoks_etoks_list_etoks_dict.induct) auto

lemma ntok_le_enc:
  "encodable e \<Longrightarrow> ntok e \<le> length (enc e)"
  "encodable_list es \<Longrightarrow> ntok_list es \<le> length (enc_list es)"
  "encodable_dict kvs \<Longrightarrow> ntok_dict kvs \<le> length (enc_dict kvs)"
  by (induction e and es and kvs rule: encodable_encodable_list_encodable_dict.induct) auto

section \<open>Reading numbers\<close>

definition read_dec :: "int \<Rightarrow> bytes \<Rightarrow> int" where
  "read_dec v ds = foldl (\<lambda>v c. v * 10 + digit_val c) v ds"

lemma read_dec_simps [simp]:
  "read_dec v [] = v" "read_dec v (c # cs) = read_dec (v * 10 + digit_val c) cs"
  "read_dec v (as @ bs) = read_dec (read_dec v as) bs"
  by (simp_all add: read_dec_def)

lemma read_dec_dec [simp]: "read_dec 0 (dec n) = int n"
proof (induction n rule: dec.induct)
  case (1 n)
  have "int (n div 10) * 10 + int (n mod 10) = int n"
    by (metis div_mult_mod_eq of_nat_add of_nat_mult of_nat_numeral)
  with 1 show ?case by (cases "n < 10") (simp_all add: dec.simps [of n])
qed

lemma digit_val_bounds: "numeric c \<Longrightarrow> 0 \<le> digit_val c \<and> digit_val c \<le> 9"
  by (auto simp: numeric_iff digit_val_def)

lemma read_dec_mono: "0 \<le> v \<Longrightarrow> \<forall>c\<in>set ds. numeric c \<Longrightarrow> v \<le> read_dec v ds"
proof (induction ds arbitrary: v)
  case (Cons c ds)
  have "v \<le> v * 10 + digit_val c" "0 \<le> v * 10 + digit_val c"
    using Cons.prems digit_val_bounds [of c] by auto
  with Cons show ?case by fastforce
qed simp

lemma parse_int_digits:
  assumes "\<forall>c\<in>set ds. numeric c" and "\<not> numeric d" and "0 \<le> v" and "read_dec v ds \<le> int64_max"
  shows "parse_int (ds @ d # rest) d v = (d # rest, read_dec v ds, no_error)"
  using assms(1,3,4)
proof (induction ds arbitrary: v)
  case (Cons c ds)
  have c: "0 \<le> digit_val c" "numeric c" using Cons.prems digit_val_bounds by auto
  have le: "v * 10 + digit_val c \<le> int64_max"
    using read_dec_mono [of "v * 10 + digit_val c" ds] Cons.prems c by simp
  have "c \<noteq> d" using c assms(2) by auto
  moreover have "v \<le> int64_max div 10" using le c by simp
  ultimately show ?case using Cons c le by simp
qed simp

lemma check_digits_digits:
  "ds \<noteq> [] \<Longrightarrow> \<forall>c\<in>set ds. numeric c \<Longrightarrow>
     check_digits (ds @ CHR ''e'' # rest) k = (CHR ''e'' # rest, k + length ds, no_error)"
proof (induction ds arbitrary: k)
  case (Cons c ds)
  show ?case
  proof (cases ds)
    case (Cons c' ds')
    then have "c' \<noteq> CHR ''e''" using Cons.prems by (auto simp: numeric_iff)
    with Cons Cons.IH Cons.prems show ?thesis by simp
  qed (use Cons.prems in simp)
qed simp

lemma not_numeric [simp]:
  "\<not> numeric CHR '':''" "\<not> numeric CHR ''e''" "\<not> numeric CHR ''-''"
  "\<not> numeric CHR ''d''" "\<not> numeric CHR ''l''" "\<not> numeric CHR ''i''"
  by (simp_all add: numeric_iff)

lemma numeric_hd_dec: "numeric (hd (dec n))"
  using dec_numeric hd_in_set dec_nonempty by blast

lemma check_integer_dec:
  assumes "- (10 ^ 18) < v" and "v \<le> int64_max"
  shows "check_integer (dec_int v @ CHR ''e'' # rest) = (CHR ''e'' # rest, no_error)"
proof -
  have digits: "check_digits (dec n @ CHR ''e'' # rest) 0 = (CHR ''e'' # rest, length (dec n), no_error)" for n
    using check_digits_digits [of "dec n" rest 0] dec_numeric by auto
  have "length (dec (nat \<bar>v\<bar>)) \<le> 19" using assms by (intro dec_length) auto
  moreover have "hd (dec (nat v)) \<noteq> CHR ''-''" using numeric_hd_dec [of "nat v"] by auto
  ultimately show ?thesis
  proof (cases "v < 0")
    case False
    obtain c cs where c: "dec (nat v) = c # cs" by (cases "dec (nat v)") auto
    with False \<open>hd (dec (nat v)) \<noteq> CHR ''-''\<close> \<open>length (dec (nat \<bar>v\<bar>)) \<le> 19\<close> digits [of "nat v"]
    show ?thesis by (simp add: check_integer_def dec_int_def Let_def)
  qed (use digits in \<open>simp add: check_integer_def dec_int_def Let_def\<close>)
qed

section \<open>The loop on an encoded entry\<close>

definition bdecode_next ::
  "int \<Rightarrow> nat \<Rightarrow> bytes \<Rightarrow> bdecode_token list \<Rightarrow> stack_frame list \<Rightarrow> int \<Rightarrow> bdecode_outcome" where
  "bdecode_next dl n rest toks stack lim =
     (if stack = [] then (no_error, n - length rest, rest, toks, stack)
      else bdecode_loop dl n rest toks stack lim)"

definition frames_ok :: "bdecode_token list \<Rightarrow> stack_frame list \<Rightarrow> bool" where
  "frames_ok toks stack \<longleftrightarrow> (\<forall>f\<in>set stack. fst f < length toks)"

lemma bdecode_loop_step:
  assumes "start \<noteq> []" and "int (length stack) < dl" and "0 < lim"
    and "bdecode_step n start toks stack = Inr (start', toks', stack')"
  shows "bdecode_loop dl n start toks stack lim = bdecode_next dl n start' toks' stack' (lim - 1)"
  using assms by (subst bdecode_loop.simps) (simp add: bdecode_next_def Let_def)

lemma flip_state_append [simp]: "frames_ok toks stack \<Longrightarrow> flip_state (toks @ xs) stack = flip_state toks stack"
  by (auto simp: flip_state_def frames_ok_def nth_append split: list.splits)

lemma in_dict_append [simp]: "frames_ok toks stack \<Longrightarrow> in_dict (toks @ xs) stack = in_dict toks stack"
  by (auto simp: in_dict_def frames_ok_def nth_append split: list.splits)

lemma length_flip_state [simp]: "length (flip_state toks stack) = length stack"
  by (auto simp: flip_state_def split: list.splits)

lemma frames_ok_flip [simp]: "frames_ok toks stack \<Longrightarrow> frames_ok toks (flip_state toks stack)"
  by (fastforce simp: flip_state_def frames_ok_def split: list.splits)

lemma frames_ok_append [simp]: "frames_ok toks stack \<Longrightarrow> frames_ok (toks @ xs) stack"
  by (auto simp: frames_ok_def)

lemma frames_ok_new [simp]:
  "frames_ok toks stack \<Longrightarrow> frames_ok (toks @ [t]) ((length toks, 0) # flip_state toks stack)"
  using frames_ok_flip [of toks stack] by (auto simp: frames_ok_def)

lemma bdecode_step_string:
  assumes "length s < 10 ^ 8" and "length (enc_string s @ rest) \<le> n"
  shows "bdecode_step n (enc_string s @ rest) toks stack =
    Inr (rest, toks @ [string_token (n - length (enc_string s @ rest)) s], flip_state toks stack)"
proof -
  obtain c cs where c: "dec (length s) = c # cs" by (cases "dec (length s)") auto
  have num: "numeric c" "\<forall>c\<in>set cs. numeric c" using dec_numeric [of _ "length s"] c by auto
  have val: "read_dec (digit_val c) cs = int (length s)"
    using read_dec_dec [of "length s"] c by simp
  have len: "length (dec (length s)) \<le> 8" using assms(1) by (intro dec_length) auto
  have parse: "parse_int (cs @ CHR '':'' # s @ rest) CHR '':'' (digit_val c) =
      (CHR '':'' # s @ rest, int (length s), no_error)"
    using parse_int_digits [of cs "CHR '':''" "digit_val c" "s @ rest"] num val digit_val_bounds assms(1)
    by simp
  have ne: "c \<noteq> CHR ''d''" "c \<noteq> CHR ''l''" "c \<noteq> CHR ''i''" "c \<noteq> CHR ''e''" using num by auto
  then have "bdecode_step n (enc_string s @ rest) toks stack = bdecode_string n (enc_string s @ rest) toks stack"
    using num c by (simp add: bdecode_step_def Let_def)
  also have "\<dots> = Inr (rest, toks @ [string_token (n - length (enc_string s @ rest)) s], flip_state toks stack)"
    using num c parse len by (simp add: bdecode_string_def Let_def)
  finally show ?thesis .
qed

lemma bdecode_step_int:
  assumes "- (10 ^ 18) < v" and "v \<le> int64_max" and "\<not> (in_dict toks stack \<and> snd (hd stack) = 0)"
    and "start = ''i'' @ dec_int v @ ''e'' @ rest"
  shows "bdecode_step n start toks stack =
    Inr (rest, toks @ [mk_token (n - length start) 1 t_integer 1], flip_state toks stack)"
  using assms check_integer_dec [OF assms(1,2), of rest]
  by (auto simp: bdecode_step_def Let_def)

text \<open>An open container: its items are parsed by \<open>body\<close>, then the end token closes it.\<close>

lemma bdecode_loop_container:
  assumes "t = CHR ''l'' \<and> ty = t_list \<or> t = CHR ''d'' \<and> ty = t_dict"
    and "\<not> (in_dict toks stack \<and> snd (hd stack) = 0)" and ok: "frames_ok toks stack"
    and dl: "int (length stack) + 1 < dl" and lim: "2 + int (length xs) \<le> lim"
    and n: "length (t # inner @ CHR ''e'' # rest) \<le> n" "length xs + 2 \<le> max_next_item"
    and body: "bdecode_loop dl n (inner @ CHR ''e'' # rest)
        (toks @ [mk_token (n - length (t # inner @ CHR ''e'' # rest)) 0 ty 0])
        ((length toks, 0) # flip_state toks stack) (lim - 1) =
      bdecode_loop dl n (CHR ''e'' # rest)
        (toks @ [mk_token (n - length (t # inner @ CHR ''e'' # rest)) 0 ty 0] @ xs)
        ((length toks, 0) # flip_state toks stack) (lim - 1 - int (length xs))"
  shows "bdecode_loop dl n (t # inner @ CHR ''e'' # rest) toks stack lim =
    bdecode_next dl n rest
      (toks @ mk_token (n - length (t # inner @ CHR ''e'' # rest)) (2 + length xs) ty 0 # xs
         @ [mk_token (n - length (CHR ''e'' # rest)) 1 t_end 0])
      (flip_state toks stack) (lim - 2 - int (length xs))"
proof -
  let ?start = "t # inner @ CHR ''e'' # rest"
  let ?tok = "mk_token (n - length ?start) 0 ty 0"
  let ?stack = "(length toks, 0) # flip_state toks stack"
  have "bdecode_loop dl n ?start toks stack lim =
      bdecode_next dl n (inner @ CHR ''e'' # rest) (toks @ [?tok]) ?stack (lim - 1)"
    using assms(1,2) dl lim by (intro bdecode_loop_step) (auto simp: bdecode_step_def Let_def)
  also have "\<dots> = bdecode_loop dl n (CHR ''e'' # rest) (toks @ [?tok] @ xs) ?stack (lim - 1 - int (length xs))"
    using body by (simp add: bdecode_next_def)
  also have "\<dots> = bdecode_next dl n rest
      (toks @ mk_token (n - length ?start) (2 + length xs) ty 0 # xs @ [mk_token (n - length (CHR ''e'' # rest)) 1 t_end 0])
      (flip_state toks stack) (lim - 1 - int (length xs) - 1)"
    using assms(1) dl lim n
    by (intro bdecode_loop_step)
      (auto simp: bdecode_step_def in_dict_def nth_append mk_token_def list_update_append)
  finally show ?thesis by (simp add: algebra_simps)
qed

lemma bdecode_loop_enc:
  "encodable e \<Longrightarrow> frames_ok toks stack \<Longrightarrow> \<not> (in_dict toks stack \<and> snd (hd stack) = 0) \<Longrightarrow>
     int (length stack + edepth e) < dl \<Longrightarrow> int (ntok e) \<le> lim \<Longrightarrow>
     length (enc e @ rest) \<le> n \<Longrightarrow> n \<le> max_offset \<Longrightarrow>
     bdecode_loop dl n (enc e @ rest) toks stack lim =
     bdecode_next dl n rest (toks @ etoks (n - length (enc e @ rest)) e)
       (flip_state toks stack) (lim - int (ntok e))"
  "encodable_list es \<Longrightarrow> frames_ok toks (f # fs) \<Longrightarrow> ttype (toks ! fst f) = t_list \<Longrightarrow>
     int (length (f # fs) + edepth_list es) < dl \<Longrightarrow> int (ntok_list es) \<le> lim \<Longrightarrow>
     length (enc_list es @ rest) \<le> n \<Longrightarrow> n \<le> max_offset \<Longrightarrow>
     bdecode_loop dl n (enc_list es @ rest) toks (f # fs) lim =
     bdecode_loop dl n rest (toks @ etoks_list (n - length (enc_list es @ rest)) es)
       (f # fs) (lim - int (ntok_list es))"
  "encodable_dict kvs \<Longrightarrow> frames_ok toks (f # fs) \<Longrightarrow> ttype (toks ! fst f) = t_dict \<Longrightarrow> snd f = 0 \<Longrightarrow>
     int (length (f # fs) + edepth_dict kvs) < dl \<Longrightarrow> int (ntok_dict kvs) \<le> lim \<Longrightarrow>
     length (enc_dict kvs @ rest) \<le> n \<Longrightarrow> n \<le> max_offset \<Longrightarrow>
     bdecode_loop dl n (enc_dict kvs @ rest) toks (f # fs) lim =
     bdecode_loop dl n rest (toks @ etoks_dict (n - length (enc_dict kvs @ rest)) kvs)
       (f # fs) (lim - int (ntok_dict kvs))"
proof (induction e and es and kvs arbitrary: toks stack lim rest and toks f fs lim rest
    and toks f fs lim rest rule: encodable_encodable_list_encodable_dict.induct)
  case (1 v)
  let ?start = "''i'' @ dec_int v @ ''e'' @ rest"
  have "bdecode_loop dl n ?start toks stack lim =
      bdecode_next dl n rest (toks @ [mk_token (n - length ?start) 1 t_integer 1])
        (flip_state toks stack) (lim - 1)"
    using 1 by (intro bdecode_loop_step bdecode_step_int) auto
  then show ?case by simp
next
  case (2 s)
  have "bdecode_loop dl n (enc_string s @ rest) toks stack lim =
      bdecode_next dl n rest (toks @ [string_token (n - length (enc_string s @ rest)) s])
        (flip_state toks stack) (lim - 1)"
    using 2 by (intro bdecode_loop_step bdecode_step_string) auto
  then show ?case by simp
next
  case (3 es)
  let ?in = "enc_list es"
  let ?start = "CHR ''l'' # ?in @ CHR ''e'' # rest"
  let ?tok = "mk_token (n - length ?start) 0 t_list 0"
  let ?xs = "etoks_list (n - length (?in @ CHR ''e'' # rest)) es"
  have len: "ntok_list es \<le> length ?in" using "3.prems" ntok_le_enc by simp
  have "bdecode_loop dl n (?in @ CHR ''e'' # rest) (toks @ [?tok])
        ((length toks, 0) # flip_state toks stack) (lim - 1) =
      bdecode_loop dl n (CHR ''e'' # rest) ((toks @ [?tok]) @ ?xs)
        ((length toks, 0) # flip_state toks stack) (lim - 1 - int (ntok_list es))"
    by (rule "3.IH") (use "3.prems" in \<open>auto simp: mk_token_def\<close>)
  then have "bdecode_loop dl n ?start toks stack lim =
    bdecode_next dl n rest
      (toks @ mk_token (n - length ?start) (2 + length ?xs) t_list 0 # ?xs
         @ [mk_token (n - length (CHR ''e'' # rest)) 1 t_end 0])
      (flip_state toks stack) (lim - 2 - int (length ?xs))"
    using "3.prems" len by (intro bdecode_loop_container) auto
  then show ?case
    using "3.prems" by (simp add: algebra_simps Suc_diff_le [symmetric])
next
  case (4 kvs)
  let ?in = "enc_dict kvs"
  let ?start = "CHR ''d'' # ?in @ CHR ''e'' # rest"
  let ?tok = "mk_token (n - length ?start) 0 t_dict 0"
  let ?xs = "etoks_dict (n - length (?in @ CHR ''e'' # rest)) kvs"
  have len: "ntok_dict kvs \<le> length ?in" using "4.prems" ntok_le_enc by simp
  have "bdecode_loop dl n (?in @ CHR ''e'' # rest) (toks @ [?tok])
        ((length toks, 0) # flip_state toks stack) (lim - 1) =
      bdecode_loop dl n (CHR ''e'' # rest) ((toks @ [?tok]) @ ?xs)
        ((length toks, 0) # flip_state toks stack) (lim - 1 - int (ntok_dict kvs))"
    by (rule "4.IH") (use "4.prems" in \<open>auto simp: mk_token_def\<close>)
  then have "bdecode_loop dl n ?start toks stack lim =
    bdecode_next dl n rest
      (toks @ mk_token (n - length ?start) (2 + length ?xs) t_dict 0 # ?xs
         @ [mk_token (n - length (CHR ''e'' # rest)) 1 t_end 0])
      (flip_state toks stack) (lim - 2 - int (length ?xs))"
    using "4.prems" len by (intro bdecode_loop_container) auto
  then show ?case
    using "4.prems" by (simp add: algebra_simps Suc_diff_le [symmetric])
next
  case (8 e es)
  have flip: "flip_state toks (f # fs) = f # fs" and dict: "\<not> in_dict toks (f # fs)"
    using "8.prems"(3) by (auto simp: flip_state_def in_dict_def split: prod.splits)
  have "bdecode_loop dl n (enc e @ enc_list es @ rest) toks (f # fs) lim =
      bdecode_loop dl n (enc_list es @ rest) (toks @ etoks (n - length (enc e @ enc_list es @ rest)) e)
        (f # fs) (lim - int (ntok e))"
    using "8.IH"(1) [of toks "f # fs" lim "enc_list es @ rest"] "8.prems" flip dict by (simp add: bdecode_next_def)
  also have "\<dots> = bdecode_loop dl n rest ((toks @ etoks (n - length (enc e @ enc_list es @ rest)) e)
        @ etoks_list (n - length (enc_list es @ rest)) es) (f # fs) (lim - int (ntok e) - int (ntok_list es))"
    by (rule "8.IH"(2)) (use "8.prems" in \<open>auto simp: nth_append frames_ok_def\<close>)
  finally show ?case using "8.prems" by (simp add: algebra_simps)
next
  case (10 k e kvs)
  let ?r2 = "enc e @ enc_dict kvs @ rest" and ?r3 = "enc_dict kvs @ rest"
  let ?t1 = "toks @ [string_token (n - length (enc_string k @ ?r2)) k]"
  let ?t2 = "?t1 @ etoks (n - length ?r2) e"
  have f: "f = (fst f, 0)" "fst f < length toks" using "10.prems" by (auto simp: frames_ok_def prod_eq_iff)
  have flip1: "flip_state toks (f # fs) = (fst f, 1) # fs"
    using "10.prems"(3,4) by (auto simp: flip_state_def split: prod.splits)
  have flip2: "flip_state ?t1 ((fst f, 1) # fs) = f # fs"
    using "10.prems"(3) f by (simp add: flip_state_def nth_append)
  have "bdecode_loop dl n (enc_string k @ ?r2) toks (f # fs) lim =
      bdecode_next dl n ?r2 ?t1 (flip_state toks (f # fs)) (lim - 1)"
    using "10.prems" by (intro bdecode_loop_step bdecode_step_string) auto
  also have "\<dots> = bdecode_loop dl n (enc e @ ?r3) ?t1 ((fst f, 1) # fs) (lim - 1)"
    by (simp add: flip1 bdecode_next_def)
  also have "\<dots> = bdecode_next dl n ?r3 ?t2 (flip_state ?t1 ((fst f, 1) # fs)) (lim - 1 - int (ntok e))"
    by (rule "10.IH"(1)) (use "10.prems" in \<open>auto simp: frames_ok_def\<close>)
  also have "\<dots> = bdecode_loop dl n ?r3 ?t2 (f # fs) (lim - 1 - int (ntok e))"
    unfolding flip2 by (simp add: bdecode_next_def)
  also have "\<dots> = bdecode_loop dl n rest (?t2 @ etoks_dict (n - length ?r3) kvs) (f # fs)
      (lim - 1 - int (ntok e) - int (ntok_dict kvs))"
    by (rule "10.IH"(2)) (use "10.prems" f in \<open>auto simp: nth_append frames_ok_def\<close>)
  finally have "bdecode_loop dl n (enc_string k @ ?r2) toks (f # fs) lim =
    bdecode_loop dl n rest (?t2 @ etoks_dict (n - length ?r3) kvs) (f # fs)
      (lim - 1 - int (ntok e) - int (ntok_dict kvs))" .
  moreover obtain N where "n = N + length (enc_string k @ ?r2)"
    using "10.prems"(7) by (auto simp: le_iff_add ac_simps)
  ultimately show ?case by (simp add: ac_simps diff_diff_eq)
qed simp_all

lemma enc_nonempty: "encodable e \<Longrightarrow> enc e \<noteq> []"
  by (cases e) auto

lemma bdecode_enc:
  assumes "encodable e" and "int (edepth e) < dl" and "int (ntok e) \<le> lim"
    and "length (enc e @ rest) \<le> max_offset"
  shows "bdecode (enc e @ rest) dl lim =
    (mk_node (etoks 0 e @ [mk_token (length (enc e)) 0 t_end 0]) (enc e @ rest) 0, no_error, length (enc e))"
proof -
  have "bdecode_loop dl (length (enc e @ rest)) (enc e @ rest) [] [] lim =
      (no_error, length (enc e), rest, etoks 0 e, [])"
    using bdecode_loop_enc(1) [of e "[]" "[]" dl lim rest "length (enc e @ rest)"] assms
    by (simp add: frames_ok_def in_dict_def flip_state_def bdecode_next_def)
  with assms enc_nonempty [OF assms(1)] show ?thesis
    by (simp add: bdecode_def Let_def)
qed

section \<open>Reading an entry back\<close>

definition seg :: "bytes \<Rightarrow> nat \<Rightarrow> bytes \<Rightarrow> bool" where
  "seg B off b \<longleftrightarrow> (\<exists>X Y. B = X @ b @ Y \<and> length X = off)"

lemma seg_appendD: "seg B off (a @ b) \<Longrightarrow> seg B off a \<and> seg B (off + length a) b"
proof -
  assume "seg B off (a @ b)"
  then obtain X Y where "B = X @ a @ b @ Y" "length X = off" by (auto simp: seg_def)
  then have "B = X @ a @ (b @ Y)" "B = (X @ a) @ b @ Y" "length (X @ a) = off + length a" by auto
  with \<open>length X = off\<close> show ?thesis unfolding seg_def by blast
qed

lemma seg_ConsD: "seg B off (c # b) \<Longrightarrow> seg B (off + 1) b"
  using seg_appendD [of B off "[c]" b] by simp

lemma seg_take: "seg B off b \<Longrightarrow> length b = k \<Longrightarrow> take k (drop off B) = b"
  by (auto simp: seg_def)

lemma seg_drop: "seg B off b \<Longrightarrow> \<exists>Y. drop off B = b @ Y"
  by (auto simp: seg_def)

text \<open>The tokens of an entry, at index \<open>p\<close> of the token vector, followed by the token that ends it.\<close>

definition holds_at :: "bdecode_token list \<Rightarrow> bytes \<Rightarrow> nat \<Rightarrow> nat \<Rightarrow> entry \<Rightarrow> bool" where
  "holds_at T B p off e \<longleftrightarrow> seg B off (enc e) \<and>
     (\<exists>T1 t T2. T = T1 @ etoks off e @ t # T2 \<and> length T1 = p \<and> offset t = off + length (enc e))"

lemma holds_atI:
  "T = T1 @ etoks off e @ t # T2 \<Longrightarrow> length T1 = p \<Longrightarrow> offset t = off + length (enc e) \<Longrightarrow>
     seg B off (enc e) \<Longrightarrow> holds_at T B p off e"
  by (auto simp: holds_at_def)

lemma etoks_hd:
  assumes "encodable e"
  obtains t ts where "etoks off e = t # ts" "offset t = off" "next_item t = ntok e" "ttype t \<noteq> t_end"
  using assms by (cases e) (auto simp: mk_token_def)

abbreviation node_at :: "bdecode_token list \<Rightarrow> bytes \<Rightarrow> nat \<Rightarrow> bdecode_node" where
  "node_at T B p \<equiv> mk_node T B (int p)"

lemma mk_node_sel [simp]:
  "root_tokens (mk_node T B i) = T" "nbuffer (mk_node T B i) = B" "token_idx (mk_node T B i) = i"
  "last_index (mk_node T B i) = -1" "msize (mk_node T B i) = -1"
  by (simp_all add: mk_node_def)

lemma token_at_node_at [simp]: "token_at (mk_node T B i) (int q) = T ! q"
  "token_at (mk_node T B i) (int q + 1) = T ! Suc q" "token_at (mk_node T B i) (1 + int q) = T ! Suc q"
  by (simp_all add: token_at_def nat_add_distrib)

lemma holds_at_token:
  assumes "holds_at T B p off e" and "encodable e"
  shows "next_item (T ! p) = ntok e" and "offset (T ! p) = off" and "ttype (T ! p) \<noteq> t_end"
    and "offset (T ! (p + ntok e)) = off + length (enc e)" and "p + ntok e < length T"
proof -
  from assms(1) obtain T1 t T2 where T: "T = T1 @ etoks off e @ t # T2" "length T1 = p"
    "offset t = off + length (enc e)" by (auto simp: holds_at_def)
  obtain h ts where h: "etoks off e = h # ts" "offset h = off" "next_item h = ntok e" "ttype h \<noteq> t_end"
    using assms(2) by (rule etoks_hd)
  have "T ! p = h" using T h by (simp add: nth_append)
  with h show "next_item (T ! p) = ntok e" "offset (T ! p) = off" "ttype (T ! p) \<noteq> t_end" by auto
  have "(T1 @ etoks off e @ t # T2) ! (length T1 + length (etoks off e)) = t" by (simp add: nth_append del: length_etoks)
  then show "offset (T ! (p + ntok e)) = off + length (enc e)" using T by simp
  show "p + ntok e < length T" using T by simp
qed

text \<open>The items of a list, one behind the other.\<close>

lemma list_items:
  assumes "T = T1 @ etoks_list off es @ t # T2" and "offset t = off + length (enc_list es)"
    and "ttype t = t_end" and "seg B off (enc_list es)" and "encodable_list es"
  shows "(\<forall>i<length es. \<exists>q off'. skip_items (mk_node T B j) i (int (length T1)) = int q \<and> holds_at T B q off' (es ! i))
    \<and> (\<forall>k r. length es < k \<longrightarrow> count_items (mk_node T B j) k (int (length T1)) r = Some (r + int (length es)))"
  using assms
proof (induction es arbitrary: T1 off)
  case Nil
  have "count_items (mk_node T B j) k (int (length T1)) r = Some r" if "0 < k" for k r
    using that Nil by (cases k) (auto simp: nth_append)
  then show ?case by auto
next
  case (Cons e es)
  let ?off = "off + length (enc e)"
  have e: "encodable e" "encodable_list es" using Cons.prems by auto
  have sg: "seg B off (enc e)" "seg B ?off (enc_list es)" using Cons.prems(4) seg_appendD by auto
  obtain t' T2' where t': "etoks_list ?off es @ t # T2 = t' # T2'" "offset t' = ?off"
  proof (cases es)
    case Nil
    with Cons.prems(2) that show ?thesis by simp
  next
    case (Cons a as)
    with e have a: "encodable a" by simp
    obtain h ts where "etoks ?off a = h # ts" "offset h = ?off" by (rule etoks_hd [OF a])
    with Cons that show ?thesis by simp
  qed
  have here: "holds_at T B (length T1) off e"
    using Cons.prems(1) sg t' by (auto simp: holds_at_def)
  note tok = holds_at_token [OF here e(1)]
  have IH: "(\<forall>i<length es. \<exists>q off'. skip_items (mk_node T B j) i (int (length T1) + int (ntok e)) = int q \<and> holds_at T B q off' (es ! i))
    \<and> (\<forall>k r. length es < k \<longrightarrow> count_items (mk_node T B j) k (int (length T1) + int (ntok e)) r = Some (r + int (length es)))"
    using Cons.IH [of "T1 @ etoks off e" ?off] Cons.prems sg e by simp
  show ?case
  proof (intro conjI allI impI)
    fix i assume i: "i < length (e # es)"
    show "\<exists>q off'. skip_items (mk_node T B j) i (int (length T1)) = int q \<and> holds_at T B q off' ((e # es) ! i)"
    proof (cases i)
      case 0
      with here show ?thesis by auto
    next
      case (Suc i')
      with i IH tok show ?thesis by auto
    qed
  next
    fix k r assume "length (e # es) < k"
    then obtain k' where "k = Suc k'" "length es < k'" by (cases k) auto
    with IH tok show "count_items (mk_node T B j) k (int (length T1)) r = Some (r + int (length (e # es)))"
      by simp
  qed
qed

lemma start_offset_string [simp]: "start_offset (string_token off s) = length (dec (length s)) + 1"
  using dec_nonempty [of "length s"] by (cases "dec (length s)") (auto simp: start_offset_def mk_token_def)

lemma string_value_at:
  assumes "T ! q = string_token off s" and "offset (T ! Suc q) = off + length (enc_string s)"
    and "seg B off (enc_string s)"
  shows "string_value (node_at T B q) = s"
proof -
  have "seg B off ((dec (length s) @ '':'') @ s)" using assms(3) by simp
  from conjunct2 [OF seg_appendD [OF this]]
  have "take (length s) (drop (off + length (dec (length s)) + 1) B) = s" by (intro seg_take) simp_all
  moreover have "offset (T ! q) = off" by (simp add: assms(1) mk_token_def)
  moreover have "start_offset (T ! q) = length (dec (length s)) + 1"
    unfolding assms(1) by (rule start_offset_string)
  ultimately show ?thesis
    using assms(2) by (simp add: string_value_def token_source_span_def Let_def ac_simps)
qed

lemma int_value_at:
  assumes "T ! q = mk_token off 1 t_integer 1" and "offset (T ! Suc q) = off + length (dec_int v) + 2"
    and "seg B off (''i'' @ dec_int v @ ''e'')" and "- (10 ^ 18) < v" and "v \<le> int64_max"
  shows "int_value (node_at T B q) = v"
proof -
  have "seg B (off + 1) (dec_int v @ ''e'')" using assms(3) seg_ConsD by simp
  then obtain Y where Y: "drop (Suc off) B = dec_int v @ CHR ''e'' # Y" using seg_drop by fastforce
  have span: "token_source_span (node_at T B q) (int q) = length (dec_int v) + 2"
    using assms(1,2) by (simp add: token_source_span_def mk_token_def)
  have parse: "parse_int (dec m @ CHR ''e'' # Z) CHR ''e'' 0 = (CHR ''e'' # Z, int m, no_error)"
    if "int m \<le> int64_max" for m Z
    using parse_int_digits [of "dec m" "CHR ''e''" 0 Z] dec_numeric that by auto
  have off: "offset (T ! q) = off" using assms(1) by (simp add: mk_token_def)
  show ?thesis
  proof (cases "v < 0")
    case True
    have "take (length (dec_int v) + 2) (dec_int v @ CHR ''e'' # Y) = dec_int v @ CHR ''e'' # take 1 Y" by simp
    with True Y span off parse [of "nat (- v)" "take 1 Y"] assms(4) show ?thesis
      by (simp add: int_value_def dec_int_def Let_def del: drop_eq_Nil)
  next
    case False
    have hd: "hd (dec (nat v) @ CHR ''e'' # Y) \<noteq> CHR ''-''"
      using numeric_hd_dec [of "nat v"] by (auto simp: hd_append)
    have "take (length (dec_int v) + 2) (dec_int v @ CHR ''e'' # Y) = dec_int v @ CHR ''e'' # take 1 Y" by simp
    with False Y span off hd parse [of "nat v" "take 1 Y"] assms(5) show ?thesis
      by (simp add: int_value_def dec_int_def Let_def del: drop_eq_Nil)
  qed
qed

text \<open>The keys and values of a dictionary, one behind the other.\<close>

lemma dict_items:
  assumes "T = T1 @ etoks_dict off kvs @ t # T2" and "offset t = off + length (enc_dict kvs)"
    and "ttype t = t_end" and "seg B off (enc_dict kvs)" and "encodable_dict kvs"
  shows "(\<forall>i<length kvs. \<exists>q off'. skip_items (mk_node T B j) (2 * i) (int (length T1)) = int q
       \<and> string_value (node_at T B q) = fst (kvs ! i) \<and> next_item (T ! q) = 1
       \<and> holds_at T B (Suc q) off' (snd (kvs ! i)))
    \<and> (\<forall>k r. 2 * length kvs < k \<longrightarrow> count_items (mk_node T B j) k (int (length T1)) r = Some (r + 2 * int (length kvs)))"
  using assms
proof (induction kvs arbitrary: T1 off)
  case Nil
  have "count_items (mk_node T B j) k (int (length T1)) r = Some r" if "0 < k" for k r
    using that Nil by (cases k) (auto simp: nth_append)
  then show ?case by auto
next
  case (Cons kv kvs)
  obtain k e where kv: "kv = (k, e)" by force
  let ?offe = "off + length (enc_string k)"
  let ?off = "?offe + length (enc e)"
  have e: "encodable e" "encodable_dict kvs" using Cons.prems kv by auto
  have "seg B off (enc_string k @ enc e @ enc_dict kvs)" using Cons.prems(4) kv by simp
  from seg_appendD [OF this] have sg: "seg B off (enc_string k)" "seg B ?offe (enc e)" "seg B ?off (enc_dict kvs)"
    using seg_appendD [of B ?offe "enc e" "enc_dict kvs"] by auto
  obtain t' T2' where t': "etoks_dict ?off kvs @ t # T2 = t' # T2'" "offset t' = ?off"
    using Cons.prems(2) kv by (cases kvs) (auto simp: mk_token_def)
  have T: "T = T1 @ string_token off k # etoks ?offe e @ t' # T2'" using Cons.prems(1) kv t' by simp
  have "T = (T1 @ [string_token off k]) @ etoks ?offe e @ t' # T2'" using T by simp
  then have here: "holds_at T B (Suc (length T1)) ?offe e" by (rule holds_atI) (use sg t' in simp_all)
  note tok = holds_at_token [OF here e(1)]
  have key: "T ! length T1 = string_token off k" using T by (simp add: nth_append)
  have str: "string_value (node_at T B (length T1)) = k"
    using key tok(2) sg(1) by (intro string_value_at) auto
  have T': "T = (T1 @ string_token off k # etoks ?offe e) @ etoks_dict ?off kvs @ t # T2"
    using Cons.prems(1) kv by simp
  have offt: "offset t = ?off + length (enc_dict kvs)" using Cons.prems(2) kv by simp
  have len: "int (length (T1 @ string_token off k # etoks ?offe e)) = int (Suc (length T1)) + int (ntok e)"
    by simp
  note IH = Cons.IH [OF T' offt Cons.prems(3) sg(3) e(2), unfolded len]
  have nk: "next_item (T ! length T1) = 1" "ttype (T ! length T1) = t_string" by (simp_all add: key mk_token_def)
  show ?case
  proof (intro conjI allI impI)
    fix i assume i: "i < length (kv # kvs)"
    show "\<exists>q off'. skip_items (mk_node T B j) (2 * i) (int (length T1)) = int q
       \<and> string_value (node_at T B q) = fst ((kv # kvs) ! i) \<and> next_item (T ! q) = 1
       \<and> holds_at T B (Suc q) off' (snd ((kv # kvs) ! i))"
    proof (cases i)
      case 0
      with here str nk kv show ?thesis by auto
    next
      case (Suc i')
      with i IH tok nk show ?thesis by (simp add: algebra_simps)
    qed
  next
    fix k r assume "2 * length (kv # kvs) < k"
    then obtain k' where "k = Suc (Suc k')" "2 * length kvs < k'" by (cases k; cases "k - 1") auto
    with IH tok nk show "count_items (mk_node T B j) k (int (length T1)) r = Some (r + 2 * int (length (kv # kvs)))"
      by (simp add: algebra_simps)
  qed
qed

lemma those_map_upt:
  "(\<And>i. i < n \<Longrightarrow> f i = Some (g i)) \<Longrightarrow> those (map f [0..<n]) = Some (map g [0..<n])"
proof (induction n arbitrary: f g)
  case (Suc n)
  have "those (map (f \<circ> Suc) [0..<n]) = Some (map (g \<circ> Suc) [0..<n])"
    using Suc.prems by (intro Suc.IH) simp
  moreover have "f 0 = Some (g 0)" using Suc.prems by simp
  ultimately show ?case by (simp add: upt_conv_Cons map_Suc_upt [symmetric] del: upt_Suc)
qed simp

lemma dict_assign_snoc: "sorted_wrt (<) (map fst (d @ [(k, v)])) \<Longrightarrow> dict_assign k v d = d @ [(k, v)]"
  by (induction d) auto

lemma fold_dict_assign: "sorted_wrt (<) (map fst kvs) \<Longrightarrow> fold (\<lambda>(k, v). dict_assign k v) kvs [] = kvs"
proof (induction kvs rule: rev_induct)
  case (snoc kv kvs)
  have "sorted_wrt (<) (map fst kvs)" using snoc.prems by (simp add: sorted_wrt_append)
  with snoc dict_assign_snoc [of kvs "fst kv" "snd kv"] show ?case by (cases kv) simp
qed simp

lemma ntok_lower:
  "encodable_list es \<Longrightarrow> length es \<le> ntok_list es"
  "encodable_dict kvs \<Longrightarrow> 2 * length kvs \<le> ntok_dict kvs"
proof -
  have pos: "0 < ntok e" if "encodable e" for e using that by (cases e) auto
  show "encodable_list es \<Longrightarrow> length es \<le> ntok_list es"
    by (induction es) (auto dest: pos)
  show "encodable_dict kvs \<Longrightarrow> 2 * length kvs \<le> ntok_dict kvs"
  proof (induction kvs)
    case (Cons kv kvs)
    obtain k e where kv: "kv = (k, e)" by force
    then have "0 < ntok e" using Cons.prems pos by simp
    with Cons kv show ?case by simp
  qed simp
qed

lemma encodable_members:
  "encodable_list es \<Longrightarrow> e \<in> set es \<Longrightarrow> encodable e \<and> edepth e \<le> edepth_list es"
  "encodable_dict kvs \<Longrightarrow> kv \<in> set kvs \<Longrightarrow> encodable (snd kv) \<and> edepth (snd kv) \<le> edepth_dict kvs"
proof -
  show "encodable_list es \<Longrightarrow> e \<in> set es \<Longrightarrow> encodable e \<and> edepth e \<le> edepth_list es"
    by (induction es) (auto simp: le_max_iff_disj)
  show "encodable_dict kvs \<Longrightarrow> kv \<in> set kvs \<Longrightarrow> encodable (snd kv) \<and> edepth (snd kv) \<le> edepth_dict kvs"
    by (induction kvs) (auto simp: le_max_iff_disj)
qed

lemma entry_of_list:
  assumes at: "holds_at T B p off (List_e es)" and ok: "encodable (List_e es)"
    and child: "\<And>e q off'. e \<in> set es \<Longrightarrow> holds_at T B q off' e \<Longrightarrow> entry_of_node fuel (node_at T B q) = Some e"
  shows "entry_of_node (Suc fuel) (node_at T B p) = Some (List_e es)"
proof -
  let ?tok = "mk_token off (2 + ntok_list es) t_list 0"
  let ?stop = "mk_token (off + 1 + length (enc_list es)) 1 t_end 0"
  obtain T1 t T2 where T: "T = (T1 @ [?tok]) @ etoks_list (off + 1) es @ ?stop # (t # T2)" and p: "length T1 = p"
    using at by (auto simp: holds_at_def)
  have es: "encodable_list es" using ok by simp
  have "seg B off (''l'' @ enc_list es @ ''e'')" using at by (simp add: holds_at_def)
  then have sg: "seg B (off + 1) (enc_list es)" using seg_appendD seg_ConsD by force
  have len: "int (length (T1 @ [?tok])) = 1 + int p" using p by simp
  note items = list_items [OF T _ _ sg es, of "int p", unfolded len]
  have "length es < length T" using ntok_lower(1) [OF es] T by simp
  then have "list_size (node_at T B p) = Some (int (length es), (node_at T B p)\<lparr>msize := int (length es)\<rparr>)"
    using items by (simp add: list_size_def mk_token_def add.commute)
  moreover have "entry_of_node fuel (fst (list_at (node_at T B p) (int i))) = Some (es ! i)" if i: "i < length es" for i
  proof -
    obtain q off' where q: "skip_items (node_at T B p) i (1 + int p) = int q" "holds_at T B q off' (es ! i)"
      using items i by (auto simp: mk_token_def)
    have "entry_of_node fuel (node_at T B q) = Some (es ! i)" by (rule child) (use i q in auto)
    with q show ?thesis by (simp add: list_at_def Let_def add.commute)
  qed
  then have "those (map (\<lambda>i. entry_of_node fuel (fst (list_at (node_at T B p) (int i)))) [0..<length es])
      = Some (map ((!) es) [0..<length es])" by (rule those_map_upt)
  moreover have "T ! p = ?tok" using T p by (simp add: nth_append)
  ultimately show ?thesis by (simp add: node_type_def mk_token_def map_nth)
qed

lemma entry_of_dict:
  assumes at: "holds_at T B p off (Dict_e kvs)" and ok: "encodable (Dict_e kvs)"
    and child: "\<And>kv q off'. kv \<in> set kvs \<Longrightarrow> holds_at T B q off' (snd kv) \<Longrightarrow>
      entry_of_node fuel (node_at T B q) = Some (snd kv)"
  shows "entry_of_node (Suc fuel) (node_at T B p) = Some (Dict_e kvs)"
proof -
  let ?tok = "mk_token off (2 + ntok_dict kvs) t_dict 0"
  let ?stop = "mk_token (off + 1 + length (enc_dict kvs)) 1 t_end 0"
  obtain T1 t T2 where T: "T = (T1 @ [?tok]) @ etoks_dict (off + 1) kvs @ ?stop # (t # T2)" and p: "length T1 = p"
    using at by (auto simp: holds_at_def)
  have kvs: "encodable_dict kvs" and srt: "sorted_wrt (<) (map fst kvs)" using ok by simp_all
  have "seg B off (''d'' @ enc_dict kvs @ ''e'')" using at by (simp add: holds_at_def)
  then have sg: "seg B (off + 1) (enc_dict kvs)" using seg_appendD seg_ConsD by force
  have len: "int (length (T1 @ [?tok])) = 1 + int p" using p by simp
  note items = dict_items [OF T _ _ sg kvs, of "int p", unfolded len]
  have "2 * length kvs < length T" using ntok_lower(2) [OF kvs] T by simp
  then have "dict_size (node_at T B p) = Some (int (length kvs), (node_at T B p)\<lparr>msize := int (length kvs)\<rparr>)"
    using items by (simp add: dict_size_def mk_token_def add.commute)
  moreover have "(case fst (dict_at (node_at T B p) (int i)) of (k, c) \<Rightarrow>
      map_option (Pair k) (entry_of_node fuel c)) = Some (kvs ! i)" if i: "i < length kvs" for i
  proof -
    obtain q off' where q: "skip_items (node_at T B p) (2 * i) (1 + int p) = int q"
      "string_value (node_at T B q) = fst (kvs ! i)" "next_item (T ! q) = 1"
      "holds_at T B (Suc q) off' (snd (kvs ! i))"
      using items i by (auto simp: mk_token_def)
    have "entry_of_node fuel (node_at T B (Suc q)) = Some (snd (kvs ! i))"
      by (rule child) (use i q(4) in auto)
    then have "entry_of_node fuel (mk_node T B (1 + int q)) = Some (snd (kvs ! i))" by simp
    with q show ?thesis by (simp add: dict_at_def Let_def add.commute)
  qed
  then have "those (map (\<lambda>i. case fst (dict_at (node_at T B p) (int i)) of (k, c) \<Rightarrow>
      map_option (Pair k) (entry_of_node fuel c)) [0..<length kvs]) = Some (map ((!) kvs) [0..<length kvs])"
    by (rule those_map_upt)
  moreover have "T ! p = ?tok" using T p by (simp add: nth_append)
  ultimately show ?thesis
    by (simp add: node_type_def mk_token_def map_nth fold_dict_assign [OF srt])
qed

lemma entry_of_node_holds:
  "encodable e \<Longrightarrow> holds_at T B p off e \<Longrightarrow> edepth e < fuel \<Longrightarrow> entry_of_node fuel (node_at T B p) = Some e"
proof (induction fuel arbitrary: e p off)
  case (Suc fuel)
  note tok = holds_at_token [OF Suc.prems(2,1)]
  from Suc.prems(2) obtain T1 t T2 where T: "T = T1 @ etoks off e @ t # T2" "length T1 = p" and sg: "seg B off (enc e)"
    by (auto simp: holds_at_def)
  then have hd: "T ! p = etoks off e ! 0" if "ntok e = 1" using that by (auto simp: nth_append)
  show ?case
  proof (cases e)
    case (Int_e v)
    with hd have "T ! p = mk_token off 1 t_integer 1" by simp
    with tok(4) Int_e Suc.prems(1) sg int_value_at [of T p off v B] show ?thesis
      by (simp add: node_type_def mk_token_def)
  next
    case (String_e b)
    with hd have "T ! p = string_token off b" by simp
    with tok(4) String_e sg string_value_at [of T p off b B] show ?thesis
      by (simp add: node_type_def mk_token_def)
  next
    case (List_e es)
    show ?thesis unfolding List_e
    proof (rule entry_of_list [of T B p off])
      fix e' q off' assume "e' \<in> set es" "holds_at T B q off' e'"
      with Suc.prems List_e encodable_members(1) [of es e'] show "entry_of_node fuel (node_at T B q) = Some e'"
        by (intro Suc.IH) auto
    qed (use Suc.prems List_e in simp_all)
  next
    case (Dict_e kvs)
    show ?thesis unfolding Dict_e
    proof (rule entry_of_dict [of T B p off])
      fix kv q off' assume "kv \<in> set kvs" "holds_at T B q off' (snd kv)"
      with Suc.prems Dict_e encodable_members(2) [of kvs kv] show "entry_of_node fuel (node_at T B q) = Some (snd kv)"
        by (intro Suc.IH) auto
    qed (use Suc.prems Dict_e in simp_all)
  qed (use Suc.prems in auto)
qed simp

text \<open>
  C8: Decoding what was encoded gives the entry back, for entries of integers above \<open>- (10 ^ 18)\<close> (the ones below are printed
  wrong), strings shorter than \<open>10 ^ 8\<close> bytes (longer ones do not fit the header of a token), lists and dictionaries in the
  order of their keys, as \<open>std::map\<close> keeps them, but not preformatted or undefined ones (\<open>encodable\<close>). The bytes
  \<open>bencode\<close> writes for such an entry, whatever follows them in the buffer, are parsed without error up to their last byte, and the
  node converts to the same entry, within the decoder's limits of depth, tokens and size.
\<close>

theorem bencode_bdecode_roundtrip:
  assumes "encodable e" and "bencode e = Some (b, n)"
    and "int (edepth e) < depth_limit" and "int (ntok e) \<le> token_limit" and "length (b @ rest) \<le> max_offset"
  shows "\<exists>node. bdecode (b @ rest) depth_limit token_limit = (node, no_error, length b)
    \<and> entry_of_node (nat depth_limit) node = Some e"
proof -
  let ?T = "etoks 0 e @ [mk_token (length (enc e)) 0 t_end 0]"
  have b: "b = enc e" using bencode_enc [OF assms(1)] assms(2) by simp
  have "bdecode (b @ rest) depth_limit token_limit = (node_at ?T (b @ rest) 0, no_error, length b)"
    using bdecode_enc [of e depth_limit token_limit rest] assms b by simp
  moreover have "holds_at ?T (b @ rest) 0 0 e"
    using b by (intro holds_atI [of _ "[]"]) (auto simp: mk_token_def seg_def)
  moreover have "edepth e < nat depth_limit" using assms(3) by simp
  ultimately show ?thesis using entry_of_node_holds [OF assms(1), of ?T "b @ rest" 0 0] by auto
qed

theorem bencode_bdecode_roundtrip_witness:
  "\<exists>node. bdecode (''d1:ali-5e2:xyee'' @ ''!'') 10 100 = (node, no_error, length ''d1:ali-5e2:xyee'')
    \<and> entry_of_node 10 node = Some (Dict_e [(''a'', List_e [Int_e (-5), String_e ''xy''])])"
proof -
  let ?e = "Dict_e [(''a'', List_e [Int_e (-5), String_e ''xy''])]"
  have e: "encodable ?e" by simp
  have "char_of (49::nat) = CHR ''1''" "char_of (50::nat) = CHR ''2''" "char_of (53::nat) = CHR ''5''" by code_simp+
  with e have "bencode ?e = Some (''d1:ali-5e2:xyee'', 15)" by (simp add: bencode_enc dec_int_def dec.simps)
  from bencode_bdecode_roundtrip [OF e this, of 10 100 "''!''"] show ?thesis by simp
qed

section \<open>Arbitrary input\<close>

text \<open>
  What the accessors rely on to stay inside the buffer and the token vector, whatever was parsed: offsets
  ascend, every jump lands on a token, and a string's header ends before the next token begins.
\<close>

definition tokens_ok :: "bdecode_token list \<Rightarrow> bool" where
  "tokens_ok T \<longleftrightarrow> T \<noteq> [] \<and>
     (\<forall>i<length T - 1. offset (T ! i) \<le> offset (T ! Suc i) \<and> i + next_item (T ! i) < length T
        \<and> (ttype (T ! i) = t_string \<longrightarrow> offset (T ! i) + start_offset (T ! i) \<le> offset (T ! Suc i)))"

abbreviation close_toks :: "bdecode_token list \<Rightarrow> nat \<Rightarrow> bdecode_token list" where
  "close_toks toks pos \<equiv> toks @ [mk_token pos 0 t_end 0]"

lemma tokens_ok_snoc:
  assumes "tokens_ok (close_toks toks pos)" and "offset new = pos" and "next_item new \<le> 1" and "pos \<le> pos'"
    and "ttype new = t_string \<Longrightarrow> pos + start_offset new \<le> pos'"
  shows "tokens_ok (close_toks (toks @ [new]) pos')"
  unfolding tokens_ok_def
proof (intro conjI allI impI)
  fix i assume i: "i < length (close_toks (toks @ [new]) pos') - 1"
  have ind: "offset (close_toks toks pos ! i) \<le> offset (close_toks toks pos ! Suc i)
      \<and> i + next_item (close_toks toks pos ! i) < length (close_toks toks pos)
      \<and> (ttype (close_toks toks pos ! i) = t_string \<longrightarrow>
          offset (close_toks toks pos ! i) + start_offset (close_toks toks pos ! i) \<le> offset (close_toks toks pos ! Suc i))"
    if "i < length toks" using assms(1) that by (simp add: tokens_ok_def)
  have nxt: "offset (close_toks toks pos ! Suc i) = offset (close_toks (toks @ [new]) pos' ! Suc i)" if "i < length toks"
    using that assms(2) by (auto simp: nth_append mk_token_def less_Suc_eq nth_Cons')
  show "offset (close_toks (toks @ [new]) pos' ! i) \<le> offset (close_toks (toks @ [new]) pos' ! Suc i)"
    "i + next_item (close_toks (toks @ [new]) pos' ! i) < length (close_toks (toks @ [new]) pos')"
    "ttype (close_toks (toks @ [new]) pos' ! i) = t_string \<Longrightarrow>
       offset (close_toks (toks @ [new]) pos' ! i) + start_offset (close_toks (toks @ [new]) pos' ! i)
         \<le> offset (close_toks (toks @ [new]) pos' ! Suc i)"
    using i ind nxt assms(2-5) by (auto simp: nth_append mk_token_def less_Suc_eq)
qed simp

lemma tokens_ok_jump:
  "tokens_ok T \<Longrightarrow> i < length T \<Longrightarrow> i + n < length T \<Longrightarrow> tokens_ok (T[i := (T ! i)\<lparr>next_item := n\<rparr>])"
  by (auto simp: tokens_ok_def nth_list_update start_offset_def)

lemma tokens_ok_close:
  "tokens_ok (close_toks toks pos) \<Longrightarrow> pos \<le> pos' \<Longrightarrow> tokens_ok (close_toks toks pos')"
  by (auto simp: tokens_ok_def nth_append mk_token_def less_Suc_eq dest: spec split: if_splits)

lemma tokens_ok_close_jump:
  assumes "tokens_ok (close_toks toks pos)" and "i < length toks"
  shows "tokens_ok (close_toks (toks[i := (toks ! i)\<lparr>next_item := length toks - i\<rparr>]) pos)"
proof -
  have "(close_toks toks pos)[i := (close_toks toks pos ! i)\<lparr>next_item := length toks - i\<rparr>] =
      close_toks (toks[i := (toks ! i)\<lparr>next_item := length toks - i\<rparr>]) pos"
    using assms(2) by (simp add: list_update_append nth_append)
  with tokens_ok_jump [OF assms(1), of i "length toks - i"] assms(2) show ?thesis by simp
qed

lemma parse_int_length: "parse_int s d v = (r, v', e) \<Longrightarrow> length r \<le> length s"
  by (induction s d v rule: parse_int.induct) (auto split: if_splits)

lemma check_digits_length: "check_digits s n = (r, k, e) \<Longrightarrow> length r \<le> length s"
  by (induction s n rule: check_digits.induct) (auto split: if_splits list.splits)

lemma check_integer_length: "check_integer s = (r, e) \<Longrightarrow> length r \<le> length s"
proof (cases s)
  case (Cons c cs)
  assume r: "check_integer s = (r, e)"
  let ?s = "if c = CHR ''-'' then cs else s"
  obtain r' k e' where d: "check_digits ?s 0 = (r', k, e')" by (metis prod_cases3)
  have "r = ?s \<or> r = r'" using r d Cons by (auto simp: check_integer_def Let_def split: if_splits)
  with check_digits_length [OF d] Cons show ?thesis by (auto split: if_splits)
qed (simp add: check_integer_def)

definition bdecode_inv :: "nat \<Rightarrow> bytes \<Rightarrow> bdecode_token list \<Rightarrow> stack_frame list \<Rightarrow> bool" where
  "bdecode_inv bufsize start toks stack \<longleftrightarrow> length start \<le> bufsize
     \<and> tokens_ok (close_toks toks (bufsize - length start)) \<and> (\<forall>f\<in>set stack. fst f < length toks)"

lemma bdecode_inv_rest:
  "bdecode_inv sz start toks stack \<Longrightarrow> length r \<le> length start \<Longrightarrow> bdecode_inv sz r toks stack"
  unfolding bdecode_inv_def by (auto elim: tokens_ok_close)

lemma bdecode_inv_push:
  assumes "bdecode_inv sz start toks stack" and "length r \<le> length start" and "offset new = sz - length start"
    and "next_item new \<le> 1" and "ttype new = t_string \<Longrightarrow> sz - length start + start_offset new \<le> sz - length r"
    and "\<forall>f\<in>set stack'. fst f \<le> length toks"
  shows "bdecode_inv sz r (toks @ [new]) stack'"
  using assms tokens_ok_snoc [of toks "sz - length start" new "sz - length r"]
  unfolding bdecode_inv_def by (auto simp: less_Suc_eq_le)

lemma set_flip_state: "f \<in> set (flip_state toks stack) \<Longrightarrow> \<exists>g\<in>set stack. fst g = fst f"
  by (force simp: flip_state_def split: list.splits if_splits prod.splits)

lemma flip_state_bound: "bdecode_inv sz start toks stack \<Longrightarrow> \<forall>f\<in>set (flip_state toks stack). fst f \<le> length toks"
  using set_flip_state by (fastforce simp: bdecode_inv_def less_imp_le)

text \<open>What a pass through the loop's body leaves behind, whether it fails or not.\<close>

definition step_ok where
  "step_ok sz toks stack res \<longleftrightarrow>
     (case res of
        Inl (e, epos, r, toks', stack') \<Rightarrow> e \<noteq> no_error \<and> epos \<le> sz \<and> bdecode_inv sz r toks' stack'
          \<and> length toks' \<le> Suc (length toks) \<and> length stack' = length stack
      | Inr (r, toks', stack') \<Rightarrow> bdecode_inv sz r toks' stack'
          \<and> length toks' = Suc (length toks) \<and> length stack' \<le> Suc (length stack))"

lemma bdecode_string_ok:
  assumes "bdecode_inv sz start toks stack"
  shows "step_ok sz toks stack (bdecode_string sz start toks stack)"
proof (cases start)
  case (Cons t start1)
  obtain start2 len e where p: "parse_int start1 CHR '':'' (digit_val t) = (start2, len, e)" by (metis prod_cases3)
  have le: "length start2 \<le> length start1" using parse_int_length [OF p] .
  have fail: "step_ok sz toks stack (Inl (e', sz - length r, r, toks, stack))"
    if "e' \<noteq> no_error" "length r \<le> length start" for e' r
    using that bdecode_inv_rest [OF assms that(2)] by (simp add: step_ok_def)
  have ok: "step_ok sz toks stack (Inr (drop (nat len) (tl start2),
      toks @ [mk_token (sz - length start) 1 t_string (length start - length (tl start2))], flip_state toks stack))"
    if "start2 \<noteq> []" "0 \<le> len" "len \<le> int (length start2) - 1"
  proof -
    have "length start \<le> sz" using assms by (simp add: bdecode_inv_def)
    with that le Cons have "bdecode_inv sz (drop (nat len) (tl start2))
        (toks @ [mk_token (sz - length start) 1 t_string (length start - length (tl start2))]) (flip_state toks stack)"
      by (intro bdecode_inv_push [OF assms] flip_state_bound [OF assms])
        (auto simp: mk_token_def start_offset_def)
    then show ?thesis by (simp add: step_ok_def)
  qed
  show ?thesis
    unfolding bdecode_string_def Let_def Cons list.case p prod.case
    using le ok [unfolded Cons] fail [of expected_value start] fail [of unexpected_eof start1] fail [of e start2]
      fail [of expected_colon start2] fail [of unexpected_eof start2] fail [of overflow start2]
      fail [of limit_exceeded "tl start2"]
    by (auto simp: Cons)
qed (use assms in \<open>simp add: bdecode_string_def step_ok_def\<close>)

lemma bdecode_step_ok:
  assumes inv: "bdecode_inv sz start toks stack"
  shows "step_ok sz toks stack (bdecode_step sz start toks stack)"
proof (cases start)
  case (Cons t start1)
  have here: "step_ok sz toks stack (Inl (e', sz - length start, start, toks, stack))" if "e' \<noteq> no_error" for e'
    using that inv by (simp add: step_ok_def)
  have push: "step_ok sz toks stack (Inr (r, toks @ [mk_token (sz - length start) n tt hs], stack'))"
    if "length r \<le> length start" "n \<le> 1" "tt \<noteq> t_string" "\<forall>f\<in>set stack'. fst f \<le> length toks"
      "length stack' \<le> Suc (length stack)" for r n tt hs stack'
    using that bdecode_inv_push [OF inv that(1), of "mk_token (sz - length start) n tt hs" stack']
    by (simp add: step_ok_def mk_token_def)
  note flip = flip_state_bound [OF inv]
  obtain start2 e where ci: "check_integer start1 = (start2, e)" by force
  have le: "length start2 \<le> length start1" using check_integer_length [OF ci] .
  let ?toks = "toks @ [mk_token (sz - length start) 1 t_end 0]"
  have ends: "step_ok sz toks stack (Inl (limit_exceeded, sz - length start, start, ?toks, stack))"
    "stack = (ct, s) # frames \<Longrightarrow>
       step_ok sz toks stack (Inr (start1, ?toks[ct := (?toks ! ct)\<lparr>next_item := length ?toks - ct\<rparr>], frames))" for ct s frames
  proof -
    have st: "\<forall>f\<in>set stack. fst f < length toks" using inv by (simp add: bdecode_inv_def)
    then have i: "bdecode_inv sz r ?toks stack" if "length r \<le> length start" for r
      using that by (intro bdecode_inv_push [OF inv]) (auto simp: mk_token_def less_imp_le)
    from i [of start] show "step_ok sz toks stack (Inl (limit_exceeded, sz - length start, start, ?toks, stack))"
      by (simp add: step_ok_def)
    assume "stack = (ct, s) # frames"
    with i [of start1] st Cons tokens_ok_close_jump [of ?toks "sz - length start1" ct]
    show "step_ok sz toks stack (Inr (start1, ?toks[ct := (?toks ! ct)\<lparr>next_item := length ?toks - ct\<rparr>], frames))"
      by (auto simp: step_ok_def bdecode_inv_def less_Suc_eq)
  qed
  have int: "step_ok sz toks stack (Inl (e, sz - length start2, start, toks, stack))" if "e \<noteq> no_error"
    using that inv by (simp add: step_ok_def)
  show ?thesis
    unfolding bdecode_step_def Let_def Cons list.case
    using ci le flip ends [unfolded Cons] here [unfolded Cons] push [unfolded Cons] int [unfolded Cons]
      bdecode_string_ok [OF inv, unfolded Cons]
    by (auto split: list.split)
qed (use inv in \<open>simp add: bdecode_step_def step_ok_def\<close>)

lemma bdecode_loop_ok:
  assumes "bdecode_inv sz start toks stack" and "0 \<le> lim" and "int (length stack) \<le> max 0 dl"
    and "bdecode_loop dl sz start toks stack lim = (e, epos, r, toks', stack')"
  shows "bdecode_inv sz r toks' stack' \<and> epos \<le> sz \<and> int (length toks') \<le> int (length toks) + lim
    \<and> int (length stack') \<le> max 0 dl \<and> (e = no_error \<longrightarrow> stack' = [])"
  using assms
proof (induction dl sz start toks stack lim rule: bdecode_loop.induct)
  case (1 dl sz start toks stack lim)
  show ?case
  proof (cases "start = [] \<or> int (length stack) \<ge> dl \<or> lim - 1 < 0")
    case True
    with "1.prems" bdecode_loop.simps [of dl sz start toks stack lim]
    show ?thesis by (auto simp: Let_def split: if_splits)
  next
    case False
    note ok = bdecode_step_ok [OF "1.prems"(1)]
    show ?thesis
    proof (cases "bdecode_step sz start toks stack")
      case (Inl res)
      with False "1.prems" ok bdecode_loop.simps [of dl sz start toks stack lim] show ?thesis
        by (auto simp: step_ok_def)
    next
      case (Inr res)
      obtain s' t' k' where res: "res = (s', t', k')" by (cases res)
      with Inr ok have st: "bdecode_inv sz s' t' k'" "length t' = Suc (length toks)" "length k' \<le> Suc (length stack)"
        by (auto simp: step_ok_def)
      show ?thesis
      proof (cases "k' = []")
        case True
        with False Inr res st "1.prems" bdecode_loop.simps [of dl sz start toks stack lim] show ?thesis
          by (auto simp: bdecode_inv_def)
      next
        case k: False
        with False Inr res "1.prems"(4) have "bdecode_loop dl sz s' t' k' (lim - 1) = (e, epos, r, toks', stack')"
          using bdecode_loop.simps [of dl sz start toks stack lim] by auto
        with "1.IH" [OF refl _ _ _ Inr res [symmetric] refl k st(1)] False st "1.prems" show ?thesis by auto
      qed
    qed
  qed
qed

lemma unwind_ok:
  assumes "tokens_ok (close_toks toks pos)" and "\<forall>f\<in>set stack. fst f < length toks"
  shows "tokens_ok (close_toks (unwind pos toks stack) pos)
    \<and> length (unwind pos toks stack) \<le> length toks + 3 * length stack"
  using assms
proof (induction pos toks stack rule: unwind.induct)
  case (2 pos toks ct s frames)
  let ?extra = "ttype (toks ! ct) = t_dict \<and> s = 1"
  let ?toks1 = "if ?extra then toks @ [mk_token pos 2 t_dict 0, mk_token pos 0 t_end 0] else toks"
  let ?toks2 = "?toks1[ct := (?toks1 ! ct)\<lparr>next_item := length ?toks1 - ct\<rparr>]"
  let ?toks3 = "?toks2 @ [mk_token pos 1 t_end 0]"
  have ct: "ct < length toks" using "2.prems" by simp
  have "tokens_ok (close_toks (toks @ [mk_token pos 0 t_dict 0]) pos)"
    using "2.prems"(1) by (rule tokens_ok_snoc) (auto simp: mk_token_def)
  then have "tokens_ok (close_toks ((toks @ [mk_token pos 0 t_dict 0]) @ [mk_token pos 0 t_end 0]) pos)"
    by (rule tokens_ok_snoc) (auto simp: mk_token_def)
  from tokens_ok_jump [OF this, of "length toks" 2]
  have "tokens_ok (close_toks ?toks1 pos)" using "2.prems"(1) by (simp add: list_update_append nth_append mk_token_def)
  then have "tokens_ok (close_toks ?toks2 pos)" by (rule tokens_ok_close_jump) (use ct in simp)
  then have ok: "tokens_ok (close_toks ?toks3 pos)" by (rule tokens_ok_snoc) (auto simp: mk_token_def)
  have fr: "\<forall>f\<in>set frames. fst f < length ?toks3" using "2.prems"(2) by (auto simp: less_Suc_eq)
  from "2.IH" [OF refl refl ok fr] show ?case by (auto simp: Let_def split: if_splits)
qed simp

lemma bdecode_result:
  assumes "bdecode buffer depth_limit token_limit = (node, e, epos)" and "length buffer \<le> max_offset"
    and "0 \<le> token_limit"
  shows "tokens_ok (root_tokens node) \<and> offset (last (root_tokens node)) \<le> length buffer
    \<and> epos \<le> length buffer \<and> nbuffer node = buffer
    \<and> int (length (root_tokens node)) \<le> token_limit + 3 * max 0 depth_limit + 1"
proof -
  have inv0: "bdecode_inv (length buffer) buffer [] []"
    by (simp add: bdecode_inv_def tokens_ok_def)
  obtain e' p r toks stack where l: "(if buffer = [] then (unexpected_eof, 0, [], [], [])
      else bdecode_loop depth_limit (length buffer) buffer [] [] token_limit) = (e', p, r, toks, stack)"
    by (metis prod_cases5)
  have ok: "bdecode_inv (length buffer) r toks stack" "p \<le> length buffer" "int (length toks) \<le> token_limit"
    "int (length stack) \<le> max 0 depth_limit"
    using l bdecode_loop_ok [OF inv0, of token_limit depth_limit e' p r toks stack] assms(3) inv0
    by (auto split: if_splits)
  let ?pos = "length buffer - length r"
  have "tokens_ok (close_toks (unwind ?pos toks stack) ?pos)
      \<and> length (unwind ?pos toks stack) \<le> length toks + 3 * length stack"
    by (rule unwind_ok) (use ok in \<open>auto simp: bdecode_inv_def\<close>)
  moreover have "node = mk_node (close_toks (unwind ?pos toks stack) ?pos) buffer 0" "epos = p"
    using assms(1,2) l by (auto simp: bdecode_def Let_def)
  ultimately show ?thesis using ok by (auto simp: mk_token_def mk_node_def)
qed

lemma tokens_ok_last: "tokens_ok T \<Longrightarrow> i < length T \<Longrightarrow> offset (T ! i) \<le> offset (last T)"
proof (induction "length T - i" arbitrary: i)
  case (Suc n)
  show ?case
  proof (cases "Suc i < length T")
    case True
    then have "offset (T ! i) \<le> offset (T ! Suc i)" using Suc.prems(1) by (simp add: tokens_ok_def)
    also have "\<dots> \<le> offset (last T)" using Suc True by simp
    finally show ?thesis .
  next
    case False
    with Suc.prems(2) have "length T = Suc i" by simp
    then have "last T = T ! i" by (metis diff_Suc_1 last_conv_nth length_0_conv nat.distinct(1))
    then show ?thesis by simp
  qed
qed simp

text \<open>
  C12: Whatever the input, also when it is rejected, the tokens are safe to walk: every jump from a token
  stays inside the token vector, and what lies between a token and the next one is inside the buffer,
  the contents of a string included, so that no accessor reads past the end.
\<close>

theorem bdecode_tokens_safe:
  assumes "bdecode buffer depth_limit token_limit = (node, e, epos)" and "length buffer \<le> max_offset"
    and "0 \<le> token_limit" and "Suc i < length (root_tokens node)"
  shows "let t = root_tokens node ! i; n = node\<lparr>token_idx := int i\<rparr> in
    i + next_item t < length (root_tokens node)
    \<and> offset t + token_source_span n (int i) \<le> length buffer
    \<and> (ttype t = t_string \<longrightarrow> length (string_value n) = string_length n
         \<and> offset t + start_offset t + string_length n = offset (root_tokens node ! Suc i))"
proof -
  let ?T = "root_tokens node" and ?n = "node\<lparr>token_idx := int i\<rparr>"
  define t where "t = ?T ! i"
  note r = bdecode_result [OF assms(1-3)]
  then have ok: "tokens_ok ?T" by simp
  then have t: "offset t \<le> offset (?T ! Suc i)" "i + next_item t < length ?T"
    "ttype t = t_string \<Longrightarrow> offset t + start_offset t \<le> offset (?T ! Suc i)"
    using assms(4) by (auto simp: tokens_ok_def t_def)
  have last: "offset (?T ! Suc i) \<le> length buffer" using tokens_ok_last [OF ok assms(4)] r by simp
  have span: "token_source_span ?n (int i) = offset (?T ! Suc i) - offset t"
    by (simp add: token_source_span_def token_at_def t_def nat_add_distrib)
  have "offset t + token_source_span ?n (int i) \<le> length buffer" using span t(1) last by simp
  moreover have "length (string_value ?n) = string_length ?n
      \<and> offset t + start_offset t + string_length ?n = offset (?T ! Suc i)" if "ttype t = t_string"
    using that t(3) last span r by (simp add: string_value_def string_length_def token_at_def t_def Let_def)
  ultimately show ?thesis using t(2) by (simp add: t_def Let_def)
qed

lemma bdecode_cut_list:
  "bdecode ''l1:ai7'' 10 100 = (mk_node [mk_token 0 2 t_list 0, mk_token 1 1 t_string 2,
     mk_token 4 1 t_end 0, mk_token 4 0 t_end 0] ''l1:ai7'' 0, unexpected_eof, 6)"
  by (simp add: bdecode_def bdecode_loop.simps bdecode_step_def bdecode_string_def Let_def in_dict_def
      flip_state_def mk_token_def check_integer_def numeric_iff digit_val_def mk_node_def)

theorem bdecode_tokens_safe_witness:
  "let n = fst (bdecode ''l1:ai7'' 10 100)\<lparr>token_idx := 1\<rparr>; t = root_tokens n ! 1 in
     ttype t = t_string \<and> length (string_value n) = string_length n
       \<and> offset t + start_offset t + string_length n = 4 \<and> 1 + next_item t < length (root_tokens n)"
  using bdecode_tokens_safe [OF bdecode_cut_list, of 1] by (simp add: bdecode_cut_list mk_node_def mk_token_def Let_def)

text \<open>
  C26: The decoder's limits bound its work: it keeps at most as many tokens as the token limit allows, plus
  three for each container that an error leaves open and the final one, and it reports an error at a
  position of the buffer. A buffer whose offsets do not fit a token is refused at once.
\<close>

theorem bdecode_bounded:
  assumes "bdecode buffer depth_limit token_limit = (node, e, epos)" and "0 \<le> token_limit" and "0 \<le> depth_limit"
  shows "int (length (root_tokens node)) \<le> token_limit + 3 * depth_limit + 1 \<and> epos \<le> length buffer
    \<and> (length buffer > max_offset \<longrightarrow> e = limit_exceeded \<and> node = no_node)"
proof (cases "length buffer \<le> max_offset")
  case True
  with bdecode_result [OF assms(1) True assms(2)] assms(3) show ?thesis by simp
next
  case False
  with assms show ?thesis by (auto simp: bdecode_def no_node_def)
qed

theorem bdecode_bounded_witness:
  "int (length (root_tokens (fst (bdecode ''l1:ai7'' 10 100)))) \<le> 100 + 3 * 10 + 1
     \<and> snd (snd (bdecode ''l1:ai7'' 10 100)) \<le> 6"
  using bdecode_bounded [OF bdecode_cut_list] by (simp add: bdecode_cut_list)

text \<open>The number a run of digits denotes.\<close>

definition digits_value :: "bytes \<Rightarrow> int \<Rightarrow> int" where
  "digits_value ds v = fold (\<lambda>c v. v * 10 + digit_val c) ds v"

lemma digits_value_ge: "\<forall>c\<in>set ds. numeric c \<Longrightarrow> 0 \<le> v \<Longrightarrow> v \<le> digits_value ds v"
proof (induction ds arbitrary: v)
  case (Cons c ds)
  have "0 \<le> digit_val c" using Cons.prems by (simp add: numeric_iff digit_val_def)
  with Cons.prems have "v \<le> v * 10 + digit_val c" by simp
  also have "\<dots> \<le> digits_value ds (v * 10 + digit_val c)"
    using Cons \<open>0 \<le> digit_val c\<close> by (intro Cons.IH) auto
  finally show ?case by (simp add: digits_value_def)
qed (simp add: digits_value_def)

text \<open>
  C28: \<open>parse_int\<close> never wraps around: on a run of digits that ends at the delimiter it returns the exact
  number where it fits 64 bits, with the rest from the delimiter on, and \<open>overflow\<close> where it does not.
\<close>

theorem parse_int_exact:
  assumes "\<forall>c\<in>set ds. numeric c" and "\<not> numeric d" and "0 \<le> v" and "v \<le> int64_max"
  shows "if digits_value ds v \<le> int64_max
    then parse_int (ds @ d # rest) d v = (d # rest, digits_value ds v, no_error)
    else snd (snd (parse_int (ds @ d # rest) d v)) = overflow"
  using assms
proof (induction ds arbitrary: v)
  case (Cons c ds)
  have c: "numeric c" "c \<noteq> d" "0 \<le> digit_val c" "digit_val c \<le> 9"
    using Cons.prems by (auto simp: numeric_iff digit_val_def)
  let ?v = "v * 10 + digit_val c"
  have ge: "?v \<le> digits_value ds ?v" using Cons.prems c by (intro digits_value_ge) auto
  have val: "digits_value (c # ds) v = digits_value ds ?v" by (simp add: digits_value_def)
  show ?case
  proof (cases "?v \<le> int64_max")
    case True
    then have "parse_int ((c # ds) @ d # rest) d v = parse_int (ds @ d # rest) d ?v" using c by simp
    with Cons.IH [of ?v] Cons.prems c True show ?thesis unfolding val by simp
  next
    case False
    with ge have "\<not> digits_value (c # ds) v \<le> int64_max" unfolding val by simp
    with False c show ?thesis by simp
  qed
qed (simp add: digits_value_def)

theorem parse_int_exact_witness:
  "parse_int ''427:x'' CHR '':'' 0 = ('':x'', 427, no_error)
     \<and> snd (snd (parse_int ''9223372036854775808:'' CHR '':'' 0)) = overflow"
proof -
  have "digits_value ''427'' 0 = 427" "digits_value ''9223372036854775808'' 0 = int64_max + 1"
    by (simp_all add: digits_value_def digit_val_def)
  with parse_int_exact [of "''427''" "CHR '':''" 0 "''x''"]
    parse_int_exact [of "''9223372036854775808''" "CHR '':''" 0 "[]"]
  show ?thesis by (simp add: numeric_iff)
qed

text \<open>The cache of a node: the position of the item it looked up last, \<open>w\<close> tokens per item.\<close>

definition cache_ok :: "nat \<Rightarrow> bdecode_node \<Rightarrow> bool" where
  "cache_ok w n \<longleftrightarrow> last_index n = -1
     \<or> 0 \<le> last_index n \<and> last_token n = skip_items n (w * nat (last_index n)) (token_idx n + 1)"

lemma skip_items_add: "skip_items n (a + b) t = skip_items n b (skip_items n a t)"
  by (induction a arbitrary: t) auto

lemma skip_items_cache [simp]: "skip_items (n\<lparr>last_token := a, last_index := b\<rparr>) k t = skip_items n k t"
  by (induction k arbitrary: t) (auto simp: token_at_def)

lemma skip_from_cache:
  assumes "cache_ok w n" and "0 \<le> i" and "last_index n \<le> i" and "last_index n \<noteq> -1"
  shows "skip_items n (w * nat (i - last_index n)) (last_token n) = skip_items n (w * nat i) (token_idx n + 1)"
proof -
  have "w * nat i = w * nat (last_index n) + w * nat (i - last_index n)"
    using assms by (simp add: cache_ok_def nat_diff_distrib flip: distrib_left)
  with assms show ?thesis by (simp add: cache_ok_def skip_items_add)
qed

lemma skip_items_fresh [simp]: "skip_items (mk_node (root_tokens n) b j) k t = skip_items n k t"
  by (induction k arbitrary: t) (auto simp: token_at_def mk_node_def)

lemma list_at_walk:
  assumes "cache_ok 1 n" and "0 \<le> i"
  shows "list_at n i = (let t = skip_items n (nat i) (token_idx n + 1) in
    (mk_node (root_tokens n) (nbuffer n) t, n\<lparr>last_token := t, last_index := i\<rparr>))"
  using skip_from_cache [OF assms] by (auto simp: list_at_def Let_def)

lemma dict_at_walk:
  assumes "cache_ok 2 n" and "0 \<le> i"
  shows "dict_at n i = (let t = skip_items n (2 * nat i) (token_idx n + 1) in
    ((string_value (mk_node (root_tokens n) (nbuffer n) t),
      mk_node (root_tokens n) (nbuffer n) (t + int (next_item (token_at n t)))),
     if i > 0 then n\<lparr>last_token := t, last_index := i\<rparr> else n))"
  using skip_from_cache [OF assms] by (auto simp: dict_at_def Let_def)

text \<open>The node as its constructor makes it, without a cache.\<close>

definition fresh_node :: "bdecode_node \<Rightarrow> bdecode_node" where
  "fresh_node n = mk_node (root_tokens n) (nbuffer n) (token_idx n)"

lemma fresh_node_simps [simp]:
  "root_tokens (fresh_node n) = root_tokens n" "nbuffer (fresh_node n) = nbuffer n"
  "token_idx (fresh_node n) = token_idx n" "skip_items (fresh_node n) k t = skip_items n k t"
  "token_at (fresh_node n) j = token_at n j" "cache_ok w (fresh_node n)"
  by (simp_all add: fresh_node_def) (simp_all add: mk_node_def token_at_def cache_ok_def)

text \<open>
  A sequence of accesses to one node, threading its cache. On a list the code asserts the type and that an index is below the
  size, on a dictionary likewise; \<open>w\<close> is the number of tokens of an item, \<open>sz\<close> the number of items.
\<close>

datatype access = List_at int | List_size | Dict_at int | Dict_size

datatype answer = Item bdecode_node | Pair_item "bytes \<times> bdecode_node" | Size "int option"

definition size_answer :: "bdecode_node \<Rightarrow> (int \<times> bdecode_node) option \<Rightarrow> answer \<times> bdecode_node" where
  "size_answer n r = (case r of None \<Rightarrow> (Size None, n) | Some (sz, n') \<Rightarrow> (Size (Some sz), n'))"

fun perform :: "access \<Rightarrow> bdecode_node \<Rightarrow> answer \<times> bdecode_node" where
  "perform (List_at i) n = (Item (fst (list_at n i)), snd (list_at n i))"
| "perform List_size n = size_answer n (list_size n)"
| "perform (Dict_at i) n = (Pair_item (fst (dict_at n i)), snd (dict_at n i))"
| "perform Dict_size n = size_answer n (dict_size n)"

primrec accesses :: "access list \<Rightarrow> bdecode_node \<Rightarrow> answer list" where
  "accesses [] n = []"
| "accesses (a # as) n = fst (perform a n) # accesses as (snd (perform a n))"

fun access_ok :: "nat \<Rightarrow> int \<Rightarrow> access \<Rightarrow> bool" where
  "access_ok w sz (List_at i) \<longleftrightarrow> w = 1 \<and> 0 \<le> i \<and> i < sz"
| "access_ok w sz List_size \<longleftrightarrow> w = 1"
| "access_ok w sz (Dict_at i) \<longleftrightarrow> w = 2 \<and> 0 \<le> i \<and> i < sz"
| "access_ok w sz Dict_size \<longleftrightarrow> w = 2"

text \<open>The tokens of a container up to its end, counted from its first item.\<close>

definition items_counted :: "nat \<Rightarrow> int \<Rightarrow> bdecode_node \<Rightarrow> bool" where
  "items_counted w sz n \<longleftrightarrow> count_items n (length (root_tokens n)) (token_idx n + 1) 0 = Some (int w * sz)"

lemma count_items_fuel: "count_items n k t r = Some c \<Longrightarrow> k \<le> k' \<Longrightarrow> count_items n k' t r = Some c"
proof (induction k arbitrary: k' t r)
  case (Suc k)
  then obtain k'' where "k' = Suc k''" "k \<le> k''" by (cases k') auto
  with Suc show ?case by (auto split: if_splits)
qed simp

lemma count_items_ge: "count_items n k t r = Some c \<Longrightarrow> r \<le> c"
  by (induction k arbitrary: t r) (force split: if_splits)+

lemma count_items_skip:
  "count_items n k t r = Some c \<Longrightarrow> r + int m \<le> c \<Longrightarrow> count_items n k (skip_items n m t) (r + int m) = Some c"
proof (induction m arbitrary: t r)
  case (Suc m)
  then obtain k' where k: "k = Suc k'" by (cases k) auto
  with Suc.prems have "ttype (token_at n t) \<noteq> t_end" by auto
  with Suc.prems k have "count_items n k' (t + int (next_item (token_at n t))) (r + 1) = Some c" by simp
  then have "count_items n k (t + int (next_item (token_at n t))) (r + 1) = Some c" by (rule count_items_fuel) (simp add: k)
  from Suc.IH [OF this] Suc.prems show ?case by (simp add: ac_simps)
qed simp

lemma count_items_cache [simp]:
  "count_items (n\<lparr>last_token := a, last_index := b\<rparr>) k t r = count_items n k t r" "count_items (n\<lparr>msize := z\<rparr>) k t r = count_items n k t r"
  "count_items (fresh_node n) k t r = count_items n k t r"
  by (induction k arbitrary: t r) (simp_all add: token_at_def)

text \<open>What the cache of a container of \<open>sz\<close> items may hold.\<close>

definition cache_sized :: "nat \<Rightarrow> int \<Rightarrow> bdecode_node \<Rightarrow> bool" where
  "cache_sized w sz n \<longleftrightarrow> cache_ok w n \<and> items_counted w sz n \<and> (last_index n = -1 \<or> last_index n \<le> sz) \<and> msize n \<in> {-1, sz}"

lemma count_from_cache:
  assumes "cache_sized w sz n" and "last_index n \<noteq> -1"
  shows "count_items n (length (root_tokens n)) (last_token n) (int w * last_index n) = Some (int w * sz)"
proof -
  have i: "0 \<le> last_index n" "last_token n = skip_items n (w * nat (last_index n)) (token_idx n + 1)" "last_index n \<le> sz"
    using assms by (auto simp: cache_sized_def cache_ok_def)
  have "int (w * nat (last_index n)) = int w * last_index n" using i(1) by simp
  moreover have "int w * last_index n \<le> int w * sz" using i(3) by (simp add: mult_left_mono)
  ultimately show ?thesis
    using count_items_skip [of n "length (root_tokens n)" "token_idx n + 1" 0 "int w * sz" "w * nat (last_index n)"] assms(1) i(2)
    by (simp add: cache_sized_def items_counted_def i(1))
qed

lemma sizes_from_cache:
  "cache_sized 1 sz n \<Longrightarrow> list_size n = Some (sz, n\<lparr>msize := sz\<rparr>)"
  "cache_sized 2 sz n \<Longrightarrow> 0 \<le> sz \<Longrightarrow> dict_size n = Some (sz, n\<lparr>msize := sz\<rparr>)"
proof -
  show "list_size n = Some (sz, n\<lparr>msize := sz\<rparr>)" if c: "cache_sized 1 sz n"
    using c count_from_cache [OF c] by (auto simp: list_size_def cache_sized_def items_counted_def Let_def)
  show "dict_size n = Some (sz, n\<lparr>msize := sz\<rparr>)" if c: "cache_sized 2 sz n" "0 \<le> sz"
    using c count_from_cache [OF c(1)] by (auto simp: dict_size_def cache_sized_def items_counted_def Let_def mult.commute)
qed

lemma cache_fields [simp]:
  "cache_ok w (n\<lparr>msize := z\<rparr>) = cache_ok w n" "items_counted w sz (n\<lparr>msize := z\<rparr>) = items_counted w sz n"
  "items_counted w sz (n\<lparr>last_token := a, last_index := b\<rparr>) = items_counted w sz n"
proof -
  have "skip_items (n\<lparr>msize := z\<rparr>) k t = skip_items n k t" for k t by (induction k arbitrary: t) (auto simp: token_at_def)
  then show "cache_ok w (n\<lparr>msize := z\<rparr>) = cache_ok w n" by (simp add: cache_ok_def)
qed (simp_all add: items_counted_def)

lemma cache_sized_update:
  "cache_sized w sz n \<Longrightarrow> cache_sized w sz (n\<lparr>msize := sz\<rparr>)"
  "cache_sized w sz n \<Longrightarrow> 0 \<le> i \<Longrightarrow> i < sz \<Longrightarrow> t = skip_items n (w * nat i) (token_idx n + 1) \<Longrightarrow>
    cache_sized w sz (n\<lparr>last_token := t, last_index := i\<rparr>)"
proof -
  show "cache_sized w sz n \<Longrightarrow> cache_sized w sz (n\<lparr>msize := sz\<rparr>)" by (simp add: cache_sized_def)
  assume a: "cache_sized w sz n" "0 \<le> i" "i < sz" "t = skip_items n (w * nat i) (token_idx n + 1)"
  then have "cache_ok w (n\<lparr>last_token := t, last_index := i\<rparr>)" by (simp add: cache_ok_def)
  with a show "cache_sized w sz (n\<lparr>last_token := t, last_index := i\<rparr>)" by (simp add: cache_sized_def)
qed

lemma access_cached:
  assumes "cache_sized w sz n" and "access_ok w sz a" and "0 \<le> sz"
  shows "fst (perform a n) = fst (perform a (fresh_node n))" and "cache_sized w sz (snd (perform a n))"
    and "fresh_node (snd (perform a n)) = fresh_node n"
proof -
  have f: "cache_sized w sz (fresh_node n)" using assms(1) by (simp add: cache_sized_def items_counted_def) (simp add: fresh_node_def mk_node_def)
  have c: "cache_ok w n" "cache_ok w (fresh_node n)" using assms(1) by (simp_all add: cache_sized_def)
  note sizes = sizes_from_cache [of sz] and up = cache_sized_update [OF assms(1)]
  have same: "fresh_node (n\<lparr>last_token := t, last_index := i\<rparr>) = fresh_node n" "fresh_node (n\<lparr>msize := z\<rparr>) = fresh_node n" for t i z
    by (simp_all add: fresh_node_def)
  show "fst (perform a n) = fst (perform a (fresh_node n))"
    using assms c f sizes by (cases a) (simp_all add: list_at_walk dict_at_walk size_answer_def Let_def)
  show "cache_sized w sz (snd (perform a n))"
    using assms c up sizes by (cases a) (simp_all add: list_at_walk dict_at_walk size_answer_def Let_def)
  show "fresh_node (snd (perform a n)) = fresh_node n"
    using assms c sizes same by (cases a) (simp_all add: list_at_walk dict_at_walk size_answer_def Let_def)
qed

text \<open>
  C27: The cache in the mutable fields of a node is invisible. Whatever sequence of accesses is made to a list or a dictionary
  (whose tokens up to its end make up that many items, or pairs of key and value), with indices below its size, each of \<open>list_at\<close>, \<open>list_size\<close>, \<open>dict_at\<close> and \<open>dict_size\<close> returns what it returns on
  a node whose last index, last token and size are not cached.
\<close>

theorem node_cache_transparent:
  assumes "items_counted w sz n" and "0 \<le> sz" and "list_all (access_ok w sz) as"
  shows "accesses as (fresh_node n) = map (\<lambda>a. fst (perform a (fresh_node n))) as"
proof -
  have "accesses as m = map (\<lambda>a. fst (perform a (fresh_node m))) as" if "cache_sized w sz m" "list_all (access_ok w sz) as" for m as
    using that
  proof (induction as arbitrary: m)
    case (Cons a as)
    then have "access_ok w sz a" by simp
    with Cons access_cached [OF Cons.prems(1) _ assms(2), of a] show ?case by simp
  qed simp
  moreover have "cache_sized w sz (fresh_node n)"
    using assms(1) by (simp add: cache_sized_def items_counted_def) (simp add: fresh_node_def mk_node_def)
  moreover have "fresh_node (fresh_node n) = fresh_node n" by (simp add: fresh_node_def mk_node_def)
  ultimately show ?thesis using assms(3) by metis
qed

text \<open>The list of the witness: \<open>l1:ai7\<close> is cut off after its first item; it is closed there, so it has one item.\<close>

theorem node_cache_transparent_witness:
  "let n = fst (bdecode ''l1:ai7'' 10 100); as = [List_at 0, List_size, List_at 0, List_size] in
     items_counted 1 1 n \<and> accesses as n = map (\<lambda>a. fst (perform a n)) as \<and> fst (perform List_size n) = Size (Some 1)"
proof -
  let ?n = "fst (bdecode ''l1:ai7'' 10 100)" and ?as = "[List_at 0, List_size, List_at 0, List_size]"
  have n: "items_counted 1 1 ?n" by (simp add: bdecode_cut_list items_counted_def mk_node_def mk_token_def token_at_def)
  have "fresh_node ?n = ?n" by (simp add: bdecode_cut_list fresh_node_def mk_node_def)
  with node_cache_transparent [OF n, of ?as] have "accesses ?as ?n = map (\<lambda>a. fst (perform a ?n)) ?as" by simp
  moreover have "fst (perform List_size ?n) = Size (Some 1)"
    by (simp add: bdecode_cut_list size_answer_def list_size_def mk_node_def mk_token_def token_at_def Let_def)
  ultimately show ?thesis using n by (simp add: Let_def)
qed

end
