(* ===== verification/Picker_Data.thy ===== *)
theory Picker_Data
  imports Prelude
begin

text \<open>
  The data of \<open>piece_picker\<close> (\<open>piece_picker.hpp\<close>): what it knows of each piece, the pieces that are being
  downloaded with their blocks, the list of the pieces that can be picked, and the counters, with the
  functions that only read them.

  Piece indices and positions in \<open>m_pieces\<close> are natural numbers; the value \<open>-1\<close> of these 32 bit types is
  their bit pattern \<open>0xffffffff\<close>. Bit fields wrap around at their width. The random generator is an
  arbitrary sequence of numbers from which \<open>random\<close> draws, so that what is proved holds for every
  choice it can make.
\<close>

section \<open>Bit fields\<close>

definition bits_inc :: "nat \<Rightarrow> nat \<Rightarrow> nat" where
  "bits_inc w x = (x + 1) mod 2 ^ w"

definition bits_dec :: "nat \<Rightarrow> nat \<Rightarrow> nat" where
  "bits_dec w x = (x + 2 ^ w - 1) mod 2 ^ w"

lemma bits_inc_less [simp]: "x + 1 < 2 ^ w \<Longrightarrow> bits_inc w x = x + 1"
  by (simp add: bits_inc_def)

lemma bits_dec_pos [simp]: "0 < x \<Longrightarrow> x < 2 ^ w \<Longrightarrow> bits_dec w x = x - 1"
proof -
  assume "0 < x" "x < 2 ^ w"
  then have "(x + 2 ^ w - 1) mod 2 ^ w = (x - 1 + 2 ^ w) mod 2 ^ w" by simp
  with \<open>x < 2 ^ w\<close> show ?thesis by (simp only: bits_dec_def mod_add_self2) simp
qed

section \<open>Pieces\<close>

abbreviation minus_one :: nat where "minus_one \<equiv> 4294967295"

datatype download_queue_t =
    piece_downloading | piece_full | piece_finished | piece_zero_prio
  | piece_open | piece_downloading_reverse | piece_full_reverse

record piece_pos =
  peer_count :: nat
  pstate :: download_queue_t
  piece_priority :: nat
  pindex :: nat

abbreviation we_have_index :: nat where "we_have_index \<equiv> minus_one"
abbreviation priority_levels :: nat where "priority_levels \<equiv> 8"
abbreviation prio_factor :: nat where "prio_factor \<equiv> 3"
abbreviation default_priority :: nat where "default_priority \<equiv> 4"
abbreviation max_blocks_per_piece :: nat where "max_blocks_per_piece \<equiv> 2 ^ 15 - 1"
abbreviation max_pieces :: nat where "max_pieces \<equiv> 2 ^ 31 - 2"

definition new_piece_pos :: "nat \<Rightarrow> nat \<Rightarrow> piece_pos" where
  "new_piece_pos cnt idx =
     \<lparr>peer_count = cnt mod 2 ^ 16, pstate = piece_open, piece_priority = default_priority, pindex = idx\<rparr>"

definition download_queue :: "piece_pos \<Rightarrow> download_queue_t" where
  "download_queue p =
     (if pstate p = piece_downloading_reverse then piece_downloading
      else if pstate p = piece_full_reverse then piece_full
      else pstate p)"

definition is_reverse :: "piece_pos \<Rightarrow> bool" where
  "is_reverse p \<longleftrightarrow> pstate p = piece_downloading_reverse \<or> pstate p = piece_full_reverse"

definition unreverse :: "piece_pos \<Rightarrow> piece_pos" where
  "unreverse p =
     (if pstate p = piece_downloading_reverse then p\<lparr>pstate := piece_downloading\<rparr>
      else if pstate p = piece_full_reverse then p\<lparr>pstate := piece_full\<rparr>
      else p)"

definition make_reverse :: "piece_pos \<Rightarrow> piece_pos" where
  "make_reverse p =
     (if pstate p = piece_downloading then p\<lparr>pstate := piece_downloading_reverse\<rparr>
      else if pstate p = piece_full then p\<lparr>pstate := piece_full_reverse\<rparr>
      else p)"

definition is_have :: "piece_pos \<Rightarrow> bool" where
  "is_have p \<longleftrightarrow> pindex p = we_have_index"

definition set_have :: "piece_pos \<Rightarrow> piece_pos" where
  "set_have p = p\<lparr>pindex := we_have_index\<rparr>"

definition set_not_have :: "piece_pos \<Rightarrow> piece_pos" where
  "set_not_have p = p\<lparr>pindex := 0\<rparr>"

definition downloading :: "piece_pos \<Rightarrow> bool" where
  "downloading p \<longleftrightarrow> pstate p \<noteq> piece_open"

definition filtered :: "piece_pos \<Rightarrow> bool" where
  "filtered p \<longleftrightarrow> piece_priority p = 0"

text \<open>The position of a piece in the order in which pieces are picked, \<open>-1\<close> for one not to be picked.\<close>

definition priority :: "int \<Rightarrow> piece_pos \<Rightarrow> int" where
  "priority seeds p =
     (if filtered p \<or> is_have p \<or> int (peer_count p) + seeds = 0
         \<or> pstate p = piece_full \<or> pstate p = piece_finished
      then -1
      else
        let adjustment = (if is_reverse p then -1 else if pstate p \<noteq> piece_open then -3 else -2);
            availability = int (peer_count p) + 1
        in availability * (int priority_levels - int (piece_priority p)) * int prio_factor + adjustment)"

section \<open>Blocks and downloading pieces\<close>

datatype block_state = state_none | state_requested | state_writing | state_finished

record block_info =
  bpeer :: "nat option"
  num_peers_of :: nat
  bstate :: block_state

definition new_block_info :: block_info where
  "new_block_info = \<lparr>bpeer = None, num_peers_of = 0, bstate = state_none\<rparr>"

record downloading_piece =
  dindex :: nat
  info_idx :: nat
  finished :: nat
  passed_hash_check :: bool
  writing :: nat
  locked :: bool
  requested :: nat
  outstanding_hash_check :: bool

definition new_downloading_piece :: downloading_piece where
  "new_downloading_piece =
     \<lparr>dindex = 2 ^ 31 - 1, info_idx = 2 ^ 16 - 1, finished = 0, passed_hash_check = False, writing = 0,
      locked = False, requested = 0, outstanding_hash_check = False\<rparr>"

section \<open>The piece picker\<close>

record piece_picker =
  m_piece_map :: "piece_pos list"
  m_pad_blocks :: "bool list"
  m_pads_in_piece :: "nat \<rightharpoonup> nat"
  m_recent_extents :: "nat list"
  m_num_pad_blocks :: int
  m_have_pad_blocks :: int
  m_filtered_pad_blocks :: int
  m_have_filtered_pad_blocks :: int
  m_seeds :: int
  m_num_passed :: int
  m_pieces :: "nat list"
  m_priority_boundaries :: "nat list"
  m_downloads :: "download_queue_t \<Rightarrow> downloading_piece list"
  m_block_info :: "block_info list"
  m_free_block_infos :: "nat list"
  m_blocks_per_piece :: nat
  m_blocks_in_last_piece :: nat
  m_num_filtered :: int
  m_num_have_filtered :: int
  m_cursor :: nat
  m_reverse_cursor :: nat
  m_num_have :: int
  m_dirty :: bool
  rng :: "nat \<Rightarrow> nat"

text \<open>\<open>random(max)\<close> draws a number from \<open>0\<close> to \<open>max\<close>, both included.\<close>

definition random :: "nat \<Rightarrow> (nat \<Rightarrow> nat) \<Rightarrow> nat \<times> (nat \<Rightarrow> nat)" where
  "random mx g = (g 0 mod (mx + 1), \<lambda>n. g (Suc n))"

abbreviation num_pieces :: "piece_picker \<Rightarrow> nat" where
  "num_pieces s \<equiv> length (m_piece_map s)"

abbreviation piece_at :: "piece_picker \<Rightarrow> nat \<Rightarrow> piece_pos" where
  "piece_at s i \<equiv> m_piece_map s ! i"

definition prio_of :: "piece_picker \<Rightarrow> nat \<Rightarrow> int" where
  "prio_of s i = priority (m_seeds s) (piece_at s i)"

definition set_piece :: "nat \<Rightarrow> (piece_pos \<Rightarrow> piece_pos) \<Rightarrow> piece_picker \<Rightarrow> piece_picker" where
  "set_piece i f s = s\<lparr>m_piece_map := (m_piece_map s)[i := f (piece_at s i)]\<rparr>"

text \<open>The loops that move the cursors over pieces we have or do not want.\<close>

function scan_cursor :: "piece_pos list \<Rightarrow> nat \<Rightarrow> nat" where
  "scan_cursor ps c =
     (if c < length ps \<and> (is_have (ps ! c) \<or> filtered (ps ! c)) then scan_cursor ps (c + 1) else c)"
  by pat_completeness auto
termination by (relation "measure (\<lambda>(ps, c). length ps - c)") auto

declare scan_cursor.simps [simp del]

fun scan_reverse_cursor :: "piece_pos list \<Rightarrow> nat \<Rightarrow> nat" where
  "scan_reverse_cursor ps 0 = 0"
| "scan_reverse_cursor ps (Suc c) =
     (if is_have (ps ! c) \<or> filtered (ps ! c) then scan_reverse_cursor ps c else Suc c)"

text \<open>
  \<open>resize\<close>; \<open>Inl\<close> where it throws. Growing the map keeps the priorities the pieces had. \<open>numeric_cast\<close>
  only checks its argument in debug builds.
\<close>

datatype picker_error = invalid_piece_size

definition resize :: "nat \<Rightarrow> nat \<Rightarrow> nat \<Rightarrow> piece_picker \<Rightarrow> picker_error + piece_picker" where
  "resize blocks_per_piece blocks_in_last_piece total_num_pieces s =
     (if blocks_per_piece > max_blocks_per_piece then Inl invalid_piece_size
      else
        let resized = take total_num_pieces (m_piece_map s)
              @ replicate (total_num_pieces - length (m_piece_map s)) (new_piece_pos 0 0);
            pm = map (\<lambda>m. m\<lparr>peer_count := 0, pstate := piece_open, pindex := 0\<rparr>) resized
        in Inr (s\<lparr>m_piece_map := pm,
               m_downloads := (\<lambda>_. []), m_block_info := [], m_free_block_infos := [],
               m_num_filtered := m_num_filtered s + m_num_have_filtered s,
               m_num_have_filtered := 0, m_num_have := 0,
               m_have_pad_blocks := 0, m_filtered_pad_blocks := 0, m_have_filtered_pad_blocks := 0,
               m_num_passed := 0, m_dirty := True,
               m_cursor := scan_cursor pm 0,
               m_reverse_cursor := scan_reverse_cursor pm (length pm),
               m_blocks_per_piece := blocks_per_piece mod 2 ^ 16,
               m_blocks_in_last_piece :=
                 (if blocks_in_last_piece mod 2 ^ 16 = 0 then blocks_per_piece mod 2 ^ 16
                  else blocks_in_last_piece mod 2 ^ 16)\<rparr>))"

definition new_picker :: "(nat \<Rightarrow> nat) \<Rightarrow> nat \<Rightarrow> nat \<Rightarrow> nat \<Rightarrow> picker_error + piece_picker" where
  "new_picker g blocks_per_piece blocks_in_last_piece total_num_pieces =
     resize blocks_per_piece blocks_in_last_piece total_num_pieces
       \<lparr>m_piece_map = [], m_pad_blocks = [], m_pads_in_piece = (\<lambda>_. None), m_recent_extents = [],
        m_num_pad_blocks = 0, m_have_pad_blocks = 0, m_filtered_pad_blocks = 0,
        m_have_filtered_pad_blocks = 0, m_seeds = 0, m_num_passed = 0, m_pieces = [],
        m_priority_boundaries = [0], m_downloads = (\<lambda>_. []), m_block_info = [],
        m_free_block_infos = [], m_blocks_per_piece = 0, m_blocks_in_last_piece = 0,
        m_num_filtered = 0, m_num_have_filtered = 0, m_cursor = 0, m_reverse_cursor = 0,
        m_num_have = 0, m_dirty = False, rng = g\<rparr>"

definition have_piece :: "piece_picker \<Rightarrow> nat \<Rightarrow> bool" where
  "have_piece s i \<longleftrightarrow> pindex (piece_at s i) = we_have_index"

definition blocks_in_piece :: "piece_picker \<Rightarrow> nat \<Rightarrow> nat" where
  "blocks_in_piece s i = (if i + 1 = num_pieces s then m_blocks_in_last_piece s else m_blocks_per_piece s)"

definition pad_blocks_in_piece :: "piece_picker \<Rightarrow> nat \<Rightarrow> nat" where
  "pad_blocks_in_piece s i = (case m_pads_in_piece s i of None \<Rightarrow> 0 | Some n \<Rightarrow> n)"

definition is_piece_free :: "piece_picker \<Rightarrow> nat \<Rightarrow> (nat \<Rightarrow> bool) \<Rightarrow> bool" where
  "is_piece_free s i bitmask \<longleftrightarrow> bitmask i \<and> \<not> is_have (piece_at s i) \<and> \<not> filtered (piece_at s i)"

definition can_pick :: "piece_picker \<Rightarrow> nat \<Rightarrow> (nat \<Rightarrow> bool) \<Rightarrow> bool" where
  "can_pick s i bitmask \<longleftrightarrow> bitmask i \<and> \<not> is_have (piece_at s i) \<and> \<not> downloading (piece_at s i)
     \<and> \<not> filtered (piece_at s i)"

definition piece_priorities :: "piece_picker \<Rightarrow> nat list" where
  "piece_priorities s = map piece_priority (m_piece_map s)"

definition get_availability :: "piece_picker \<Rightarrow> int list" where
  "get_availability s = map (\<lambda>p. int (peer_count p) + m_seeds s) (m_piece_map s)"

text \<open>\<open>distributed_copies\<close>: the loop over the pieces, with the lowest availability, how many have it, how many more.\<close>

fun copies_loop :: "piece_pos list \<Rightarrow> int \<Rightarrow> int \<Rightarrow> int \<Rightarrow> int \<times> int \<times> int" where
  "copies_loop [] mn ip fp = (mn, ip, fp)"
| "copies_loop (p # ps) mn ip fp =
     (let pc = int (peer_count p) + (if is_have p then 1 else 0) in
      if mn > pc then copies_loop ps pc 1 (fp + ip)
      else if pc = mn then copies_loop ps mn (ip + 1) fp
      else copies_loop ps mn ip (fp + 1))"

definition distributed_copies :: "piece_picker \<Rightarrow> int \<times> int" where
  "distributed_copies s =
     (if num_pieces s = 0 then (1, 0)
      else case copies_loop (m_piece_map s) 65535 0 0 of
             (mn, ip, fp) \<Rightarrow> (mn + m_seeds s, tdiv (fp * 1000) (int (num_pieces s))))"

text \<open>The counts of pieces that are derived from the counters.\<close>

record piece_count =
  pc_num_pieces :: int
  pc_pad_blocks :: int
  pc_last_piece :: bool

definition want :: "piece_picker \<Rightarrow> piece_count" where
  "want s =
     \<lparr>pc_num_pieces = int (num_pieces s) - m_num_filtered s - m_num_have_filtered s,
      pc_pad_blocks = m_num_pad_blocks s - m_filtered_pad_blocks s - m_have_filtered_pad_blocks s,
      pc_last_piece = (piece_priority (piece_at s (num_pieces s - 1)) \<noteq> 0)\<rparr>"

definition have_want :: "piece_picker \<Rightarrow> piece_count" where
  "have_want s =
     \<lparr>pc_num_pieces = m_num_have s - m_num_have_filtered s,
      pc_pad_blocks = m_have_pad_blocks s - m_have_filtered_pad_blocks s,
      pc_last_piece = (have_piece s (num_pieces s - 1) \<and> piece_priority (piece_at s (num_pieces s - 1)) \<noteq> 0)\<rparr>"

definition have_pieces :: "piece_picker \<Rightarrow> piece_count" where
  "have_pieces s =
     \<lparr>pc_num_pieces = m_num_have s, pc_pad_blocks = m_have_pad_blocks s,
      pc_last_piece = have_piece s (num_pieces s - 1)\<rparr>"

definition all_pieces :: "piece_picker \<Rightarrow> piece_count" where
  "all_pieces s =
     \<lparr>pc_num_pieces = int (num_pieces s), pc_pad_blocks = m_num_pad_blocks s, pc_last_piece = True\<rparr>"

definition picker_is_finished :: "piece_picker \<Rightarrow> bool" where
  "picker_is_finished s \<longleftrightarrow> int (num_pieces s) - m_num_filtered s \<le> m_num_passed s"

definition is_seeding :: "piece_picker \<Rightarrow> bool" where
  "is_seeding s \<longleftrightarrow> m_num_have s = int (num_pieces s)"

definition num_want_left :: "piece_picker \<Rightarrow> int" where
  "num_want_left s = int (num_pieces s) - m_num_have s - m_num_filtered s + m_num_have_filtered s"

end
