(* ===== verification/Picker_List.thy ===== *)
theory Picker_List
  imports Picker_Data "HOL-Library.Multiset"
begin

text \<open>
  The list of the pieces that can be picked (\<open>m_pieces\<close>), sorted by priority, with the end of every priority's
  range in \<open>m_priority_boundaries\<close> and every piece's position in its \<open>index\<close> (\<open>add\<close>, \<open>remove\<close>, \<open>update\<close>,
  \<open>shuffle\<close> and \<open>update_pieces\<close> of \<open>piece_picker.cpp\<close>). A piece changes its range by a chain of swaps, one
  per range in between, instead of moving all the pieces behind it.

  The loops run on the three vectors they change; the operations put them back into the picker.
\<close>

section \<open>The operations\<close>

type_synonym plist = "piece_pos list \<times> nat list \<times> nat list"

definition priority_begin :: "nat list \<Rightarrow> nat \<Rightarrow> nat" where
  "priority_begin bounds prio = (if prio = 0 then 0 else bounds ! (prio - 1))"

definition priority_end :: "nat list \<Rightarrow> nat \<Rightarrow> nat" where
  "priority_end bounds prio = bounds ! prio"

definition priority_range :: "nat list \<Rightarrow> nat \<Rightarrow> nat \<times> nat" where
  "priority_range bounds prio = (priority_begin bounds prio, priority_end bounds prio)"

text \<open>A piece is put at a position of the list, and told so.\<close>

definition place :: "nat \<Rightarrow> nat \<Rightarrow> plist \<Rightarrow> plist" where
  "place i x pl = (case pl of (pm, pcs, bounds) \<Rightarrow>
     (pm[x := (pm ! x)\<lparr>pindex := i\<rparr>], pcs[i := x], bounds))"

text \<open>The inner loop of \<open>add\<close>: it returns the boundaries, \<open>temp\<close> and the next priority.\<close>

function add_scan :: "nat list \<Rightarrow> nat \<Rightarrow> nat \<Rightarrow> nat list \<times> nat \<times> nat" where
  "add_scan bounds new_index prio =
     (let temp = bounds ! prio; bounds' = bounds[prio := temp + 1]; prio' = prio + 1 in
      if temp = new_index \<and> prio' < length bounds'
      then add_scan bounds' new_index prio' else (bounds', temp, prio'))"
  by pat_completeness auto
termination by (relation "measure (\<lambda>(b, n, p). length b - p)") auto

declare add_scan.simps [simp del]

lemma add_scan_prio:
  "add_scan bounds n p = (b, t, q) \<Longrightarrow> p < q \<and> length b = length bounds"
  by (induction bounds n p rule: add_scan.induct)
    (subst (asm) (2) add_scan.simps, force simp: Let_def split: if_splits)

function add_loop :: "nat \<Rightarrow> nat \<Rightarrow> nat \<Rightarrow> plist \<Rightarrow> nat \<times> nat \<times> plist" where
  "add_loop new_index index prio (pm, pcs, bounds) =
     (let temp = pcs ! new_index in
      case place new_index index (pm, pcs, bounds) of
        (pm', pcs', _) \<Rightarrow>
          (case add_scan bounds new_index prio of
             (bounds', new_index', prio') \<Rightarrow>
               if prio' \<ge> length bounds' then (new_index', temp, (pm', pcs', bounds'))
               else add_loop new_index' temp prio' (pm', pcs', bounds')))"
  by pat_completeness auto
termination
  by (relation "measure (\<lambda>(n, i, p, (pm, pcs, b)). length b - p)") (auto dest!: add_scan_prio [OF sym])

declare add_loop.simps [simp del]

definition add :: "nat \<Rightarrow> piece_picker \<Rightarrow> piece_picker" where
  "add index s =
     (let prio = prio_of s index in
      if prio < 0 then s
      else
        let p = nat prio;
            bounds = m_priority_boundaries s
              @ replicate (p + 1 - length (m_priority_boundaries s)) (length (m_pieces s));
            (first, second) = priority_range bounds p;
            (new_index, g) = (if second = first then (first, rng s)
                              else case random (second - first) (rng s) of (r, g) \<Rightarrow> (r + first, g));
            (new_index', index', pl) = add_loop new_index index p (m_piece_map s, m_pieces s @ [minus_one], bounds);
            (pm, pcs, bounds') = (if index' \<noteq> minus_one then place new_index' index' pl else pl)
        in s\<lparr>m_piece_map := pm, m_pieces := pcs, m_priority_boundaries := bounds', rng := g\<rparr>)"

text \<open>The inner loop of \<open>remove\<close>.\<close>

function remove_scan :: "nat list \<Rightarrow> nat \<Rightarrow> nat \<Rightarrow> nat list \<times> nat \<times> nat" where
  "remove_scan bounds next_index prio =
     (let temp = bounds ! prio - 1; bounds' = bounds[prio := temp]; prio' = prio + 1 in
      if next_index = temp \<and> prio' < length bounds'
      then remove_scan bounds' next_index prio' else (bounds', temp, prio'))"
  by pat_completeness auto
termination by (relation "measure (\<lambda>(b, n, p). length b - p)") auto

declare remove_scan.simps [simp del]

lemma remove_scan_prio:
  "remove_scan bounds n p = (b, t, q) \<Longrightarrow> p < q \<and> length b = length bounds \<and> (p < length bounds \<longrightarrow> q \<le> length bounds)"
  by (induction bounds n p rule: remove_scan.induct)
    (subst (asm) (2) remove_scan.simps, force simp: Let_def split: if_splits)

function remove_loop :: "nat \<Rightarrow> nat \<Rightarrow> nat \<Rightarrow> plist \<Rightarrow> plist" where
  "remove_loop next_index elem_index prio (pm, pcs, bounds) =
     (case remove_scan bounds next_index prio of
        (bounds', temp, prio') \<Rightarrow>
          if next_index = temp then (pm, pcs, bounds')
          else
            case place elem_index (pcs ! temp) (pm, pcs, bounds') of
              (pm', pcs', _) \<Rightarrow>
                if prio' \<ge> length bounds' then (pm', pcs', bounds')
                else remove_loop temp temp prio' (pm', pcs', bounds'))"
  by pat_completeness auto
termination
  by (relation "measure (\<lambda>(n, e, p, (pm, pcs, b)). length b - p)") (auto dest!: remove_scan_prio [OF sym])

declare remove_loop.simps [simp del]

definition remove :: "nat \<Rightarrow> nat \<Rightarrow> piece_picker \<Rightarrow> piece_picker" where
  "remove prio elem_index s =
     (case remove_loop elem_index elem_index prio (m_piece_map s, m_pieces s, m_priority_boundaries s) of
        (pm, pcs, bounds) \<Rightarrow>
          s\<lparr>m_piece_map := pm, m_pieces := butlast pcs, m_priority_boundaries := bounds\<rparr>)"

definition shuffle :: "nat \<Rightarrow> nat \<Rightarrow> piece_picker \<Rightarrow> piece_picker" where
  "shuffle prio elem_index s =
     (let (first, second) = priority_range (m_priority_boundaries s) prio;
          (r, g) = random (second - first - 1) (rng s);
          other_index = r + first;
          s1 = s\<lparr>rng := g\<rparr>
      in if other_index = elem_index then s1
         else
           let a = m_pieces s ! other_index; b = m_pieces s ! elem_index;
               ia = pindex (piece_at s a); ib = pindex (piece_at s b)
           in set_piece b (\<lambda>p. p\<lparr>pindex := ia\<rparr>) (set_piece a (\<lambda>p. p\<lparr>pindex := ib\<rparr>)
                (s1\<lparr>m_pieces := (m_pieces s)[other_index := b, elem_index := a]\<rparr>)))"

text \<open>The loop of \<open>update\<close> towards a lower priority: \<open>down\<close> steps are left until \<open>new_priority\<close>.\<close>

fun update_down :: "nat \<Rightarrow> nat \<Rightarrow> nat \<Rightarrow> nat \<Rightarrow> plist \<Rightarrow> nat \<times> plist" where
  "update_down 0 temp elem_index prio pl = (elem_index, pl)"
| "update_down (Suc down) temp elem_index prio (pm, pcs, bounds) =
     (let new_index = bounds ! (prio - 1); bounds' = bounds[prio - 1 := new_index + 1] in
      if temp \<noteq> pcs ! new_index
      then update_down down (pcs ! new_index) new_index (prio - 1)
             (place elem_index (pcs ! new_index) (pm, pcs, bounds'))
      else update_down down temp new_index (prio - 1) (pm, pcs, bounds'))"

text \<open>The loop of \<open>update\<close> towards a higher priority, \<open>up\<close> steps away.\<close>

fun update_up :: "nat \<Rightarrow> nat \<Rightarrow> nat \<Rightarrow> nat \<Rightarrow> plist \<Rightarrow> nat \<times> plist" where
  "update_up 0 temp elem_index prio pl = (elem_index, pl)"
| "update_up (Suc up) temp elem_index prio (pm, pcs, bounds) =
     (let new_index = bounds ! prio - 1; bounds' = bounds[prio := new_index] in
      if temp \<noteq> pcs ! new_index
      then update_up up (pcs ! new_index) new_index (prio + 1)
             (place elem_index (pcs ! new_index) (pm, pcs, bounds'))
      else update_up up temp new_index (prio + 1) (pm, pcs, bounds'))"

definition update :: "int \<Rightarrow> nat \<Rightarrow> piece_picker \<Rightarrow> piece_picker" where
  "update prio elem_index s =
     (let index = m_pieces s ! elem_index; new_priority = prio_of s index in
      if new_priority = prio then s
      else if new_priority = -1 then remove (nat prio) elem_index s
      else
        let np = nat new_priority; p = nat prio;
            bounds = m_priority_boundaries s
              @ replicate (np + 1 - length (m_priority_boundaries s)) (length (m_pieces s));
            (elem_index', pl) =
              (if prio > new_priority
               then update_down (p - np) index elem_index p (m_piece_map s, m_pieces s, bounds)
               else update_up (np - p) index elem_index p (m_piece_map s, m_pieces s, bounds));
            (pm, pcs, bounds') = place elem_index' index pl
        in shuffle np elem_index' (s\<lparr>m_piece_map := pm, m_pieces := pcs, m_priority_boundaries := bounds'\<rparr>))"

text \<open>The first pass of \<open>update_pieces\<close>: it counts the pieces of each priority and numbers them.\<close>

fun count_prios :: "int \<Rightarrow> piece_pos list \<Rightarrow> nat list \<Rightarrow> piece_pos list \<times> nat list" where
  "count_prios seeds [] bounds = ([], bounds)"
| "count_prios seeds (p # ps) bounds =
     (let prio = priority seeds p in
      if prio = -1 then (case count_prios seeds ps bounds of (ps', b) \<Rightarrow> (p # ps', b))
      else
        let b1 = bounds @ replicate (nat prio + 1 - length bounds) 0 in
        case count_prios seeds ps (b1[nat prio := b1 ! nat prio + 1]) of
          (ps', b) \<Rightarrow> (p\<lparr>pindex := b1 ! nat prio\<rparr> # ps', b))"

fun cumulate :: "nat \<Rightarrow> nat list \<Rightarrow> nat list" where
  "cumulate new_size [] = []"
| "cumulate new_size (b # bs) = (new_size + b) # cumulate (new_size + b) bs"

text \<open>\<open>std::vector::resize\<close>.\<close>

definition vec_resize :: "nat \<Rightarrow> 'a \<Rightarrow> 'a list \<Rightarrow> 'a list" where
  "vec_resize n x xs = take n xs @ replicate (n - length xs) x"

text \<open>The second pass puts each piece at its place in the range of its priority.\<close>

fun fill_pieces :: "int \<Rightarrow> nat list \<Rightarrow> piece_pos list \<Rightarrow> nat \<Rightarrow> nat list \<Rightarrow> nat list" where
  "fill_pieces seeds bounds [] piece pcs = pcs"
| "fill_pieces seeds bounds (p # ps) piece pcs =
     (let prio = priority seeds p in
      fill_pieces seeds bounds ps (piece + 1)
        (if prio = -1 then pcs else pcs[priority_begin bounds (nat prio) + pindex p := piece]))"

text \<open>
  \<open>std::shuffle\<close> of a range: every element from the last one on is swapped with one at or before its position.
\<close>

fun shuffle_range :: "nat \<Rightarrow> nat \<Rightarrow> nat list \<Rightarrow> (nat \<Rightarrow> nat) \<Rightarrow> nat list \<times> (nat \<Rightarrow> nat)" where
  "shuffle_range start 0 xs g = (xs, g)"
| "shuffle_range start (Suc k) xs g =
     (if k = 0 then (xs, g)
      else case random k g of
             (r, g') \<Rightarrow> shuffle_range start k (xs[start + k := xs ! (start + r), start + r := xs ! (start + k)]) g')"

fun shuffle_ranges :: "nat \<Rightarrow> nat list \<Rightarrow> nat list \<Rightarrow> (nat \<Rightarrow> nat) \<Rightarrow> nat list \<times> (nat \<Rightarrow> nat)" where
  "shuffle_ranges start [] xs g = (xs, g)"
| "shuffle_ranges start (b # bs) xs g =
     (if start = b then shuffle_ranges start bs xs g
      else case shuffle_range start (b - start) xs g of (xs', g') \<Rightarrow> shuffle_ranges b bs xs' g')"

fun number_pieces :: "nat \<Rightarrow> nat list \<Rightarrow> piece_pos list \<Rightarrow> piece_pos list" where
  "number_pieces index [] pm = pm"
| "number_pieces index (x # xs) pm = number_pieces (index + 1) xs (pm[x := (pm ! x)\<lparr>pindex := index\<rparr>])"

definition update_pieces :: "piece_picker \<Rightarrow> piece_picker" where
  "update_pieces s =
     (let b0 = (if m_priority_boundaries s = [] then [0] else m_priority_boundaries s);
          (pm, counts) = count_prios (m_seeds s) (m_piece_map s) (map (\<lambda>_. 0) b0);
          bounds = cumulate 0 counts;
          new_size = sum_list counts;
          pcs = fill_pieces (m_seeds s) bounds pm 0 (vec_resize new_size 0 (m_pieces s));
          (pcs', g) = shuffle_ranges 0 bounds pcs (rng s)
      in s\<lparr>m_piece_map := number_pieces 0 pcs' pm, m_pieces := pcs', m_priority_boundaries := bounds,
           m_dirty := False, rng := g\<rparr>)"

section \<open>Ranges\<close>

text \<open>
  The list is seen as the list of its ranges, one per priority: \<open>m_pieces\<close> is their concatenation and the
  boundaries are their running lengths. \<open>idx_from\<close> says that the pieces know their positions.
\<close>

fun idx_from :: "piece_pos list \<Rightarrow> nat \<Rightarrow> nat list \<Rightarrow> bool" where
  "idx_from pm k [] \<longleftrightarrow> True"
| "idx_from pm k (x # xs) \<longleftrightarrow> pindex (pm ! x) = k \<and> idx_from pm (k + 1) xs"

lemma idx_from_append [simp]:
  "idx_from pm k (xs @ ys) \<longleftrightarrow> idx_from pm k xs \<and> idx_from pm (k + length xs) ys"
  by (induction xs arbitrary: k) auto

lemma idx_from_update [simp]: "x \<notin> set xs \<Longrightarrow> idx_from (pm[x := v]) k xs \<longleftrightarrow> idx_from pm k xs"
  by (induction xs arbitrary: k) auto

lemma idx_from_nth: "idx_from pm k xs \<longleftrightarrow> (\<forall>j<length xs. pindex (pm ! (xs ! j)) = k + j)"
  by (induction xs arbitrary: k) (auto simp: All_less_Suc2)

lemma length_cumulate [simp]: "length (cumulate n xs) = length xs"
  by (induction xs arbitrary: n) auto

lemma cumulate_append [simp]: "cumulate n (xs @ ys) = cumulate n xs @ cumulate (n + sum_list xs) ys"
  by (induction xs arbitrary: n) (auto simp: add.assoc)

lemma cumulate_nth: "i < length xs \<Longrightarrow> cumulate n xs ! i = n + sum_list (take (Suc i) xs)"
  by (induction xs arbitrary: n i) (auto simp: nth_Cons' take_Cons' split: if_splits)

lemma cumulate_zeros [simp]: "cumulate n (replicate k 0) = replicate k n"
  by (induction k) auto

text \<open>Only positions change, and only those of pieces in a given set.\<close>

definition moved :: "nat set \<Rightarrow> piece_pos list \<Rightarrow> piece_pos list \<Rightarrow> bool" where
  "moved X pm pm' \<longleftrightarrow> length pm' = length pm
     \<and> (\<forall>z<length pm. (pm' ! z)\<lparr>pindex := 0\<rparr> = (pm ! z)\<lparr>pindex := 0\<rparr> \<and> (z \<notin> X \<longrightarrow> pm' ! z = pm ! z))"

lemma moved_refl [simp, intro]: "moved X pm pm"
  by (simp add: moved_def)

lemma moved_trans: "moved X a b \<Longrightarrow> moved Y b c \<Longrightarrow> moved (X \<union> Y) a c"
  by (simp add: moved_def)

lemma moved_mono: "moved X a b \<Longrightarrow> X \<subseteq> Y \<Longrightarrow> moved Y a b"
  unfolding moved_def by blast

lemma moved_place [simp]:
  assumes "x \<in> X"
  shows "moved X pm (pm[x := (pm ! x)\<lparr>pindex := k\<rparr>])"
proof -
  have "(pm[x := (pm ! x)\<lparr>pindex := k\<rparr>] ! z)\<lparr>pindex := 0\<rparr> = (pm ! z)\<lparr>pindex := 0\<rparr>
      \<and> (z \<notin> X \<longrightarrow> pm[x := (pm ! x)\<lparr>pindex := k\<rparr>] ! z = pm ! z)"
    if "z < length pm" for z using assms that by (cases "x = z") auto
  then show ?thesis by (simp add: moved_def)
qed

lemma moved_length: "moved X a b \<Longrightarrow> length b = length a"
  by (simp add: moved_def)

text \<open>The way a range is turned when its neighbours grow or shrink by one.\<close>

definition rotr1 :: "'a list \<Rightarrow> 'a list" where
  "rotr1 xs = (if xs = [] then [] else last xs # butlast xs)"

lemma rotr1_simps [simp]: "rotr1 [] = []" "rotr1 (xs @ [x]) = x # xs"
  by (simp_all add: rotr1_def)

lemma mset_rotr1 [simp]: "mset (rotr1 xs) = mset xs"
  by (cases xs rule: rev_cases) auto

lemma mset_rotate1 [simp]: "mset (rotate1 xs) = mset xs"
  by (cases xs) auto

lemma set_rotr1 [simp]: "set (rotr1 xs) = set xs"
  by (cases xs rule: rev_cases) auto

lemma length_rotr1 [simp]: "length (rotr1 xs) = length xs"
  by (cases xs rule: rev_cases) auto

lemma length_rotations [simp]: "length \<circ> rotate1 = length" "length \<circ> rotr1 = length"
  by auto

lemma mset_concat_map: "(\<And>xs. mset (f xs) = mset xs) \<Longrightarrow> mset (concat (map f xss)) = mset (concat xss)"
  by (induction xss) auto

text \<open>The next range that is not empty, if there is one.\<close>

lemma ranges_cases:
  obtains "concat rs = []" "rs = replicate (length rs) []"
  | k x xs rs' where "rs = replicate k [] @ (x # xs) # rs'"
proof (induction rs arbitrary: thesis)
  case (Cons r rs)
  show ?case
  proof (cases r)
    case Nil
    show ?thesis
    proof (rule Cons.IH)
      assume "concat rs = []" "rs = replicate (length rs) []"
      with Cons.prems(1) Nil show thesis by simp
    next
      fix k x xs rs' assume "rs = replicate k [] @ (x # xs) # rs'"
      with Cons.prems(2) [of "Suc k"] Nil show thesis by simp
    qed
  next
    case (Cons x xs)
    then show ?thesis using Cons.prems(2) [of 0 x xs rs] by simp
  qed
qed simp

section \<open>The chain of swaps of \<open>add\<close>\<close>

lemma add_scan_empty:
  "0 < k \<Longrightarrow> add_scan (Bp @ replicate k n) n (length Bp) = (Bp @ replicate k (n + 1), n, length Bp + k)"
proof (induction k arbitrary: Bp)
  case (Suc k)
  show ?case
  proof (cases k)
    case 0
    then show ?thesis by (simp add: add_scan.simps Let_def)
  next
    case k: (Suc k')
    with Suc.IH [of "Bp @ [Suc n]"] show ?thesis
      by (subst add_scan.simps) (simp add: Let_def)
  qed
qed simp

lemma add_scan_next:
  "m \<noteq> n \<Longrightarrow> add_scan (Bp @ replicate k n @ m # Bs) n (length Bp)
     = (Bp @ replicate k (n + 1) @ (m + 1) # Bs, m, length Bp + k + 1)"
proof (induction k arbitrary: Bp)
  case 0
  then show ?case by (simp add: add_scan.simps Let_def)
next
  case (Suc k)
  then show ?case using Suc.IH [of "Bp @ [Suc n]"] by (subst add_scan.simps) (simp add: Let_def)
qed

text \<open>The list with its pieces knowing their positions, where only the pieces \<open>X\<close> have moved.\<close>

definition plist_at :: "piece_pos list \<Rightarrow> plist \<Rightarrow> nat list \<Rightarrow> nat list \<Rightarrow> nat set \<Rightarrow> bool" where
  "plist_at pm pl pcs bounds X \<longleftrightarrow> (\<exists>pm'. pl = (pm', pcs, bounds) \<and> idx_from pm' 0 pcs \<and> moved X pm pm')"

lemma plist_at_trans:
  "plist_at pm' pl pcs bounds Y \<Longrightarrow> moved X pm pm' \<Longrightarrow> X \<union> Y \<subseteq> Z \<Longrightarrow> plist_at pm pl pcs bounds Z"
  unfolding plist_at_def by (metis moved_trans moved_mono)

lemma add_loop_step:
  "pcs ! n = t \<Longrightarrow> add_scan bounds n prio = (b', n', p') \<Longrightarrow>
     add_loop n y prio (pm, pcs, bounds) =
       (let pm' = pm[y := (pm ! y)\<lparr>pindex := n\<rparr>]; pcs' = pcs[n := y] in
        if p' \<ge> length b' then (n', t, (pm', pcs', b')) else add_loop n' t p' (pm', pcs', b'))"
  by (subst add_loop.simps) (simp add: place_def Let_def)

lemma add_loop_ranges:
  assumes "rs \<noteq> []" and "idx_from pm 0 (F @ concat rs)" and "distinct (y # F @ concat rs)"
    and "\<forall>z\<in>set (y # F @ concat rs). z < length pm" and "length pm \<le> minus_one"
    and "add_loop (length F) y (length Bp)
           (pm, F @ concat rs @ [minus_one], Bp @ cumulate (length F) (map length rs)) = (n', i', pl)"
  shows "plist_at pm (if i' \<noteq> minus_one then place n' i' pl else pl)
    (F @ y # concat (map rotate1 rs)) (Bp @ cumulate (Suc (length F)) (map length rs)) (set (y # concat rs))"
  using assms
proof (induction "length rs" arbitrary: rs pm F y Bp rule: less_induct)
  case less
  let ?n = "length F"
  let ?pm = "pm[y := (pm ! y)\<lparr>pindex := ?n\<rparr>]"
  show ?case
  proof (cases rs rule: ranges_cases)
    case 1
    then have len: "map length rs = replicate (length rs) 0" by (metis list.size(3) map_replicate)
    have "add_scan (Bp @ replicate (length rs) ?n) ?n (length Bp) =
        (Bp @ replicate (length rs) (?n + 1), ?n, length Bp + length rs)"
      using less.prems(1) by (intro add_scan_empty) simp
    from add_loop_step [OF _ this] less.prems(6) 1(1)
    have "n' = ?n" "i' = minus_one" "pl = (?pm, F @ [y], Bp @ replicate (length rs) (?n + 1))"
      by (auto simp: len)
    moreover have rot: "concat (map rotate1 rs) = []" using 1(1) by auto
    ultimately show ?thesis
      unfolding rot using less.prems(2-4) 1(1) by (simp add: plist_at_def len)
  next
    case (2 k x xs rs')
    let ?F = "F @ y # xs" and ?Bp = "Bp @ replicate k (?n + 1) @ [?n + length xs + 2]"
    have scan: "add_scan (Bp @ cumulate ?n (map length rs)) ?n (length Bp) =
        (?Bp @ cumulate (length ?F) (map length rs'), length ?F, length ?Bp)"
      using add_scan_next [of "?n + Suc (length xs)" ?n Bp k "cumulate (?n + Suc (length xs)) (map length rs')"]
      by (simp add: 2 map_replicate_const sum_list_replicate)
    have arr: "F @ concat rs @ [minus_one] = F @ x # xs @ concat rs' @ [minus_one]" using 2 by simp
    have mem: "y \<noteq> x" "y \<notin> set F" "y \<notin> set xs" "y \<notin> set (concat rs')" "y < length pm" "x < length pm"
      "x \<notin> set F" "x \<notin> set xs" "x \<notin> set (concat rs')"
      using less.prems(3,4) 2 by auto
    have idx: "idx_from ?pm 0 (?F @ concat rs')" using less.prems(2) mem 2 by (simp add: add.assoc)
    have x: "x \<noteq> minus_one" using mem(6) less.prems(5) by simp
    have loop: "add_loop ?n y (length Bp) (pm, F @ concat rs @ [minus_one], Bp @ cumulate ?n (map length rs)) =
      (if rs' = [] then (length ?F, x, (?pm, ?F @ [minus_one], ?Bp))
       else add_loop (length ?F) x (length ?Bp) (?pm, ?F @ concat rs' @ [minus_one], ?Bp @ cumulate (length ?F) (map length rs')))"
      unfolding arr using add_loop_step [OF _ scan, of "F @ x # xs @ concat rs' @ [minus_one]" x y pm] by auto
    have bnd: "Bp @ cumulate (Suc ?n) (map length rs) = ?Bp @ cumulate (Suc (length ?F)) (map length rs')"
      by (simp add: 2 map_replicate_const sum_list_replicate)
    have cc: "F @ y # concat (map rotate1 rs) = ?F @ x # concat (map rotate1 rs')"
      by (simp add: 2 concat_replicate_trivial)
    show ?thesis
    proof (cases "rs' = []")
      case True
      then have "n' = length ?F" "i' = x" "pl = (?pm, ?F @ [minus_one], ?Bp)" using loop less.prems(6) by auto
      moreover define pm2 where "pm2 = ?pm[x := (?pm ! x)\<lparr>pindex := length ?F\<rparr>]"
      moreover have "idx_from pm2 0 (?F @ [x])" using idx mem True by (simp add: pm2_def)
      moreover have "moved (set (y # concat rs)) pm pm2" unfolding pm2_def
        by (rule moved_mono [OF moved_trans [OF moved_place [of y "{y}"] moved_place [of x "{x}"]]]) (auto simp: 2)
      ultimately show ?thesis using x True unfolding cc bnd plist_at_def place_def
        by (simp del: idx_from_append add: list_update_append)
    next
      case False
      have "plist_at ?pm (if i' \<noteq> minus_one then place n' i' pl else pl)
        (?F @ x # concat (map rotate1 rs')) (?Bp @ cumulate (Suc (length ?F)) (map length rs')) (set (x # concat rs'))"
        using loop less.prems(3-6) False 2 idx mem
        by (intro less.hyps) (auto simp: 2)
      then show ?thesis unfolding cc bnd
        by (rule plist_at_trans [where X = "{y}"]) (auto simp: 2)
    qed
  qed
qed

section \<open>The chain of swaps of \<open>remove\<close>\<close>

lemma remove_scan_empty:
  "0 < k \<Longrightarrow> remove_scan (Bp @ replicate k (Suc n)) n (length Bp) = (Bp @ replicate k n, n, length Bp + k)"
proof (induction k arbitrary: Bp)
  case (Suc k)
  show ?case
  proof (cases k)
    case 0
    then show ?thesis by (simp add: remove_scan.simps Let_def)
  next
    case k: (Suc k')
    with Suc.IH [of "Bp @ [n]"] show ?thesis by (subst remove_scan.simps) (simp add: Let_def)
  qed
qed simp

lemma remove_scan_next:
  "m \<noteq> n \<Longrightarrow> remove_scan (Bp @ replicate k (Suc n) @ Suc m # Bs) n (length Bp)
     = (Bp @ replicate k n @ m # Bs, m, length Bp + k + 1)"
proof (induction k arbitrary: Bp)
  case 0
  then show ?case by (simp add: remove_scan.simps Let_def)
next
  case (Suc k)
  then show ?case using Suc.IH [of "Bp @ [n]"] by (subst remove_scan.simps) (simp add: Let_def)
qed

lemma remove_loop_step:
  "remove_scan bounds n prio = (b', t, p') \<Longrightarrow>
     remove_loop n n prio (pm, pcs, bounds) =
       (if t = n then (pm, pcs, b')
        else let x = pcs ! t; pm' = pm[x := (pm ! x)\<lparr>pindex := n\<rparr>]; pcs' = pcs[n := x] in
          if p' \<ge> length b' then (pm', pcs', b') else remove_loop t t p' (pm', pcs', b'))"
  by (subst remove_loop.simps) (auto simp: place_def Let_def)

lemma remove_loop_ranges:
  assumes "rs \<noteq> []" and "idx_from pm 0 F" and "idx_from pm (Suc (length F)) (concat rs)"
    and "distinct (F @ concat rs)" and "\<forall>z\<in>set (F @ concat rs). z < length pm"
  shows "\<exists>pm' junk. remove_loop (length F) (length F) (length Bp)
      (pm, F @ e # concat rs, Bp @ cumulate (Suc (length F)) (map length rs)) =
      (pm', F @ concat (map rotr1 rs) @ [junk], Bp @ cumulate (length F) (map length rs))
    \<and> idx_from pm' 0 (F @ concat (map rotr1 rs)) \<and> moved (set (concat rs)) pm pm'"
  using assms
proof (induction "length rs" arbitrary: rs pm F e Bp rule: less_induct)
  case less
  let ?n = "length F"
  show ?case
  proof (cases rs rule: ranges_cases)
    case 1
    then have len: "map length rs = replicate (length rs) 0" by (metis list.size(3) map_replicate)
    have "remove_scan (Bp @ replicate (length rs) (Suc ?n)) ?n (length Bp) =
        (Bp @ replicate (length rs) ?n, ?n, length Bp + length rs)"
      using less.prems(1) by (intro remove_scan_empty) simp
    from remove_loop_step [OF this, of pm "F @ e # concat rs"]
    have "remove_loop ?n ?n (length Bp) (pm, F @ e # concat rs, Bp @ cumulate (Suc ?n) (map length rs)) =
        (pm, F @ [e], Bp @ cumulate ?n (map length rs))" unfolding 1(1) len by simp
    moreover have rot: "concat (map rotr1 rs) = []" using 1(1) by auto
    ultimately show ?thesis unfolding rot using less.prems(2) by auto
  next
    case (2 k x0 xs0 rs')
    obtain xs x where xs: "x0 # xs0 = xs @ [x]" by (metis append_butlast_last_id list.distinct(1))
    then have len0: "length xs0 = length xs" by (metis Suc_inject length_Cons length_append_singleton)
    let ?pm = "pm[x := (pm ! x)\<lparr>pindex := ?n\<rparr>]"
    let ?F = "F @ x # xs" and ?Bp = "Bp @ replicate k ?n @ [?n + length xs + 1]"
    have rs: "map length rs = replicate k 0 @ Suc (length xs) # map length rs'" "concat rs = xs @ x # concat rs'"
      using xs by (simp_all add: 2 map_replicate_const len0)
    have scan: "remove_scan (Bp @ cumulate (Suc ?n) (map length rs)) ?n (length Bp) =
        (?Bp @ cumulate (Suc (length ?F)) (map length rs'), length ?F, length ?Bp)"
      using remove_scan_next [of "?n + length xs + 1" ?n Bp k "cumulate (?n + length xs + 2) (map length rs')"]
      by (simp add: rs sum_list_replicate)
    have d: "distinct (F @ xs @ x # concat rs')" "\<forall>z\<in>set (F @ xs @ x # concat rs'). z < length pm"
      using less.prems(4,5) rs(2) by simp_all
    then have mem: "x \<notin> set F" "x \<notin> set xs" "x \<notin> set (concat rs')" "x < length pm" by auto
    have shorter: "length rs' < length rs" using 2 by simp
    have idx: "idx_from ?pm 0 ?F" "idx_from ?pm (Suc (length ?F)) (concat rs')"
      using less.prems(2,3) mem by (simp_all add: rs add.assoc)
    have arr: "(F @ e # concat rs)[?n := x] = ?F @ x # concat rs'" "(F @ e # concat rs) ! length ?F = x"
      by (simp_all add: rs nth_append)
    have loop: "remove_loop ?n ?n (length Bp) (pm, F @ e # concat rs, Bp @ cumulate (Suc ?n) (map length rs)) =
      (if rs' = [] then (?pm, ?F @ x # concat rs', ?Bp)
       else remove_loop (length ?F) (length ?F) (length ?Bp)
              (?pm, ?F @ x # concat rs', ?Bp @ cumulate (Suc (length ?F)) (map length rs')))"
      using remove_loop_step [OF scan, of pm "F @ e # concat rs"] unfolding arr(2) Let_def arr(1) by auto
    have bnd: "Bp @ cumulate ?n (map length rs) = ?Bp @ cumulate (length ?F) (map length rs')"
      by (simp add: rs sum_list_replicate)
    have cc: "F @ concat (map rotr1 rs) = ?F @ concat (map rotr1 rs')"
      using xs by (simp add: 2 concat_replicate_trivial)
    show ?thesis
    proof (cases "rs' = []")
      case True
      then show ?thesis using loop idx rs(2) cc unfolding bnd by auto
    next
      case False
      have "\<exists>pm' junk. remove_loop (length ?F) (length ?F) (length ?Bp)
          (?pm, ?F @ x # concat rs', ?Bp @ cumulate (Suc (length ?F)) (map length rs')) =
          (pm', ?F @ concat (map rotr1 rs') @ [junk], ?Bp @ cumulate (length ?F) (map length rs'))
        \<and> idx_from pm' 0 (?F @ concat (map rotr1 rs')) \<and> moved (set (concat rs')) ?pm pm'"
        by (rule less.hyps) (use d shorter False idx mem in auto)
      then obtain pm' junk where IH: "remove_loop (length ?F) (length ?F) (length ?Bp)
          (?pm, ?F @ x # concat rs', ?Bp @ cumulate (Suc (length ?F)) (map length rs')) =
          (pm', ?F @ concat (map rotr1 rs') @ [junk], ?Bp @ cumulate (length ?F) (map length rs'))"
        "idx_from pm' 0 (?F @ concat (map rotr1 rs'))" "moved (set (concat rs')) ?pm pm'"
        by blast
      have "moved (set (concat rs)) pm pm'"
        using moved_trans [OF moved_place [of x "{x}" pm ?n] IH(3)] by (rule moved_mono) (use rs(2) in auto)
      with IH loop False cc show ?thesis unfolding bnd by auto
    qed
  qed
qed

section \<open>The chains of swaps of \<open>update\<close>\<close>

fun starts :: "nat \<Rightarrow> nat list \<Rightarrow> nat list" where
  "starts n [] = []"
| "starts n (x # xs) = n # starts (n + x) xs"

lemma length_starts [simp]: "length (starts n xs) = length xs"
  by (induction xs arbitrary: n) auto

lemma starts_snoc [simp]: "starts n (xs @ [x]) = starts n xs @ [n + sum_list xs]"
  by (induction xs arbitrary: n) (auto simp: add.assoc)

lemma starts_cumulate: "starts n (xs @ [x]) = n # cumulate n xs"
  by (induction xs arbitrary: n) auto

text \<open>
  Towards a lower priority: the piece \<open>t\<close> sits in a hole behind the ranges \<open>ls @ Bs\<close>, of which \<open>Bs\<close> are
  passed; the hole ends up behind \<open>ls\<close>. \<open>Bp\<close> are the boundaries before the last range of \<open>ls\<close>,
  and \<open>Bn\<close> those from the piece's own range on.
\<close>

lemma update_down_ranges:
  assumes "idx_from pm 0 (F @ concat Bs)" and "idx_from pm (Suc (length (F @ concat Bs))) R"
    and "distinct (F @ concat Bs @ R)" and "\<forall>z\<in>set (F @ concat Bs @ R). z < length pm"
    and "t \<notin> set (F @ concat Bs)"
  shows "\<exists>pm' t'. update_down (length Bs) t (length (F @ concat Bs)) (length Bp + length Bs)
      (pm, F @ concat Bs @ t # R, Bp @ starts (length F) (map length Bs) @ Bn) =
      (length F, (pm', F @ t' # concat (map rotate1 Bs) @ R,
        Bp @ starts (Suc (length F)) (map length Bs) @ Bn))
    \<and> idx_from pm' 0 F \<and> idx_from pm' (Suc (length F)) (concat (map rotate1 Bs) @ R)
    \<and> moved (set (concat Bs)) pm pm'"
  using assms
proof (induction Bs arbitrary: pm R t Bn rule: rev_induct)
  case (snoc B Bs)
  let ?n = "length (F @ concat Bs)"
  have bound: "(Bp @ starts (length F) (map length (Bs @ [B])) @ Bn) ! (length Bp + length Bs) = ?n"
    "(Bp @ starts (length F) (map length (Bs @ [B])) @ Bn)[length Bp + length Bs := Suc ?n] =
     Bp @ starts (length F) (map length Bs) @ (Suc ?n # Bn)"
    by (simp_all add: nth_append list_update_append length_concat)
  have fin: "starts (Suc (length F)) (map length (Bs @ [B])) @ Bn =
      starts (Suc (length F)) (map length Bs) @ Suc ?n # Bn" by (simp add: length_concat)
  show ?case
  proof (cases B)
    case Nil
    have "\<exists>pm' t'. update_down (length Bs) t ?n (length Bp + length Bs)
        (pm, F @ concat Bs @ t # R, Bp @ starts (length F) (map length Bs) @ (Suc ?n # Bn)) =
        (length F, (pm', F @ t' # concat (map rotate1 Bs) @ R, Bp @ starts (Suc (length F)) (map length Bs) @ (Suc ?n # Bn)))
      \<and> idx_from pm' 0 F \<and> idx_from pm' (Suc (length F)) (concat (map rotate1 Bs) @ R) \<and> moved (set (concat Bs)) pm pm'"
      by (rule snoc.IH) (use snoc.prems Nil in auto)
    moreover have "(F @ concat Bs @ t # R) ! ?n = t" by (simp add: nth_append)
    ultimately show ?thesis using bound unfolding fin by (simp add: Nil Let_def)
  next
    case (Cons x xs)
    let ?pm = "pm[x := (pm ! x)\<lparr>pindex := length (F @ concat (Bs @ [B]))\<rparr>]"
    let ?arr = "F @ concat (Bs @ [B]) @ t # R" and ?R = "rotate1 B @ R"
    have arr: "?arr ! ?n = x" "?arr[length (F @ concat (Bs @ [B])) := x] = F @ concat Bs @ x # ?R"
      using Cons by (simp_all add: nth_append list_update_append)
    have d: "distinct (F @ concat Bs @ x # xs @ R)" "\<forall>z\<in>set (F @ concat Bs @ x # xs @ R). z < length pm"
      using snoc.prems(3,4) Cons by simp_all
    have x: "t \<noteq> x" "x \<notin> set F" "x \<notin> set (concat Bs)" "x \<notin> set xs" "x \<notin> set R" "x < length pm"
      using d snoc.prems(5) Cons by auto
    have "\<exists>pm' t'. update_down (length Bs) x ?n (length Bp + length Bs)
        (?pm, F @ concat Bs @ x # ?R, Bp @ starts (length F) (map length Bs) @ (Suc ?n # Bn)) =
        (length F, (pm', F @ t' # concat (map rotate1 Bs) @ ?R, Bp @ starts (Suc (length F)) (map length Bs) @ (Suc ?n # Bn)))
      \<and> idx_from pm' 0 F \<and> idx_from pm' (Suc (length F)) (concat (map rotate1 Bs) @ ?R) \<and> moved (set (concat Bs)) ?pm pm'"
      by (rule snoc.IH) (use snoc.prems(1,2) d x Cons in \<open>auto simp: add.assoc\<close>)
    then obtain pm' t' where IH: "update_down (length Bs) x ?n (length Bp + length Bs)
        (?pm, F @ concat Bs @ x # ?R, Bp @ starts (length F) (map length Bs) @ (Suc ?n # Bn)) =
        (length F, (pm', F @ t' # concat (map rotate1 Bs) @ ?R, Bp @ starts (Suc (length F)) (map length Bs) @ (Suc ?n # Bn)))"
      "idx_from pm' 0 F" "idx_from pm' (Suc (length F)) (concat (map rotate1 Bs) @ ?R)" "moved (set (concat Bs)) ?pm pm'"
      by blast
    have "moved (set (concat (Bs @ [B]))) pm pm'"
      using moved_trans [OF moved_place [of x "{x}" pm "length (F @ concat (Bs @ [B]))"] IH(4)]
      by (rule moved_mono) (use Cons in auto)
    moreover have "update_down (length (Bs @ [B])) t (length (F @ concat (Bs @ [B]))) (length Bp + length (Bs @ [B]))
        (pm, ?arr, Bp @ starts (length F) (map length (Bs @ [B])) @ Bn) =
      update_down (length Bs) x ?n (length Bp + length Bs)
        (?pm, F @ concat Bs @ x # ?R, Bp @ starts (length F) (map length Bs) @ (Suc ?n # Bn))"
      using bound arr x(1) by (simp add: Let_def place_def)
    ultimately show ?thesis using IH unfolding fin by (auto simp: add.assoc)
  qed
qed auto

text \<open>Towards a higher priority: the hole starts right behind \<open>F\<close> and ends up behind the ranges \<open>Bs\<close>.\<close>

lemma update_up_ranges:
  assumes "idx_from pm 0 F" and "idx_from pm (Suc (length F)) (concat Bs @ R)"
    and "distinct (F @ concat Bs @ R)" and "\<forall>z\<in>set (F @ concat Bs @ R). z < length pm"
    and "t \<notin> set (concat Bs @ R)"
  shows "\<exists>pm' t'. update_up (length Bs) t (length F) (length Bp)
      (pm, F @ t # concat Bs @ R, Bp @ cumulate (Suc (length F)) (map length Bs) @ Bn) =
      (length (F @ concat Bs), (pm', F @ concat (map rotr1 Bs) @ t' # R,
        Bp @ cumulate (length F) (map length Bs) @ Bn))
    \<and> idx_from pm' 0 (F @ concat (map rotr1 Bs)) \<and> idx_from pm' (Suc (length (F @ concat Bs))) R
    \<and> moved (set (concat Bs)) pm pm'"
  using assms
proof (induction Bs arbitrary: pm F t Bp)
  case (Cons B Bs)
  let ?Bp = "Bp @ [length F + length B]"
  have bound: "(Bp @ cumulate (Suc (length F)) (map length (B # Bs)) @ Bn) ! length Bp - 1 = length F + length B"
    "(Bp @ cumulate (Suc (length F)) (map length (B # Bs)) @ Bn)[length Bp := length F + length B] =
     ?Bp @ cumulate (Suc (length (F @ B))) (map length Bs) @ Bn"
    by (simp_all add: nth_append list_update_append)
  show ?case
  proof (cases B rule: rev_cases)
    case Nil
    have "\<exists>pm' t'. update_up (length Bs) t (length F) (length ?Bp)
        (pm, F @ t # concat Bs @ R, ?Bp @ cumulate (Suc (length F)) (map length Bs) @ Bn) =
        (length (F @ concat Bs), (pm', F @ concat (map rotr1 Bs) @ t' # R, ?Bp @ cumulate (length F) (map length Bs) @ Bn))
      \<and> idx_from pm' 0 (F @ concat (map rotr1 Bs)) \<and> idx_from pm' (Suc (length (F @ concat Bs))) R
      \<and> moved (set (concat Bs)) pm pm'"
      by (rule Cons.IH) (use Cons.prems Nil in auto)
    then show ?thesis using bound by (simp add: Nil Let_def)
  next
    case (snoc xs x)
    let ?F = "F @ x # xs"
    let ?pm = "pm[x := (pm ! x)\<lparr>pindex := length F\<rparr>]"
    let ?arr = "F @ t # concat (B # Bs) @ R"
    have arr: "?arr ! (length F + length B) = x" "?arr[length F := x] = ?F @ x # concat Bs @ R"
      using snoc by (simp_all add: nth_append)
    have d: "distinct (F @ xs @ x # concat Bs @ R)" "\<forall>z\<in>set (F @ xs @ x # concat Bs @ R). z < length pm"
      using Cons.prems(3,4) snoc by simp_all
    have x: "t \<noteq> x" "x \<notin> set F" "x \<notin> set (concat Bs)" "x \<notin> set xs" "x \<notin> set R" "x < length pm"
      using d Cons.prems(5) snoc by auto
    have "\<exists>pm' t'. update_up (length Bs) x (length ?F) (length ?Bp)
        (?pm, ?F @ x # concat Bs @ R, ?Bp @ cumulate (Suc (length ?F)) (map length Bs) @ Bn) =
        (length (?F @ concat Bs), (pm', ?F @ concat (map rotr1 Bs) @ t' # R, ?Bp @ cumulate (length ?F) (map length Bs) @ Bn))
      \<and> idx_from pm' 0 (?F @ concat (map rotr1 Bs)) \<and> idx_from pm' (Suc (length (?F @ concat Bs))) R
      \<and> moved (set (concat Bs)) ?pm pm'"
      by (rule Cons.IH) (use Cons.prems(1,2) d x snoc in \<open>auto simp: add.assoc\<close>)
    then obtain pm' t' where IH: "update_up (length Bs) x (length ?F) (length ?Bp)
        (?pm, ?F @ x # concat Bs @ R, ?Bp @ cumulate (Suc (length ?F)) (map length Bs) @ Bn) =
        (length (?F @ concat Bs), (pm', ?F @ concat (map rotr1 Bs) @ t' # R, ?Bp @ cumulate (length ?F) (map length Bs) @ Bn))"
      "idx_from pm' 0 (?F @ concat (map rotr1 Bs))" "idx_from pm' (Suc (length (?F @ concat Bs))) R"
      "moved (set (concat Bs)) ?pm pm'"
      by blast
    have "moved (set (concat (B # Bs))) pm pm'"
      using moved_trans [OF moved_place [of x "{x}" pm "length F"] IH(4)]
      by (rule moved_mono) (use snoc in auto)
    moreover have "update_up (length (B # Bs)) t (length F) (length Bp)
        (pm, ?arr, Bp @ cumulate (Suc (length F)) (map length (B # Bs)) @ Bn) =
      update_up (length Bs) x (length ?F) (length ?Bp)
        (?pm, ?F @ x # concat Bs @ R, ?Bp @ cumulate (Suc (length ?F)) (map length Bs) @ Bn)"
      using bound arr x(1) snoc by (simp add: Let_def place_def)
    ultimately show ?thesis using IH snoc by (auto simp: add.assoc)
  qed
qed auto

section \<open>The list is kept in order\<close>

text \<open>The ranges hold the pieces of their priorities, from \<open>q\<close> on.\<close>

fun ranges_prio :: "(nat \<Rightarrow> int) \<Rightarrow> nat \<Rightarrow> nat list list \<Rightarrow> bool" where
  "ranges_prio pr q [] \<longleftrightarrow> True"
| "ranges_prio pr q (B # Bs) \<longleftrightarrow> (\<forall>x\<in>set B. pr x = int q) \<and> ranges_prio pr (Suc q) Bs"

lemma ranges_prio_append [simp]:
  "ranges_prio pr q (as @ bs) \<longleftrightarrow> ranges_prio pr q as \<and> ranges_prio pr (q + length as) bs"
  by (induction as arbitrary: q) auto

lemma ranges_prio_map [simp]:
  "ranges_prio pr q (map rotate1 bs) = ranges_prio pr q bs" "ranges_prio pr q (map rotr1 bs) = ranges_prio pr q bs"
  by (induction bs arbitrary: q) auto

lemma ranges_prio_empty [simp]: "ranges_prio pr q (replicate k [])"
  by (induction k arbitrary: q) auto

lemma ranges_prio_cong:
  "ranges_prio pr q bs \<Longrightarrow> (\<And>x. x \<in> set (concat bs) \<Longrightarrow> pr' x = pr x) \<Longrightarrow> ranges_prio pr' q bs"
  by (induction bs arbitrary: q) auto

lemma ranges_prio_nonneg: "ranges_prio pr q bs \<Longrightarrow> x \<in> set (concat bs) \<Longrightarrow> int q \<le> pr x \<and> pr x < int (q + length bs)"
  by (induction bs arbitrary: q) force+

lemma ranges_prio_member:
  "ranges_prio pr 0 bs \<Longrightarrow> x \<in> set (concat bs) \<Longrightarrow> pr x = int q \<Longrightarrow>
     \<exists>pre B1 B2 post. bs = pre @ (B1 @ x # B2) # post \<and> length pre = q"
proof (induction bs arbitrary: q rule: rev_induct)
  case (snoc B bs)
  show ?case
  proof (cases "x \<in> set B")
    case True
    then obtain B1 B2 where "B = B1 @ x # B2" by (meson split_list)
    moreover have "length bs = q" using snoc.prems True by simp
    ultimately show ?thesis by blast
  next
    case False
    with snoc obtain pre B1 B2 post where "bs = pre @ (B1 @ x # B2) # post" "length pre = q" by auto
    then have "bs @ [B] = pre @ (B1 @ x # B2) # (post @ [B])" by simp
    with \<open>length pre = q\<close> show ?thesis by blast
  qed
qed simp

definition ranges_ok :: "(nat \<Rightarrow> int) \<Rightarrow> piece_picker \<Rightarrow> nat list list \<Rightarrow> bool" where
  "ranges_ok pr s bs \<longleftrightarrow> m_pieces s = concat bs \<and> m_priority_boundaries s = cumulate 0 (map length bs)
     \<and> distinct (concat bs) \<and> (\<forall>x\<in>set (concat bs). x < num_pieces s) \<and> ranges_prio pr 0 bs
     \<and> (\<forall>x<num_pieces s. 0 \<le> pr x \<longrightarrow> x \<in> set (concat bs))"

definition list_inv :: "(nat \<Rightarrow> int) \<Rightarrow> piece_picker \<Rightarrow> bool" where
  "list_inv pr s \<longleftrightarrow> num_pieces s \<le> max_pieces \<and> (\<forall>x<num_pieces s. piece_priority (piece_at s x) < priority_levels)
     \<and> (\<exists>bs. ranges_ok pr s bs \<and> idx_from (m_piece_map s) 0 (concat bs))"

text \<open>The invariant: the ranges are those of the pieces' present priorities.\<close>

definition list_ok :: "piece_picker \<Rightarrow> bool" where
  "list_ok s \<longleftrightarrow> list_inv (prio_of s) s"

text \<open>What the operations on the list leave alone: everything but positions in the list.\<close>

definition same_pieces :: "piece_picker \<Rightarrow> piece_picker \<Rightarrow> bool" where
  "same_pieces s s' \<longleftrightarrow>
     (\<exists>pm pcs bounds g. s' = s\<lparr>m_piece_map := pm, m_pieces := pcs, m_priority_boundaries := bounds, rng := g\<rparr>
        \<and> moved UNIV (m_piece_map s) pm \<and> (\<forall>x<length pm. is_have (pm ! x) = is_have (piece_at s x)))"

lemma priority_moved: "p\<lparr>pindex := 0\<rparr> = q\<lparr>pindex := 0\<rparr> \<Longrightarrow> is_have p = is_have q \<Longrightarrow> priority seeds p = priority seeds q"
  by (cases p; cases q) (auto simp: priority_def filtered_def is_reverse_def Let_def)

lemma same_pieces_at:
  assumes "same_pieces s s'"
  shows "num_pieces s' = num_pieces s" and "m_seeds s' = m_seeds s"
    and "x < num_pieces s \<Longrightarrow> (piece_at s' x)\<lparr>pindex := 0\<rparr> = (piece_at s x)\<lparr>pindex := 0\<rparr>"
    and "x < num_pieces s \<Longrightarrow> is_have (piece_at s' x) = is_have (piece_at s x)"
proof -
  obtain pm pcs bounds g where s': "s' = s\<lparr>m_piece_map := pm, m_pieces := pcs, m_priority_boundaries := bounds, rng := g\<rparr>"
    and pm: "moved UNIV (m_piece_map s) pm" "\<forall>x<length pm. is_have (pm ! x) = is_have (piece_at s x)"
    using assms unfolding same_pieces_def by blast
  have "m_piece_map s' = pm" "m_seeds s' = m_seeds s" by (simp_all add: s')
  with pm show "num_pieces s' = num_pieces s" "m_seeds s' = m_seeds s"
    "x < num_pieces s \<Longrightarrow> (piece_at s' x)\<lparr>pindex := 0\<rparr> = (piece_at s x)\<lparr>pindex := 0\<rparr>"
    "x < num_pieces s \<Longrightarrow> is_have (piece_at s' x) = is_have (piece_at s x)"
    by (simp_all add: moved_def)
qed

lemma same_pieces_prio: "same_pieces s s' \<Longrightarrow> x < num_pieces s \<Longrightarrow> prio_of s' x = prio_of s x"
  unfolding prio_of_def using same_pieces_at [of s s'] by (auto intro: priority_moved)

lemma same_pieces_num [simp]: "same_pieces s s' \<Longrightarrow> num_pieces s' = num_pieces s"
  by (rule same_pieces_at)

lemma prio_not_have: "0 \<le> prio_of s x \<Longrightarrow> \<not> is_have (piece_at s x)"
  by (auto simp: prio_of_def priority_def)

text \<open>A picker whose list was rearranged, from its new ranges.\<close>

lemma rearranged:
  assumes s': "s' = s\<lparr>m_piece_map := pm, m_pieces := concat bs, m_priority_boundaries := cumulate 0 (map length bs), rng := g\<rparr>"
    and mv: "moved X (m_piece_map s) pm" and X: "\<forall>x\<in>X. x < num_pieces s \<longrightarrow> x \<in> set (concat bs)"
    and idx: "idx_from pm 0 (concat bs)" and d: "distinct (concat bs)" "\<forall>x\<in>set (concat bs). x < num_pieces s"
    and pr: "ranges_prio (prio_of s) 0 bs" "\<forall>x<num_pieces s. 0 \<le> prio_of s x \<longrightarrow> x \<in> set (concat bs)"
    and n: "num_pieces s \<le> max_pieces"
  shows "same_pieces s s' \<and> ranges_ok (prio_of s') s' bs"
proof -
  have "length (concat bs) = card (set (concat bs))" using d(1) by (rule distinct_card [symmetric])
  also have "\<dots> \<le> card {..<num_pieces s}" using d(2) by (intro card_mono) auto
  finally have len: "length (concat bs) \<le> num_pieces s" by simp
  have mem: "is_have (pm ! x) = is_have (piece_at s x)" if "x < num_pieces s" for x
  proof (cases "x \<in> set (concat bs)")
    case True
    then obtain j where "j < length (concat bs)" "concat bs ! j = x" by (metis in_set_conv_nth)
    with idx len n have "\<not> is_have (pm ! x)" by (auto simp: idx_from_nth is_have_def)
    moreover have "0 \<le> prio_of s x" using ranges_prio_nonneg [OF pr(1) True] by simp
    ultimately show ?thesis using prio_not_have by auto
  next
    case False
    with X mv that show ?thesis by (auto simp: moved_def)
  qed
  have sp: "same_pieces s s'"
    unfolding same_pieces_def using s' mem moved_mono [OF mv, of UNIV] moved_length [OF mv]
    by (intro exI [of _ pm] exI [of _ "concat bs"] exI [of _ "cumulate 0 (map length bs)"] exI [of _ g]) auto
  have "ranges_prio (prio_of s') 0 bs"
    using pr(1) by (rule ranges_prio_cong) (use d(2) same_pieces_prio [OF sp] in auto)
  moreover have "\<forall>x<num_pieces s. 0 \<le> prio_of s' x \<longrightarrow> x \<in> set (concat bs)"
    using pr(2) same_pieces_prio [OF sp] by simp
  ultimately show ?thesis unfolding ranges_ok_def
    using d same_pieces_num [OF sp] sp s' by simp
qed

lemma list_okI:
  assumes "same_pieces s s' \<and> ranges_ok (prio_of s') s' bs" and "idx_from (m_piece_map s') 0 (concat bs)"
    and "num_pieces s \<le> max_pieces" and "\<forall>x<num_pieces s. piece_priority (piece_at s x) < priority_levels"
  shows "list_ok s' \<and> same_pieces s s'"
proof -
  have "piece_priority (piece_at s' x) = piece_priority (piece_at s x)" if "x < num_pieces s" for x
  proof -
    have "(piece_at s' x)\<lparr>pindex := 0\<rparr> = (piece_at s x)\<lparr>pindex := 0\<rparr>"
      using assms(1) that same_pieces_at(3) by blast
    from arg_cong [OF this, of piece_priority] show ?thesis by simp
  qed
  with assms same_pieces_num [of s s'] show ?thesis unfolding list_ok_def list_inv_def by auto
qed

lemma ranges_extend:
  assumes "ranges_ok pr s bs"
  obtains bs' where "m_priority_boundaries s @ replicate (p + 1 - length (m_priority_boundaries s)) (length (m_pieces s))
      = cumulate 0 (map length bs')"
    "concat bs' = concat bs" "ranges_prio pr 0 bs'" "p < length bs'"
proof
  let ?bs = "bs @ replicate (p + 1 - length bs) []"
  show "m_priority_boundaries s @ replicate (p + 1 - length (m_priority_boundaries s)) (length (m_pieces s))
      = cumulate 0 (map length ?bs)"
    using assms by (simp add: ranges_ok_def map_replicate_const length_concat)
  show "concat ?bs = concat bs" by (simp add: concat_replicate_trivial)
  show "ranges_prio pr 0 ?bs" using assms by (simp add: ranges_ok_def)
  show "p < length ?bs" by simp
qed

lemma split_range: "p < length bs \<Longrightarrow> \<exists>pre B post. bs = pre @ B # post \<and> length pre = p"
  by (metis append_take_drop_id id_take_nth_drop length_take min.absorb2 nat_less_le)

lemma priority_range_ranges:
  "length pre = p \<Longrightarrow> priority_range (cumulate 0 (map length (pre @ B # post))) p
     = (length (concat pre), length (concat pre) + length B)"
  by (cases pre rule: rev_cases)
    (auto simp: priority_range_def priority_begin_def priority_end_def nth_append length_concat)

text \<open>Adding a piece that has become pickable.\<close>

lemma add_list_ok:
  assumes inv: "list_inv pr s" and i: "i < num_pieces s" and old: "pr i < 0" and new: "0 \<le> prio_of s i"
    and rest: "\<And>x. x < num_pieces s \<Longrightarrow> x \<noteq> i \<Longrightarrow> pr x = prio_of s x"
  shows "list_ok (add i s) \<and> same_pieces s (add i s)"
proof -
  obtain bs where bs: "ranges_ok pr s bs" "idx_from (m_piece_map s) 0 (concat bs)" and n: "num_pieces s \<le> max_pieces"
    and bits: "\<forall>x<num_pieces s. piece_priority (piece_at s x) < priority_levels"
    using inv by (auto simp: list_inv_def)
  define p where "p = nat (prio_of s i)"
  obtain bs' where ext: "m_priority_boundaries s @ replicate (p + 1 - length (m_priority_boundaries s)) (length (m_pieces s))
      = cumulate 0 (map length bs')" and bs': "concat bs' = concat bs" "ranges_prio pr 0 bs'" "p < length bs'"
    using ranges_extend [OF bs(1)] .
  obtain pre B post where sp: "bs' = pre @ B # post" "length pre = p" using split_range [OF bs'(3)] by blast
  have i_new: "i \<notin> set (concat bs)" using old bs(1) ranges_prio_nonneg [of pr 0 bs i] by (auto simp: ranges_ok_def)
  define r where "r = (if B = [] then (0, rng s) else random (length B) (rng s))"
  obtain k g where kg: "r = (k, g)" by force
  have k: "k \<le> length B" using kg by (auto simp: r_def random_def Let_def less_Suc_eq_le [symmetric] split: if_splits)
  obtain B1 B2 where B: "B = B1 @ B2" "length B1 = k" using k by (metis append_take_drop_id length_take min.absorb2)
  let ?F = "concat pre @ B1" and ?rs = "B2 # post"
  have len: "length ?F = k + length (concat pre)" using B by simp
  have pcs: "m_pieces s = ?F @ concat ?rs" using bs(1) bs'(1) sp(1) B by (simp add: ranges_ok_def)
  have bnds: "cumulate 0 (map length bs') = cumulate 0 (map length pre) @ cumulate (length ?F) (map length ?rs)"
    using sp(1) B by (simp add: length_concat add.assoc)
  obtain n' i' pl where loop: "add_loop (length ?F) i p (m_piece_map s, m_pieces s @ [minus_one], cumulate 0 (map length bs')) = (n', i', pl)"
    by (metis prod_cases3)
  define bs'' where "bs'' = pre @ (B1 @ i # rotate1 B2) # map rotate1 post"
  have "plist_at (m_piece_map s) (if i' \<noteq> minus_one then place n' i' pl else pl)
    (?F @ i # concat (map rotate1 ?rs)) (cumulate 0 (map length pre) @ cumulate (Suc (length ?F)) (map length ?rs))
    (set (i # concat ?rs))"
  proof (rule add_loop_ranges)
    show "add_loop (length ?F) i (length (cumulate 0 (map length pre)))
      (m_piece_map s, ?F @ concat ?rs @ [minus_one], cumulate 0 (map length pre) @ cumulate (length ?F) (map length ?rs)) = (n', i', pl)"
      using loop sp(2) pcs bnds by simp
    show "idx_from (m_piece_map s) 0 (?F @ concat ?rs)" using bs pcs by (simp add: ranges_ok_def)
    show "distinct (i # ?F @ concat ?rs)" "\<forall>z\<in>set (i # ?F @ concat ?rs). z < length (m_piece_map s)"
      using i i_new bs(1) pcs unfolding ranges_ok_def by (metis distinct.simps(2), metis set_ConsD)
  qed (use n in auto)
  moreover have "?F @ i # concat (map rotate1 ?rs) = concat bs''"
    "cumulate 0 (map length pre) @ cumulate (Suc (length ?F)) (map length ?rs) = cumulate 0 (map length bs'')"
    by (simp_all add: bs''_def length_concat add.assoc)
  ultimately obtain pm where pm: "(if i' \<noteq> minus_one then place n' i' pl else pl) = (pm, concat bs'', cumulate 0 (map length bs''))"
    "idx_from pm 0 (concat bs'')" "moved (set (i # concat ?rs)) (m_piece_map s) pm"
    unfolding plist_at_def by metis
  have ms: "mset (concat bs'') = mset (i # concat bs)"
    unfolding bs'(1) [symmetric] sp(1) bs''_def B(1) by (simp add: mset_concat_map [of rotate1])
  then have st: "set (concat bs'') = insert i (set (concat bs))" by (metis list.set(2) mset_eq_setD)
  have dist: "distinct (concat bs'')" using ms i_new bs(1) unfolding ranges_ok_def
    by (metis distinct.simps(2) mset_eq_imp_distinct_iff)
  have rp: "ranges_prio (prio_of s) 0 bs'"
    using bs'(2) by (rule ranges_prio_cong) (use rest i_new bs(1) bs'(1) in \<open>metis ranges_ok_def\<close>)
  have prio: "prio_of s i = int p" using new by (simp add: p_def)
  have res: "add i s = s\<lparr>m_piece_map := pm, m_pieces := concat bs'', m_priority_boundaries := cumulate 0 (map length bs''), rng := g\<rparr>"
  proof -
    have draw: "(if length (concat pre) + length B = length (concat pre) then (length (concat pre), rng s)
        else case random (length (concat pre) + length B - length (concat pre)) (rng s) of (r, g) \<Rightarrow> (r + length (concat pre), g)) =
        (length ?F, g)"
      using kg len by (auto simp: r_def split: if_splits)
    have rng: "priority_range (cumulate 0 (map length bs')) p = (length (concat pre), length (concat pre) + length B)"
      using sp priority_range_ranges by blast
    show ?thesis
      unfolding add_def Let_def p_def [symmetric] ext rng prod.case draw loop pm(1) using new by simp
  qed
  have "same_pieces s (add i s) \<and> ranges_ok (prio_of (add i s)) (add i s) bs''"
  proof (rule rearranged [OF res pm(3) _ pm(2) dist _ _ _ n])
    show "\<forall>x\<in>set (concat bs''). x < num_pieces s" using st i bs(1) by (auto simp: ranges_ok_def)
    show "\<forall>x\<in>set (i # concat ?rs). x < num_pieces s \<longrightarrow> x \<in> set (concat bs'')" by (auto simp: bs''_def)
    show "ranges_prio (prio_of s) 0 bs''" using rp prio by (auto simp: bs''_def sp B)
    show "\<forall>x<num_pieces s. 0 \<le> prio_of s x \<longrightarrow> x \<in> set (concat bs'')"
      unfolding st using rest bs(1) unfolding ranges_ok_def by (metis insert_iff)
  qed
  then show ?thesis by (rule list_okI) (use pm(2) res n bits in simp_all)
qed

text \<open>Removing a piece that is not to be picked any more, from the position where it was.\<close>

lemma remove_list_ok:
  assumes bs: "ranges_ok pr s bs" "idx_from (m_piece_map s) 0 (concat pre @ B1)"
      "idx_from (m_piece_map s) (Suc (length (concat pre @ B1))) (B2 @ concat post)"
    and n: "num_pieces s \<le> max_pieces" and bits: "\<forall>x<num_pieces s. piece_priority (piece_at s x) < priority_levels"
    and new: "prio_of s i < 0" and sp: "bs = pre @ (B1 @ i # B2) # post"
    and rest: "\<And>x. x < num_pieces s \<Longrightarrow> x \<noteq> i \<Longrightarrow> pr x = prio_of s x"
  shows "list_ok (remove (length pre) (length (concat pre @ B1)) s)
    \<and> same_pieces s (remove (length pre) (length (concat pre @ B1)) s)"
proof -
  let ?F = "concat pre @ B1" and ?rs = "B2 # post"
  let ?Bp = "cumulate 0 (map length pre)"
  have pcs: "m_pieces s = ?F @ i # concat ?rs" using bs(1) sp by (simp add: ranges_ok_def)
  have bnds: "m_priority_boundaries s = ?Bp @ cumulate (Suc (length ?F)) (map length ?rs)"
    using bs(1) sp by (simp add: ranges_ok_def length_concat add.assoc)
  have d: "distinct (?F @ i # concat ?rs)" "\<forall>x\<in>set (?F @ i # concat ?rs). x < num_pieces s"
    using bs(1) sp by (auto simp: ranges_ok_def)
  define bs'' where "bs'' = pre @ (B1 @ rotr1 B2) # map rotr1 post"
  have "\<exists>pm' junk. remove_loop (length ?F) (length ?F) (length ?Bp)
      (m_piece_map s, ?F @ i # concat ?rs, ?Bp @ cumulate (Suc (length ?F)) (map length ?rs)) =
      (pm', ?F @ concat (map rotr1 ?rs) @ [junk], ?Bp @ cumulate (length ?F) (map length ?rs))
    \<and> idx_from pm' 0 (?F @ concat (map rotr1 ?rs)) \<and> moved (set (concat ?rs)) (m_piece_map s) pm'"
    by (rule remove_loop_ranges) (use bs d in auto)
  moreover have cc: "?F @ concat (map rotr1 ?rs) = concat bs''"
    "?Bp @ cumulate (length ?F) (map length ?rs) = cumulate 0 (map length bs'')"
    by (simp_all add: bs''_def length_concat add.assoc)
  ultimately obtain pm junk where pm: "remove_loop (length ?F) (length ?F) (length pre)
      (m_piece_map s, m_pieces s, m_priority_boundaries s) = (pm, concat bs'' @ [junk], cumulate 0 (map length bs''))"
    "idx_from pm 0 (concat bs'')" "moved (set (concat ?rs)) (m_piece_map s) pm"
    unfolding pcs bnds by (metis append_assoc length_cumulate length_map)
  have ms: "mset (concat bs'') = mset (?F @ concat ?rs)"
    by (simp add: bs''_def mset_concat_map [of rotr1])
  then have st: "set (concat bs'') = set (?F @ concat ?rs)" by (metis mset_eq_setD)
  have "distinct (?F @ concat ?rs)" using d(1) by simp
  then have dist: "distinct (concat bs'')" using mset_eq_imp_distinct_iff [OF ms] by simp
  have res: "remove (length pre) (length ?F) s = s\<lparr>m_piece_map := pm, m_pieces := concat bs'',
      m_priority_boundaries := cumulate 0 (map length bs''), rng := rng s\<rparr>"
    unfolding remove_def pm(1) by simp
  have old: "ranges_prio pr 0 bs" "\<forall>x<num_pieces s. 0 \<le> pr x \<longrightarrow> x \<in> set (concat bs)" using bs(1) by (auto simp: ranges_ok_def)
  have i: "i \<notin> set (concat bs'')" using d(1) unfolding st by auto
  have "ranges_prio pr 0 bs''" using old(1) by (auto simp: bs''_def sp)
  moreover have "x < num_pieces s \<and> x \<noteq> i" if "x \<in> set (concat bs'')" for x using that d i unfolding st by auto
  ultimately have rp: "ranges_prio (prio_of s) 0 bs''"
    using rest by (metis ranges_prio_cong)
  let ?s = "remove (length pre) (length ?F) s"
  have "same_pieces s ?s \<and> ranges_ok (prio_of ?s) ?s bs''"
  proof (rule rearranged [OF res pm(3) _ pm(2) dist _ rp _ n])
    show "\<forall>x\<in>set (concat bs''). x < num_pieces s" "\<forall>x\<in>set (concat ?rs). x < num_pieces s \<longrightarrow> x \<in> set (concat bs'')"
      using st d(2) by auto
    show "\<forall>x<num_pieces s. 0 \<le> prio_of s x \<longrightarrow> x \<in> set (concat bs'')"
    proof (intro allI impI)
      fix x assume x: "x < num_pieces s" "0 \<le> prio_of s x"
      with new have "x \<noteq> i" by auto
      with x rest old(2) have "x \<in> set (concat bs)" by auto
      with \<open>x \<noteq> i\<close> show "x \<in> set (concat bs'')" unfolding st sp by auto
    qed
  qed
  then show ?thesis by (rule list_okI) (use pm(2) res n bits in simp_all)
qed

lemma same_pieces_refl [simp]: "same_pieces s s"
  unfolding same_pieces_def
  by (intro exI [of _ "m_piece_map s"] exI [of _ "m_pieces s"] exI [of _ "m_priority_boundaries s"] exI [of _ "rng s"]) simp

lemma same_pieces_trans: "same_pieces a b \<Longrightarrow> same_pieces b c \<Longrightarrow> same_pieces a c"
proof -
  assume ab: "same_pieces a b" and bc: "same_pieces b c"
  then obtain pm pcs bounds g where b: "b = a\<lparr>m_piece_map := pm, m_pieces := pcs, m_priority_boundaries := bounds, rng := g\<rparr>"
    "moved UNIV (m_piece_map a) pm" "\<forall>x<length pm. is_have (pm ! x) = is_have (piece_at a x)"
    unfolding same_pieces_def by blast
  obtain pm' pcs' bounds' g' where c: "c = b\<lparr>m_piece_map := pm', m_pieces := pcs', m_priority_boundaries := bounds', rng := g'\<rparr>"
    "moved UNIV (m_piece_map b) pm'" "\<forall>x<length pm'. is_have (pm' ! x) = is_have (piece_at b x)"
    using bc unfolding same_pieces_def by blast
  have "moved UNIV (m_piece_map a) pm'" using moved_trans [OF b(2), of UNIV pm'] c(2) b(1) by simp
  then show ?thesis unfolding same_pieces_def
    using b c moved_length [OF b(2)] moved_length [OF c(2)]
    by (intro exI [of _ pm'] exI [of _ pcs'] exI [of _ bounds'] exI [of _ g']) simp
qed

text \<open>Shuffling a piece inside its range.\<close>

lemma shuffle_list_ok:
  assumes bs: "ranges_ok (prio_of s) s (pre @ B # post)" "idx_from (m_piece_map s) 0 (concat (pre @ B # post))"
    and n: "num_pieces s \<le> max_pieces" and bits: "\<forall>x<num_pieces s. piece_priority (piece_at s x) < priority_levels"
    and j: "j < length B"
  shows "list_ok (shuffle (length pre) (length (concat pre) + j) s)
    \<and> same_pieces s (shuffle (length pre) (length (concat pre) + j) s)"
proof -
  let ?n = "length (concat pre)" and ?pcs = "concat (pre @ B # post)"
  define k where "k = rng s 0 mod length B"
  have "0 < length B" using j by linarith
  then have k: "k < length B" unfolding k_def by (rule mod_less_divisor)
  let ?B = "B[k := B ! j, j := B ! k]"
  define pm where "pm = (m_piece_map s)[B ! k := (piece_at s (B ! k))\<lparr>pindex := ?n + j\<rparr>,
      B ! j := ((m_piece_map s)[B ! k := (piece_at s (B ! k))\<lparr>pindex := ?n + j\<rparr>] ! (B ! j))\<lparr>pindex := ?n + k\<rparr>]"
  have pcs: "m_pieces s = ?pcs" "m_priority_boundaries s = cumulate 0 (map length (pre @ B # post))"
    using bs(1) by (simp_all add: ranges_ok_def)
  have at: "m_pieces s ! (?n + l) = B ! l" if "l < length B" for l using that pcs(1) by (simp add: nth_append)
  have ix: "pindex (piece_at s (B ! l)) = ?n + l" if "l < length B" for l
    using bs(2) that idx_from_nth [of "m_piece_map s" ?n B] by simp
  have B: "mset ?B = mset B" using j k by (rule mset_swap)
  have d: "distinct ?pcs" "\<forall>x\<in>set ?pcs. x < num_pieces s" using bs(1) by (auto simp: ranges_ok_def)
  have upd: "(m_pieces s)[?n + k := B ! j, ?n + j := B ! k] = concat (pre @ ?B # post)"
    unfolding pcs(1) using j k by (simp add: list_update_append)
  have res: "shuffle (length pre) (?n + j) s = (if k = j then s\<lparr>rng := \<lambda>m. rng s (Suc m)\<rparr>
      else s\<lparr>m_piece_map := pm, m_pieces := concat (pre @ ?B # post),
             m_priority_boundaries := cumulate 0 (map length (pre @ ?B # post)), rng := \<lambda>m. rng s (Suc m)\<rparr>)"
  proof -
    have draw: "random (?n + length B - ?n - 1) (rng s) = (k, \<lambda>m. rng s (Suc m))"
      using \<open>0 < length B\<close> by (simp add: random_def k_def)
    have cm: "k + ?n = ?n + k" by simp
    show ?thesis
      unfolding shuffle_def pcs(2) priority_range_ranges [OF refl] Let_def prod.case draw cm at [OF k] at [OF j]
        ix [OF k] ix [OF j] upd
      by (simp add: set_piece_def pm_def pcs(2))
  qed
  show ?thesis
  proof (cases "k = j")
    case True
    let ?s = "s\<lparr>rng := \<lambda>m. rng s (Suc m)\<rparr>"
    have s: "?s = s\<lparr>m_piece_map := m_piece_map s, m_pieces := concat (pre @ B # post),
        m_priority_boundaries := cumulate 0 (map length (pre @ B # post)), rng := \<lambda>m. rng s (Suc m)\<rparr>"
      using pcs by simp
    have "same_pieces s ?s \<and> ranges_ok (prio_of ?s) ?s (pre @ B # post)"
      by (rule rearranged [where X = "{}", OF s]) (use bs n in \<open>auto simp: ranges_ok_def\<close>)
    then have "list_ok ?s \<and> same_pieces s ?s" by (rule list_okI) (use bs n bits in simp_all)
    then show ?thesis unfolding res using True by simp
  next
    case False
    have st: "set (concat (pre @ ?B # post)) = set ?pcs" using mset_eq_setD [OF B] by simp
    have dB: "B ! j \<noteq> B ! k" using d(1) j k False by (simp add: nth_eq_iff_index_eq)
    have out: "B ! l \<notin> set (concat pre)" "B ! l \<notin> set (concat post)" if "l < length B" for l
    proof -
      have "set (concat pre) \<inter> set B = {}" "set B \<inter> set (concat post) = {}" using d(1) by auto
      with nth_mem [OF that] show "B ! l \<notin> set (concat pre)" "B ! l \<notin> set (concat post)" by blast+
    qed
    have pre: "idx_from pm 0 (concat pre)" "idx_from pm (?n + length B) (concat post)"
      using bs(2) out [OF j] out [OF k] by (simp_all add: pm_def)
    have "pindex (pm ! (?B ! l)) = ?n + l" if l: "l < length B" for l
    proof -
      consider "l = j" | "l = k" "l \<noteq> j" | "l \<noteq> j" "l \<noteq> k" by blast
      then show ?thesis
      proof cases
        case 3
        then have "B ! l \<noteq> B ! j" "B ! l \<noteq> B ! k" using d(1) j k l by (simp_all add: nth_eq_iff_index_eq)
        with 3 l ix [OF l] show ?thesis by (simp add: pm_def)
      qed (use j k False dB d(2) nth_mem [OF j] nth_mem [OF k] in \<open>auto simp: pm_def\<close>)
    qed
    then have idx: "idx_from pm 0 (concat (pre @ ?B # post))" using pre by (simp add: idx_from_nth [of _ _ ?B])
    have mv: "moved (set ?pcs) (m_piece_map s) pm"
      unfolding pm_def using j k
      by (intro moved_mono [OF moved_trans [OF moved_place [of "B ! k" "{B ! k}"] moved_place [of "B ! j" "{B ! j}"]]]) auto
    have dist: "distinct (concat (pre @ ?B # post))"
      using d(1) mset_eq_imp_distinct_iff [of "concat (pre @ ?B # post)" ?pcs] B by simp
    have rp: "ranges_prio (prio_of s) 0 (pre @ ?B # post)"
      using bs(1) mset_eq_setD [OF B] by (simp add: ranges_ok_def)
    let ?s = "shuffle (length pre) (?n + j) s"
    have s: "?s = s\<lparr>m_piece_map := pm, m_pieces := concat (pre @ ?B # post),
        m_priority_boundaries := cumulate 0 (map length (pre @ ?B # post)), rng := \<lambda>m. rng s (Suc m)\<rparr>"
      unfolding res using False by simp
    have "same_pieces s ?s \<and> ranges_ok (prio_of ?s) ?s (pre @ ?B # post)"
      by (rule rearranged [OF s mv _ idx dist _ rp _ n]) (use bs(1) d(2) st in \<open>auto simp: ranges_ok_def\<close>)
    then show ?thesis by (rule list_okI) (use idx s n bits in simp_all)
  qed
qed

text \<open>A piece put into the hole that a chain of swaps leaves.\<close>

lemma placed_idx:
  assumes "idx_from pm 0 F" and "idx_from pm (Suc (length F)) R" and "i \<notin> set F" and "i \<notin> set R" and "i < length pm"
  shows "idx_from (pm[i := (pm ! i)\<lparr>pindex := length F\<rparr>]) 0 (F @ i # R)"
  using assms by simp

lemma place_hole: "place (length F) i (pm, F @ t # R, b) = (pm[i := (pm ! i)\<lparr>pindex := length F\<rparr>], F @ i # R, b)"
  by (simp add: place_def)

text \<open>From the vectors after the swaps to the picker after the piece was shuffled.\<close>

lemma swapped_list_ok:
  assumes s1: "s1 = s\<lparr>m_piece_map := pm, m_pieces := concat bs, m_priority_boundaries := cumulate 0 (map length bs)\<rparr>"
    and bs: "bs = lo @ B # hi" "j < length B" and mv: "moved X (m_piece_map s) pm" "X \<subseteq> set (concat bs)"
    and idx: "idx_from pm 0 (concat bs)" and ms: "mset (concat bs) = mset (concat bs0)"
    and d: "distinct (concat bs0)" "\<forall>x\<in>set (concat bs0). x < num_pieces s"
    and pr: "ranges_prio (prio_of s) 0 bs" "\<forall>x<num_pieces s. 0 \<le> prio_of s x \<longrightarrow> x \<in> set (concat bs0)"
    and n: "num_pieces s \<le> max_pieces" and bits: "\<forall>x<num_pieces s. piece_priority (piece_at s x) < priority_levels"
  shows "list_ok (shuffle (length lo) (length (concat lo) + j) s1)
    \<and> same_pieces s (shuffle (length lo) (length (concat lo) + j) s1)"
proof -
  have st: "set (concat bs) = set (concat bs0)" using ms by (metis mset_eq_setD)
  have dist: "distinct (concat bs)" using ms d(1) mset_eq_imp_distinct_iff by blast
  have s1': "s1 = s\<lparr>m_piece_map := pm, m_pieces := concat bs, m_priority_boundaries := cumulate 0 (map length bs), rng := rng s\<rparr>"
    by (simp add: s1)
  have r: "same_pieces s s1 \<and> ranges_ok (prio_of s1) s1 bs"
    by (rule rearranged [OF s1' mv(1) _ idx dist _ pr(1) _ n]) (use mv(2) st d(2) pr(2) in auto)
  then have "list_ok s1" using list_okI [OF r _ n bits] idx s1 by simp
  then have "num_pieces s1 \<le> max_pieces" "\<forall>x<num_pieces s1. piece_priority (piece_at s1 x) < priority_levels"
    by (auto simp: list_ok_def list_inv_def)
  moreover have "idx_from (m_piece_map s1) 0 (concat bs)" using idx s1 by simp
  ultimately have "list_ok (shuffle (length lo) (length (concat lo) + j) s1)
    \<and> same_pieces s1 (shuffle (length lo) (length (concat lo) + j) s1)"
    using r shuffle_list_ok [of s1 lo B hi j] bs by simp
  with r same_pieces_trans show ?thesis by blast
qed

lemma priority_range_values: "piece_priority p < priority_levels \<Longrightarrow> priority seeds p = -1 \<or> 0 \<le> priority seeds p"
proof -
  assume p: "piece_priority p < priority_levels"
  then have "1 * 1 \<le> (int (peer_count p) + 1) * (int priority_levels - int (piece_priority p))"
    by (intro mult_mono) auto
  then show ?thesis by (simp add: priority_def Let_def)
qed

lemma update_down_list_ok:
  assumes bs: "bs = ls @ L # mid @ (B1 @ i # B2) # post" and idx: "idx_from (m_piece_map s) 0 (concat bs)"
    and d: "distinct (concat bs)" "\<forall>x\<in>set (concat bs). x < num_pieces s"
    and pr: "ranges_prio (prio_of s) 0 (ls @ L # mid @ (B1 @ B2) # post)" "prio_of s i = int (length ls)"
      "\<forall>x<num_pieces s. 0 \<le> prio_of s x \<longrightarrow> x \<in> set (concat bs)"
    and n: "num_pieces s \<le> max_pieces" and bits: "\<forall>x<num_pieces s. piece_priority (piece_at s x) < priority_levels"
    and run: "update_down (Suc (length mid)) i (length (concat (ls @ L # mid) @ B1)) (Suc (length ls + length mid))
        (m_piece_map s, concat bs, cumulate 0 (map length bs)) = (e', pl)" "place e' i pl = (pm, pcs, bounds)"
  shows "let s' = shuffle (length ls) e' (s\<lparr>m_piece_map := pm, m_pieces := pcs, m_priority_boundaries := bounds\<rparr>)
    in list_ok s' \<and> same_pieces s s'"
proof -
  let ?F = "concat (ls @ [L])" and ?Bs = "mid @ [B1]" and ?R = "B2 @ concat post"
  let ?Bp = "cumulate 0 (map length ls)" and ?Bn = "cumulate (length (concat (ls @ L # mid) @ B1)) (Suc (length B2) # map length post)"
  define bs' where "bs' = ls @ (L @ [i]) # map rotate1 mid @ (rotate1 B1 @ B2) # post"
  have arr: "concat bs = ?F @ concat ?Bs @ i # ?R" by (simp add: bs)
  have bnd: "cumulate 0 (map length bs) = ?Bp @ starts (length ?F) (map length ?Bs) @ ?Bn"
    by (simp add: bs starts_cumulate length_concat add.assoc del: starts_snoc)
  have "\<exists>pm' t'. update_down (length ?Bs) i (length (?F @ concat ?Bs)) (length ?Bp + length ?Bs)
      (m_piece_map s, ?F @ concat ?Bs @ i # ?R, ?Bp @ starts (length ?F) (map length ?Bs) @ ?Bn) =
      (length ?F, (pm', ?F @ t' # concat (map rotate1 ?Bs) @ ?R, ?Bp @ starts (Suc (length ?F)) (map length ?Bs) @ ?Bn))
    \<and> idx_from pm' 0 ?F \<and> idx_from pm' (Suc (length ?F)) (concat (map rotate1 ?Bs) @ ?R)
    \<and> moved (set (concat ?Bs)) (m_piece_map s) pm'"
    by (rule update_down_ranges) (use idx d in \<open>auto simp: bs add.assoc\<close>)
  then obtain pm' t' where r: "update_down (length ?Bs) i (length (?F @ concat ?Bs)) (length ?Bp + length ?Bs)
      (m_piece_map s, ?F @ concat ?Bs @ i # ?R, ?Bp @ starts (length ?F) (map length ?Bs) @ ?Bn) =
      (length ?F, (pm', ?F @ t' # concat (map rotate1 ?Bs) @ ?R, ?Bp @ starts (Suc (length ?F)) (map length ?Bs) @ ?Bn))"
    "idx_from pm' 0 ?F" "idx_from pm' (Suc (length ?F)) (concat (map rotate1 ?Bs) @ ?R)"
    "moved (set (concat ?Bs)) (m_piece_map s) pm'" by blast
  have e': "e' = length ?F" "pl = (pm', ?F @ t' # concat (map rotate1 ?Bs) @ ?R, ?Bp @ starts (Suc (length ?F)) (map length ?Bs) @ ?Bn)"
    using run(1) r(1) unfolding arr bnd by simp_all
  have res: "pm = pm'[i := (pm' ! i)\<lparr>pindex := length ?F\<rparr>]" "pcs = concat bs'" "bounds = cumulate 0 (map length bs')"
    using run(2) unfolding e' place_hole
    by (auto simp: bs'_def starts_cumulate length_concat add.assoc simp del: starts_snoc)
  have i: "i \<notin> set ?F" "i \<notin> set (concat (map rotate1 ?Bs) @ ?R)" "i < length pm'"
    using d moved_length [OF r(4)] by (auto simp: bs)
  have mv: "moved (set (concat bs)) (m_piece_map s) pm" unfolding res(1)
    by (rule moved_mono [OF moved_trans [OF r(4) moved_place [of i "{i}"]]]) (auto simp: bs)
  have ix: "idx_from pm 0 (concat bs')"
    using placed_idx [OF r(2,3) i] unfolding res(1) bs'_def by (simp add: add.assoc)
  have ms: "mset (concat bs') = mset (concat bs)"
    by (simp add: bs bs'_def mset_concat_map [of rotate1])
  have rp: "ranges_prio (prio_of s) 0 bs'" using pr(1,2) by (auto simp: bs'_def)
  have "list_ok (shuffle (length ls) (length (concat ls) + length L) (s\<lparr>m_piece_map := pm, m_pieces := concat bs', m_priority_boundaries := cumulate 0 (map length bs')\<rparr>))
    \<and> same_pieces s (shuffle (length ls) (length (concat ls) + length L) (s\<lparr>m_piece_map := pm, m_pieces := concat bs', m_priority_boundaries := cumulate 0 (map length bs')\<rparr>))"
    by (rule swapped_list_ok [OF refl bs'_def _ mv _ ix ms d rp pr(3) n bits])
      (use mset_eq_setD [OF ms] in auto)
  then show ?thesis unfolding Let_def e'(1) res(2,3) by simp
qed

lemma update_up_list_ok:
  assumes bs: "bs = pre @ (B1 @ i # B2) # mid @ U # post" and idx: "idx_from (m_piece_map s) 0 (concat bs)"
    and d: "distinct (concat bs)" "\<forall>x\<in>set (concat bs). x < num_pieces s"
    and pr: "ranges_prio (prio_of s) 0 (pre @ (B1 @ B2) # mid @ U # post)" "prio_of s i = int (Suc (length pre + length mid))"
      "\<forall>x<num_pieces s. 0 \<le> prio_of s x \<longrightarrow> x \<in> set (concat bs)"
    and n: "num_pieces s \<le> max_pieces" and bits: "\<forall>x<num_pieces s. piece_priority (piece_at s x) < priority_levels"
    and run: "update_up (Suc (length mid)) i (length (concat pre @ B1)) (length pre)
        (m_piece_map s, concat bs, cumulate 0 (map length bs)) = (e', pl)" "place e' i pl = (pm, pcs, bounds)"
  shows "let s' = shuffle (Suc (length pre + length mid)) e' (s\<lparr>m_piece_map := pm, m_pieces := pcs, m_priority_boundaries := bounds\<rparr>)
    in list_ok s' \<and> same_pieces s s'"
proof -
  let ?F = "concat pre @ B1" and ?Bs = "B2 # mid" and ?R = "U @ concat post"
  let ?Bp = "cumulate 0 (map length pre)" and ?Bn = "cumulate (Suc (length (?F @ concat ?Bs))) (map length (U # post))"
  define lo where "lo = pre @ (B1 @ rotr1 B2) # map rotr1 mid"
  define bs' where "bs' = lo @ (i # U) # post"
  have arr: "concat bs = ?F @ i # concat ?Bs @ ?R" by (simp add: bs)
  have bnd: "cumulate 0 (map length bs) = ?Bp @ cumulate (Suc (length ?F)) (map length ?Bs) @ ?Bn"
    by (simp add: bs length_concat add.assoc)
  have "\<exists>pm' t'. update_up (length ?Bs) i (length ?F) (length ?Bp)
      (m_piece_map s, ?F @ i # concat ?Bs @ ?R, ?Bp @ cumulate (Suc (length ?F)) (map length ?Bs) @ ?Bn) =
      (length (?F @ concat ?Bs), (pm', ?F @ concat (map rotr1 ?Bs) @ t' # ?R, ?Bp @ cumulate (length ?F) (map length ?Bs) @ ?Bn))
    \<and> idx_from pm' 0 (?F @ concat (map rotr1 ?Bs)) \<and> idx_from pm' (Suc (length (?F @ concat ?Bs))) ?R
    \<and> moved (set (concat ?Bs)) (m_piece_map s) pm'"
    by (rule update_up_ranges) (use idx d in \<open>auto simp: bs add.assoc\<close>)
  then obtain pm' t' where r: "update_up (length ?Bs) i (length ?F) (length ?Bp)
      (m_piece_map s, ?F @ i # concat ?Bs @ ?R, ?Bp @ cumulate (Suc (length ?F)) (map length ?Bs) @ ?Bn) =
      (length (?F @ concat ?Bs), (pm', ?F @ concat (map rotr1 ?Bs) @ t' # ?R, ?Bp @ cumulate (length ?F) (map length ?Bs) @ ?Bn))"
    "idx_from pm' 0 (?F @ concat (map rotr1 ?Bs))" "idx_from pm' (Suc (length (?F @ concat ?Bs))) ?R"
    "moved (set (concat ?Bs)) (m_piece_map s) pm'" by blast
  let ?G = "?F @ concat (map rotr1 ?Bs)"
  have G: "length (?F @ concat ?Bs) = length ?G" "?G = concat lo" by (simp_all add: length_concat lo_def)
  have e': "e' = length ?G" "pl = (pm', ?G @ t' # ?R, ?Bp @ cumulate (length ?F) (map length ?Bs) @ ?Bn)"
    using run(1) r(1) G(1) unfolding arr bnd by simp_all
  have res: "pm = pm'[i := (pm' ! i)\<lparr>pindex := length ?G\<rparr>]" "pcs = concat bs'" "bounds = cumulate 0 (map length bs')"
    using run(2) unfolding e' place_hole
    by (auto simp: bs'_def lo_def length_concat add.assoc)
  have i: "i \<notin> set ?G" "i \<notin> set ?R" "i < length pm'"
    using d moved_length [OF r(4)] by (auto simp: bs)
  have mv: "moved (set (concat bs)) (m_piece_map s) pm" unfolding res(1)
    by (rule moved_mono [OF moved_trans [OF r(4) moved_place [of i "{i}"]]]) (auto simp: bs)
  have ix: "idx_from pm 0 (concat bs')"
    using placed_idx [OF r(2) r(3) [unfolded G(1)] i] unfolding res(1) bs'_def lo_def by (simp add: add.assoc)
  have ms: "mset (concat bs') = mset (concat bs)"
    by (simp add: bs bs'_def lo_def mset_concat_map [of rotr1])
  have rp: "ranges_prio (prio_of s) 0 bs'" using pr(1,2) by (auto simp: bs'_def lo_def)
  have "list_ok (shuffle (length lo) (length (concat lo) + 0) (s\<lparr>m_piece_map := pm, m_pieces := concat bs', m_priority_boundaries := cumulate 0 (map length bs')\<rparr>))
    \<and> same_pieces s (shuffle (length lo) (length (concat lo) + 0) (s\<lparr>m_piece_map := pm, m_pieces := concat bs', m_priority_boundaries := cumulate 0 (map length bs')\<rparr>))"
    by (rule swapped_list_ok [OF refl bs'_def _ mv _ ix ms d rp pr(3) n bits])
      (use mset_eq_setD [OF ms] in auto)
  then show ?thesis unfolding Let_def e'(1) res(2,3) G(2) by (simp add: lo_def)
qed

lemma update_chain:
  assumes "m_pieces s ! e = i" and "prio_of s i \<noteq> prio" and "prio_of s i \<noteq> -1"
    and "m_priority_boundaries s @ replicate (nat (prio_of s i) + 1 - length (m_priority_boundaries s)) (length (m_pieces s)) = b"
    and "(if prio > prio_of s i then update_down (nat prio - nat (prio_of s i)) i e (nat prio) (m_piece_map s, m_pieces s, b)
          else update_up (nat (prio_of s i) - nat prio) i e (nat prio) (m_piece_map s, m_pieces s, b)) = (e', pl)"
    and "place e' i pl = (pm, pcs, bounds)"
  shows "update prio e s = shuffle (nat (prio_of s i)) e'
    (s\<lparr>m_piece_map := pm, m_pieces := pcs, m_priority_boundaries := bounds\<rparr>)"
  unfolding update_def Let_def assms(1,4,5) using assms(2,3,6) by simp

lemma update_list_ok:
  assumes inv: "list_inv pr s" and i: "i < num_pieces s" and old: "0 \<le> pr i"
    and rest: "\<And>x. x < num_pieces s \<Longrightarrow> x \<noteq> i \<Longrightarrow> pr x = prio_of s x"
  shows "list_ok (update (pr i) (pindex (piece_at s i)) s) \<and> same_pieces s (update (pr i) (pindex (piece_at s i)) s)"
proof -
  let ?new = "prio_of s i" and ?e = "pindex (piece_at s i)"
  obtain bs0 where bs0: "ranges_ok pr s bs0" "idx_from (m_piece_map s) 0 (concat bs0)" and n: "num_pieces s \<le> max_pieces"
    and bits: "\<forall>x<num_pieces s. piece_priority (piece_at s x) < priority_levels"
    using inv by (auto simp: list_inv_def)
  define p np where "p = nat (pr i)" and "np = nat ?new"
  obtain bs where ext: "m_priority_boundaries s @ replicate (np + 1 - length (m_priority_boundaries s)) (length (m_pieces s))
      = cumulate 0 (map length bs)" and bs: "concat bs = concat bs0" "ranges_prio pr 0 bs" "np < length bs"
    using ranges_extend [OF bs0(1)] .
  have "i \<in> set (concat bs)" using bs0(1) i old bs(1) by (simp add: ranges_ok_def)
  then obtain pre B1 B2 post where sp: "bs = pre @ (B1 @ i # B2) # post" "length pre = p"
    using ranges_prio_member [OF bs(2), of i p] old by (auto simp: p_def)
  have pcs: "m_pieces s = concat bs" using bs0(1) bs(1) by (simp add: ranges_ok_def)
  have d: "distinct (concat bs)" "\<forall>x\<in>set (concat bs). x < num_pieces s" using bs0(1) bs(1) by (simp_all add: ranges_ok_def)
  have idx: "idx_from (m_piece_map s) 0 (concat bs)" using bs0(2) bs(1) by simp
  have e: "?e = length (concat pre @ B1)" using idx by (simp add: sp(1))
  have at: "m_pieces s ! ?e = i" unfolding e pcs sp(1) by (simp add: nth_append)
  have all: "\<forall>x<num_pieces s. 0 \<le> ?new \<longrightarrow> 0 \<le> prio_of s x \<longrightarrow> x \<in> set (concat bs)"
    using bs0(1) bs(1) rest old i unfolding ranges_ok_def by metis
  have "ranges_prio pr 0 (pre @ (B1 @ B2) # post)" using bs(2) by (auto simp: sp(1))
  moreover have "x < num_pieces s \<and> x \<noteq> i" if "x \<in> set (concat (pre @ (B1 @ B2) # post))" for x
    using d that by (auto simp: sp(1))
  ultimately have rp: "ranges_prio (prio_of s) 0 (pre @ (B1 @ B2) # post)"
    using rest by (metis ranges_prio_cong)
  have "?new = -1 \<or> 0 \<le> ?new"
    unfolding prio_of_def by (rule priority_range_values) (use bits i in blast)
  then consider (same) "?new = pr i" | (gone) "?new = -1" "?new \<noteq> pr i" | (down) "0 \<le> ?new" "?new < pr i" | (up) "pr i < ?new"
    using old by linarith
  then show ?thesis
  proof cases
    case same
    then have "list_ok s" using inv rest unfolding list_ok_def list_inv_def ranges_ok_def
      by (metis ranges_prio_cong)
    with same show ?thesis by (simp add: update_def at)
  next
    case gone
    have "i \<in> set (concat bs0)" using \<open>i \<in> set (concat bs)\<close> bs(1) by simp
    then obtain pre B1 B2 post where sp: "bs0 = pre @ (B1 @ i # B2) # post" "length pre = p"
      using ranges_prio_member [of pr bs0 i p] bs0(1) old by (auto simp: p_def ranges_ok_def)
    have e: "?e = length (concat pre @ B1)" using bs0(2) by (simp add: sp(1))
    have "list_ok (remove (length pre) (length (concat pre @ B1)) s)
      \<and> same_pieces s (remove (length pre) (length (concat pre @ B1)) s)"
      by (rule remove_list_ok [OF bs0(1) _ _ n bits _ sp(1) rest]) (use bs0(2) sp(1) gone in \<open>auto simp: add.assoc\<close>)
    moreover have "update (pr i) ?e s = remove (length pre) (length (concat pre @ B1)) s"
      using gone at e sp(2) by (simp add: update_def p_def)
    ultimately show ?thesis by simp
  next
    case down
    then have "np < length pre" using sp(2) by (simp add: np_def p_def)
    then obtain ls L mid where ls: "pre = ls @ L # mid" "length ls = np" using split_range by blast
    have steps: "p - np = Suc (length mid)" "p = Suc (length ls + length mid)" using ls sp(2) by auto
    obtain e' pl where run: "update_down (Suc (length mid)) i (length (concat (ls @ L # mid) @ B1)) (Suc (length ls + length mid))
        (m_piece_map s, concat bs, cumulate 0 (map length bs)) = (e', pl)" by (rule prod.exhaust)
    obtain pm pcs' bounds where pl: "place e' i pl = (pm, pcs', bounds)" by (metis prod_cases3)
    let ?s = "shuffle (length ls) e' (s\<lparr>m_piece_map := pm, m_pieces := pcs', m_priority_boundaries := bounds\<rparr>)"
    have "let s' = ?s in list_ok s' \<and> same_pieces s s'"
      by (rule update_down_list_ok [OF _ idx d _ _ _ n bits run pl])
        (use sp(1) ls rp all down in \<open>auto simp: np_def\<close>)
    moreover have "update (pr i) ?e s = ?s"
      using update_chain [OF at _ _ ext [unfolded np_def], of "pr i" e' pl pm pcs' bounds] down run pl steps ls pcs e
      unfolding np_def p_def by simp
    ultimately show ?thesis by (simp add: Let_def)
  next
    case up
    then have "np - Suc p < length post" using bs(3) sp old by (auto simp: np_def p_def)
    then obtain mid U post' where post: "post = mid @ U # post'" "length mid = np - Suc p" using split_range by blast
    have "p < np" using up old by (simp add: np_def p_def)
    then have steps: "np - p = Suc (length mid)" "np = Suc (length pre + length mid)"
      using post(2) sp(2) by simp_all
    obtain e' pl where run: "update_up (Suc (length mid)) i (length (concat pre @ B1)) (length pre)
        (m_piece_map s, concat bs, cumulate 0 (map length bs)) = (e', pl)" by (rule prod.exhaust)
    obtain pm pcs' bounds where pl: "place e' i pl = (pm, pcs', bounds)" by (metis prod_cases3)
    let ?s = "shuffle (Suc (length pre + length mid)) e' (s\<lparr>m_piece_map := pm, m_pieces := pcs', m_priority_boundaries := bounds\<rparr>)"
    have "let s' = ?s in list_ok s' \<and> same_pieces s s'"
    proof (rule update_up_list_ok [OF _ idx d _ _ _ n bits run pl])
      have "int np = prio_of s i" using up old by (simp add: np_def)
      then show "prio_of s i = int (Suc (length pre + length mid))" using steps(2) by simp
    qed (use sp(1) post(1) rp all up old in auto)
    moreover have "update (pr i) ?e s = ?s"
      using update_chain [OF at _ _ ext [unfolded np_def], of "pr i" e' pl pm pcs' bounds] up old run pl steps sp(2) pcs e
      unfolding np_def p_def by simp
    ultimately show ?thesis by (simp add: Let_def)
  qed
qed

section \<open>A piece changes\<close>

text \<open>
  The operations change a piece first and its place in the list then: in between, the ranges are those
  of the priorities before.
\<close>

lemma set_piece_simps [simp]:
  "num_pieces (set_piece i f s) = num_pieces s" "m_pieces (set_piece i f s) = m_pieces s"
  "m_priority_boundaries (set_piece i f s) = m_priority_boundaries s" "m_seeds (set_piece i f s) = m_seeds s"
  "m_dirty (set_piece i f s) = m_dirty s"
  "i < num_pieces s \<Longrightarrow> piece_at (set_piece i f s) i = f (piece_at s i)"
  "x \<noteq> i \<Longrightarrow> piece_at (set_piece i f s) x = piece_at s x"
  by (simp_all add: set_piece_def)

lemma prio_of_set_piece: "x \<noteq> i \<Longrightarrow> prio_of (set_piece i f s) x = prio_of s x"
  by (simp add: prio_of_def)

lemma idx_from_cong: "(\<And>x. x \<in> set xs \<Longrightarrow> pindex (pm' ! x) = pindex (pm ! x)) \<Longrightarrow> idx_from pm' k xs = idx_from pm k xs"
  by (induction xs arbitrary: k) auto

lemma list_inv_set_piece:
  assumes "list_ok s" and "i < num_pieces s" and "pindex (f (piece_at s i)) = pindex (piece_at s i)"
    and "piece_priority (f (piece_at s i)) < priority_levels"
  shows "list_inv (prio_of s) (set_piece i f s)"
proof -
  obtain bs where bs: "ranges_ok (prio_of s) s bs" "idx_from (m_piece_map s) 0 (concat bs)"
    using assms(1) by (auto simp: list_ok_def list_inv_def)
  have "pindex (piece_at (set_piece i f s) x) = pindex (piece_at s x)" for x
    using assms(2,3) by (cases "x = i") auto
  then have "idx_from (m_piece_map (set_piece i f s)) 0 (concat bs)" using bs(2) idx_from_cong by metis
  moreover have "ranges_ok (prio_of s) (set_piece i f s) bs" using bs(1) by (simp add: ranges_ok_def)
  moreover have "piece_priority (piece_at (set_piece i f s) x) < priority_levels" if "x < num_pieces s" for x
    using that assms by (cases "x = i") (auto simp: list_ok_def list_inv_def)
  ultimately show ?thesis using assms(1) by (auto simp: list_ok_def list_inv_def)
qed

text \<open>A picker with one piece in the list and one that is filtered.\<close>

definition sample_picker :: piece_picker where
  "sample_picker =
     \<lparr>m_piece_map = [\<lparr>peer_count = 0, pstate = piece_open, piece_priority = 7, pindex = 0\<rparr>,
        \<lparr>peer_count = 0, pstate = piece_open, piece_priority = 0, pindex = 0\<rparr>],
      m_pad_blocks = [], m_pads_in_piece = (\<lambda>_. None), m_recent_extents = [],
      m_num_pad_blocks = 0, m_have_pad_blocks = 0, m_filtered_pad_blocks = 0,
      m_have_filtered_pad_blocks = 0, m_seeds = 1, m_num_passed = 0, m_pieces = [0],
      m_priority_boundaries = [0, 1], m_downloads = (\<lambda>_. []), m_block_info = [],
      m_free_block_infos = [], m_blocks_per_piece = 2, m_blocks_in_last_piece = 1,
      m_num_filtered = 1, m_num_have_filtered = 0, m_cursor = 0, m_reverse_cursor = 1,
      m_num_have = 0, m_dirty = False, rng = (\<lambda>_. 0)\<rparr>"

lemma sample_picker_prio: "prio_of sample_picker 0 = 1" "prio_of sample_picker 1 = -1" "num_pieces sample_picker = 2"
  by (simp_all add: sample_picker_def prio_of_def priority_def filtered_def is_have_def is_reverse_def)

lemma sample_picker_ok: "list_ok sample_picker"
proof -
  have "ranges_ok (prio_of sample_picker) sample_picker [[], [0]]"
    using sample_picker_prio by (auto simp: ranges_ok_def less_2_cases_iff) (simp_all add: sample_picker_def)
  moreover have "idx_from (m_piece_map sample_picker) 0 (concat [[], [0]])" by (simp add: sample_picker_def)
  moreover have "\<forall>x<2. piece_priority (piece_at sample_picker x) < 8"
    by (auto simp: sample_picker_def less_2_cases_iff)
  ultimately show ?thesis unfolding list_ok_def list_inv_def using sample_picker_prio(3) by auto
qed

text \<open>
  C7: When a piece in the list changes in a way that may change its priority, \<open>update\<close>, called with the
  priority and position it had, puts the list right again: \<open>m_pieces\<close> holds exactly the pieces that can be
  picked, in the order of their priorities, the boundaries separate the priorities, every piece knows
  its position, and nothing but positions was changed.
\<close>

theorem update_restores_list:
  assumes "list_ok s" and "i < num_pieces s" and "0 \<le> prio_of s i"
    and "pindex (f (piece_at s i)) = pindex (piece_at s i)" and "piece_priority (f (piece_at s i)) < priority_levels"
  shows "let s1 = set_piece i f s; s2 = update (prio_of s i) (pindex (piece_at s1 i)) s1
    in list_ok s2 \<and> same_pieces s1 s2"
proof -
  have "list_inv (prio_of s) (set_piece i f s)" using assms by (intro list_inv_set_piece)
  from update_list_ok [OF this, of i] show ?thesis
    using assms by (simp add: Let_def prio_of_set_piece)
qed

theorem update_restores_list_witness:
  "let s = sample_picker; s1 = set_piece 0 (\<lambda>p. p\<lparr>peer_count := 1\<rparr>) s;
       s2 = update (prio_of s 0) (pindex (piece_at s1 0)) s1
   in prio_of s 0 \<noteq> prio_of s1 0 \<and> list_ok s2 \<and> same_pieces s1 s2"
proof -
  let ?s1 = "set_piece 0 (\<lambda>p. p\<lparr>peer_count := 1\<rparr>) sample_picker"
  have "prio_of ?s1 0 = 4"
    by (simp add: sample_picker_def set_piece_def prio_of_def priority_def filtered_def is_have_def is_reverse_def)
  moreover have "piece_priority (piece_at sample_picker 0) < priority_levels" by (simp add: sample_picker_def)
  ultimately show ?thesis
    using update_restores_list [OF sample_picker_ok, of 0 "\<lambda>p. p\<lparr>peer_count := 1\<rparr>"] sample_picker_prio
    by (simp add: Let_def)
qed

text \<open>
  C21: When a piece that was not in the list becomes one that can be picked, \<open>add\<close> puts it into the range
  of its priority, wherever the random generator wants it there, and keeps the list in order.
\<close>

theorem add_restores_list:
  assumes "list_ok s" and "i < num_pieces s" and "prio_of s i = -1" and "0 \<le> prio_of (set_piece i f s) i"
    and "pindex (f (piece_at s i)) = pindex (piece_at s i)" and "piece_priority (f (piece_at s i)) < priority_levels"
  shows "let s1 = set_piece i f s; s2 = add i s1 in list_ok s2 \<and> same_pieces s1 s2 \<and> i \<in> set (m_pieces s2)"
proof -
  have inv: "list_inv (prio_of s) (set_piece i f s)" using assms by (intro list_inv_set_piece)
  let ?s = "add i (set_piece i f s)"
  have ok: "list_ok ?s \<and> same_pieces (set_piece i f s) ?s"
    using add_list_ok [OF inv, of i] assms by (simp add: prio_of_set_piece)
  then have "0 \<le> prio_of ?s i" "i < num_pieces ?s"
    using assms same_pieces_prio [of "set_piece i f s" ?s i] same_pieces_num by auto
  then have "i \<in> set (m_pieces ?s)" using ok by (auto simp: list_ok_def list_inv_def ranges_ok_def)
  with ok show ?thesis by (simp add: Let_def)
qed

theorem add_restores_list_witness:
  "let s1 = set_piece 1 (\<lambda>p. p\<lparr>piece_priority := 7\<rparr>) sample_picker; s2 = add 1 s1
   in list_ok s2 \<and> same_pieces s1 s2 \<and> 1 \<in> set (m_pieces s2)"
proof -
  have "prio_of (set_piece 1 (\<lambda>p. p\<lparr>piece_priority := 7\<rparr>) sample_picker) 1 = 1"
    by (simp add: sample_picker_def set_piece_def prio_of_def priority_def filtered_def is_have_def is_reverse_def)
  then show ?thesis
    using add_restores_list [OF sample_picker_ok, of 1 "\<lambda>p. p\<lparr>piece_priority := 7\<rparr>"] sample_picker_prio
    by (simp add: Let_def)
qed

end
