(* ===== verification/Picker_Blocks.thy ===== *)
theory Picker_Blocks
  imports Picker_List
begin

text \<open>
  The pieces that are being downloaded and their blocks (\<open>piece_picker.cpp\<close>): the four queues
  \<open>m_downloads\<close>, each sorted by piece index, the block states in \<open>m_block_info\<close> and its free list, and the
  operations that move a block from requested over writing to finished and back.

  An iterator into a queue is the queue and a position in it.
\<close>

section \<open>The queues\<close>

type_synonym dl_iter = "download_queue_t \<times> nat"

text \<open>\<open>std::lower_bound\<close> on a queue.\<close>

definition dl_lower_bound :: "downloading_piece list \<Rightarrow> nat \<Rightarrow> nat" where
  "dl_lower_bound ds idx = length (takeWhile (\<lambda>d. dindex d < idx) ds)"

text \<open>The position of a piece in a queue; \<open>None\<close> is \<open>end()\<close>.\<close>

definition find_dl_piece :: "download_queue_t \<Rightarrow> nat \<Rightarrow> piece_picker \<Rightarrow> nat option" where
  "find_dl_piece q idx s =
     (let i = dl_lower_bound (m_downloads s q) idx in
      if i = length (m_downloads s q) then None
      else if dindex (m_downloads s q ! i) = idx then Some i
      else None)"

definition dl_at :: "piece_picker \<Rightarrow> dl_iter \<Rightarrow> downloading_piece" where
  "dl_at s it = m_downloads s (fst it) ! snd it"

definition dl_modify :: "dl_iter \<Rightarrow> (downloading_piece \<Rightarrow> downloading_piece) \<Rightarrow> piece_picker \<Rightarrow> piece_picker" where
  "dl_modify it f s =
     s\<lparr>m_downloads := (m_downloads s)(fst it := (m_downloads s (fst it))[snd it := f (dl_at s it)])\<rparr>"

definition dl_erase :: "dl_iter \<Rightarrow> piece_picker \<Rightarrow> piece_picker" where
  "dl_erase it s =
     (let ds = m_downloads s (fst it) in
      s\<lparr>m_downloads := (m_downloads s)(fst it := take (snd it) ds @ drop (Suc (snd it)) ds)\<rparr>)"

definition dl_insert :: "dl_iter \<Rightarrow> downloading_piece \<Rightarrow> piece_picker \<Rightarrow> piece_picker" where
  "dl_insert it d s =
     (let ds = m_downloads s (fst it) in
      s\<lparr>m_downloads := (m_downloads s)(fst it := take (snd it) ds @ d # drop (snd it) ds)\<rparr>)"

text \<open>The blocks of a downloading piece start at this index; there are \<open>blocks_in_piece\<close> of them.\<close>

definition blocks_begin :: "piece_picker \<Rightarrow> downloading_piece \<Rightarrow> nat" where
  "blocks_begin s d = info_idx d * m_blocks_per_piece s"

definition blocks_for_piece :: "piece_picker \<Rightarrow> downloading_piece \<Rightarrow> block_info list" where
  "blocks_for_piece s d = take (blocks_in_piece s (dindex d)) (drop (blocks_begin s d) (m_block_info s))"

definition block_at :: "piece_picker \<Rightarrow> downloading_piece \<Rightarrow> nat \<Rightarrow> block_info" where
  "block_at s d j = m_block_info s ! (blocks_begin s d + j)"

definition set_block :: "downloading_piece \<Rightarrow> nat \<Rightarrow> (block_info \<Rightarrow> block_info) \<Rightarrow> piece_picker \<Rightarrow> piece_picker" where
  "set_block d j f s =
     s\<lparr>m_block_info := (m_block_info s)[blocks_begin s d + j := f (block_at s d j)]\<rparr>"

text \<open>The state a downloading piece is to have, from its block counters.\<close>

definition new_dl_state :: "piece_picker \<Rightarrow> downloading_piece \<Rightarrow> download_queue_t" where
  "new_dl_state s d =
     (let p = piece_at s (dindex d); total = requested d + finished d + writing d in
      if filtered p then piece_zero_prio
      else if total = 0 then piece_open
      else if total < blocks_in_piece s (dindex d)
      then (if is_reverse p then piece_downloading_reverse else piece_downloading)
      else if requested d > 0
      then (if is_reverse p then piece_full_reverse else piece_full)
      else piece_finished)"

definition update_piece_state :: "dl_iter \<Rightarrow> piece_picker \<Rightarrow> dl_iter \<times> piece_picker" where
  "update_piece_state dp s =
     (let d = dl_at s dp; i = dindex d; current_state = pstate (piece_at s i) in
      if current_state = piece_open then (dp, s)
      else
        let new_state = new_dl_state s d in
        if new_state = current_state \<or> new_state = piece_open then (dp, s)
        else
          let s1 = dl_erase (download_queue (piece_at s i), snd dp) s;
              prio = prio_of s1 i;
              s2 = set_piece i (\<lambda>p. p\<lparr>pstate := new_state\<rparr>) s1;
              q = download_queue (piece_at s2 i);
              k = dl_lower_bound (m_downloads s2 q) i;
              s3 = dl_insert (q, k) d s2
          in ((q, k),
              if m_dirty s3 then s3
              else if prio = -1 \<and> prio_of s3 i \<noteq> -1 then add i s3
              else if prio \<noteq> -1 then update prio (pindex (piece_at s3 i)) s3
              else s3))"

text \<open>The loop that sets up the blocks of a new downloading piece; pad blocks are finished from the start.\<close>

fun init_blocks :: "bool list \<Rightarrow> nat \<Rightarrow> nat \<Rightarrow> nat \<Rightarrow> block_info list \<Rightarrow> nat \<Rightarrow> block_info list \<times> nat" where
  "init_blocks pads first pad_first 0 infos fin = (infos, fin)"
| "init_blocks pads first pad_first (Suc n) infos fin =
     (let pad = (pads \<noteq> [] \<and> pads ! pad_first);
          info = \<lparr>bpeer = None, num_peers_of = 0, bstate = (if pad then state_finished else state_none)\<rparr>
      in init_blocks pads (first + 1) (pad_first + 1) n (infos[first := info])
           (if pad then bits_inc 15 fin else fin))"

definition add_download_piece :: "nat \<Rightarrow> piece_picker \<Rightarrow> dl_iter \<times> piece_picker" where
  "add_download_piece piece s =
     (let (block_index, s1) =
        (if m_free_block_infos s = []
         then (length (m_block_info s) div m_blocks_per_piece s,
               s\<lparr>m_block_info := m_block_info s @ replicate (m_blocks_per_piece s) new_block_info\<rparr>)
         else (last (m_free_block_infos s), s\<lparr>m_free_block_infos := butlast (m_free_block_infos s)\<rparr>));
          ret = new_downloading_piece\<lparr>dindex := piece, info_idx := block_index mod 2 ^ 16\<rparr>;
          k = dl_lower_bound (m_downloads s1 piece_downloading) piece;
          (infos, fin) = init_blocks (m_pad_blocks s1) (blocks_begin s1 ret) (piece * m_blocks_per_piece s1)
                           (blocks_in_piece s1 piece) (m_block_info s1) 0;
          s2 = dl_insert (piece_downloading, k) (ret\<lparr>finished := fin\<rparr>) (s1\<lparr>m_block_info := infos\<rparr>)
      in update_piece_state (piece_downloading, k) s2)"

definition erase_download_piece :: "dl_iter \<Rightarrow> piece_picker \<Rightarrow> piece_picker" where
  "erase_download_piece it s =
     (let d = dl_at s it; download_state = download_queue (piece_at s (dindex d)) in
      dl_erase (download_state, snd it)
        (set_piece (dindex d) (\<lambda>p. p\<lparr>pstate := piece_open\<rparr>)
          (s\<lparr>m_free_block_infos := m_free_block_infos s @ [info_idx d]\<rparr>)))"

definition get_download_queue :: "piece_picker \<Rightarrow> downloading_piece list" where
  "get_download_queue s =
     concat (map (m_downloads s) [piece_downloading, piece_full, piece_finished, piece_zero_prio])"

definition get_download_queue_size :: "piece_picker \<Rightarrow> int" where
  "get_download_queue_size s =
     fold (\<lambda>q acc. acc + int (length (m_downloads s q)))
       [piece_downloading, piece_full, piece_finished, piece_zero_prio] 0"

definition get_download_queue_sizes :: "piece_picker \<Rightarrow> int \<times> int \<times> int \<times> int" where
  "get_download_queue_sizes s =
     (int (length (m_downloads s piece_downloading)), int (length (m_downloads s piece_full)),
      int (length (m_downloads s piece_finished)), int (length (m_downloads s piece_zero_prio)))"

section \<open>Questions about pieces and blocks\<close>

text \<open>The iterator of a piece that is being downloaded, as the operations look it up.\<close>

definition dl_iter_of :: "nat \<Rightarrow> piece_picker \<Rightarrow> dl_iter option" where
  "dl_iter_of i s =
     (let q = download_queue (piece_at s i) in map_option (Pair q) (find_dl_piece q i s))"

definition piece_info :: "nat \<Rightarrow> downloading_piece \<Rightarrow> piece_picker \<Rightarrow> downloading_piece" where
  "piece_info index st s =
     (let state = download_queue (piece_at s index) in
      if state \<noteq> piece_open
      then (case find_dl_piece state index s of Some k \<Rightarrow> m_downloads s state ! k | None \<Rightarrow> st)
      else
        let st1 = st\<lparr>info_idx := 0, dindex := index, writing := 0, requested := 0\<rparr> in
        if is_have (piece_at s index) then st1\<lparr>finished := blocks_in_piece s index mod 2 ^ 15\<rparr>
        else st1\<lparr>finished := 0\<rparr>)"

record piece_stats_t =
  st_peer_count :: int
  st_priority :: int
  st_have :: bool
  st_downloading :: bool

definition piece_stats :: "nat \<Rightarrow> piece_picker \<Rightarrow> piece_stats_t" where
  "piece_stats index s =
     (let pp = piece_at s index in
      \<lparr>st_peer_count = int (peer_count pp) + m_seeds s, st_priority = prio_of s index,
       st_have = is_have pp, st_downloading = downloading pp\<rparr>)"

definition is_piece_finished :: "nat \<Rightarrow> piece_picker \<Rightarrow> bool" where
  "is_piece_finished index s =
     (if pindex (piece_at s index) = we_have_index then True
      else if download_queue (piece_at s index) = piece_open then False
      else case dl_iter_of index s of None \<Rightarrow> False
           | Some it \<Rightarrow> \<not> finished (dl_at s it) + writing (dl_at s it) < blocks_in_piece s index)"

definition has_piece_passed :: "nat \<Rightarrow> piece_picker \<Rightarrow> bool" where
  "has_piece_passed index s =
     (if pindex (piece_at s index) = we_have_index then True
      else if download_queue (piece_at s index) = piece_open then False
      else case dl_iter_of index s of None \<Rightarrow> False | Some it \<Rightarrow> passed_hash_check (dl_at s it))"

type_synonym piece_block = "nat \<times> nat"

text \<open>The state of a block as the picker sees it, none for a piece that is not being downloaded.\<close>

definition block_state_of :: "piece_block \<Rightarrow> piece_picker \<Rightarrow> block_info option" where
  "block_state_of b s = (case dl_iter_of (fst b) s of None \<Rightarrow> None
     | Some it \<Rightarrow> Some (block_at s (dl_at s it) (snd b)))"

definition is_requested :: "piece_block \<Rightarrow> piece_picker \<Rightarrow> bool" where
  "is_requested b s =
     (if download_queue (piece_at s (fst b)) = piece_open then False
      else case block_state_of b s of None \<Rightarrow> False | Some info \<Rightarrow> bstate info = state_requested)"

definition is_downloaded :: "piece_block \<Rightarrow> piece_picker \<Rightarrow> bool" where
  "is_downloaded b s =
     (if pindex (piece_at s (fst b)) = we_have_index then True
      else if download_queue (piece_at s (fst b)) = piece_open then False
      else case block_state_of b s of None \<Rightarrow> False
           | Some info \<Rightarrow> bstate info = state_finished \<or> bstate info = state_writing)"

definition is_finished :: "piece_block \<Rightarrow> piece_picker \<Rightarrow> bool" where
  "is_finished b s =
     (if pindex (piece_at s (fst b)) = we_have_index then True
      else if download_queue (piece_at s (fst b)) = piece_open then False
      else case block_state_of b s of None \<Rightarrow> False | Some info \<Rightarrow> bstate info = state_finished)"

definition num_peers :: "piece_block \<Rightarrow> piece_picker \<Rightarrow> nat" where
  "num_peers b s =
     (if \<not> downloading (piece_at s (fst b)) then 0
      else case block_state_of b s of None \<Rightarrow> 0 | Some info \<Rightarrow> num_peers_of info)"

definition get_downloaders :: "nat \<Rightarrow> piece_picker \<Rightarrow> nat option list" where
  "get_downloaders index s =
     (if download_queue (piece_at s index) = piece_open then replicate (blocks_in_piece s index) None
      else case dl_iter_of index s of None \<Rightarrow> []
           | Some it \<Rightarrow> map (\<lambda>j. bpeer (block_at s (dl_at s it) j)) [0..<blocks_in_piece s index])"

definition get_downloader :: "piece_block \<Rightarrow> piece_picker \<Rightarrow> nat option" where
  "get_downloader b s =
     (if download_queue (piece_at s (fst b)) = piece_open then None
      else case block_state_of b s of None \<Rightarrow> None
           | Some info \<Rightarrow> if bstate info = state_none then None else bpeer info)"

definition clear_peer :: "nat option \<Rightarrow> piece_picker \<Rightarrow> piece_picker" where
  "clear_peer peer s =
     s\<lparr>m_block_info := map (\<lambda>b. if bpeer b = peer then b\<lparr>bpeer := None\<rparr> else b) (m_block_info s)\<rparr>"

end
