(* ===== verification/Picker_Ops.thy ===== *)
theory Picker_Ops
  imports Picker_Blocks
begin

text \<open>
  The operations of \<open>piece_picker.cpp\<close> that the torrent calls: pieces we have, priorities, availability,
  and the life of a block. A reference to a peer is \<open>None\<close> for the null pointer.
\<close>

section \<open>Having pieces\<close>

text \<open>The change of the list that follows a change of the piece \<open>i\<close>, whose priority was \<open>prev\<close>.\<close>

definition relist :: "int \<Rightarrow> nat \<Rightarrow> piece_picker \<Rightarrow> piece_picker" where
  "relist prev i s =
     (if prio_of s i = prev then s
      else if m_dirty s then s
      else if prev = -1 then add i s
      else update prev (pindex (piece_at s i)) s)"

text \<open>The parts of \<open>we_have\<close>: the download ends, the counters and the piece change, the cursors move.\<close>

definition have_erase :: "nat \<Rightarrow> piece_picker \<Rightarrow> piece_picker" where
  "have_erase index s =
     (if download_queue (piece_at s index) \<noteq> piece_open
      then case dl_iter_of index s of None \<Rightarrow> s
           | Some it \<Rightarrow> erase_download_piece it
               (if passed_hash_check (dl_at s it) then s\<lparr>m_num_passed := m_num_passed s - 1\<rparr> else s)
      else s)"

definition have_count :: "nat \<Rightarrow> piece_picker \<Rightarrow> piece_picker" where
  "have_count index s =
     (let pads = int (pad_blocks_in_piece s index);
          s1 = (if filtered (piece_at s index)
                then s\<lparr>m_filtered_pad_blocks := m_filtered_pad_blocks s - pads,
                       m_num_filtered := m_num_filtered s - 1,
                       m_have_filtered_pad_blocks := m_have_filtered_pad_blocks s + pads,
                       m_num_have_filtered := m_num_have_filtered s + 1\<rparr>
                else s)
      in set_piece index set_have
           (s1\<lparr>m_num_have := m_num_have s1 + 1, m_num_passed := m_num_passed s1 + 1,
               m_have_pad_blocks := m_have_pad_blocks s1 + pads\<rparr>))"

definition have_cursors :: "nat \<Rightarrow> piece_picker \<Rightarrow> piece_picker" where
  "have_cursors index s =
     (if m_cursor s + 1 = m_reverse_cursor s \<and> m_cursor s = index
      then s\<lparr>m_cursor := num_pieces s, m_reverse_cursor := 0\<rparr>
      else if m_cursor s = index
      then s\<lparr>m_cursor := scan_cursor (m_piece_map s) (m_cursor s + 1)\<rparr>
      else if m_reverse_cursor s = index + 1
      then s\<lparr>m_reverse_cursor := scan_reverse_cursor (m_piece_map s) (m_reverse_cursor s - 1)\<rparr>
      else s)"

definition we_have :: "nat \<Rightarrow> piece_picker \<Rightarrow> piece_picker" where
  "we_have index s =
     (let info_index = pindex (piece_at s index); prio = prio_of s index in
      if is_have (piece_at s index) then s
      else
        let s1 = have_cursors index (have_count index (have_erase index s)) in
        if prio = -1 then s1
        else if m_dirty s1 then s1
        else remove (nat prio) info_index s1)"

definition piece_passed :: "nat \<Rightarrow> piece_picker \<Rightarrow> piece_picker" where
  "piece_passed index s =
     (if download_queue (piece_at s index) = piece_open then s
      else case dl_iter_of index s of None \<Rightarrow> s
           | Some it \<Rightarrow>
               if locked (dl_at s it) then s
               else
                 let s1 = (dl_modify it (\<lambda>d. d\<lparr>passed_hash_check := True\<rparr>) s)\<lparr>m_num_passed := m_num_passed s + 1\<rparr> in
                 if finished (dl_at s1 it) < blocks_in_piece s1 index then s1 else we_have index s1)"

text \<open>
  The cursors when a piece before or behind them is wanted again.
\<close>

definition widen_cursors :: "nat \<Rightarrow> piece_picker \<Rightarrow> piece_picker" where
  "widen_cursors index s =
     (let c = (if index < m_cursor s then index else m_cursor s);
          r = (if index \<ge> m_reverse_cursor s then index + 1 else m_reverse_cursor s)
      in if r = c then s\<lparr>m_reverse_cursor := 0, m_cursor := num_pieces s\<rparr>
         else s\<lparr>m_cursor := c, m_reverse_cursor := r\<rparr>)"

definition we_dont_have :: "nat \<Rightarrow> piece_picker \<Rightarrow> piece_picker" where
  "we_dont_have index s =
     (if \<not> is_have (piece_at s index)
      then
        (if download_queue (piece_at s index) = piece_open then s
         else case dl_iter_of index s of None \<Rightarrow> s
              | Some it \<Rightarrow>
                  erase_download_piece it
                    (if passed_hash_check (dl_at s it)
                     then (dl_modify it (\<lambda>d. d\<lparr>passed_hash_check := False\<rparr>) s)\<lparr>m_num_passed := m_num_passed s - 1\<rparr>
                     else s))
      else
        let pads = int (pad_blocks_in_piece s index);
            s1 = s\<lparr>m_num_passed := m_num_passed s - 1\<rparr>;
            s2 = (if filtered (piece_at s1 index)
                  then s1\<lparr>m_filtered_pad_blocks := m_filtered_pad_blocks s1 + pads,
                          m_num_filtered := m_num_filtered s1 + 1,
                          m_have_filtered_pad_blocks := m_have_filtered_pad_blocks s1 - pads,
                          m_num_have_filtered := m_num_have_filtered s1 - 1\<rparr>
                  else widen_cursors index s1);
            s3 = set_piece index set_not_have
                   (s2\<lparr>m_num_have := m_num_have s2 - 1, m_have_pad_blocks := m_have_pad_blocks s2 - pads\<rparr>)
        in if m_dirty s3 then s3
           else if prio_of s3 index \<ge> 0 then add index s3
           else s3)"

text \<open>The counters and cursors when a piece becomes filtered or stops being so; the result says if it did.\<close>

definition filter_count :: "nat \<Rightarrow> nat \<Rightarrow> piece_picker \<Rightarrow> bool \<times> piece_picker" where
  "filter_count index new_piece_priority s =
     (let pads = int (pad_blocks_in_piece s index);
          have_it = is_have (piece_at s index)
      in if new_piece_priority = 0 \<and> piece_priority (piece_at s index) \<noteq> 0
         then
           (True,
            if have_it
            then s\<lparr>m_have_filtered_pad_blocks := m_have_filtered_pad_blocks s + pads,
                   m_num_have_filtered := m_num_have_filtered s + 1\<rparr>
            else have_cursors index
                   (s\<lparr>m_filtered_pad_blocks := m_filtered_pad_blocks s + pads,
                      m_num_filtered := m_num_filtered s + 1\<rparr>))
         else if new_piece_priority \<noteq> 0 \<and> piece_priority (piece_at s index) = 0
         then
           (True,
            if have_it
            then s\<lparr>m_have_filtered_pad_blocks := m_have_filtered_pad_blocks s - pads,
                   m_num_have_filtered := m_num_have_filtered s - 1\<rparr>
            else widen_cursors index
                   (s\<lparr>m_filtered_pad_blocks := m_filtered_pad_blocks s - pads,
                      m_num_filtered := m_num_filtered s - 1\<rparr>))
         else (False, s))"

definition set_piece_priority :: "nat \<Rightarrow> nat \<Rightarrow> piece_picker \<Rightarrow> bool \<times> piece_picker" where
  "set_piece_priority index new_piece_priority s =
     (if new_piece_priority = piece_priority (piece_at s index) then (False, s)
      else
        let prev_priority = prio_of s index;
            (ret, s1) = filter_count index new_piece_priority s;
            s2 = set_piece index (\<lambda>p. p\<lparr>piece_priority := new_piece_priority mod 2 ^ 3\<rparr>) s1;
            s3 = relist prev_priority index s2;
            s4 = (if downloading (piece_at s3 index)
                  then case dl_iter_of index s3 of None \<Rightarrow> s3 | Some it \<Rightarrow> snd (update_piece_state it s3)
                  else s3)
        in (ret, s4))"

definition restore_piece :: "nat \<Rightarrow> piece_picker \<Rightarrow> piece_picker" where
  "restore_piece index s =
     (if download_queue (piece_at s index) = piece_open then s
      else case dl_iter_of index s of None \<Rightarrow> s
           | Some it \<Rightarrow>
               let s1 = dl_modify it (\<lambda>d. d\<lparr>locked := False\<rparr>) s;
                   prev_priority = prio_of s1 index
               in relist prev_priority index (erase_download_piece it s1))"

section \<open>Availability\<close>

definition inc_refcount_all :: "piece_picker \<Rightarrow> piece_picker" where
  "inc_refcount_all s =
     (let s1 = s\<lparr>m_seeds := m_seeds s + 1\<rparr> in
      if m_seeds s1 = 1 then s1\<lparr>m_dirty := True\<rparr> else s1)"

definition dec_peer_count :: "piece_pos \<Rightarrow> piece_pos" where
  "dec_peer_count p = p\<lparr>peer_count := bits_dec 26 (peer_count p)\<rparr>"

definition inc_peer_count :: "piece_pos \<Rightarrow> piece_pos" where
  "inc_peer_count p = p\<lparr>peer_count := bits_inc 26 (peer_count p)\<rparr>"

definition dec_refcount_all :: "piece_picker \<Rightarrow> piece_picker" where
  "dec_refcount_all s =
     (if m_seeds s > 0
      then
        let s1 = s\<lparr>m_seeds := m_seeds s - 1\<rparr> in
        if m_seeds s1 = 0 then s1\<lparr>m_dirty := True\<rparr> else s1
      else s\<lparr>m_piece_map := map dec_peer_count (m_piece_map s), m_dirty := True\<rparr>)"

definition inc_refcount :: "nat \<Rightarrow> piece_picker \<Rightarrow> piece_picker" where
  "inc_refcount index s =
     (let prev_priority = prio_of s index;
          s1 = set_piece index inc_peer_count s
      in if m_dirty s1 then s1
         else
           let new_priority = prio_of s1 index in
           if prev_priority = new_priority then s1
           else if prev_priority = -1 then add index s1
           else update prev_priority (pindex (piece_at s1 index)) s1)"

definition break_one_seed :: "piece_picker \<Rightarrow> piece_picker" where
  "break_one_seed s =
     s\<lparr>m_seeds := m_seeds s - 1, m_piece_map := map inc_peer_count (m_piece_map s), m_dirty := True\<rparr>"

definition dec_refcount :: "nat \<Rightarrow> piece_picker \<Rightarrow> piece_picker" where
  "dec_refcount index s =
     (let s1 = (if peer_count (piece_at s index) = 0 then break_one_seed s else s);
          prev_priority = prio_of s1 index;
          s2 = set_piece index dec_peer_count s1
      in if m_dirty s2 then s2
         else if prev_priority \<ge> 0 then update prev_priority (pindex (piece_at s2 index)) s2
         else s2)"

text \<open>The loop that lists the set bits, and stops after \<open>sz\<close> of them.\<close>

fun collect_bits :: "nat \<Rightarrow> bool list \<Rightarrow> nat \<Rightarrow> nat list \<Rightarrow> nat \<Rightarrow> nat list \<times> nat" where
  "collect_bits sz [] index acc num = (acc, num)"
| "collect_bits sz (b # bs) index acc num =
     (if \<not> b then collect_bits sz bs (index + 1) acc num
      else
        let acc' = (if num < sz then acc @ [index] else acc) in
        if num + 1 \<ge> sz then (acc', num + 1)
        else collect_bits sz bs (index + 1) acc' (num + 1))"

definition inc_one :: "nat \<Rightarrow> piece_picker \<Rightarrow> piece_picker" where
  "inc_one piece s =
     (let prev_priority = prio_of s piece;
          s1 = set_piece piece inc_peer_count s;
          new_priority = prio_of s1 piece
      in if prev_priority = new_priority then s1
         else if prev_priority \<ge> 0 then update prev_priority (pindex (piece_at s1 piece)) s1
         else add piece s1)"

definition inc_refcount_bits :: "bool list \<Rightarrow> piece_picker \<Rightarrow> piece_picker" where
  "inc_refcount_bits bitmask s =
     (if \<not> (\<exists>b\<in>set bitmask. b) then s
      else if (\<forall>b\<in>set bitmask. b) \<and> length bitmask = num_pieces s then inc_refcount_all s
      else
        let sz = min 50 (length bitmask div 2);
            (incremented, num_inc) = collect_bits sz bitmask 0 [] 0
        in if \<not> m_dirty s \<and> num_inc < sz then fold inc_one incremented s
           else
             let s1 = fold (\<lambda>i. if bitmask ! i then set_piece i inc_peer_count else id) [0..<length bitmask] s in
             if m_dirty s1 then s1 else s1\<lparr>m_dirty := True\<rparr>)"

definition dec_one :: "nat \<Rightarrow> piece_picker \<Rightarrow> piece_picker" where
  "dec_one piece s =
     (let prev_priority = prio_of s piece;
          s1 = (if peer_count (piece_at s piece) = 0 then break_one_seed s else s);
          s2 = set_piece piece dec_peer_count s1
      in if \<not> m_dirty s2 \<and> prev_priority \<ge> 0 then update prev_priority (pindex (piece_at s2 piece)) s2
         else s2)"

definition dec_counter :: "nat \<Rightarrow> piece_picker \<Rightarrow> piece_picker" where
  "dec_counter i s =
     set_piece i dec_peer_count (if peer_count (piece_at s i) = 0 then break_one_seed s else s)"

definition dec_refcount_bits :: "bool list \<Rightarrow> piece_picker \<Rightarrow> piece_picker" where
  "dec_refcount_bits bitmask s =
     (if \<not> (\<exists>b\<in>set bitmask. b) then s
      else if (\<forall>b\<in>set bitmask. b) \<and> length bitmask = num_pieces s then dec_refcount_all s
      else
        let sz = min 50 (length bitmask div 2);
            (decremented, num_dec) = collect_bits sz bitmask 0 [] 0
        in if \<not> m_dirty s \<and> num_dec < sz then fold dec_one decremented s
           else
             let s1 = fold (\<lambda>i. if bitmask ! i then dec_counter i else id) [0..<length bitmask] s in
             if m_dirty s1 then s1 else s1\<lparr>m_dirty := True\<rparr>)"

section \<open>Extents\<close>

abbreviation max_piece_affinity_extent :: nat where "max_piece_affinity_extent \<equiv> 256"

definition extent_for :: "piece_picker \<Rightarrow> nat \<Rightarrow> nat" where
  "extent_for s p = p div (max_piece_affinity_extent div m_blocks_per_piece s)"

definition extent_pieces :: "piece_picker \<Rightarrow> nat \<Rightarrow> nat list" where
  "extent_pieces s e =
     (let extent_size = max_piece_affinity_extent div m_blocks_per_piece s; first = e * extent_size
      in [first..<min (first + extent_size) (num_pieces s)])"

text \<open>The loop over the extent: \<open>None\<close> where it returns, otherwise \<open>have_all\<close>.\<close>

fun extent_scan :: "piece_picker \<Rightarrow> nat \<Rightarrow> nat list \<Rightarrow> bool \<Rightarrow> bool option" where
  "extent_scan s p [] have_all = Some have_all"
| "extent_scan s p (x # xs) have_all =
     (if x = p then extent_scan s p xs have_all
      else if piece_priority (piece_at s x) \<noteq> piece_priority (piece_at s p) then None
      else extent_scan s p xs (have_all \<and> is_have (piece_at s x)))"

definition record_downloading_piece :: "nat \<Rightarrow> piece_picker \<Rightarrow> piece_picker" where
  "record_downloading_piece p s =
     (if m_blocks_per_piece s \<ge> max_piece_affinity_extent then s
      else
        let this_extent = extent_for s p in
        if this_extent \<in> set (m_recent_extents s) then s
        else case extent_scan s p (extent_pieces s this_extent) True of
               None \<Rightarrow> s
             | Some have_all \<Rightarrow>
                 if have_all then s
                 else if length (m_recent_extents s) < 5
                 then s\<lparr>m_recent_extents := m_recent_extents s @ [this_extent]\<rparr>
                 else s)"

section \<open>The life of a block\<close>

text \<open>A piece leaves the open state: its state, then its place in the list.\<close>

definition open_piece :: "nat \<Rightarrow> download_queue_t \<Rightarrow> piece_picker \<Rightarrow> piece_picker" where
  "open_piece i new_state s =
     (let prio = prio_of s i; s1 = set_piece i (\<lambda>p. p\<lparr>pstate := new_state\<rparr>) s in
      if prio \<ge> 0 \<and> \<not> m_dirty s1 then update prio (pindex (piece_at s1 i)) s1 else s1)"

text \<open>A change of the reverse flag of a piece, then its place in the list.\<close>

definition turn_piece :: "nat \<Rightarrow> (piece_pos \<Rightarrow> piece_pos) \<Rightarrow> piece_picker \<Rightarrow> piece_picker" where
  "turn_piece i f s =
     (let prio = prio_of s i; s1 = set_piece i f s in
      if prio \<ge> 0 \<and> \<not> m_dirty s1 then update prio (pindex (piece_at s1 i)) s1 else s1)"

text \<open>\<open>rvs\<close> and \<open>affinity\<close> are the flags \<open>reverse\<close> and \<open>piece_extent_affinity\<close> of the options.\<close>

definition mark_as_downloading ::
  "piece_block \<Rightarrow> nat option \<Rightarrow> bool \<Rightarrow> bool \<Rightarrow> piece_picker \<Rightarrow> bool \<times> piece_picker" where
  "mark_as_downloading b peer rvs affinity s =
     (let i = fst b; j = snd b in
      if download_queue (piece_at s i) = piece_open
      then
        let s1 = open_piece i (if rvs then piece_downloading_reverse else piece_downloading) s;
            s2 = (if affinity then record_downloading_piece i s1 else s1);
            (dp, s3) = add_download_piece i s2;
            d = dl_at s3 dp
        in if bstate (block_at s3 d j) = state_finished then (False, s3)
           else
             let s4 = set_block d j (\<lambda>_. \<lparr>bpeer = peer, num_peers_of = 1, bstate = state_requested\<rparr>) s3;
                 s5 = dl_modify dp (\<lambda>d. d\<lparr>requested := bits_inc 15 (requested d)\<rparr>) s4
             in (True, snd (update_piece_state dp s5))
      else
        case dl_iter_of i s of None \<Rightarrow> (False, s)
        | Some it \<Rightarrow>
            let d = dl_at s it; st = bstate (block_at s d j) in
            if st = state_writing \<or> st = state_finished then (False, s)
            else
              let s1 = (if rvs \<and> \<not> is_reverse (piece_at s i) \<and> requested d = 0
                        then turn_piece i make_reverse s else s);
                  s2 = set_block d j (\<lambda>info. info\<lparr>bpeer := peer\<rparr>) s1;
                  s3 = (if st \<noteq> state_requested
                        then snd (update_piece_state it
                               (dl_modify it (\<lambda>d. d\<lparr>requested := bits_inc 15 (requested d)\<rparr>)
                                 (set_block d j (\<lambda>info. info\<lparr>bstate := state_requested\<rparr>) s2)))
                        else s2);
                  s4 = set_block d j (\<lambda>info. info\<lparr>num_peers_of := bits_inc 14 (num_peers_of info)\<rparr>) s3;
                  s5 = (if \<not> rvs \<and> is_reverse (piece_at s4 i) then turn_piece i unreverse s4 else s4)
              in (True, s5))"

definition mark_as_writing :: "piece_block \<Rightarrow> nat option \<Rightarrow> piece_picker \<Rightarrow> bool \<times> piece_picker" where
  "mark_as_writing b peer s =
     (let i = fst b; j = snd b in
      if \<not> downloading (piece_at s i)
      then
        if have_piece s i then (False, s)
        else
          let (dp, s2) = add_download_piece i (open_piece i piece_downloading s);
              d = dl_at s2 dp
          in if bstate (block_at s2 d j) = state_finished then (False, s2)
             else
               let s3 = set_block d j (\<lambda>_. \<lparr>bpeer = peer, num_peers_of = 0, bstate = state_writing\<rparr>) s2;
                   s4 = dl_modify dp (\<lambda>d. d\<lparr>writing := 1\<rparr>) s3
               in (True, snd (update_piece_state dp s4))
      else
        case dl_iter_of i s of None \<Rightarrow> (False, s)
        | Some it \<Rightarrow>
            let d = dl_at s it; st = bstate (block_at s d j);
                s1 = set_block d j (\<lambda>info. info\<lparr>bpeer := peer\<rparr>) s;
                s2 = (if st = state_requested
                      then dl_modify it (\<lambda>d. d\<lparr>requested := bits_dec 15 (requested d)\<rparr>) s1 else s1)
            in if st = state_writing \<or> st = state_finished then (False, s2)
               else
                 let s3 = dl_modify it (\<lambda>d. d\<lparr>writing := bits_inc 15 (writing d)\<rparr>) s2;
                     s4 = set_block d j (\<lambda>info. info\<lparr>bstate := state_writing, num_peers_of := 0\<rparr>) s3
                 in (True, snd (update_piece_state it s4)))"

definition lock_piece :: "nat \<Rightarrow> piece_picker \<Rightarrow> piece_picker" where
  "lock_piece i s =
     (if download_queue (piece_at s i) = piece_open then s
      else case dl_iter_of i s of None \<Rightarrow> s
           | Some it \<Rightarrow>
               let s1 = (if passed_hash_check (dl_at s it)
                         then (dl_modify it (\<lambda>d. d\<lparr>passed_hash_check := False\<rparr>) s)\<lparr>m_num_passed := m_num_passed s - 1\<rparr>
                         else s)
               in dl_modify it (\<lambda>d. d\<lparr>locked := True\<rparr>) s1)"

text \<open>The end of \<open>write_failed\<close> and \<open>mark_as_canceled\<close>: a piece with no block left is not a download any more.\<close>

definition erase_if_unused :: "nat \<Rightarrow> dl_iter \<Rightarrow> piece_picker \<Rightarrow> piece_picker" where
  "erase_if_unused i it s =
     (let d = dl_at s it in
      if finished d + writing d + requested d = 0
      then relist (prio_of s i) i (erase_download_piece it s) else s)"

definition write_failed :: "piece_block \<Rightarrow> piece_picker \<Rightarrow> piece_picker" where
  "write_failed b s =
     (let i = fst b; j = snd b in
      if download_queue (piece_at s i) = piece_open then s
      else case dl_iter_of i s of None \<Rightarrow> s
           | Some it \<Rightarrow>
               let d = dl_at s it; st = bstate (block_at s d j) in
               if st = state_finished then s
               else
                 let s1 = (if st = state_writing
                           then dl_modify it (\<lambda>d. d\<lparr>writing := bits_dec 15 (writing d)\<rparr>) s else s);
                     s2 = set_block d j (\<lambda>info. info\<lparr>bpeer := None, bstate := state_none\<rparr>) s1;
                     s3 = (if passed_hash_check d
                           then (dl_modify it (\<lambda>d. d\<lparr>passed_hash_check := False\<rparr>) s2)\<lparr>m_num_passed := m_num_passed s2 - 1\<rparr>
                           else s2);
                     s4 = dl_modify it (\<lambda>d. d\<lparr>locked := True\<rparr>) s3;
                     (it', s5) = update_piece_state it s4
                 in erase_if_unused i it' s5)"

definition mark_as_canceled :: "piece_block \<Rightarrow> nat option \<Rightarrow> piece_picker \<Rightarrow> piece_picker" where
  "mark_as_canceled b peer s =
     (let i = fst b; j = snd b in
      if download_queue (piece_at s i) = piece_open then s
      else case dl_iter_of i s of None \<Rightarrow> s
           | Some it \<Rightarrow>
               let d = dl_at s it; st = bstate (block_at s d j) in
               if st = state_finished then s
               else
                 let s1 = set_block d j (\<lambda>info. info\<lparr>bpeer := peer\<rparr>) s in
                 if st = state_writing
                 then
                   let s2 = dl_modify it (\<lambda>d. d\<lparr>writing := bits_dec 15 (writing d)\<rparr>) s1;
                       s3 = set_block d j (\<lambda>info. info\<lparr>bstate := state_none\<rparr>) s2;
                       (it', s4) = update_piece_state it s3
                   in erase_if_unused i it' s4
                 else s1)"

definition mark_as_finished :: "piece_block \<Rightarrow> nat option \<Rightarrow> piece_picker \<Rightarrow> piece_picker" where
  "mark_as_finished b peer s =
     (let i = fst b; j = snd b in
      if download_queue (piece_at s i) = piece_open
      then
        if have_piece s i then s
        else
          let (dp, s2) = add_download_piece i (open_piece i piece_downloading s);
              d = dl_at s2 dp
          in if bstate (block_at s2 d j) = state_finished then s2
             else
               let s3 = set_block d j (\<lambda>info. info\<lparr>bpeer := peer, bstate := state_finished\<rparr>) s2;
                   s4 = dl_modify dp (\<lambda>d. d\<lparr>finished := bits_inc 15 (finished d)\<rparr>) s3
               in snd (update_piece_state dp s4)
      else
        case dl_iter_of i s of None \<Rightarrow> s
        | Some it \<Rightarrow>
            let d = dl_at s it; st = bstate (block_at s d j) in
            if st = state_finished then s
            else
              let s1 = (if st \<noteq> state_writing \<or> peer \<noteq> None
                        then set_block d j (\<lambda>info. info\<lparr>bpeer := peer\<rparr>) s else s);
                  s2 = dl_modify it (\<lambda>d. d\<lparr>finished := bits_inc 15 (finished d)\<rparr>) s1;
                  s3 = (if st = state_writing
                        then dl_modify it (\<lambda>d. d\<lparr>writing := bits_dec 15 (writing d)\<rparr>) s2 else s2);
                  s4 = set_block d j (\<lambda>info. info\<lparr>bstate := state_finished\<rparr>) s3;
                  (it', s5) = update_piece_state it s4;
                  d' = dl_at s5 it'
              in if finished d' < blocks_in_piece s5 (dindex d') then s5
                 else if passed_hash_check d' then we_have (dindex d') s5
                 else s5)"

definition pad_count :: "piece_block \<Rightarrow> piece_picker \<Rightarrow> piece_picker" where
  "pad_count b s =
     (let i = fst b; j = snd b;
          pads = (if m_pad_blocks s = [] then replicate (num_pieces s * m_blocks_per_piece s) False
                  else m_pad_blocks s);
          block_index = i * m_blocks_per_piece s + j;
          s1 = s\<lparr>m_pad_blocks := pads[block_index := True], m_num_pad_blocks := m_num_pad_blocks s + 1,
                 m_pads_in_piece := (m_pads_in_piece s)(i \<mapsto> pad_blocks_in_piece s i + 1)\<rparr>
      in if filtered (piece_at s1 i)
         then s1\<lparr>m_filtered_pad_blocks := m_filtered_pad_blocks s1 + 1\<rparr> else s1)"

definition mark_as_pad :: "piece_block \<Rightarrow> piece_picker \<Rightarrow> piece_picker" where
  "mark_as_pad b s =
     (let s1 = pad_count b s in
      if pad_blocks_in_piece s1 (fst b) = blocks_in_piece s1 (fst b) then we_have (fst b) s1 else s1)"

definition abort_download :: "piece_block \<Rightarrow> nat option \<Rightarrow> piece_picker \<Rightarrow> piece_picker" where
  "abort_download b peer s =
     (let i = fst b; j = snd b in
      if download_queue (piece_at s i) = piece_open then s
      else case dl_iter_of i s of None \<Rightarrow> s
           | Some it \<Rightarrow>
               let d = dl_at s it; info = block_at s d j in
               if bstate info \<noteq> state_requested then s
               else
                 let prev_prio = prio_of s i;
                     n = (if num_peers_of info > 0 then num_peers_of info - 1 else num_peers_of info);
                     s1 = set_block d j (\<lambda>info. info\<lparr>num_peers_of := n,
                            bpeer := (if bpeer info = peer then None else bpeer info)\<rparr>) s
                 in if n > 0 then s1
                    else
                      let s2 = set_block d j (\<lambda>info. info\<lparr>bpeer := None, bstate := state_none\<rparr>) s1;
                          s3 = dl_modify it (\<lambda>d. d\<lparr>requested := bits_dec 15 (requested d)\<rparr>) s2;
                          d3 = dl_at s3 it
                      in if requested d3 + finished d3 + writing d3 = 0
                         then
                           let s4 = erase_download_piece it s3; prio = prio_of s4 i in
                           if m_dirty s4 then s4
                           else if prev_prio = -1 \<and> prio \<ge> 0 then add i s4
                           else if prev_prio \<ge> 0 then update prev_prio (pindex (piece_at s4 i)) s4
                           else s4
                         else snd (update_piece_state it s3))"

end
