(* ===== verification/Picker_Order.thy ===== *)
theory Picker_Order
  imports Picker_Ops
begin

text \<open>
  The list of pieces stays in order: each operation of the picker leaves it either marked dirty, to be
  rebuilt, or right for the priorities the pieces have then.
\<close>

section \<open>What the list depends on\<close>

definition list_view :: "piece_picker \<Rightarrow> piece_pos list \<times> int \<times> nat list \<times> nat list" where
  "list_view s = (m_piece_map s, m_seeds s, m_pieces s, m_priority_boundaries s)"

lemma list_view_eqD:
  assumes "list_view s = list_view t"
  shows "m_piece_map s = m_piece_map t" "m_seeds s = m_seeds t" "m_pieces s = m_pieces t"
    "m_priority_boundaries s = m_priority_boundaries t" "prio_of s = prio_of t"
  using assms by (auto simp: list_view_def prio_of_def)

lemma list_inv_view: "list_view s = list_view t \<Longrightarrow> list_inv pr s = list_inv pr t"
  using list_view_eqD [of s t] by (simp add: list_inv_def ranges_ok_def)

lemma list_ok_view: "list_view s = list_view t \<Longrightarrow> list_ok s = list_ok t"
  using list_inv_view [of s t] list_view_eqD(5) [of s t] by (simp add: list_ok_def)

definition list_good :: "piece_picker \<Rightarrow> bool" where
  "list_good s \<longleftrightarrow> num_pieces s \<le> max_pieces \<and> (\<forall>x<num_pieces s. piece_priority (piece_at s x) < priority_levels)
     \<and> (m_dirty s \<or> list_ok s)"

lemma list_good_view: "list_view s = list_view t \<Longrightarrow> m_dirty s = m_dirty t \<Longrightarrow> list_good s = list_good t"
  using list_view_eqD [of s t] list_ok_view [of s t] by (simp add: list_good_def)

lemma list_view_updates [simp]:
  "list_view (s\<lparr>m_downloads := d\<rparr>) = list_view s" "list_view (s\<lparr>m_block_info := bi\<rparr>) = list_view s"
  "list_view (s\<lparr>m_free_block_infos := fb\<rparr>) = list_view s" "list_view (s\<lparr>m_num_passed := np\<rparr>) = list_view s"
  "list_view (s\<lparr>m_recent_extents := re\<rparr>) = list_view s" "list_view (s\<lparr>m_num_have := nh\<rparr>) = list_view s"
  "list_view (s\<lparr>m_have_pad_blocks := hp\<rparr>) = list_view s" "list_view (s\<lparr>m_filtered_pad_blocks := fp\<rparr>) = list_view s"
  "list_view (s\<lparr>m_have_filtered_pad_blocks := hf\<rparr>) = list_view s" "list_view (s\<lparr>m_num_filtered := nf\<rparr>) = list_view s"
  "list_view (s\<lparr>m_num_have_filtered := nhf\<rparr>) = list_view s" "list_view (s\<lparr>m_cursor := c\<rparr>) = list_view s"
  "list_view (s\<lparr>m_reverse_cursor := rc\<rparr>) = list_view s" "list_view (s\<lparr>m_pad_blocks := pb\<rparr>) = list_view s"
  "list_view (s\<lparr>m_num_pad_blocks := npb\<rparr>) = list_view s" "list_view (s\<lparr>m_pads_in_piece := pp\<rparr>) = list_view s"
  "list_view (s\<lparr>m_dirty := b\<rparr>) = list_view s"
  by (simp_all add: list_view_def)

text \<open>What the counters of pieces and the cursors depend on, and these counters and cursors themselves.\<close>

definition tally where
  "tally s = (map (\<lambda>p. (is_have p, filtered p)) (m_piece_map s), m_pads_in_piece s, m_num_have s, m_num_filtered s,
     m_num_have_filtered s, m_have_pad_blocks s, m_filtered_pad_blocks s, m_have_filtered_pad_blocks s, m_cursor s,
     m_reverse_cursor s)"

lemma tally_updates [simp]:
  "tally (s\<lparr>m_downloads := d\<rparr>) = tally s" "tally (s\<lparr>m_block_info := bi\<rparr>) = tally s"
  "tally (s\<lparr>m_free_block_infos := fb\<rparr>) = tally s" "tally (s\<lparr>m_num_passed := np\<rparr>) = tally s"
  "tally (s\<lparr>m_recent_extents := re\<rparr>) = tally s" "tally (s\<lparr>m_dirty := b\<rparr>) = tally s"
  "tally (dl_modify it f s) = tally s" "tally (dl_erase it s) = tally s"
  "tally (dl_insert it d' s) = tally s" "tally (set_block d'' j g s) = tally s"
  by (simp_all add: tally_def dl_modify_def dl_erase_def dl_insert_def set_block_def Let_def)

lemma tally_set_piece:
  assumes "i < num_pieces s \<Longrightarrow> is_have (f (piece_at s i)) = is_have (piece_at s i) \<and> filtered (f (piece_at s i)) = filtered (piece_at s i)"
  shows "tally (set_piece i f s) = tally s"
proof -
  have "map (\<lambda>p. (is_have p, filtered p)) ((m_piece_map s)[i := f (piece_at s i)]) = map (\<lambda>p. (is_have p, filtered p)) (m_piece_map s)"
    using assms by (cases "i < num_pieces s") (auto simp: map_update list_update_beyond intro: list_update_same_conv [THEN iffD2])
  then show ?thesis by (simp add: tally_def set_piece_def)
qed

lemma tally_pstate [simp]: "tally (set_piece i (\<lambda>p. p\<lparr>pstate := st\<rparr>) s) = tally s"
  by (rule tally_set_piece) (simp add: is_have_def filtered_def)

lemma tally_same:
  assumes "same_pieces s s'"
  shows "tally s' = tally s"
proof -
  obtain pm pcs bounds g where s': "s' = s\<lparr>m_piece_map := pm, m_pieces := pcs, m_priority_boundaries := bounds, rng := g\<rparr>"
    and mv: "moved UNIV (m_piece_map s) pm" and h: "\<forall>x<length pm. is_have (pm ! x) = is_have (piece_at s x)"
    using assms unfolding same_pieces_def by blast
  have "filtered (pm ! x) = filtered (piece_at s x)" if "x < num_pieces s" for x
  proof -
    have "(pm ! x)\<lparr>pindex := 0\<rparr> = (piece_at s x)\<lparr>pindex := 0\<rparr>" using mv that by (simp add: moved_def)
    from arg_cong [OF this, of piece_priority] show ?thesis by (simp add: filtered_def)
  qed
  with h moved_length [OF mv] have "map (\<lambda>p. (is_have p, filtered p)) pm = map (\<lambda>p. (is_have p, filtered p)) (m_piece_map s)"
    by (intro nth_equalityI) auto
  then show ?thesis by (simp add: s' tally_def)
qed

lemma dl_updates [simp]:
  "list_view (dl_modify it f s) = list_view s" "list_view (dl_erase it s) = list_view s"
  "list_view (dl_insert it d s) = list_view s" "list_view (set_block d' j g s) = list_view s"
  "m_dirty (dl_modify it f s) = m_dirty s" "m_dirty (dl_erase it s) = m_dirty s"
  "m_dirty (dl_insert it d s) = m_dirty s" "m_dirty (set_block d' j g s) = m_dirty s"
  "m_piece_map (dl_modify it f s) = m_piece_map s" "m_piece_map (dl_erase it s) = m_piece_map s"
  "m_piece_map (dl_insert it d s) = m_piece_map s" "m_piece_map (set_block d' j g s) = m_piece_map s"
  "m_downloads (set_block d' j g s) = m_downloads s"
  by (simp_all add: dl_modify_def dl_erase_def dl_insert_def set_block_def Let_def)

section \<open>One piece changes\<close>

text \<open>\<open>s1\<close> is \<open>s\<close> with the piece \<open>i\<close> changed by \<open>f\<close>, as far as the list is concerned.\<close>

definition piece_changed :: "nat \<Rightarrow> (piece_pos \<Rightarrow> piece_pos) \<Rightarrow> piece_picker \<Rightarrow> piece_picker \<Rightarrow> bool" where
  "piece_changed i f s s1 \<longleftrightarrow> list_view s1 = list_view (set_piece i f s) \<and> m_dirty s1 = m_dirty s
     \<and> i < num_pieces s \<and> piece_priority (f (piece_at s i)) < priority_levels"

lemma piece_changed_at:
  assumes "piece_changed i f s s1"
  shows "num_pieces s1 = num_pieces s" "piece_at s1 i = f (piece_at s i)" "x \<noteq> i \<Longrightarrow> piece_at s1 x = piece_at s x"
    "x \<noteq> i \<Longrightarrow> prio_of s1 x = prio_of s x" "m_seeds s1 = m_seeds s" "m_pieces s1 = m_pieces s"
    "m_priority_boundaries s1 = m_priority_boundaries s"
  using assms list_view_eqD [of s1 "set_piece i f s"] prio_of_set_piece [of x i f s]
  by (simp_all add: piece_changed_def prio_of_def)

lemma piece_changed_inv:
  assumes "piece_changed i f s s1" and "list_ok s"
    and "pindex (f (piece_at s i)) = pindex (piece_at s i) \<or> prio_of s i < 0"
  shows "list_inv (prio_of s) s1"
proof -
  note at = piece_changed_at [OF assms(1)]
  obtain bs where bs: "ranges_ok (prio_of s) s bs" "idx_from (m_piece_map s) 0 (concat bs)"
    using assms(2) by (auto simp: list_ok_def list_inv_def)
  have "pindex (piece_at s1 x) = pindex (piece_at s x)" if "x \<in> set (concat bs)" for x
  proof (cases "x = i")
    case True
    then have "0 \<le> prio_of s i" using that bs(1) ranges_prio_nonneg [of "prio_of s" 0 bs x] by (simp add: ranges_ok_def)
    with assms(3) at(2) True show ?thesis by simp
  qed (use at(3) in simp)
  then have "idx_from (m_piece_map s1) 0 (concat bs)" using bs(2) idx_from_cong by metis
  moreover have "ranges_ok (prio_of s) s1 bs" using bs(1) at by (simp add: ranges_ok_def)
  moreover have "piece_priority (piece_at s1 x) < priority_levels" if "x < num_pieces s" for x
    using that assms at by (cases "x = i") (auto simp: list_ok_def list_inv_def piece_changed_def)
  ultimately show ?thesis using assms(2) at(1) by (auto simp: list_ok_def list_inv_def)
qed

lemma piece_changed_good:
  "piece_changed i f s s1 \<Longrightarrow> list_good s \<Longrightarrow> m_dirty s \<Longrightarrow> list_good s1"
  using piece_changed_at [of i f s s1] by (auto simp: list_good_def piece_changed_def) (metis)

lemma same_pieces_fields:
  assumes "same_pieces s s'"
  shows "m_dirty s' = m_dirty s" "m_downloads s' = m_downloads s" "m_block_info s' = m_block_info s"
    "m_free_block_infos s' = m_free_block_infos s" "m_blocks_per_piece s' = m_blocks_per_piece s"
    "m_blocks_in_last_piece s' = m_blocks_in_last_piece s" "m_pad_blocks s' = m_pad_blocks s"
    "m_pads_in_piece s' = m_pads_in_piece s" "m_num_have s' = m_num_have s" "m_num_filtered s' = m_num_filtered s"
    "m_num_have_filtered s' = m_num_have_filtered s" "m_num_passed s' = m_num_passed s"
    "m_have_pad_blocks s' = m_have_pad_blocks s" "m_filtered_pad_blocks s' = m_filtered_pad_blocks s"
    "m_have_filtered_pad_blocks s' = m_have_filtered_pad_blocks s" "m_num_pad_blocks s' = m_num_pad_blocks s"
    "m_cursor s' = m_cursor s" "m_reverse_cursor s' = m_reverse_cursor s"
  using assms unfolding same_pieces_def by force+

lemma same_pieces_state:
  assumes "same_pieces s s'" and "x < num_pieces s"
  shows "pstate (piece_at s' x) = pstate (piece_at s x)" "piece_priority (piece_at s' x) = piece_priority (piece_at s x)"
    "peer_count (piece_at s' x) = peer_count (piece_at s x)" "filtered (piece_at s' x) = filtered (piece_at s x)"
    "download_queue (piece_at s' x) = download_queue (piece_at s x)" "is_reverse (piece_at s' x) = is_reverse (piece_at s x)"
    "downloading (piece_at s' x) = downloading (piece_at s x)"
proof -
  have eq: "(piece_at s' x)\<lparr>pindex := 0\<rparr> = (piece_at s x)\<lparr>pindex := 0\<rparr>" using same_pieces_at(3) assms by blast
  from arg_cong [OF eq, of pstate] arg_cong [OF eq, of piece_priority] arg_cong [OF eq, of peer_count]
  show "pstate (piece_at s' x) = pstate (piece_at s x)" "piece_priority (piece_at s' x) = piece_priority (piece_at s x)"
    "peer_count (piece_at s' x) = peer_count (piece_at s x)" "filtered (piece_at s' x) = filtered (piece_at s x)"
    "download_queue (piece_at s' x) = download_queue (piece_at s x)" "is_reverse (piece_at s' x) = is_reverse (piece_at s x)"
    "downloading (piece_at s' x) = downloading (piece_at s x)"
    by (simp_all add: filtered_def download_queue_def is_reverse_def downloading_def)
qed

lemma list_good_clean: "list_good s \<Longrightarrow> \<not> m_dirty s \<Longrightarrow> list_ok s"
  by (simp add: list_good_def)

lemma list_ok_good: "list_ok s \<Longrightarrow> list_good s"
  by (simp add: list_good_def list_ok_def list_inv_def)

text \<open>What follows a change of one piece: \<open>update\<close>, \<open>add\<close> or nothing.\<close>

lemma changed_update:
  assumes "piece_changed i f s s1" and "list_good s" and "\<not> m_dirty s" and "0 \<le> prio_of s i"
    and "pindex (f (piece_at s i)) = pindex (piece_at s i)"
  shows "list_ok (update (prio_of s i) (pindex (piece_at s1 i)) s1)"
    and "same_pieces s1 (update (prio_of s i) (pindex (piece_at s1 i)) s1)"
proof -
  have "list_inv (prio_of s) s1" using assms list_good_clean by (intro piece_changed_inv) auto
  from update_list_ok [OF this _ assms(4)]
  have "list_ok (update (prio_of s i) (pindex (piece_at s1 i)) s1)
    \<and> same_pieces s1 (update (prio_of s i) (pindex (piece_at s1 i)) s1)"
    using assms(1) piece_changed_at(1,4) [OF assms(1)] by (metis piece_changed_def)
  then show "list_ok (update (prio_of s i) (pindex (piece_at s1 i)) s1)"
    "same_pieces s1 (update (prio_of s i) (pindex (piece_at s1 i)) s1)" by simp_all
qed

lemma changed_add:
  assumes "piece_changed i f s s1" and "list_good s" and "\<not> m_dirty s" and "prio_of s i < 0" and "0 \<le> prio_of s1 i"
  shows "list_ok (add i s1)" and "same_pieces s1 (add i s1)"
proof -
  have "list_inv (prio_of s) s1" using assms list_good_clean by (intro piece_changed_inv) auto
  from add_list_ok [OF this _ assms(4,5)] have "list_ok (add i s1) \<and> same_pieces s1 (add i s1)"
    using assms(1) piece_changed_at(1,4) [OF assms(1)] by (metis piece_changed_def)
  then show "list_ok (add i s1)" "same_pieces s1 (add i s1)" by simp_all
qed

lemma changed_same:
  assumes "piece_changed i f s s1" and "list_good s" and "\<not> m_dirty s" and "prio_of s1 i = prio_of s i"
    and "pindex (f (piece_at s i)) = pindex (piece_at s i) \<or> prio_of s i < 0"
  shows "list_ok s1"
proof -
  have "list_inv (prio_of s) s1" using assms list_good_clean by (intro piece_changed_inv) auto
  moreover have "prio_of s1 = prio_of s" using assms(4) piece_changed_at(4) [OF assms(1)] by (metis ext)
  ultimately show ?thesis by (simp add: list_ok_def)
qed

lemma prio_values: "list_good s \<Longrightarrow> i < num_pieces s \<Longrightarrow> prio_of s i = -1 \<or> 0 \<le> prio_of s i"
  unfolding prio_of_def list_good_def using priority_range_values by blast

lemma changed_values:
  "piece_changed i f s s1 \<Longrightarrow> list_good s \<Longrightarrow> prio_of s1 i = -1 \<or> 0 \<le> prio_of s1 i"
  unfolding prio_of_def piece_changed_def using piece_changed_at(2) [of i f s s1] priority_range_values
  by (metis piece_changed_def)

text \<open>The outcome of an operation: the list is good, and only positions changed since \<open>s1\<close>.\<close>

definition relisted :: "piece_picker \<Rightarrow> piece_picker \<Rightarrow> bool" where
  "relisted s1 s2 \<longleftrightarrow> list_good s2 \<and> same_pieces s1 s2"

lemma relistedI: "list_ok s2 \<Longrightarrow> same_pieces s1 s2 \<Longrightarrow> relisted s1 s2"
  by (simp add: relisted_def list_ok_good)

lemma relist_good:
  assumes "piece_changed i f s s1" and "list_good s" and "pindex (f (piece_at s i)) = pindex (piece_at s i)"
  shows "relisted s1 (relist (prio_of s i) i s1)"
proof -
  have d: "m_dirty s1 = m_dirty s" and i: "i < num_pieces s" using assms(1) by (auto simp: piece_changed_def)
  note vals = prio_values [OF assms(2) i] changed_values [OF assms(1,2)]
  show ?thesis
  proof (cases "m_dirty s")
    case True
    then show ?thesis
      using piece_changed_good [OF assms(1,2)] d by (auto simp: relist_def relisted_def)
  next
    case False
    then show ?thesis
      using d vals changed_update [OF assms(1,2) False] changed_add [OF assms(1,2) False]
        changed_same [OF assms(1,2) False] assms(3)
      by (auto simp: relist_def intro!: relistedI)
  qed
qed

text \<open>The pattern of \<open>open_piece\<close>, \<open>turn_piece\<close> and \<open>inc_refcount\<close>: a piece in the list is updated.\<close>

lemma changed_update_good:
  assumes "piece_changed i f s s1" and "list_good s" and "pindex (f (piece_at s i)) = pindex (piece_at s i)"
    and "prio_of s i < 0 \<Longrightarrow> \<not> m_dirty s \<Longrightarrow> prio_of s1 i = prio_of s i"
  shows "relisted s1 (if prio_of s i \<ge> 0 \<and> \<not> m_dirty s1 then update (prio_of s i) (pindex (piece_at s1 i)) s1 else s1)"
proof -
  have d: "m_dirty s1 = m_dirty s" using assms(1) by (simp add: piece_changed_def)
  show ?thesis
  proof (cases "m_dirty s")
    case True
    then show ?thesis using piece_changed_good [OF assms(1,2)] d by (simp add: relisted_def)
  next
    case False
    then show ?thesis
      using d assms(3,4) changed_update [OF assms(1,2) False] changed_same [OF assms(1,2) False]
      by (auto intro!: relistedI)
  qed
qed

lemma piece_changed_set:
  "i < num_pieces s \<Longrightarrow> piece_priority (f (piece_at s i)) < priority_levels \<Longrightarrow> piece_changed i f s (set_piece i f s)"
  by (simp add: piece_changed_def)

lemma good_prio: "list_good s \<Longrightarrow> i < num_pieces s \<Longrightarrow> piece_priority (piece_at s i) < priority_levels"
  by (simp add: list_good_def)

section \<open>The operations keep the list in order\<close>

lemma priority_neg_iff:
  "piece_priority p < priority_levels \<Longrightarrow>
     priority seeds p < 0 \<longleftrightarrow> filtered p \<or> is_have p \<or> int (peer_count p) + seeds = 0
       \<or> pstate p = piece_full \<or> pstate p = piece_finished"
proof -
  assume p: "piece_priority p < priority_levels"
  then have "1 * 1 \<le> (int (peer_count p) + 1) * (int priority_levels - int (piece_priority p))"
    by (intro mult_mono) auto
  then show ?thesis by (simp add: priority_def Let_def)
qed

lemma priority_neg_state:
  assumes "priority seeds p < 0" and "piece_priority p < priority_levels"
    and "pstate p \<noteq> piece_full" and "pstate p \<noteq> piece_finished"
  shows "priority seeds (p\<lparr>pstate := st\<rparr>) = -1"
proof -
  have "filtered p \<or> is_have p \<or> int (peer_count p) + seeds = 0" using assms priority_neg_iff by blast
  then show ?thesis by (auto simp: priority_def filtered_def is_have_def)
qed

lemma relisted_tally: "relisted s1 s2 \<Longrightarrow> tally s2 = tally s1"
  by (simp add: relisted_def tally_same)

lemma relisted_num: "relisted s1 s2 \<Longrightarrow> num_pieces s2 = num_pieces s1"
  by (simp add: relisted_def)

lemma open_piece_good:
  assumes "list_good s" and "i < num_pieces s" and "pstate (piece_at s i) = piece_open"
  shows "relisted (set_piece i (\<lambda>p. p\<lparr>pstate := st\<rparr>) s) (open_piece i st s)"
  unfolding open_piece_def Let_def
proof (rule changed_update_good)
  show "piece_changed i (\<lambda>p. p\<lparr>pstate := st\<rparr>) s (set_piece i (\<lambda>p. p\<lparr>pstate := st\<rparr>) s)"
    using assms good_prio by (intro piece_changed_set) auto
  assume neg: "prio_of s i < 0"
  then have "prio_of s i = -1" using prio_values [OF assms(1,2)] by linarith
  moreover have "prio_of (set_piece i (\<lambda>p. p\<lparr>pstate := st\<rparr>) s) i = -1"
    using neg assms good_prio [OF assms(1,2)] by (simp add: prio_of_def priority_neg_state)
  ultimately show "prio_of (set_piece i (\<lambda>p. p\<lparr>pstate := st\<rparr>) s) i = prio_of s i" by simp
qed (use assms in simp_all)

lemma turn_piece_good:
  assumes "list_good s" and "i < num_pieces s" and f: "f = make_reverse \<and> pstate (piece_at s i) \<noteq> piece_full \<or> f = unreverse"
  shows "relisted (set_piece i f s) (turn_piece i f s)"
  unfolding turn_piece_def Let_def
proof (rule changed_update_good)
  let ?p = "piece_at s i"
  obtain st where st: "f ?p = ?p\<lparr>pstate := st\<rparr>" "pstate ?p = piece_full \<or> pstate ?p = piece_finished \<Longrightarrow> f ?p = ?p"
  proof -
    have eq: "?p = ?p\<lparr>pstate := pstate ?p\<rparr>" by simp
    show thesis by (rule that [of "pstate (f ?p)"]) (use f eq in \<open>auto simp: make_reverse_def unreverse_def\<close>)
  qed
  show "piece_changed i f s (set_piece i f s)"
    using assms good_prio st by (intro piece_changed_set) auto
  show "pindex (f ?p) = pindex ?p" using st by simp
  assume neg: "prio_of s i < 0"
  then have m1: "prio_of s i = -1" using prio_values [OF assms(1,2)] by linarith
  show "prio_of (set_piece i f s) i = prio_of s i"
  proof (cases "pstate ?p = piece_full \<or> pstate ?p = piece_finished")
    case True
    then show ?thesis using st(2) assms(2) by (simp add: prio_of_def)
  next
    case False
    then show ?thesis using neg m1 assms(2) good_prio [OF assms(1,2)] st(1) by (simp add: prio_of_def priority_neg_state)
  qed
qed (use assms in simp_all)

lemma dl_lower_bound_le: "dl_lower_bound ds i \<le> length ds"
  by (simp add: dl_lower_bound_def length_takeWhile_le)

lemma dl_at_insert [simp]: "k \<le> length (m_downloads s q) \<Longrightarrow> dl_at (dl_insert (q, k) d s) (q, k) = d"
  by (simp add: dl_at_def dl_insert_def Let_def nth_append)

lemma same_pieces_dl: "same_pieces s s' \<Longrightarrow> dl_at s' it = dl_at s it"
  using same_pieces_fields [of s s'] by (simp add: dl_at_def)

text \<open>The change of state at the heart of \<open>update_piece_state\<close>, before the list is touched.\<close>

definition move_dl :: "dl_iter \<Rightarrow> piece_picker \<Rightarrow> dl_iter \<times> piece_picker" where
  "move_dl dp s =
     (let d = dl_at s dp; i = dindex d;
          s2 = set_piece i (\<lambda>p. p\<lparr>pstate := new_dl_state s d\<rparr>) (dl_erase (download_queue (piece_at s i), snd dp) s);
          q = download_queue (piece_at s2 i); k = dl_lower_bound (m_downloads s2 q) i
      in ((q, k), dl_insert (q, k) d s2))"

lemma list_view_set_piece_dl [simp]:
  "list_view (set_piece i f (dl_erase it s)) = list_view (set_piece i f s)"
  by (simp add: list_view_def set_piece_def dl_erase_def Let_def)

lemma move_dl_changed:
  assumes "list_good s" and "dindex (dl_at s dp) < num_pieces s" and "move_dl dp s = (dp', s3)"
  shows "piece_changed (dindex (dl_at s dp)) (\<lambda>p. p\<lparr>pstate := new_dl_state s (dl_at s dp)\<rparr>) s s3"
    and "dl_at s3 dp' = dl_at s dp"
  using assms good_prio dl_lower_bound_le unfolding move_dl_def Let_def
  by (auto simp: piece_changed_def)

lemma update_piece_state_cases:
  assumes "list_good s" and "dindex (dl_at s dp) < num_pieces s"
  obtains "update_piece_state dp s = (dp, s)"
  | dp' s3 s' where "move_dl dp s = (dp', s3)" and "update_piece_state dp s = (dp', s')" and "relisted s3 s'"
    and "pstate (piece_at s (dindex (dl_at s dp))) \<noteq> piece_open" and "new_dl_state s (dl_at s dp) \<noteq> piece_open"
proof (cases "pstate (piece_at s (dindex (dl_at s dp))) = piece_open
    \<or> new_dl_state s (dl_at s dp) = pstate (piece_at s (dindex (dl_at s dp))) \<or> new_dl_state s (dl_at s dp) = piece_open")
  case True
  then show thesis using that(1) by (auto simp: update_piece_state_def Let_def)
next
  case False
  let ?d = "dl_at s dp" let ?i = "dindex ?d"
  obtain dp' s3 where mv: "move_dl dp s = (dp', s3)" by (rule prod.exhaust)
  note ch = move_dl_changed [OF assms mv]
  let ?s' = "if m_dirty s3 then s3 else if prio_of s ?i = -1 \<and> prio_of s3 ?i \<noteq> -1 then add ?i s3
    else if prio_of s ?i \<noteq> -1 then update (prio_of s ?i) (pindex (piece_at s3 ?i)) s3 else s3"
  have up: "update_piece_state dp s = (dp', ?s')"
    using False mv unfolding update_piece_state_def move_dl_def Let_def
    by (auto simp: prio_of_def dl_erase_def Let_def)
  have "relisted s3 ?s'"
  proof (cases "m_dirty s")
    case True
    with ch(1) piece_changed_good [OF ch(1) assms(1)] show ?thesis by (simp add: relisted_def piece_changed_def)
  next
    case clean: False
    have "m_dirty s3 = m_dirty s" using ch(1) by (simp add: piece_changed_def)
    with clean prio_values [OF assms] changed_values [OF ch(1) assms(1)]
      changed_update [OF ch(1) assms(1) clean] changed_add [OF ch(1) assms(1) clean] changed_same [OF ch(1) assms(1) clean]
    show ?thesis by (auto intro!: relistedI)
  qed
  with mv up False that(2) show thesis by blast
qed

lemma update_piece_state_good:
  assumes "list_good s" and "dindex (dl_at s dp) < num_pieces s" and "update_piece_state dp s = (dp', s')"
  shows "list_good s' \<and> num_pieces s' = num_pieces s \<and> tally s' = tally s \<and> m_dirty s' = m_dirty s \<and> dl_at s' dp' = dl_at s dp"
proof (rule update_piece_state_cases [OF assms(1,2)])
  assume "update_piece_state dp s = (dp, s)"
  with assms show ?thesis by simp
next
  fix dp1 s3 s1 assume mv: "move_dl dp s = (dp1, s3)" and up: "update_piece_state dp s = (dp1, s1)" and r: "relisted s3 s1"
  note ch = move_dl_changed [OF assms(1,2) mv]
  have tally3: "tally s3 = tally s" using mv by (auto simp: move_dl_def Let_def)
  show ?thesis
    using r ch up assms(3) piece_changed_at(1) [OF ch(1)] tally3 relisted_tally [OF r] same_pieces_dl [of s3 s1 dp1] same_pieces_fields(1) [of s3 s1]
    by (auto simp: relisted_def piece_changed_def)
qed

lemma dl_iter_ofD:
  assumes "dl_iter_of i s = Some it"
  shows "dindex (dl_at s it) = i" and "snd it < length (m_downloads s (fst it))" and "fst it = download_queue (piece_at s i)"
  using assms dl_lower_bound_le [of "m_downloads s (download_queue (piece_at s i))" i]
  by (auto simp: dl_iter_of_def find_dl_piece_def dl_at_def Let_def le_less split: if_splits)

lemma dl_modify_at [simp]:
  "snd it < length (m_downloads s (fst it)) \<Longrightarrow> dl_at (dl_modify it f s) it = f (dl_at s it)"
  by (simp add: dl_modify_def dl_at_def)

lemma dl_at_updates [simp]:
  "dl_at (s\<lparr>m_num_passed := x\<rparr>) it = dl_at s it" "dl_at (set_block d j g s) it = dl_at s it"
  by (simp_all add: dl_at_def)

lemma dindex_dl_modify:
  assumes "dindex (f (dl_at s it)) = dindex (dl_at s it)"
  shows "dindex (dl_at (dl_modify it f s) it) = dindex (dl_at s it)"
proof (cases "snd it < length (m_downloads s (fst it))")
  case False
  then show ?thesis by (simp add: dl_modify_def dl_at_def list_update_beyond)
qed (use assms in simp)

lemma erase_changed:
  assumes "list_good s" and "dindex (dl_at s it) < num_pieces s"
  shows "piece_changed (dindex (dl_at s it)) (\<lambda>p. p\<lparr>pstate := piece_open\<rparr>) s (erase_download_piece it s)"
proof -
  let ?i = "dindex (dl_at s it)"
  have "list_view (erase_download_piece it s) = list_view (set_piece ?i (\<lambda>p. p\<lparr>pstate := piece_open\<rparr>) s)"
    by (simp add: erase_download_piece_def Let_def) (simp add: list_view_def set_piece_def)
  moreover have "m_dirty (erase_download_piece it s) = m_dirty s" by (simp add: erase_download_piece_def Let_def)
  ultimately show ?thesis using assms good_prio by (simp add: piece_changed_def)
qed

lemma erase_relist_good:
  assumes "list_good s" and "dindex (dl_at s it) = i" and "i < num_pieces s"
  shows "relisted (erase_download_piece it s) (relist (prio_of s i) i (erase_download_piece it s))"
proof -
  have "piece_changed i (\<lambda>p. p\<lparr>pstate := piece_open\<rparr>) s (erase_download_piece it s)"
    using erase_changed [of s it] assms by simp
  then show ?thesis by (rule relist_good) (use assms in auto)
qed

lemma num_erase [simp]:
  "num_pieces (erase_download_piece it s) = num_pieces s" "tally (erase_download_piece it s) = tally s"
  by (simp_all add: erase_download_piece_def Let_def)

lemma list_good_dl [simp]:
  "list_good (dl_modify it f s) = list_good s" "list_good (set_block d j g s) = list_good s"
  "list_good (s\<lparr>m_num_passed := x\<rparr>) = list_good s" "list_good (dl_insert it d' s) = list_good s"
  "list_good (s\<lparr>m_block_info := bi\<rparr>) = list_good s" "list_good (s\<lparr>m_free_block_infos := fb\<rparr>) = list_good s"
  "list_good (s\<lparr>m_recent_extents := re\<rparr>) = list_good s"
  by (rule list_good_view; simp)+

lemma prio_of_dl [simp]:
  "prio_of (dl_modify it f s) = prio_of s" "prio_of (set_block d j g s) = prio_of s" "prio_of (s\<lparr>m_num_passed := x\<rparr>) = prio_of s"
  by (rule list_view_eqD(5); simp)+

lemma restore_piece_good:
  assumes "list_good s" and "i < num_pieces s"
  shows "list_good (restore_piece i s) \<and> num_pieces (restore_piece i s) = num_pieces s
    \<and> tally (restore_piece i s) = tally s"
proof (cases "dl_iter_of i s")
  case (Some it)
  let ?s = "dl_modify it (\<lambda>d. d\<lparr>locked := False\<rparr>) s"
  note it = dl_iter_ofD [OF Some]
  have "relisted (erase_download_piece it ?s) (relist (prio_of ?s i) i (erase_download_piece it ?s))"
    by (rule erase_relist_good) (use assms it in simp_all)
  then show ?thesis using assms Some relisted_num relisted_tally by (fastforce simp: restore_piece_def Let_def relisted_def)
qed (use assms in \<open>simp add: restore_piece_def\<close>)

lemma lock_piece_good: "list_good s \<Longrightarrow> list_good (lock_piece i s) \<and> num_pieces (lock_piece i s) = num_pieces s
    \<and> tally (lock_piece i s) = tally s"
  by (auto simp: lock_piece_def Let_def split: option.split)

lemma add_download_piece_good:
  assumes "list_good s" and "i < num_pieces s" and "add_download_piece i s = (dp, s')"
  shows "list_good s' \<and> num_pieces s' = num_pieces s \<and> tally s' = tally s \<and> dindex (dl_at s' dp) = i"
proof -
  obtain bi s1 where s1: "(if m_free_block_infos s = []
       then (length (m_block_info s) div m_blocks_per_piece s,
             s\<lparr>m_block_info := m_block_info s @ replicate (m_blocks_per_piece s) new_block_info\<rparr>)
       else (last (m_free_block_infos s), s\<lparr>m_free_block_infos := butlast (m_free_block_infos s)\<rparr>)) = (bi, s1)"
    by (rule prod.exhaust)
  have g1: "list_good s1" "num_pieces s1 = num_pieces s" "tally s1 = tally s" using s1 assms(1) by (auto split: if_splits)
  let ?k = "dl_lower_bound (m_downloads s1 piece_downloading) i"
  define r where "r = new_downloading_piece\<lparr>dindex := i, info_idx := bi mod 2 ^ 16\<rparr>"
  obtain infos fin where inf: "init_blocks (m_pad_blocks s1) (blocks_begin s1 r) (i * m_blocks_per_piece s1)
      (blocks_in_piece s1 i) (m_block_info s1) 0 = (infos, fin)" by (rule prod.exhaust)
  let ?s2 = "dl_insert (piece_downloading, ?k) (r\<lparr>finished := fin\<rparr>) (s1\<lparr>m_block_info := infos\<rparr>)"
  have at: "dl_at ?s2 (piece_downloading, ?k) = r\<lparr>finished := fin\<rparr>"
    using dl_lower_bound_le by simp
  have up: "update_piece_state (piece_downloading, ?k) ?s2 = (dp, s')"
    using assms(3) inf unfolding add_download_piece_def Let_def s1 by (simp add: r_def)
  have "dindex (dl_at ?s2 (piece_downloading, ?k)) = i" using at by (simp add: r_def)
  with update_piece_state_good [OF _ _ up] g1 assms(2) show ?thesis by simp
qed

text \<open>The last step of most operations: the state of the piece follows its counters.\<close>

lemma finish_good:
  assumes "list_good s" and "dindex (dl_at s it) < num_pieces s"
  shows "list_good (snd (update_piece_state it s)) \<and> num_pieces (snd (update_piece_state it s)) = num_pieces s
    \<and> tally (snd (update_piece_state it s)) = tally s"
  using update_piece_state_good [OF assms] by (metis prod.collapse)

lemma opened_download_good:
  assumes "list_good s" and "i < num_pieces s" and "download_queue (piece_at s i) = piece_open"
    and "add_download_piece i (open_piece i st s) = (dp, s')"
  shows "list_good s' \<and> num_pieces s' = num_pieces s \<and> tally s' = tally s \<and> dindex (dl_at s' dp) = i"
proof -
  have "pstate (piece_at s i) = piece_open" using assms(3) by (auto simp: download_queue_def split: if_splits)
  from open_piece_good [OF assms(1,2) this, of st]
  have "list_good (open_piece i st s)" "num_pieces (open_piece i st s) = num_pieces s" "tally (open_piece i st s) = tally s"
    using relisted_num relisted_tally by (auto simp: relisted_def)
  with add_download_piece_good [OF _ _ assms(4)] assms(2) show ?thesis by simp
qed

lemma downloading_queue: "downloading p \<longleftrightarrow> download_queue p \<noteq> piece_open"
  by (auto simp: downloading_def download_queue_def)

lemma mark_as_writing_good:
  assumes "list_good s" and "fst b < num_pieces s"
  shows "list_good (snd (mark_as_writing b peer s)) \<and> num_pieces (snd (mark_as_writing b peer s)) = num_pieces s
    \<and> tally (snd (mark_as_writing b peer s)) = tally s"
proof (cases "downloading (piece_at s (fst b))")
  case False
  obtain dp s2 where ad: "add_download_piece (fst b) (open_piece (fst b) piece_downloading s) = (dp, s2)" by (rule prod.exhaust)
  have g: "list_good s2" "num_pieces s2 = num_pieces s" "tally s2 = tally s" "dindex (dl_at s2 dp) = fst b"
    using opened_download_good [OF assms _ ad] False downloading_queue by auto
  let ?s3 = "set_block (dl_at s2 dp) (snd b) (\<lambda>_. \<lparr>bpeer = peer, num_peers_of = 0, bstate = state_writing\<rparr>) s2"
  have "dindex (dl_at (dl_modify dp (\<lambda>d. d\<lparr>writing := 1\<rparr>) ?s3) dp) = fst b"
    using g by (subst dindex_dl_modify) simp_all
  then have "list_good (snd (update_piece_state dp (dl_modify dp (\<lambda>d. d\<lparr>writing := 1\<rparr>) ?s3)))
      \<and> num_pieces (snd (update_piece_state dp (dl_modify dp (\<lambda>d. d\<lparr>writing := 1\<rparr>) ?s3))) = num_pieces s
      \<and> tally (snd (update_piece_state dp (dl_modify dp (\<lambda>d. d\<lparr>writing := 1\<rparr>) ?s3))) = tally s"
    using finish_good [of "dl_modify dp (\<lambda>d. d\<lparr>writing := 1\<rparr>) ?s3" dp] g assms(2) by simp
  with False assms g ad show ?thesis by (simp add: mark_as_writing_def Let_def)
next
  case True
  show ?thesis
  proof (cases "dl_iter_of (fst b) s")
    case (Some it)
    note it = dl_iter_ofD [OF Some]
    let ?d = "dl_at s it"
    let ?s1 = "set_block ?d (snd b) (\<lambda>info. info\<lparr>bpeer := peer\<rparr>) s"
    let ?s2 = "if bstate (block_at s ?d (snd b)) = state_requested
      then dl_modify it (\<lambda>d. d\<lparr>requested := bits_dec 15 (requested d)\<rparr>) ?s1 else ?s1"
    let ?s4 = "set_block ?d (snd b) (\<lambda>info. info\<lparr>bstate := state_writing, num_peers_of := 0\<rparr>)
      (dl_modify it (\<lambda>d. d\<lparr>writing := bits_inc 15 (writing d)\<rparr>) ?s2)"
    have "dindex (dl_at ?s4 it) = fst b" using it by (simp add: dindex_dl_modify)
    then have "list_good (snd (update_piece_state it ?s4)) \<and> num_pieces (snd (update_piece_state it ?s4)) = num_pieces s
      \<and> tally (snd (update_piece_state it ?s4)) = tally s"
      using finish_good [of ?s4 it] assms by simp
    with True Some assms show ?thesis by (simp add: mark_as_writing_def Let_def)
  qed (use True assms in \<open>simp add: mark_as_writing_def Let_def\<close>)
qed

lemma erase_if_unused_good:
  assumes "list_good s" and "dindex (dl_at s it) = i" and "i < num_pieces s"
  shows "list_good (erase_if_unused i it s) \<and> num_pieces (erase_if_unused i it s) = num_pieces s
    \<and> tally (erase_if_unused i it s) = tally s"
  using erase_relist_good [OF assms] relisted_num relisted_tally [OF erase_relist_good [OF assms]] assms(1) by (auto simp: erase_if_unused_def Let_def relisted_def)

lemma state_then_erase_good:
  assumes "list_good s" and "dindex (dl_at s it) = i" and "i < num_pieces s"
  shows "list_good (case update_piece_state it s of (it', s') \<Rightarrow> erase_if_unused i it' s')
    \<and> num_pieces (case update_piece_state it s of (it', s') \<Rightarrow> erase_if_unused i it' s') = num_pieces s
    \<and> tally (case update_piece_state it s of (it', s') \<Rightarrow> erase_if_unused i it' s') = tally s"
proof -
  obtain it' s' where up: "update_piece_state it s = (it', s')" by (rule prod.exhaust)
  from update_piece_state_good [OF assms(1) _ up] assms erase_if_unused_good [of s' it' i]
  show ?thesis unfolding up by simp
qed

lemma write_failed_good:
  assumes "list_good s" and "fst b < num_pieces s"
  shows "list_good (write_failed b s) \<and> num_pieces (write_failed b s) = num_pieces s
    \<and> tally (write_failed b s) = tally s"
proof (cases "dl_iter_of (fst b) s")
  case (Some it)
  note it = dl_iter_ofD [OF Some]
  let ?d = "dl_at s it"
  let ?s1 = "if bstate (block_at s ?d (snd b)) = state_writing
    then dl_modify it (\<lambda>d. d\<lparr>writing := bits_dec 15 (writing d)\<rparr>) s else s"
  let ?s2 = "set_block ?d (snd b) (\<lambda>info. info\<lparr>bpeer := None, bstate := state_none\<rparr>) ?s1"
  let ?s3 = "if passed_hash_check ?d
    then (dl_modify it (\<lambda>d. d\<lparr>passed_hash_check := False\<rparr>) ?s2)\<lparr>m_num_passed := m_num_passed ?s2 - 1\<rparr> else ?s2"
  let ?s4 = "dl_modify it (\<lambda>d. d\<lparr>locked := True\<rparr>) ?s3"
  have "dindex (dl_at ?s4 it) = fst b" using it by (simp add: dindex_dl_modify)
  then have "list_good (case update_piece_state it ?s4 of (it', s') \<Rightarrow> erase_if_unused (fst b) it' s')
    \<and> num_pieces (case update_piece_state it ?s4 of (it', s') \<Rightarrow> erase_if_unused (fst b) it' s') = num_pieces s
    \<and> tally (case update_piece_state it ?s4 of (it', s') \<Rightarrow> erase_if_unused (fst b) it' s') = tally s"
    using state_then_erase_good [of ?s4 it "fst b"] assms by simp
  with Some assms show ?thesis unfolding write_failed_def Let_def by simp
qed (use assms in \<open>simp add: write_failed_def Let_def\<close>)

lemma mark_as_canceled_good:
  assumes "list_good s" and "fst b < num_pieces s"
  shows "list_good (mark_as_canceled b peer s) \<and> num_pieces (mark_as_canceled b peer s) = num_pieces s
    \<and> tally (mark_as_canceled b peer s) = tally s"
proof (cases "dl_iter_of (fst b) s")
  case (Some it)
  note it = dl_iter_ofD [OF Some]
  let ?d = "dl_at s it"
  let ?s3 = "set_block ?d (snd b) (\<lambda>info. info\<lparr>bstate := state_none\<rparr>)
    (dl_modify it (\<lambda>d. d\<lparr>writing := bits_dec 15 (writing d)\<rparr>) (set_block ?d (snd b) (\<lambda>info. info\<lparr>bpeer := peer\<rparr>) s))"
  have "dindex (dl_at ?s3 it) = fst b" using it by (simp add: dindex_dl_modify)
  then have "list_good (case update_piece_state it ?s3 of (it', s') \<Rightarrow> erase_if_unused (fst b) it' s')
    \<and> num_pieces (case update_piece_state it ?s3 of (it', s') \<Rightarrow> erase_if_unused (fst b) it' s') = num_pieces s
    \<and> tally (case update_piece_state it ?s3 of (it', s') \<Rightarrow> erase_if_unused (fst b) it' s') = tally s"
    using state_then_erase_good [of ?s3 it "fst b"] assms by simp
  with Some assms show ?thesis unfolding mark_as_canceled_def Let_def by simp
qed (use assms in \<open>simp add: mark_as_canceled_def Let_def\<close>)

lemma changed_remove:
  assumes "piece_changed i f s s1" and "list_good s" and "\<not> m_dirty s" and "0 \<le> prio_of s i" and "prio_of s1 i < 0"
  shows "list_ok (remove (nat (prio_of s i)) (pindex (piece_at s i)) s1)"
    and "same_pieces s1 (remove (nat (prio_of s i)) (pindex (piece_at s i)) s1)"
proof -
  note at = piece_changed_at [OF assms(1)]
  have i: "i < num_pieces s" using assms(1) by (simp add: piece_changed_def)
  obtain bs where bs: "ranges_ok (prio_of s) s bs" "idx_from (m_piece_map s) 0 (concat bs)" and n: "num_pieces s \<le> max_pieces"
    and bits: "\<forall>x<num_pieces s. piece_priority (piece_at s x) < priority_levels"
    using assms(2,3) by (auto simp: list_good_def list_ok_def list_inv_def)
  have "i \<in> set (concat bs)" using bs(1) i assms(4) by (simp add: ranges_ok_def)
  then obtain pre B1 B2 post where sp: "bs = pre @ (B1 @ i # B2) # post" "length pre = nat (prio_of s i)"
    using ranges_prio_member [of "prio_of s" bs i "nat (prio_of s i)"] bs(1) assms(4) by (auto simp: ranges_ok_def)
  have e: "pindex (piece_at s i) = length (concat pre @ B1)" using bs(2) by (simp add: sp(1))
  have d: "distinct (concat pre @ B1 @ i # B2 @ concat post)" using bs(1) by (simp add: ranges_ok_def sp(1))
  have frame: "idx_from (m_piece_map s1) k xs = idx_from (m_piece_map s) k xs" if "i \<notin> set xs" for k xs
    by (rule idx_from_cong) (use at(3) that in metis)
  have "list_ok (remove (length pre) (length (concat pre @ B1)) s1)
    \<and> same_pieces s1 (remove (length pre) (length (concat pre @ B1)) s1)"
  proof (rule remove_list_ok [OF _ _ _ _ _ _ sp(1)])
    show "ranges_ok (prio_of s) s1 bs" using bs(1) at by (simp add: ranges_ok_def)
    show "idx_from (m_piece_map s1) 0 (concat pre @ B1)"
      "idx_from (m_piece_map s1) (Suc (length (concat pre @ B1))) (B2 @ concat post)"
      using bs(2) d by (simp_all add: frame sp(1) add.assoc)
    show "\<forall>x<num_pieces s1. piece_priority (piece_at s1 x) < priority_levels"
      using bits at assms(1) by (metis piece_changed_def)
  qed (use n at assms(5) in auto)
  then show "list_ok (remove (nat (prio_of s i)) (pindex (piece_at s i)) s1)"
    "same_pieces s1 (remove (nat (prio_of s i)) (pindex (piece_at s i)) s1)"
    using e sp(2) by simp_all
qed

lemma set_piece_view:
  "list_view s = list_view t \<Longrightarrow> list_view (set_piece i f s) = list_view (set_piece i f t)"
  by (simp add: list_view_def set_piece_def)

lemma set_piece_twice: "list_view (set_piece i f (set_piece i g s)) = list_view (set_piece i (f \<circ> g) s)"
  by (cases "i < num_pieces s") (simp_all add: list_view_def set_piece_def list_update_beyond)

lemma erase_view:
  "list_view (erase_download_piece it s) = list_view (set_piece (dindex (dl_at s it)) (\<lambda>p. p\<lparr>pstate := piece_open\<rparr>) s)"
  by (simp add: erase_download_piece_def Let_def) (simp add: list_view_def set_piece_def)

lemma have_prio: "is_have (piece_at s i) \<Longrightarrow> prio_of s i = -1"
  by (simp add: prio_of_def priority_def)

lemma have_erase_view:
  obtains g where "list_view (have_erase i s) = list_view (set_piece i g s)"
    and "piece_priority (g (piece_at s i)) = piece_priority (piece_at s i)"
proof (cases "download_queue (piece_at s i) \<noteq> piece_open \<and> dl_iter_of i s \<noteq> None")
  case True
  then obtain it where it: "dl_iter_of i s = Some it" by auto
  have "list_view (have_erase i s) = list_view (set_piece i (\<lambda>p. p\<lparr>pstate := piece_open\<rparr>) s)"
    using True it dl_iter_ofD(1) [OF it] by (auto simp: have_erase_def erase_view intro!: set_piece_view)
  then show thesis using that by simp
next
  case False
  then have "have_erase i s = s" by (auto simp: have_erase_def split: option.split)
  then show thesis using that [of id] by (simp add: list_view_def set_piece_def)
qed

lemma have_erase_dirty [simp]: "m_dirty (have_erase i s) = m_dirty s"
  by (simp add: have_erase_def erase_download_piece_def Let_def split: option.split)

lemma have_count_view [simp]:
  "m_dirty (have_count i s) = m_dirty s" "list_view (have_count i s) = list_view (set_piece i set_have s)"
  by (simp_all add: have_count_def Let_def) (simp_all add: list_view_def set_piece_def)

lemma have_cursors_view [simp]: "m_dirty (have_cursors i s) = m_dirty s" "list_view (have_cursors i s) = list_view s"
  by (simp_all add: have_cursors_def)

lemma widen_cursors_view [simp]: "m_dirty (widen_cursors i s) = m_dirty s" "list_view (widen_cursors i s) = list_view s"
  by (simp_all add: widen_cursors_def Let_def)

lemma we_have_changed:
  assumes "list_good s" and "i < num_pieces s"
  obtains f where "piece_changed i f s (have_cursors i (have_count i (have_erase i s)))"
    and "is_have (f (piece_at s i))"
proof -
  obtain g where g: "list_view (have_erase i s) = list_view (set_piece i g s)"
    "piece_priority (g (piece_at s i)) = piece_priority (piece_at s i)" by (rule have_erase_view)
  have "list_view (have_cursors i (have_count i (have_erase i s))) = list_view (set_piece i (set_have \<circ> g) s)"
    using set_piece_view [OF g(1)] set_piece_twice by simp
  then have "piece_changed i (set_have \<circ> g) s (have_cursors i (have_count i (have_erase i s)))"
    using assms(2) g(2) good_prio [OF assms] by (simp add: piece_changed_def set_have_def)
  moreover have "is_have ((set_have \<circ> g) (piece_at s i))" by (simp add: set_have_def is_have_def)
  ultimately show thesis by (rule that)
qed

lemma we_have_good:
  assumes "list_good s" and "i < num_pieces s"
  shows "list_good (we_have i s) \<and> num_pieces (we_have i s) = num_pieces s"
proof -
  let ?s4 = "have_cursors i (have_count i (have_erase i s))"
  obtain f where ch: "piece_changed i f s ?s4" and f: "is_have (f (piece_at s i))" by (rule we_have_changed [OF assms])
  have neg: "prio_of ?s4 i = -1" using piece_changed_at(2) [OF ch] f by (intro have_prio) simp
  show ?thesis
  proof (cases "m_dirty s")
    case True
    then show ?thesis
      using assms piece_changed_good [OF ch assms(1)] piece_changed_at(1) [OF ch] by (simp add: we_have_def Let_def)
  next
    case clean: False
    have "prio_of s i = -1 \<Longrightarrow> list_ok ?s4" using changed_same [OF ch assms(1) clean] neg by simp
    moreover have "list_ok (remove (nat (prio_of s i)) (pindex (piece_at s i)) ?s4)"
      "same_pieces ?s4 (remove (nat (prio_of s i)) (pindex (piece_at s i)) ?s4)" if "prio_of s i \<noteq> -1"
      using changed_remove [OF ch assms(1) clean] neg that prio_values [OF assms] by simp_all
    ultimately show ?thesis
      using clean assms list_ok_good piece_changed_at(1) [OF ch] by (auto simp: we_have_def Let_def)
  qed
qed

lemma piece_passed_good:
  assumes "list_good s" and "i < num_pieces s"
  shows "list_good (piece_passed i s) \<and> num_pieces (piece_passed i s) = num_pieces s"
proof (cases "dl_iter_of i s")
  case (Some it)
  let ?s1 = "(dl_modify it (\<lambda>d. d\<lparr>passed_hash_check := True\<rparr>) s)\<lparr>m_num_passed := m_num_passed s + 1\<rparr>"
  have "list_good (we_have i ?s1) \<and> num_pieces (we_have i ?s1) = num_pieces ?s1"
    by (rule we_have_good) (use assms in simp_all)
  with Some assms show ?thesis by (simp add: piece_passed_def Let_def)
qed (use assms in \<open>simp add: piece_passed_def\<close>)

lemma changed_settle:
  assumes ch: "piece_changed i f s s1" and g: "list_good s"
    and f: "pindex (f (piece_at s i)) = pindex (piece_at s i) \<or> prio_of s i < 0"
  shows "relisted s1 (if m_dirty s1 then s1 else if prio_of s i = -1 \<and> prio_of s1 i \<ge> 0 then add i s1
    else if prio_of s i \<ge> 0 then update (prio_of s i) (pindex (piece_at s1 i)) s1 else s1)"
proof -
  have i: "i < num_pieces s" "m_dirty s1 = m_dirty s" using ch by (simp_all add: piece_changed_def)
  consider (dirty) "m_dirty s" | (add) "\<not> m_dirty s" "prio_of s i = -1" "prio_of s1 i \<ge> 0"
    | (upd) "\<not> m_dirty s" "0 \<le> prio_of s i" | (same) "\<not> m_dirty s" "prio_of s i = -1" "prio_of s1 i = -1"
    using prio_values [OF g i(1)] changed_values [OF ch g] by blast
  then show ?thesis
  proof cases
    case dirty
    then show ?thesis using piece_changed_good [OF ch g] i(2) by (simp add: relisted_def)
  next
    case add
    then show ?thesis using changed_add [OF ch g] i(2) by (simp add: relistedI)
  next
    case upd
    then show ?thesis using changed_update [OF ch g] i(2) f by (simp add: relistedI)
  next
    case same
    then show ?thesis using changed_same [OF ch g] i(2) by (simp add: relistedI)
  qed
qed

text \<open>Giving up a piece that we have.\<close>

lemma we_dont_have_good:
  assumes "list_good s" and "i < num_pieces s" and have_it: "is_have (piece_at s i)"
  shows "list_good (we_dont_have i s) \<and> num_pieces (we_dont_have i s) = num_pieces s"
proof -
  let ?pads = "int (pad_blocks_in_piece s i)" and ?s1 = "s\<lparr>m_num_passed := m_num_passed s - 1\<rparr>"
  define s2 where "s2 = (if filtered (piece_at ?s1 i)
      then ?s1\<lparr>m_filtered_pad_blocks := m_filtered_pad_blocks ?s1 + ?pads, m_num_filtered := m_num_filtered ?s1 + 1,
               m_have_filtered_pad_blocks := m_have_filtered_pad_blocks ?s1 - ?pads,
               m_num_have_filtered := m_num_have_filtered ?s1 - 1\<rparr>
      else widen_cursors i ?s1)"
  define s3 where "s3 = set_piece i set_not_have
      (s2\<lparr>m_num_have := m_num_have s2 - 1, m_have_pad_blocks := m_have_pad_blocks s2 - ?pads\<rparr>)"
  have v2: "list_view s2 = list_view s" "m_dirty s2 = m_dirty s" by (simp_all add: s2_def)
  have "list_view s3 = list_view (set_piece i set_not_have s)"
    unfolding s3_def by (rule set_piece_view) (use v2 in simp)
  then have ch: "piece_changed i set_not_have s s3"
    using assms good_prio v2(2) by (simp add: piece_changed_def s3_def set_not_have_def)
  have res: "we_dont_have i s = (if m_dirty s3 then s3 else if prio_of s3 i \<ge> 0 then add i s3 else s3)"
    using have_it unfolding we_dont_have_def Let_def s3_def s2_def by simp
  have old: "prio_of s i = -1" using have_it by (rule have_prio)
  have "relisted s3 (if m_dirty s3 then s3 else if prio_of s i = -1 \<and> prio_of s3 i \<ge> 0 then add i s3
    else if prio_of s i \<ge> 0 then update (prio_of s i) (pindex (piece_at s3 i)) s3 else s3)"
    by (rule changed_settle [OF ch assms(1)]) (use old in simp)
  moreover have "(if m_dirty s3 then s3 else if prio_of s i = -1 \<and> prio_of s3 i \<ge> 0 then add i s3
    else if prio_of s i \<ge> 0 then update (prio_of s i) (pindex (piece_at s3 i)) s3 else s3) = we_dont_have i s"
    by (simp add: res old)
  ultimately have "relisted s3 (we_dont_have i s)" by simp
  then show ?thesis using relisted_num piece_changed_at(1) [OF ch] by (metis relisted_def)
qed

lemma filter_count_view:
  "list_view (snd (filter_count i np s)) = list_view s" "m_dirty (snd (filter_count i np s)) = m_dirty s"
  by (simp_all add: filter_count_def Let_def)

lemma set_piece_priority_good:
  assumes "list_good s" and "i < num_pieces s"
  shows "list_good (snd (set_piece_priority i np s)) \<and> num_pieces (snd (set_piece_priority i np s)) = num_pieces s"
proof (cases "np = piece_priority (piece_at s i)")
  case True
  with assms show ?thesis by (simp add: set_piece_priority_def)
next
  case False
  obtain ret s1 where fc: "filter_count i np s = (ret, s1)" by (rule prod.exhaust)
  let ?f = "\<lambda>p. p\<lparr>piece_priority := np mod 2 ^ 3\<rparr>"
  let ?s2 = "set_piece i ?f s1"
  have v: "list_view ?s2 = list_view (set_piece i ?f s)" "m_dirty ?s2 = m_dirty s"
    using filter_count_view [of i np s] fc by (auto intro!: set_piece_view)
  have ch: "piece_changed i ?f s ?s2" using v assms(2) by (simp add: piece_changed_def)
  let ?s3 = "relist (prio_of s i) i ?s2"
  have r: "relisted ?s2 ?s3" by (rule relist_good [OF ch assms(1)]) simp
  have n3: "num_pieces ?s3 = num_pieces s" "list_good ?s3"
    using r relisted_num piece_changed_at(1) [OF ch] by (auto simp: relisted_def)
  have "list_good (snd (update_piece_state it ?s3)) \<and> num_pieces (snd (update_piece_state it ?s3)) = num_pieces s"
    if "dl_iter_of i ?s3 = Some it" for it
    using finish_good [of ?s3 it] dl_iter_ofD(1) [OF that] n3 assms(2) by simp
  with False fc n3 show ?thesis by (simp add: set_piece_priority_def Let_def split: option.split)
qed

lemma abort_download_good:
  assumes "list_good s" and "fst b < num_pieces s"
  shows "list_good (abort_download b peer s) \<and> num_pieces (abort_download b peer s) = num_pieces s
    \<and> tally (abort_download b peer s) = tally s"
proof (cases "dl_iter_of (fst b) s")
  case (Some it)
  note it = dl_iter_ofD [OF Some]
  let ?i = "fst b" and ?d = "dl_at s it"
  define n where "n = (let info = block_at s ?d (snd b) in if num_peers_of info > 0 then num_peers_of info - 1 else num_peers_of info)"
  define s1 where "s1 = set_block ?d (snd b) (\<lambda>info. info\<lparr>num_peers_of := n,
      bpeer := (if bpeer info = peer then None else bpeer info)\<rparr>) s"
  define s3 where "s3 = dl_modify it (\<lambda>d. d\<lparr>requested := bits_dec 15 (requested d)\<rparr>)
      (set_block ?d (snd b) (\<lambda>info. info\<lparr>bpeer := None, bstate := state_none\<rparr>) s1)"
  let ?s4 = "erase_download_piece it s3"
  have g: "list_good s1" "num_pieces s1 = num_pieces s" "list_good s3" "num_pieces s3 = num_pieces s"
    "prio_of s3 = prio_of s" "m_dirty s3 = m_dirty s" "dindex (dl_at s3 it) = ?i" "tally s1 = tally s" "tally s3 = tally s"
    using assms it by (simp_all add: s1_def s3_def dindex_dl_modify)
  have ch: "piece_changed ?i (\<lambda>p. p\<lparr>pstate := piece_open\<rparr>) s3 ?s4"
    using erase_changed [of s3 it] g assms(2) by simp
  define s5 where "s5 = (if m_dirty ?s4 then ?s4
      else if prio_of s ?i = -1 \<and> prio_of ?s4 ?i \<ge> 0 then add ?i ?s4
      else if prio_of s ?i \<ge> 0 then update (prio_of s ?i) (pindex (piece_at ?s4 ?i)) ?s4 else ?s4)"
  have "relisted ?s4 (if m_dirty ?s4 then ?s4 else if prio_of s3 ?i = -1 \<and> prio_of ?s4 ?i \<ge> 0 then add ?i ?s4
    else if prio_of s3 ?i \<ge> 0 then update (prio_of s3 ?i) (pindex (piece_at ?s4 ?i)) ?s4 else ?s4)"
    by (rule changed_settle [OF ch g(3)]) simp
  then have r: "relisted ?s4 s5" unfolding s5_def g(5) .
  then have "list_good s5 \<and> num_pieces s5 = num_pieces s \<and> tally s5 = tally s"
    using relisted_num [OF r] relisted_tally [OF r] g(4,9) by (simp add: relisted_def)
  moreover have "list_good (snd (update_piece_state it s3)) \<and> num_pieces (snd (update_piece_state it s3)) = num_pieces s
      \<and> tally (snd (update_piece_state it s3)) = tally s"
    using finish_good [of s3 it] g assms(2) by simp
  moreover have "abort_download b peer s =
      (if download_queue (piece_at s ?i) = piece_open \<or> bstate (block_at s ?d (snd b)) \<noteq> state_requested then s
       else if n > 0 then s1
       else if requested (dl_at s3 it) + finished (dl_at s3 it) + writing (dl_at s3 it) = 0 then s5
       else snd (update_piece_state it s3))"
    using Some unfolding abort_download_def Let_def s5_def s3_def s1_def n_def by simp
  ultimately show ?thesis using assms g by simp
qed (use assms in \<open>simp add: abort_download_def Let_def\<close>)

lemma mark_as_finished_good:
  assumes "list_good s" and "fst b < num_pieces s"
  shows "list_good (mark_as_finished b peer s) \<and> num_pieces (mark_as_finished b peer s) = num_pieces s"
proof (cases "download_queue (piece_at s (fst b)) = piece_open")
  case True
  obtain dp s2 where ad: "add_download_piece (fst b) (open_piece (fst b) piece_downloading s) = (dp, s2)" by (rule prod.exhaust)
  have g: "list_good s2" "num_pieces s2 = num_pieces s" "tally s2 = tally s" "dindex (dl_at s2 dp) = fst b"
    using opened_download_good [OF assms True ad] by auto
  let ?s4 = "dl_modify dp (\<lambda>d. d\<lparr>finished := bits_inc 15 (finished d)\<rparr>)
    (set_block (dl_at s2 dp) (snd b) (\<lambda>info. info\<lparr>bpeer := peer, bstate := state_finished\<rparr>) s2)"
  have "dindex (dl_at ?s4 dp) = fst b" using g by (simp add: dindex_dl_modify)
  then have "list_good (snd (update_piece_state dp ?s4)) \<and> num_pieces (snd (update_piece_state dp ?s4)) = num_pieces s"
    using finish_good [of ?s4 dp] g assms(2) by simp
  with True assms g ad show ?thesis by (simp add: mark_as_finished_def Let_def)
next
  case False
  show ?thesis
  proof (cases "dl_iter_of (fst b) s")
    case (Some it)
    note it = dl_iter_ofD [OF Some]
    let ?d = "dl_at s it" and ?st = "bstate (block_at s (dl_at s it) (snd b))"
    let ?s1 = "if ?st \<noteq> state_writing \<or> peer \<noteq> None
      then set_block ?d (snd b) (\<lambda>info. info\<lparr>bpeer := peer\<rparr>) s else s"
    let ?s2 = "dl_modify it (\<lambda>d. d\<lparr>finished := bits_inc 15 (finished d)\<rparr>) ?s1"
    let ?s3 = "if ?st = state_writing then dl_modify it (\<lambda>d. d\<lparr>writing := bits_dec 15 (writing d)\<rparr>) ?s2 else ?s2"
    let ?s4 = "set_block ?d (snd b) (\<lambda>info. info\<lparr>bstate := state_finished\<rparr>) ?s3"
    obtain it' s5 where up: "update_piece_state it ?s4 = (it', s5)" by (rule prod.exhaust)
    have "dindex (dl_at ?s4 it) = fst b" using it by (simp add: dindex_dl_modify)
    with update_piece_state_good [OF _ _ up] assms
    have g5: "list_good s5" "num_pieces s5 = num_pieces s" "dindex (dl_at s5 it') = fst b" by simp_all
    have "list_good (we_have (fst b) s5) \<and> num_pieces (we_have (fst b) s5) = num_pieces s"
      using we_have_good [of s5 "fst b"] g5 assms(2) by simp
    moreover have "mark_as_finished b peer s = (if ?st = state_finished then s
        else if finished (dl_at s5 it') < blocks_in_piece s5 (fst b) then s5
        else if passed_hash_check (dl_at s5 it') then we_have (fst b) s5 else s5)"
      using False Some up g5(3) unfolding mark_as_finished_def Let_def by simp
    ultimately show ?thesis using assms g5 by simp
  qed (use False assms in \<open>simp add: mark_as_finished_def Let_def\<close>)
qed

lemma pad_count_view [simp]: "list_view (pad_count b s) = list_view s" "m_dirty (pad_count b s) = m_dirty s"
  by (simp_all add: pad_count_def Let_def)

lemma mark_as_pad_good:
  assumes "list_good s" and "fst b < num_pieces s"
  shows "list_good (mark_as_pad b s) \<and> num_pieces (mark_as_pad b s) = num_pieces s"
proof -
  have "list_good (pad_count b s)" "num_pieces (pad_count b s) = num_pieces s"
    using assms(1) list_good_view [of "pad_count b s" s] list_view_eqD(1) [of "pad_count b s" s] by simp_all
  with we_have_good [of "pad_count b s" "fst b"] assms(2) show ?thesis by (simp add: mark_as_pad_def Let_def)
qed

lemma record_downloading_piece_view [simp]:
  "list_view (record_downloading_piece i s) = list_view s" "m_dirty (record_downloading_piece i s) = m_dirty s"
  "tally (record_downloading_piece i s) = tally s"
  by (simp_all add: record_downloading_piece_def Let_def split: option.split)

lemma tally_peer_count [simp]: "tally (set_piece i inc_peer_count s) = tally s" "tally (set_piece i dec_peer_count s) = tally s"
  by (rule tally_set_piece; simp add: is_have_def filtered_def inc_peer_count_def dec_peer_count_def)+

lemma tally_map:
  "(\<And>p. is_have (f p) = is_have p \<and> filtered (f p) = filtered p) \<Longrightarrow> tally (s\<lparr>m_seeds := x, m_piece_map := map f (m_piece_map s)\<rparr>) = tally s"
  by (simp add: tally_def)

lemma inc_refcount_good:
  assumes "list_good s" and "i < num_pieces s"
  shows "list_good (inc_refcount i s) \<and> num_pieces (inc_refcount i s) = num_pieces s
    \<and> tally (inc_refcount i s) = tally s"
proof -
  let ?s1 = "set_piece i inc_peer_count s"
  have ch: "piece_changed i inc_peer_count s ?s1"
    using assms good_prio by (intro piece_changed_set) (auto simp: inc_peer_count_def)
  have "relisted ?s1 (relist (prio_of s i) i ?s1)"
    by (rule relist_good [OF ch assms(1)]) (simp add: inc_peer_count_def)
  moreover have "inc_refcount i s = relist (prio_of s i) i ?s1" by (auto simp: inc_refcount_def relist_def Let_def)
  ultimately have r: "relisted ?s1 (inc_refcount i s)" by simp
  show ?thesis using r relisted_num [OF r] relisted_tally [OF r] by (simp add: relisted_def)
qed

lemma list_good_dirty:
  "num_pieces s1 = num_pieces s \<Longrightarrow> (\<And>x. x < num_pieces s \<Longrightarrow> piece_priority (piece_at s1 x) = piece_priority (piece_at s x))
     \<Longrightarrow> m_dirty s1 \<Longrightarrow> list_good s \<Longrightarrow> list_good s1"
  by (simp add: list_good_def)

lemma break_one_seed_good:
  "list_good s \<Longrightarrow> list_good (break_one_seed s) \<and> num_pieces (break_one_seed s) = num_pieces s \<and> m_dirty (break_one_seed s) \<and> tally (break_one_seed s) = tally s"
  using list_good_dirty [of "break_one_seed s" s] tally_map [of inc_peer_count s "m_seeds s - 1"]
  by (simp add: break_one_seed_def inc_peer_count_def is_have_def filtered_def)

lemma dec_peer_count_prio:
  assumes "priority seeds p < 0" and "piece_priority p < priority_levels" and "0 < peer_count p" and "0 \<le> seeds"
  shows "priority seeds (dec_peer_count p) = -1"
proof -
  have "filtered p \<or> is_have p \<or> pstate p = piece_full \<or> pstate p = piece_finished"
    using assms priority_neg_iff [OF assms(2), of seeds] by auto
  then show ?thesis by (auto simp: priority_def dec_peer_count_def filtered_def is_have_def)
qed

lemma dec_refcount_relisted:
  assumes "list_good s" and "i < num_pieces s" and "0 \<le> m_seeds s"
  shows "relisted (dec_counter i s) (dec_refcount i s)"
proof -
  define s1 where "s1 = (if peer_count (piece_at s i) = 0 then break_one_seed s else s)"
  have g: "list_good s1" "num_pieces s1 = num_pieces s" "tally s1 = tally s"
    using assms(1) break_one_seed_good by (auto simp: s1_def)
  let ?s2 = "set_piece i dec_peer_count s1"
  have ch: "piece_changed i dec_peer_count s1 ?s2"
    using assms(2) g good_prio by (intro piece_changed_set) (auto simp: dec_peer_count_def)
  have "relisted ?s2 (if prio_of s1 i \<ge> 0 \<and> \<not> m_dirty ?s2 then update (prio_of s1 i) (pindex (piece_at ?s2 i)) ?s2 else ?s2)"
  proof (rule changed_update_good [OF ch g(1)])
    assume neg: "prio_of s1 i < 0" and clean: "\<not> m_dirty s1"
    then have "s1 = s" "0 < peer_count (piece_at s i)" using break_one_seed_good assms(1) by (auto simp: s1_def split: if_splits)
    with neg assms good_prio [OF assms(1,2)] prio_values [OF assms(1,2)] show "prio_of ?s2 i = prio_of s1 i"
      by (simp add: prio_of_def dec_peer_count_prio)
  qed (simp add: dec_peer_count_def)
  moreover have "dec_refcount i s = (if prio_of s1 i \<ge> 0 \<and> \<not> m_dirty ?s2 then update (prio_of s1 i) (pindex (piece_at ?s2 i)) ?s2 else ?s2)"
    unfolding dec_refcount_def Let_def s1_def [symmetric] by simp
  ultimately show ?thesis by (simp only: dec_counter_def s1_def)
qed

lemma dec_refcount_good:
  assumes "list_good s" and "i < num_pieces s" and "0 \<le> m_seeds s"
  shows "list_good (dec_refcount i s) \<and> num_pieces (dec_refcount i s) = num_pieces s
    \<and> tally (dec_refcount i s) = tally s"
proof -
  note r = dec_refcount_relisted [OF assms]
  have "num_pieces (dec_counter i s) = num_pieces s" "tally (dec_counter i s) = tally s"
    using break_one_seed_good [OF assms(1)] by (simp_all add: dec_counter_def)
  then show ?thesis using r relisted_num [OF r] relisted_tally [OF r] by (simp add: relisted_def)
qed

lemma tally_turn: "tally (set_piece i make_reverse s) = tally s" "tally (set_piece i unreverse s) = tally s"
  by (rule tally_set_piece; simp add: is_have_def filtered_def make_reverse_def unreverse_def)+

lemma mark_as_downloading_good:
  assumes "list_good s" and "fst b < num_pieces s"
    and full: "\<And>it. dl_iter_of (fst b) s = Some it \<Longrightarrow> requested (dl_at s it) = 0 \<Longrightarrow> pstate (piece_at s (fst b)) \<noteq> piece_full"
  shows "list_good (snd (mark_as_downloading b peer rvs aff s)) \<and> num_pieces (snd (mark_as_downloading b peer rvs aff s)) = num_pieces s
    \<and> tally (snd (mark_as_downloading b peer rvs aff s)) = tally s"
proof (cases "download_queue (piece_at s (fst b)) = piece_open")
  case True
  let ?st = "if rvs then piece_downloading_reverse else piece_downloading"
  let ?s1 = "open_piece (fst b) ?st s"
  let ?s2 = "if aff then record_downloading_piece (fst b) ?s1 else ?s1"
  obtain dp s3 where ad: "add_download_piece (fst b) ?s2 = (dp, s3)" by (rule prod.exhaust)
  have "pstate (piece_at s (fst b)) = piece_open" using True by (auto simp: download_queue_def split: if_splits)
  from open_piece_good [OF assms(1,2) this, of ?st] have "list_good ?s1" "num_pieces ?s1 = num_pieces s" "tally ?s1 = tally s"
    using relisted_num relisted_tally by (auto simp: relisted_def)
  then have "list_good ?s2" "num_pieces ?s2 = num_pieces s" "tally ?s2 = tally s"
    using list_good_view [of "record_downloading_piece (fst b) ?s1" ?s1] list_view_eqD(1) [of "record_downloading_piece (fst b) ?s1" ?s1]
    by simp_all
  with add_download_piece_good [OF _ _ ad] assms(2)
  have g: "list_good s3" "num_pieces s3 = num_pieces s" "tally s3 = tally s" "dindex (dl_at s3 dp) = fst b" by simp_all
  let ?s5 = "dl_modify dp (\<lambda>d. d\<lparr>requested := bits_inc 15 (requested d)\<rparr>)
    (set_block (dl_at s3 dp) (snd b) (\<lambda>_. \<lparr>bpeer = peer, num_peers_of = 1, bstate = state_requested\<rparr>) s3)"
  have "dindex (dl_at ?s5 dp) = fst b" using g by (simp add: dindex_dl_modify)
  then have "list_good (snd (update_piece_state dp ?s5)) \<and> num_pieces (snd (update_piece_state dp ?s5)) = num_pieces s
      \<and> tally (snd (update_piece_state dp ?s5)) = tally s"
    using finish_good [of ?s5 dp] g assms(2) by simp
  then show ?thesis using True g ad unfolding mark_as_downloading_def Let_def by simp
next
  case False
  show ?thesis
  proof (cases "dl_iter_of (fst b) s")
    case (Some it)
    note it = dl_iter_ofD [OF Some]
    let ?i = "fst b" and ?d = "dl_at s it" and ?st = "bstate (block_at s (dl_at s it) (snd b))"
    define s1 where "s1 = (if rvs \<and> \<not> is_reverse (piece_at s ?i) \<and> requested ?d = 0 then turn_piece ?i make_reverse s else s)"
    have "relisted (set_piece ?i make_reverse s) (turn_piece ?i make_reverse s)" if "requested ?d = 0"
      using turn_piece_good [OF assms(1,2)] full [OF Some that] by blast
    then have g1: "list_good s1" "num_pieces s1 = num_pieces s" "dl_at s1 it = ?d" "tally s1 = tally s"
      using assms(1) relisted_num relisted_tally same_pieces_dl by (auto simp: s1_def relisted_def dl_at_def set_piece_def tally_turn [unfolded set_piece_def])
    define s2 where "s2 = set_block ?d (snd b) (\<lambda>info. info\<lparr>bpeer := peer\<rparr>) s1"
    define s2' where "s2' = dl_modify it (\<lambda>d. d\<lparr>requested := bits_inc 15 (requested d)\<rparr>)
      (set_block ?d (snd b) (\<lambda>info. info\<lparr>bstate := state_requested\<rparr>) s2)"
    define s3 where "s3 = (if ?st \<noteq> state_requested then snd (update_piece_state it s2') else s2)"
    have "dindex (dl_at s2' it) = ?i" using it g1 by (simp add: s2'_def s2_def dindex_dl_modify)
    then have g3: "list_good s3" "num_pieces s3 = num_pieces s" "tally s3 = tally s"
      using finish_good [of s2' it] g1 assms(2) by (auto simp: s3_def s2'_def s2_def)
    define s4 where "s4 = set_block ?d (snd b) (\<lambda>info. info\<lparr>num_peers_of := bits_inc 14 (num_peers_of info)\<rparr>) s3"
    have g4: "list_good s4" "num_pieces s4 = num_pieces s" "tally s4 = tally s" using g3 by (simp_all add: s4_def)
    have "relisted (set_piece ?i unreverse s4) (turn_piece ?i unreverse s4)"
      using turn_piece_good [of s4 ?i unreverse] g4 assms(2) by simp
    then have "list_good (turn_piece ?i unreverse s4)" "num_pieces (turn_piece ?i unreverse s4) = num_pieces s"
      "tally (turn_piece ?i unreverse s4) = tally s"
      using relisted_num [of "set_piece ?i unreverse s4"] relisted_tally [of "set_piece ?i unreverse s4"] g4 by (auto simp: relisted_def tally_turn)
    moreover have "snd (mark_as_downloading b peer rvs aff s) = (if ?st = state_writing \<or> ?st = state_finished then s
        else if \<not> rvs \<and> is_reverse (piece_at s4 ?i) then turn_piece ?i unreverse s4 else s4)"
      using False Some unfolding mark_as_downloading_def Let_def s4_def s3_def s2'_def s2_def s1_def by simp
    ultimately show ?thesis using assms(1) g4 by simp
  qed (use False assms in \<open>simp add: mark_as_downloading_def Let_def\<close>)
qed

end
