(* ===== verification/Picker_Avail.thy ===== *)
theory Picker_Avail
  imports Picker_Order
begin

text \<open>
  Availability: how many peers have each piece, kept as one counter of seeds and one 26 bit counter per
  piece. The operations refine plain counting: whatever mix of the two counters and of direct and deferred
  updates of the list they use, \<open>get_availability\<close> changes by one exactly at the pieces meant.
\<close>

section \<open>The abstract counters\<close>

abbreviation peer_limit :: int where "peer_limit \<equiv> 2 ^ 26"

definition avail_ok :: "piece_picker \<Rightarrow> bool" where
  "avail_ok s \<longleftrightarrow> 0 \<le> m_seeds s \<and> (\<forall>a\<in>set (get_availability s). a < peer_limit)"

text \<open>What the abstract counters do: add \<open>d\<close> at the set bits.\<close>

definition count_bits :: "int \<Rightarrow> bool list \<Rightarrow> int list \<Rightarrow> int list" where
  "count_bits d bits as = map (\<lambda>i. if i < length bits \<and> bits ! i then as ! i + d else as ! i) [0..<length as]"

lemma length_availability [simp]: "length (get_availability s) = num_pieces s"
  by (simp add: get_availability_def)

lemma availability_nth: "i < num_pieces s \<Longrightarrow> get_availability s ! i = int (peer_count (piece_at s i)) + m_seeds s"
  by (simp add: get_availability_def)

lemma availability_eqI:
  "num_pieces s' = length as \<Longrightarrow> (\<And>x. x < length as \<Longrightarrow> int (peer_count (piece_at s' x)) + m_seeds s' = as ! x) \<Longrightarrow> get_availability s' = as"
  by (rule nth_equalityI) (simp_all add: availability_nth)

lemma availability_same:
  assumes "same_pieces s s'"
  shows "get_availability s' = get_availability s" and "m_seeds s' = m_seeds s"
proof -
  show "m_seeds s' = m_seeds s" using same_pieces_at(2) [OF assms] .
  then show "get_availability s' = get_availability s"
    using assms same_pieces_state(3) [OF assms] by (intro nth_equalityI) (simp_all add: availability_nth)
qed

lemma avail_okD:
  assumes "avail_ok s" and "i < num_pieces s"
  shows "int (peer_count (piece_at s i)) + m_seeds s < peer_limit" and "peer_count (piece_at s i) < 2 ^ 26"
proof -
  have "get_availability s ! i \<in> set (get_availability s)" using assms(2) by (intro nth_mem) simp
  then show *: "int (peer_count (piece_at s i)) + m_seeds s < peer_limit"
    using assms availability_nth [of i s] by (auto simp: avail_ok_def)
  then show "peer_count (piece_at s i) < 2 ^ 26" using assms(1) by (simp add: avail_ok_def)
qed

lemma avail_okI: "0 \<le> m_seeds s \<Longrightarrow> (\<And>i. i < num_pieces s \<Longrightarrow> int (peer_count (piece_at s i)) + m_seeds s < peer_limit) \<Longrightarrow> avail_ok s"
  by (auto simp: avail_ok_def get_availability_def in_set_conv_nth)

lemma avail_ok_update:
  assumes "avail_ok s" and "get_availability t = (get_availability s)[i := a]" and "a < peer_limit" and "0 \<le> m_seeds t"
  shows "avail_ok t"
proof -
  have "set (get_availability t) \<subseteq> insert a (set (get_availability s))" unfolding assms(2) by (rule set_update_subset_insert)
  with assms(1,3,4) show ?thesis by (auto simp: avail_ok_def)
qed

section \<open>One piece\<close>

lemma availability_set_piece:
  assumes "i < num_pieces s"
  shows "get_availability (set_piece i f s) = (get_availability s)[i := int (peer_count (f (piece_at s i))) + m_seeds s]"
  by (rule nth_equalityI) (use assms in \<open>auto simp: availability_nth set_piece_def nth_list_update\<close>)

lemma inc_counter:
  assumes "avail_ok s" and "i < num_pieces s" and "get_availability s ! i + 1 < peer_limit"
  shows "get_availability (set_piece i inc_peer_count s) = (get_availability s)[i := get_availability s ! i + 1]"
    and "avail_ok (set_piece i inc_peer_count s)"
proof -
  have pc: "peer_count (piece_at s i) + 1 < 2 ^ 26" using assms by (simp add: avail_ok_def availability_nth)
  then show eq: "get_availability (set_piece i inc_peer_count s) = (get_availability s)[i := get_availability s ! i + 1]"
    using assms(2) availability_set_piece [OF assms(2), of inc_peer_count] by (simp add: inc_peer_count_def availability_nth algebra_simps)
  show "avail_ok (set_piece i inc_peer_count s)"
    by (rule avail_ok_update [OF assms(1) eq]) (use assms(1,3) in \<open>simp_all add: set_piece_def avail_ok_def\<close>)
qed

lemma inc_refcount_avail:
  assumes "list_good s" and "i < num_pieces s" and "avail_ok s" and "get_availability s ! i + 1 < peer_limit"
  shows "get_availability (inc_refcount i s) = (get_availability s)[i := get_availability s ! i + 1]" and "avail_ok (inc_refcount i s)"
    and "m_dirty (inc_refcount i s) = m_dirty s"
proof -
  let ?s1 = "set_piece i inc_peer_count s"
  have ch: "piece_changed i inc_peer_count s ?s1"
    using assms good_prio by (intro piece_changed_set) (auto simp: inc_peer_count_def)
  have "relisted ?s1 (relist (prio_of s i) i ?s1)"
    by (rule relist_good [OF ch assms(1)]) (simp add: inc_peer_count_def)
  moreover have "inc_refcount i s = relist (prio_of s i) i ?s1" by (auto simp: inc_refcount_def relist_def Let_def)
  ultimately have sp: "same_pieces ?s1 (inc_refcount i s)" by (simp add: relisted_def)
  note same = availability_same [OF sp] and inc = inc_counter [OF assms(3,2,4)]
  show "get_availability (inc_refcount i s) = (get_availability s)[i := get_availability s ! i + 1]" using same inc by simp
  show "avail_ok (inc_refcount i s)" using same inc by (simp add: avail_ok_def)
  show "m_dirty (inc_refcount i s) = m_dirty s" using same_pieces_fields(1) [OF sp] by (simp add: set_piece_def)
qed

lemma break_one_seed_avail:
  assumes "avail_ok s" and "0 < m_seeds s"
  shows "get_availability (break_one_seed s) = get_availability s" and "avail_ok (break_one_seed s)"
proof -
  have "peer_count (inc_peer_count (piece_at s i)) = peer_count (piece_at s i) + 1" if "i < num_pieces s" for i
    using avail_okD(1) [OF assms(1) that] assms(2) by (simp add: inc_peer_count_def)
  then show eq: "get_availability (break_one_seed s) = get_availability s"
    by (intro availability_eqI) (simp_all add: break_one_seed_def availability_nth)
  show "avail_ok (break_one_seed s)" using assms unfolding avail_ok_def eq by (simp add: break_one_seed_def)
qed

text \<open>The first part of \<open>dec_refcount\<close>: a piece that is counted only through the seeds gets a counter of its own.\<close>

lemma broken_seed:
  assumes "avail_ok s" and "i < num_pieces s" and "0 < get_availability s ! i"
  defines "s1 \<equiv> (if peer_count (piece_at s i) = 0 then break_one_seed s else s)"
  shows "get_availability s1 = get_availability s" and "avail_ok s1" and "0 < peer_count (piece_at s1 i)" and "num_pieces s1 = num_pieces s"
proof -
  have "0 < m_seeds s" if "peer_count (piece_at s i) = 0" using assms that by (simp add: availability_nth)
  with break_one_seed_avail [OF assms(1)] assms
  show "get_availability s1 = get_availability s" "avail_ok s1" "num_pieces s1 = num_pieces s" by (simp_all add: s1_def break_one_seed_def)
  show "0 < peer_count (piece_at s1 i)" using assms(2) by (simp add: s1_def break_one_seed_def inc_peer_count_def bits_inc_def)
qed

lemma dec_counter_avail:
  assumes "avail_ok s" and "i < num_pieces s" and "0 < get_availability s ! i"
  shows "get_availability (dec_counter i s) = (get_availability s)[i := get_availability s ! i - 1]"
    and "avail_ok (dec_counter i s)"
proof -
  define s1 where "s1 = (if peer_count (piece_at s i) = 0 then break_one_seed s else s)"
  note b = broken_seed [OF assms, folded s1_def]
  have d: "dec_counter i s = set_piece i dec_peer_count s1" by (simp add: dec_counter_def s1_def)
  have "peer_count (piece_at s1 i) < 2 ^ 26" using avail_okD(2) [OF b(2)] assms(2) b(4) by simp
  with b(3) have "int (peer_count (dec_peer_count (piece_at s1 i))) + m_seeds s1 = get_availability s ! i - 1"
    using availability_nth [of i s1] b assms(2) by (simp add: dec_peer_count_def)
  then show eq: "get_availability (dec_counter i s) = (get_availability s)[i := get_availability s ! i - 1]"
    using availability_set_piece [of i s1 dec_peer_count] b assms(2) by (simp add: d)
  show "avail_ok (dec_counter i s)"
  proof (rule avail_ok_update)
    show "get_availability s ! i - 1 < peer_limit" using avail_okD(1) [OF assms(1,2)] availability_nth [OF assms(2)] by simp
    show "0 \<le> m_seeds (dec_counter i s)" using b(2) by (simp add: d set_piece_def avail_ok_def)
  qed (use assms(1) eq in simp_all)
qed

lemma dec_one_refcount: "dec_one i s = dec_refcount i s"
  by (auto simp: dec_one_def dec_refcount_def Let_def break_one_seed_def set_piece_def)

lemma dec_refcount_avail:
  assumes "list_good s" and "i < num_pieces s" and "avail_ok s" and "0 < get_availability s ! i"
  shows "get_availability (dec_refcount i s) = (get_availability s)[i := get_availability s ! i - 1]" and "avail_ok (dec_refcount i s)"
proof -
  have "same_pieces (dec_counter i s) (dec_refcount i s)"
    using dec_refcount_relisted [OF assms(1,2)] assms(3) by (simp add: relisted_def avail_ok_def)
  from availability_same [OF this] dec_counter_avail [OF assms(3,2,4)]
  show "get_availability (dec_refcount i s) = (get_availability s)[i := get_availability s ! i - 1]" "avail_ok (dec_refcount i s)"
    by (simp_all add: avail_ok_def)
qed

section \<open>Many pieces\<close>

text \<open>The pieces of the set bits of a bit field that starts at piece \<open>k\<close>.\<close>

definition set_bits_from :: "nat \<Rightarrow> bool list \<Rightarrow> nat list" where
  "set_bits_from k bits = map ((+) k) (filter ((!) bits) [0..<length bits])"

lemma set_bits_simps [simp]:
  "set_bits_from k [] = []" "set_bits_from k (b # bs) = (if b then k # set_bits_from (Suc k) bs else set_bits_from (Suc k) bs)"
proof -
  have "filter ((!) (b # bs)) [0..<length (b # bs)] = (if b then [0] else []) @ map Suc (filter ((!) bs) [0..<length bs])"
    by (simp add: upt_conv_Cons map_Suc_upt [symmetric] filter_map o_def del: upt_Suc)
  then show "set_bits_from k (b # bs) = (if b then k # set_bits_from (Suc k) bs else set_bits_from (Suc k) bs)"
    by (simp add: set_bits_from_def o_def)
qed (simp add: set_bits_from_def)

lemma set_set_bits: "set (set_bits_from 0 bits) = {i. i < length bits \<and> bits ! i}" "distinct (set_bits_from k bits)"
  by (auto simp: set_bits_from_def distinct_map)

text \<open>When the loop that collects the set bits ends below its limit, it collected them all.\<close>

lemma collect_bits_all:
  "collect_bits sz bits k acc num = (acc', num') \<Longrightarrow> num' < sz \<Longrightarrow> acc' = acc @ set_bits_from k bits"
  by (induction sz bits k acc num rule: collect_bits.induct) (auto simp: Let_def split: if_splits)

definition add_at :: "int \<Rightarrow> nat \<Rightarrow> int list \<Rightarrow> int list" where
  "add_at d i as = as[i := as ! i + d]"

lemma fold_add_at:
  "distinct is \<Longrightarrow> length (fold (add_at d) is as) = length as
     \<and> (\<forall>i<length as. fold (add_at d) is as ! i = (if i \<in> set is then as ! i + d else as ! i))"
proof (induction "is" arbitrary: as)
  case (Cons j js)
  have "as[j := x] ! i = as ! i" if "i \<in> set js" for i x using that Cons.prems by (metis distinct.simps(2) nth_list_update_neq)
  with Cons show ?case by (auto simp: add_at_def)
qed simp

lemma fold_count_bits: "fold (add_at d) (set_bits_from 0 bits) as = count_bits d bits as"
  using fold_add_at [OF set_set_bits(2) [of 0 bits], of d as]
  by (intro nth_equalityI) (auto simp: count_bits_def set_set_bits(1))

lemma count_bits_all: "length bits = length as \<Longrightarrow> \<forall>b\<in>set bits. b \<Longrightarrow> count_bits d bits as = map (\<lambda>a. a + d) as"
proof (rule nth_equalityI)
  assume bits: "length bits = length as" "\<forall>b\<in>set bits. b"
  fix i assume "i < length (count_bits d bits as)"
  then have i: "i < length as" by (simp add: count_bits_def)
  with bits have "bits ! i" by (metis nth_mem)
  with i bits(1) show "count_bits d bits as ! i = map (\<lambda>a. a + d) as ! i" by (simp add: count_bits_def)
qed (simp add: count_bits_def)

lemma count_bits_none: "\<not> (\<exists>b\<in>set bits. b) \<Longrightarrow> count_bits d bits as = as"
  by (rule nth_equalityI) (auto simp: count_bits_def in_set_conv_nth)

text \<open>An operation repeated over distinct pieces; \<open>ok\<close> is what each step needs of the counter it changes.\<close>

lemma fold_avail:
  assumes step: "\<And>s i. I s \<Longrightarrow> i < num_pieces s \<Longrightarrow> ok (get_availability s ! i) \<Longrightarrow>
      I (f i s) \<and> get_availability (f i s) = add_at d i (get_availability s)"
  shows "I s \<Longrightarrow> distinct is \<Longrightarrow> \<forall>i\<in>set is. i < num_pieces s \<and> ok (get_availability s ! i) \<Longrightarrow>
    I (fold f is s) \<and> get_availability (fold f is s) = fold (add_at d) is (get_availability s)"
proof (induction "is" arbitrary: s)
  case (Cons j js)
  have j: "I (f j s)" "get_availability (f j s) = add_at d j (get_availability s)" using step Cons.prems by auto
  have "num_pieces (f j s) = num_pieces s" using arg_cong [OF j(2), of length] by (simp add: add_at_def)
  moreover have "get_availability (f j s) ! i = get_availability s ! i" if "i \<in> set js" for i
  proof -
    have "i \<noteq> j" using that Cons.prems(2) by auto
    then show ?thesis by (simp add: j(2) add_at_def)
  qed
  ultimately show ?case using Cons.IH [OF j(1)] Cons.prems j by auto
qed simp

lemma fold_if_bits: "fold (\<lambda>i. if bits ! i then f i else id) [0..<length bits] s = fold f (set_bits_from 0 bits) s"
proof -
  have "fold (\<lambda>i. if P i then f i else id) is s = fold f (filter P is) s" for P :: "nat \<Rightarrow> bool" and "is"
    by (induction "is" arbitrary: s) auto
  moreover have "map ((+) 0) xs = xs" for xs :: "nat list" by (simp add: map_idI)
  ultimately show ?thesis by (simp add: set_bits_from_def)
qed

lemma prio_of_seeds:
  assumes "0 < m_seeds s" and "0 < m_seeds t" and "m_piece_map t = m_piece_map s"
  shows "prio_of t = prio_of s"
  using assms by (auto simp: prio_of_def priority_def fun_eq_iff)

lemma seeds_good:
  assumes "list_good s" and "0 < m_seeds s \<and> 0 < x \<or> b"
  shows "list_good (s\<lparr>m_seeds := x, m_dirty := m_dirty s \<or> b\<rparr>)"
proof (cases b)
  case True
  then show ?thesis using assms(1) by (simp add: list_good_def)
next
  case False
  let ?t = "s\<lparr>m_seeds := x\<rparr>"
  have pr: "prio_of ?t = prio_of s" using assms False by (intro prio_of_seeds) auto
  have "list_inv (prio_of s) ?t = list_inv (prio_of s) s" by (simp add: list_inv_def ranges_ok_def)
  then have "list_ok ?t = list_ok s" by (simp add: list_ok_def pr)
  moreover have "list_ok (?t\<lparr>m_dirty := m_dirty s\<rparr>) = list_ok ?t" by (rule list_ok_view) simp
  ultimately show ?thesis using assms(1) False by (simp add: list_good_def)
qed

lemma inc_refcount_all_avail:
  assumes "list_good s" and "avail_ok s" and "\<forall>a\<in>set (get_availability s). a + 1 < peer_limit"
  shows "list_good (inc_refcount_all s)" and "avail_ok (inc_refcount_all s)"
    and "get_availability (inc_refcount_all s) = map (\<lambda>a. a + 1) (get_availability s)"
    and "tally (inc_refcount_all s) = tally s"
proof -
  have eq: "inc_refcount_all s = s\<lparr>m_seeds := m_seeds s + 1, m_dirty := m_dirty s \<or> m_seeds s = 0\<rparr>"
    by (simp add: inc_refcount_all_def Let_def)
  show "list_good (inc_refcount_all s)"
    unfolding eq by (rule seeds_good) (use assms in \<open>auto simp: avail_ok_def\<close>)
  show av: "get_availability (inc_refcount_all s) = map (\<lambda>a. a + 1) (get_availability s)"
    by (simp add: eq get_availability_def)
  show "avail_ok (inc_refcount_all s)" using assms unfolding avail_ok_def av by (simp add: eq)
  show "tally (inc_refcount_all s) = tally s" by (simp add: eq tally_def)
qed

lemma dec_refcount_all_avail:
  assumes "list_good s" and "avail_ok s" and "\<forall>a\<in>set (get_availability s). 0 < a"
  shows "list_good (dec_refcount_all s)" and "avail_ok (dec_refcount_all s)"
    and "get_availability (dec_refcount_all s) = map (\<lambda>a. a - 1) (get_availability s)"
    and "tally (dec_refcount_all s) = tally s"
proof -
  have *: "list_good (dec_refcount_all s) \<and> 0 \<le> m_seeds (dec_refcount_all s) \<and> tally (dec_refcount_all s) = tally s
    \<and> get_availability (dec_refcount_all s) = map (\<lambda>a. a - 1) (get_availability s)"
  proof (cases "m_seeds s > 0")
    case True
    have eq: "dec_refcount_all s = s\<lparr>m_seeds := m_seeds s - 1, m_dirty := m_dirty s \<or> m_seeds s = 1\<rparr>"
      using True by (simp add: dec_refcount_all_def Let_def)
    have "list_good (dec_refcount_all s)" unfolding eq by (rule seeds_good [OF assms(1)]) (use True in linarith)
    then show ?thesis using True by (simp add: eq get_availability_def tally_def)
  next
    case False
    then have z: "m_seeds s = 0" using assms(2) by (simp add: avail_ok_def)
    let ?t = "s\<lparr>m_piece_map := map dec_peer_count (m_piece_map s), m_dirty := True\<rparr>"
    have eq: "dec_refcount_all s = ?t" using False by (simp add: dec_refcount_all_def)
    have "list_good ?t" by (rule list_good_dirty [OF _ _ _ assms(1)]) (simp_all add: dec_peer_count_def)
    moreover have "int (peer_count (dec_peer_count (piece_at s x))) = int (peer_count (piece_at s x)) - 1" if "x < num_pieces s" for x
    proof -
      have "0 < get_availability s ! x" using assms(3) that by simp
      then have "0 < peer_count (piece_at s x)" using that z by (simp add: availability_nth)
      then show ?thesis using avail_okD(2) [OF assms(2) that] by (simp add: dec_peer_count_def)
    qed
    then have "get_availability ?t = map (\<lambda>a. a - 1) (get_availability s)"
      by (intro availability_eqI) (simp_all add: availability_nth z)
    moreover have "tally ?t = tally s" using tally_map [of dec_peer_count s "m_seeds s"]
      by (simp add: dec_peer_count_def is_have_def filtered_def tally_def)
    ultimately show ?thesis using z by (simp add: eq)
  qed
  then show "list_good (dec_refcount_all s)" "tally (dec_refcount_all s) = tally s"
    "get_availability (dec_refcount_all s) = map (\<lambda>a. a - 1) (get_availability s)" by simp_all
  show "avail_ok (dec_refcount_all s)" using * assms(2) by (auto simp: avail_ok_def)
qed

text \<open>The invariant of the loops over many pieces.\<close>

definition counting :: "bool \<Rightarrow> piece_picker \<Rightarrow> piece_picker \<Rightarrow> bool" where
  "counting direct s0 s \<longleftrightarrow> avail_ok s \<and> num_pieces s = num_pieces s0 \<and> tally s = tally s0
     \<and> (\<forall>x<num_pieces s. piece_priority (piece_at s x) < priority_levels) \<and> (direct \<longrightarrow> list_good s)"

lemma counting_inc:
  assumes "counting False s0 s" and "i < num_pieces s" and "get_availability s ! i + 1 < peer_limit"
  shows "counting False s0 (set_piece i inc_peer_count s)
    \<and> get_availability (set_piece i inc_peer_count s) = add_at 1 i (get_availability s)"
proof -
  note c = assms(1) [unfolded counting_def]
  have "piece_priority (piece_at (set_piece i inc_peer_count s) x) < priority_levels" if "x < num_pieces s" for x
    using c that assms(2) by (cases "x = i") (auto simp: set_piece_def inc_peer_count_def)
  then show ?thesis
    using c inc_counter [of s i] assms(2,3) tally_peer_count(1) [of i s] by (simp add: counting_def add_at_def)
qed

lemma counting_dec:
  assumes "counting False s0 s" and "i < num_pieces s" and "0 < get_availability s ! i"
  shows "counting False s0 (dec_counter i s) \<and> get_availability (dec_counter i s) = add_at (-1) i (get_availability s)"
proof -
  note c = assms(1) [unfolded counting_def]
  define s1 where "s1 = (if peer_count (piece_at s i) = 0 then break_one_seed s else s)"
  have d: "dec_counter i s = set_piece i dec_peer_count s1" by (simp add: dec_counter_def s1_def)
  have "piece_priority (piece_at (dec_counter i s) x) < priority_levels" if "x < num_pieces s" for x
    using c that assms(2) by (cases "x = i") (auto simp: d s1_def set_piece_def dec_peer_count_def break_one_seed_def inc_peer_count_def)
  moreover have "tally (break_one_seed s) = tally s"
    using tally_map [of inc_peer_count s "m_seeds s - 1"] by (simp add: break_one_seed_def inc_peer_count_def is_have_def filtered_def)
  moreover have "num_pieces (dec_counter i s) = num_pieces s" by (simp add: d s1_def set_piece_def break_one_seed_def)
  ultimately show ?thesis
    using c dec_counter_avail [of s i] assms(2,3) by (simp add: counting_def add_at_def d s1_def)
qed

lemma counted_bits:
  assumes "counting False s0 s1" and "list_good s0"
  shows "list_good (if m_dirty s1 then s1 else s1\<lparr>m_dirty := True\<rparr>)"
    and "avail_ok (if m_dirty s1 then s1 else s1\<lparr>m_dirty := True\<rparr>)"
    and "tally (if m_dirty s1 then s1 else s1\<lparr>m_dirty := True\<rparr>) = tally s0"
    and "get_availability (if m_dirty s1 then s1 else s1\<lparr>m_dirty := True\<rparr>) = get_availability s1"
  using assms by (auto simp: counting_def list_good_def avail_ok_def get_availability_def)

lemma inc_one_refcount: "\<not> m_dirty s \<Longrightarrow> list_good s \<Longrightarrow> i < num_pieces s \<Longrightarrow> inc_one i s = inc_refcount i s"
  using prio_values [of s i] by (auto simp: inc_one_def inc_refcount_def Let_def set_piece_def)

section \<open>The bit field operations count\<close>

definition room :: "int \<Rightarrow> int \<Rightarrow> bool" where
  "room d a \<longleftrightarrow> (if d = 1 then a + 1 < peer_limit else 0 < a)"

definition bits_room :: "int \<Rightarrow> bool list \<Rightarrow> piece_picker \<Rightarrow> bool" where
  "bits_room d bits s \<longleftrightarrow> length bits \<le> num_pieces s
     \<and> (\<forall>i\<in>set (set_bits_from 0 bits). room d (get_availability s ! i))"

lemma direct_inc:
  assumes "list_good s \<and> avail_ok s \<and> \<not> m_dirty s \<and> tally s = tally s0" and "i < num_pieces s" and "room 1 (get_availability s ! i)"
  shows "(list_good (inc_one i s) \<and> avail_ok (inc_one i s) \<and> \<not> m_dirty (inc_one i s) \<and> tally (inc_one i s) = tally s0)
    \<and> get_availability (inc_one i s) = add_at 1 i (get_availability s)"
proof -
  have room: "get_availability s ! i + 1 < peer_limit" using assms(3) by (simp add: room_def)
  have eq: "inc_one i s = inc_refcount i s" using assms by (intro inc_one_refcount) auto
  have "list_good s" "avail_ok s" "\<not> m_dirty s" "tally s = tally s0" using assms(1) by auto
  with inc_refcount_avail [of s i] inc_refcount_good [of s i] assms(2) room show ?thesis
    unfolding eq by (simp add: add_at_def)
qed

lemma direct_dec:
  assumes "list_good s \<and> avail_ok s \<and> tally s = tally s0" and "i < num_pieces s" and "room (-1) (get_availability s ! i)"
  shows "(list_good (dec_one i s) \<and> avail_ok (dec_one i s) \<and> tally (dec_one i s) = tally s0)
    \<and> get_availability (dec_one i s) = add_at (-1) i (get_availability s)"
proof -
  have "list_good s" "avail_ok s" "0 \<le> m_seeds s" "0 < get_availability s ! i" "tally s = tally s0"
    using assms by (auto simp: room_def avail_ok_def)
  with dec_refcount_avail [of s i] dec_refcount_good [of s i] assms(2) show ?thesis
    unfolding dec_one_refcount by (simp add: add_at_def)
qed

lemma list_good_counting: "list_good s \<Longrightarrow> avail_ok s \<Longrightarrow> counting False s s"
  by (simp add: counting_def list_good_def)

lemma bits_roomD:
  assumes "bits_room d bits s"
  shows "\<forall>i\<in>set (set_bits_from 0 bits). i < num_pieces s \<and> room d (get_availability s ! i)"
  using assms set_set_bits(1) [of bits] by (auto simp: bits_room_def)

lemma bits_room_all:
  assumes "bits_room d bits s" and "\<forall>b\<in>set bits. b" and "length bits = num_pieces s"
  shows "\<forall>a\<in>set (get_availability s). room d a"
proof
  fix a assume "a \<in> set (get_availability s)"
  then obtain i where i: "i < num_pieces s" "a = get_availability s ! i" by (auto simp: in_set_conv_nth)
  then have "bits ! i" using assms(2,3) by (metis nth_mem)
  with i assms(3) have "i \<in> set (set_bits_from 0 bits)" by (simp add: set_set_bits(1))
  with bits_roomD [OF assms(1)] i show "room d a" by blast
qed

lemma inc_refcount_bits_avail:
  assumes "list_good s" and "avail_ok s" and "bits_room 1 bits s"
  shows "list_good (inc_refcount_bits bits s) \<and> avail_ok (inc_refcount_bits bits s) \<and> tally (inc_refcount_bits bits s) = tally s
    \<and> get_availability (inc_refcount_bits bits s) = count_bits 1 bits (get_availability s)"
proof -
  obtain inc num where col: "collect_bits (min 50 (length bits div 2)) bits 0 [] 0 = (inc, num)" by (rule prod.exhaust)
  let ?bs = "set_bits_from 0 bits" and ?slow = "fold (\<lambda>i. set_piece i inc_peer_count) (set_bits_from 0 bits) s"
  note room = bits_roomD [OF assms(3)] and d = set_set_bits(2) [of 0 bits]
  consider (none) "\<not> (\<exists>b\<in>set bits. b)" | (all) "\<exists>b\<in>set bits. b" "\<forall>b\<in>set bits. b" "length bits = num_pieces s"
    | (few) "\<exists>b\<in>set bits. b" "\<not> ((\<forall>b\<in>set bits. b) \<and> length bits = num_pieces s)" "\<not> m_dirty s" "num < min 50 (length bits div 2)"
    | (many) "\<exists>b\<in>set bits. b" "\<not> ((\<forall>b\<in>set bits. b) \<and> length bits = num_pieces s)" "\<not> (\<not> m_dirty s \<and> num < min 50 (length bits div 2))"
    by blast
  then show ?thesis
  proof cases
    case none
    have "inc_refcount_bits bits s = s" unfolding inc_refcount_bits_def using none by (rule if_P)
    then show ?thesis using assms none by (simp add: count_bits_none)
  next
    case all
    have "\<forall>a\<in>set (get_availability s). a + 1 < peer_limit" using bits_room_all [OF assms(3) all(2,3)] by (simp add: room_def)
    from inc_refcount_all_avail [OF assms(1,2) this] all show ?thesis
      by (auto simp: inc_refcount_bits_def count_bits_all)
  next
    case few
    have "inc = ?bs" using collect_bits_all [OF col few(4)] by simp
    then have eq: "inc_refcount_bits bits s = fold inc_one ?bs s" using few col by (auto simp: inc_refcount_bits_def Let_def)
    have "(list_good (fold inc_one ?bs s) \<and> avail_ok (fold inc_one ?bs s) \<and> \<not> m_dirty (fold inc_one ?bs s) \<and> tally (fold inc_one ?bs s) = tally s)
      \<and> get_availability (fold inc_one ?bs s) = fold (add_at 1) ?bs (get_availability s)"
      by (rule fold_avail [where ok = "room 1" and I = "\<lambda>t. list_good t \<and> avail_ok t \<and> \<not> m_dirty t \<and> tally t = tally s", OF direct_inc])
        (use assms few room d in auto)
    then show ?thesis unfolding eq fold_count_bits by blast
  next
    case many
    have eq: "inc_refcount_bits bits s = (if m_dirty ?slow then ?slow else ?slow\<lparr>m_dirty := True\<rparr>)"
      using many col by (auto simp: inc_refcount_bits_def Let_def fold_if_bits)
    have c: "counting False s ?slow \<and> get_availability ?slow = fold (add_at 1) ?bs (get_availability s)"
      by (rule fold_avail [where ok = "room 1" and I = "counting False s", OF counting_inc])
        (use room d list_good_counting [OF assms(1,2)] in \<open>auto simp: room_def\<close>)
    from counted_bits [OF conjunct1 [OF c] assms(1)] c show ?thesis unfolding eq fold_count_bits by simp
  qed
qed

lemma dec_refcount_bits_avail:
  assumes "list_good s" and "avail_ok s" and "bits_room (-1) bits s"
  shows "list_good (dec_refcount_bits bits s) \<and> avail_ok (dec_refcount_bits bits s) \<and> tally (dec_refcount_bits bits s) = tally s
    \<and> get_availability (dec_refcount_bits bits s) = count_bits (-1) bits (get_availability s)"
proof -
  obtain dec num where col: "collect_bits (min 50 (length bits div 2)) bits 0 [] 0 = (dec, num)" by (rule prod.exhaust)
  let ?bs = "set_bits_from 0 bits" and ?slow = "fold dec_counter (set_bits_from 0 bits) s"
  note room = bits_roomD [OF assms(3)] and d = set_set_bits(2) [of 0 bits]
  consider (none) "\<not> (\<exists>b\<in>set bits. b)" | (all) "\<exists>b\<in>set bits. b" "\<forall>b\<in>set bits. b" "length bits = num_pieces s"
    | (few) "\<exists>b\<in>set bits. b" "\<not> ((\<forall>b\<in>set bits. b) \<and> length bits = num_pieces s)" "\<not> m_dirty s" "num < min 50 (length bits div 2)"
    | (many) "\<exists>b\<in>set bits. b" "\<not> ((\<forall>b\<in>set bits. b) \<and> length bits = num_pieces s)" "\<not> (\<not> m_dirty s \<and> num < min 50 (length bits div 2))"
    by blast
  then show ?thesis
  proof cases
    case none
    have "dec_refcount_bits bits s = s" unfolding dec_refcount_bits_def using none by (rule if_P)
    then show ?thesis using assms none by (simp add: count_bits_none)
  next
    case all
    have "\<forall>a\<in>set (get_availability s). 0 < a" using bits_room_all [OF assms(3) all(2,3)] by (simp add: room_def)
    from dec_refcount_all_avail [OF assms(1,2) this] all show ?thesis
      by (auto simp: dec_refcount_bits_def count_bits_all)
  next
    case few
    have "dec = ?bs" using collect_bits_all [OF col few(4)] by simp
    then have eq: "dec_refcount_bits bits s = fold dec_one ?bs s" using few col by (auto simp: dec_refcount_bits_def Let_def)
    have "(list_good (fold dec_one ?bs s) \<and> avail_ok (fold dec_one ?bs s) \<and> tally (fold dec_one ?bs s) = tally s)
      \<and> get_availability (fold dec_one ?bs s) = fold (add_at (-1)) ?bs (get_availability s)"
      by (rule fold_avail [where ok = "room (-1)" and I = "\<lambda>t. list_good t \<and> avail_ok t \<and> tally t = tally s", OF direct_dec])
        (use assms few room d in auto)
    then show ?thesis unfolding eq fold_count_bits by blast
  next
    case many
    have eq: "dec_refcount_bits bits s = (if m_dirty ?slow then ?slow else ?slow\<lparr>m_dirty := True\<rparr>)"
      using many col by (auto simp: dec_refcount_bits_def Let_def fold_if_bits)
    have c: "counting False s ?slow \<and> get_availability ?slow = fold (add_at (-1)) ?bs (get_availability s)"
      by (rule fold_avail [where ok = "room (-1)" and I = "counting False s", OF counting_dec])
        (use room d list_good_counting [OF assms(1,2)] in \<open>auto simp: room_def\<close>)
    from counted_bits [OF conjunct1 [OF c] assms(1)] c show ?thesis unfolding eq fold_count_bits by simp
  qed
qed

section \<open>Peers come and go\<close>

text \<open>What the torrent tells the picker about its peers, and what it means for plain counters.\<close>

datatype peer_op = Inc_all | Dec_all | Inc_piece nat | Dec_piece nat | Inc_bits "bool list" | Dec_bits "bool list"

fun peer_step :: "peer_op \<Rightarrow> piece_picker \<Rightarrow> piece_picker" where
  "peer_step Inc_all s = inc_refcount_all s"
| "peer_step Dec_all s = dec_refcount_all s"
| "peer_step (Inc_piece i) s = inc_refcount i s"
| "peer_step (Dec_piece i) s = dec_refcount i s"
| "peer_step (Inc_bits bits) s = inc_refcount_bits bits s"
| "peer_step (Dec_bits bits) s = dec_refcount_bits bits s"

fun count_step :: "peer_op \<Rightarrow> int list \<Rightarrow> int list" where
  "count_step Inc_all as = map (\<lambda>a. a + 1) as"
| "count_step Dec_all as = map (\<lambda>a. a - 1) as"
| "count_step (Inc_piece i) as = as[i := as ! i + 1]"
| "count_step (Dec_piece i) as = as[i := as ! i - 1]"
| "count_step (Inc_bits bits) as = count_bits 1 bits as"
| "count_step (Dec_bits bits) as = count_bits (-1) bits as"

text \<open>No counter outgrows its 26 bits or drops below zero, and no bit field is longer than the torrent.\<close>

fun count_fits :: "peer_op \<Rightarrow> int list \<Rightarrow> bool" where
  "count_fits Inc_all as \<longleftrightarrow> list_all (room 1) as"
| "count_fits Dec_all as \<longleftrightarrow> list_all (room (-1)) as"
| "count_fits (Inc_piece i) as \<longleftrightarrow> i < length as \<and> room 1 (as ! i)"
| "count_fits (Dec_piece i) as \<longleftrightarrow> i < length as \<and> room (-1) (as ! i)"
| "count_fits (Inc_bits bits) as \<longleftrightarrow> length bits \<le> length as \<and> list_all (\<lambda>i. room 1 (as ! i)) (set_bits_from 0 bits)"
| "count_fits (Dec_bits bits) as \<longleftrightarrow> length bits \<le> length as \<and> list_all (\<lambda>i. room (-1) (as ! i)) (set_bits_from 0 bits)"

primrec counts_fit :: "peer_op list \<Rightarrow> int list \<Rightarrow> bool" where
  "counts_fit [] as \<longleftrightarrow> True"
| "counts_fit (op # ops) as \<longleftrightarrow> count_fits op as \<and> counts_fit ops (count_step op as)"

lemma peer_step_counts:
  assumes "list_good s" and "avail_ok s" and "count_fits op (get_availability s)"
  shows "list_good (peer_step op s) \<and> avail_ok (peer_step op s) \<and> get_availability (peer_step op s) = count_step op (get_availability s)"
proof -
  have seeds: "0 \<le> m_seeds s" using assms(2) by (simp add: avail_ok_def)
  show ?thesis
  proof (cases op)
    case (Inc_piece i)
    then have "i < num_pieces s" "get_availability s ! i + 1 < peer_limit" using assms(3) by (simp_all add: room_def)
    then show ?thesis using Inc_piece inc_refcount_avail [of s i] inc_refcount_good [of s i] assms(1,2) by simp
  next
    case (Dec_piece i)
    then have "i < num_pieces s" "0 < get_availability s ! i" using assms(3) by (simp_all add: room_def)
    then show ?thesis using Dec_piece dec_refcount_avail [of s i] dec_refcount_good [of s i] assms(1,2) seeds by simp
  next
    case (Inc_bits bits)
    then have "bits_room 1 bits s" using assms(3) by (simp add: bits_room_def list_all_iff)
    then show ?thesis using Inc_bits inc_refcount_bits_avail [OF assms(1,2)] by simp
  next
    case (Dec_bits bits)
    then have "bits_room (-1) bits s" using assms(3) by (simp add: bits_room_def list_all_iff)
    then show ?thesis using Dec_bits dec_refcount_bits_avail [OF assms(1,2)] by simp
  next
    case Inc_all
    then show ?thesis using inc_refcount_all_avail [OF assms(1,2)] assms(3) by (simp add: list_all_iff room_def)
  next
    case Dec_all
    then show ?thesis using dec_refcount_all_avail [OF assms(1,2)] assms(3) by (simp add: list_all_iff room_def)
  qed
qed

text \<open>
  C6: Availability is plain counting. Whatever sequence of peers comes, goes, gets and loses pieces, \<open>get_availability\<close> changes at
  exactly the pieces meant, by one, as separate counters would: whether an operation updates the list piece by piece,
  defers that to a rebuild, counts the peer as a seed, or has to break a seed up into counts of pieces because a piece is
  counted through the seeds only. The list stays in order throughout. No counter outgrows its 26 bits or drops below
  zero, as the code asserts.
\<close>

theorem availability_refines:
  assumes "list_good s" and "avail_ok s" and "counts_fit ops (get_availability s)"
  shows "get_availability (fold peer_step ops s) = fold count_step ops (get_availability s) \<and> list_good (fold peer_step ops s)"
  using assms
proof (induction ops arbitrary: s)
  case (Cons op ops)
  then have "count_fits op (get_availability s)" by simp
  with Cons peer_step_counts [OF Cons.prems(1,2)] show ?case by simp
qed simp

lemma sample_picker_avail: "get_availability sample_picker = [1, 1]" "avail_ok sample_picker"
  by (simp_all add: avail_ok_def get_availability_def sample_picker_def)

text \<open>There is one seed and another one comes; then two seeds lose the first piece and are broken up one after the other.\<close>

abbreviation sample_peers :: "peer_op list" where
  "sample_peers \<equiv> [Inc_all, Dec_bits [True, False], Dec_bits [True], Inc_bits [True, True], Dec_all]"

theorem availability_refines_witness:
  "m_seeds sample_picker = 1 \<and> get_availability sample_picker = [1, 1]
     \<and> get_availability (fold peer_step sample_peers sample_picker) = [0, 2] \<and> list_good (fold peer_step sample_peers sample_picker)"
proof -
  have fit: "counts_fit sample_peers (get_availability sample_picker)"
    by (simp add: sample_picker_avail(1) count_bits_def room_def upt_rec)
  have "fold count_step sample_peers (get_availability sample_picker) = [0, 2]"
    by (simp add: sample_picker_avail(1) count_bits_def upt_rec)
  with availability_refines [OF list_ok_good [OF sample_picker_ok] sample_picker_avail(2) fit]
  show ?thesis by (simp add: sample_picker_avail(1) del: fold.simps) (simp add: sample_picker_def)
qed

end
