(* ===== verification/Picker_Counters.thy ===== *)
theory Picker_Counters
  imports Picker_Order
begin

text \<open>
  The counters of pieces and pad blocks, and the two cursors, agree with the pieces: the part of
  \<open>piece_picker::check_invariant\<close> under \<open>TORRENT_EXPENSIVE_INVARIANT_CHECKS\<close>, kept by every operation.
\<close>

section \<open>Counters\<close>

text \<open>The sum of \<open>w\<close> over the pieces whose two flags, had and filtered, satisfy \<open>P\<close>.\<close>

definition tot :: "(bool \<Rightarrow> bool \<Rightarrow> bool) \<Rightarrow> (nat \<Rightarrow> int) \<Rightarrow> piece_picker \<Rightarrow> int" where
  "tot P w s = (\<Sum>i<num_pieces s. if P (is_have (piece_at s i)) (filtered (piece_at s i)) then w i else 0)"

abbreviation pads :: "piece_picker \<Rightarrow> nat \<Rightarrow> int" where
  "pads s i \<equiv> int (pad_blocks_in_piece s i)"

definition had :: "bool \<Rightarrow> bool \<Rightarrow> bool" where [simp]: "had h f \<longleftrightarrow> h"
definition unwanted :: "bool \<Rightarrow> bool \<Rightarrow> bool" where [simp]: "unwanted h f \<longleftrightarrow> f \<and> \<not> h"
definition had_unwanted :: "bool \<Rightarrow> bool \<Rightarrow> bool" where [simp]: "had_unwanted h f \<longleftrightarrow> h \<and> f"

definition counters_ok :: "piece_picker \<Rightarrow> bool" where
  "counters_ok s \<longleftrightarrow> m_num_have s = tot had (\<lambda>_. 1) s \<and> m_num_filtered s = tot unwanted (\<lambda>_. 1) s
     \<and> m_num_have_filtered s = tot had_unwanted (\<lambda>_. 1) s \<and> m_have_pad_blocks s = tot had (pads s) s
     \<and> m_filtered_pad_blocks s = tot unwanted (pads s) s \<and> m_have_filtered_pad_blocks s = tot had_unwanted (pads s) s"

lemma tally_eqD:
  assumes "tally s = tally t"
  shows "num_pieces s = num_pieces t" "m_pads_in_piece s = m_pads_in_piece t" "m_num_have s = m_num_have t"
    "m_num_filtered s = m_num_filtered t" "m_num_have_filtered s = m_num_have_filtered t"
    "m_have_pad_blocks s = m_have_pad_blocks t" "m_filtered_pad_blocks s = m_filtered_pad_blocks t"
    "m_have_filtered_pad_blocks s = m_have_filtered_pad_blocks t" "m_cursor s = m_cursor t"
    "m_reverse_cursor s = m_reverse_cursor t"
    "i < num_pieces t \<Longrightarrow> is_have (piece_at s i) = is_have (piece_at t i)"
    "i < num_pieces t \<Longrightarrow> filtered (piece_at s i) = filtered (piece_at t i)"
proof -
  have eq: "map (\<lambda>p. (is_have p, filtered p)) (m_piece_map s) = map (\<lambda>p. (is_have p, filtered p)) (m_piece_map t)"
    using assms by (simp add: tally_def)
  from map_eq_imp_length_eq [OF eq] show n: "num_pieces s = num_pieces t" .
  have "(is_have (piece_at s i), filtered (piece_at s i)) = (is_have (piece_at t i), filtered (piece_at t i))" if "i < num_pieces t"
    using arg_cong [OF eq, of "\<lambda>l. l ! i"] that n by simp
  then show "i < num_pieces t \<Longrightarrow> is_have (piece_at s i) = is_have (piece_at t i)"
    "i < num_pieces t \<Longrightarrow> filtered (piece_at s i) = filtered (piece_at t i)" by simp_all
qed (use assms in \<open>simp_all add: tally_def\<close>)

lemma tot_tally: "tally s = tally t \<Longrightarrow> tot P w s = tot P w t"
  unfolding tot_def using tally_eqD(1,11,12) [of s t] by (intro sum.cong) simp_all

lemma pads_tally: "tally s = tally t \<Longrightarrow> pads s = pads t"
  using tally_eqD(2) [of s t] by (simp add: pad_blocks_in_piece_def)

lemma counters_tally: "tally s = tally t \<Longrightarrow> counters_ok s = counters_ok t"
  using tally_eqD(3-8) [of s t] tot_tally [of s t] pads_tally [of s t] by (simp add: counters_ok_def)

text \<open>The effect of a change of one piece on a sum.\<close>

lemma tot_change:
  assumes "i < num_pieces s" and "num_pieces s' = num_pieces s"
    and "\<And>j. j < num_pieces s \<Longrightarrow> j \<noteq> i \<Longrightarrow> is_have (piece_at s' j) = is_have (piece_at s j) \<and> filtered (piece_at s' j) = filtered (piece_at s j)"
    and "\<And>j. j < num_pieces s \<Longrightarrow> j \<noteq> i \<Longrightarrow> w' j = w j"
  shows "tot P w' s' = tot P w s - (if P (is_have (piece_at s i)) (filtered (piece_at s i)) then w i else 0)
    + (if P (is_have (piece_at s' i)) (filtered (piece_at s' i)) then w' i else 0)"
proof -
  have "(\<Sum>j\<in>{..<num_pieces s} - {i}. if P (is_have (piece_at s' j)) (filtered (piece_at s' j)) then w' j else 0)
    = (\<Sum>j\<in>{..<num_pieces s} - {i}. if P (is_have (piece_at s j)) (filtered (piece_at s j)) then w j else 0)"
    using assms(3,4) by (intro sum.cong) auto
  then show ?thesis
    using sum.remove [of "{..<num_pieces s}" i "\<lambda>j. if P (is_have (piece_at s j)) (filtered (piece_at s j)) then w j else 0"]
      sum.remove [of "{..<num_pieces s}" i "\<lambda>j. if P (is_have (piece_at s' j)) (filtered (piece_at s' j)) then w' j else 0"] assms(1,2)
    by (simp add: tot_def)
qed

section \<open>Cursors\<close>

text \<open>The cursors enclose the pieces still wanted.\<close>

definition cursors_for :: "nat set \<Rightarrow> nat \<Rightarrow> nat \<Rightarrow> nat \<Rightarrow> bool" where
  "cursors_for W n c r \<longleftrightarrow> (\<forall>i\<in>W. c \<le> i \<and> i < r) \<and> (if W = {} then c = n \<and> r = 0 else c \<in> W \<and> 0 < r \<and> r - 1 \<in> W)"

definition wanted :: "piece_picker \<Rightarrow> nat set" where
  "wanted s = {i. i < num_pieces s \<and> \<not> is_have (piece_at s i) \<and> \<not> filtered (piece_at s i)}"

definition cursors_ok :: "piece_picker \<Rightarrow> bool" where
  "cursors_ok s \<longleftrightarrow> cursors_for (wanted s) (num_pieces s) (m_cursor s) (m_reverse_cursor s)"

lemma wanted_tally: "tally s = tally t \<Longrightarrow> wanted s = wanted t"
  using tally_eqD(1,11,12) [of s t] by (auto simp: wanted_def)

lemma cursors_tally: "tally s = tally t \<Longrightarrow> cursors_ok s = cursors_ok t"
  using tally_eqD(1,9,10) [of s t] wanted_tally [of s t] by (simp add: cursors_ok_def)

lemma scan_cursor_spec:
  "c \<le> length ps \<Longrightarrow> c \<le> scan_cursor ps c \<and> scan_cursor ps c \<le> length ps
     \<and> (\<forall>i. c \<le> i \<and> i < scan_cursor ps c \<longrightarrow> is_have (ps ! i) \<or> filtered (ps ! i))
     \<and> (scan_cursor ps c < length ps \<longrightarrow> \<not> is_have (ps ! scan_cursor ps c) \<and> \<not> filtered (ps ! scan_cursor ps c))"
proof (induction ps c rule: scan_cursor.induct)
  case (1 ps c)
  show ?case
  proof (cases "c < length ps \<and> (is_have (ps ! c) \<or> filtered (ps ! c))")
    case True
    with 1 have IH: "Suc c \<le> scan_cursor ps (c + 1) \<and> scan_cursor ps (c + 1) \<le> length ps
     \<and> (\<forall>i. Suc c \<le> i \<and> i < scan_cursor ps (c + 1) \<longrightarrow> is_have (ps ! i) \<or> filtered (ps ! i))
     \<and> (scan_cursor ps (c + 1) < length ps \<longrightarrow> \<not> is_have (ps ! scan_cursor ps (c + 1)) \<and> \<not> filtered (ps ! scan_cursor ps (c + 1)))"
      by simp
    have eq: "scan_cursor ps c = scan_cursor ps (c + 1)" using True by (subst scan_cursor.simps) simp
    show ?thesis unfolding eq using IH True by (metis Suc_leD le_neq_implies_less Suc_leI)
  next
    case False
    then have eq: "scan_cursor ps c = c" by (subst scan_cursor.simps) auto
    show ?thesis unfolding eq using False 1 by auto
  qed
qed

lemma scan_reverse_cursor_spec:
  "scan_reverse_cursor ps c \<le> c \<and> (\<forall>i. scan_reverse_cursor ps c \<le> i \<and> i < c \<longrightarrow> is_have (ps ! i) \<or> filtered (ps ! i))
     \<and> (0 < scan_reverse_cursor ps c \<longrightarrow> \<not> is_have (ps ! (scan_reverse_cursor ps c - 1)) \<and> \<not> filtered (ps ! (scan_reverse_cursor ps c - 1)))"
  by (induction c) (auto simp: less_Suc_eq le_Suc_eq)

text \<open>The cursors of a map that was scanned from both ends, as in \<open>resize\<close>.\<close>

lemma scanned_cursors:
  "cursors_for {i. i < length ps \<and> \<not> is_have (ps ! i) \<and> \<not> filtered (ps ! i)} (length ps)
     (scan_cursor ps 0) (scan_reverse_cursor ps (length ps))"
proof -
  let ?W = "{i. i < length ps \<and> \<not> is_have (ps ! i) \<and> \<not> filtered (ps ! i)}" and ?c = "scan_cursor ps 0" and ?r = "scan_reverse_cursor ps (length ps)"
  note c = scan_cursor_spec [of 0 ps] and r = scan_reverse_cursor_spec [of ps "length ps"]
  have enc: "\<forall>i\<in>?W. ?c \<le> i \<and> i < ?r" using c r by (auto simp: not_less)
  show ?thesis
  proof (cases "?W = {}")
    case True
    have "?c = length ps" using c True by (metis (mono_tags, lifting) empty_Collect_eq le_neq_implies_less le0)
    moreover have "?r = 0" using r True by (metis (mono_tags, lifting) empty_Collect_eq diff_less less_le_trans neq0_conv zero_less_one)
    ultimately show ?thesis using True by (simp add: cursors_for_def)
  next
    case False
    then obtain i where i: "i \<in> ?W" by blast
    with enc have "?c < length ps" "0 < ?r" by auto
    with c r have "?c \<in> ?W" "?r - 1 \<in> ?W" by auto
    with enc False \<open>0 < ?r\<close> show ?thesis by (simp add: cursors_for_def)
  qed
qed

text \<open>
  \<open>have_cursors\<close> takes the piece \<open>i\<close> out. It never looks at \<open>i\<close> itself, so it does not matter if the
  piece map already shows the change.
\<close>

lemma have_cursors_for:
  assumes W: "cursors_for W (num_pieces s) (m_cursor s) (m_reverse_cursor s)" "W \<subseteq> {..<num_pieces s}" "i \<in> W"
    and agree: "\<And>j. j < num_pieces s \<Longrightarrow> j \<noteq> i \<Longrightarrow> (\<not> is_have (piece_at s j) \<and> \<not> filtered (piece_at s j)) = (j \<in> W)"
  shows "cursors_for (W - {i}) (num_pieces s) (m_cursor (have_cursors i s)) (m_reverse_cursor (have_cursors i s))"
proof -
  let ?c = "m_cursor s" and ?r = "m_reverse_cursor s" and ?n = "num_pieces s" and ?pm = "m_piece_map s"
  have "W \<noteq> {}" using W(3) by auto
  then have enc: "j \<in> W \<Longrightarrow> ?c \<le> j \<and> j < ?r" and ends: "?c \<in> W" "0 < ?r" "?r - 1 \<in> W" for j
    using W(1) by (auto simp: cursors_for_def)
  have in_n: "j \<in> W \<Longrightarrow> j < ?n" for j using W(2) by auto
  consider (one) "?c + 1 = ?r \<and> ?c = i" | (front) "?c = i" "?c + 1 \<noteq> ?r" | (rear) "?r = i + 1" "?c \<noteq> i" | (mid) "?c \<noteq> i" "?r \<noteq> i + 1"
    by blast
  then show ?thesis
  proof cases
    case one
    then have "W = {i}" using enc W(3) by force
    then show ?thesis using one by (simp add: cursors_for_def have_cursors_def)
  next
    case front
    let ?c' = "scan_cursor ?pm (?c + 1)"
    have last: "?r - 1 \<in> W - {i}" using ends front by auto
    have "?c + 1 \<le> length ?pm" using in_n [OF ends(1)] by simp
    note c' = scan_cursor_spec [OF this]
    have lt: "?c' \<le> j" if "j \<in> W - {i}" for j
      using c' agree [of j] that enc [of j] in_n [of j] front by (metis DiffD1 DiffD2 Suc_eq_plus1 Suc_leI insertI1 le_neq_implies_less not_less)
    have "?c' < ?n" using lt [OF last] in_n [of "?r - 1"] ends(3) by linarith
    then have "?c' \<in> W - {i}" using c' agree [of ?c'] front by force
    then show ?thesis using lt last enc ends(2) front by (auto simp: cursors_for_def have_cursors_def)
  next
    case rear
    let ?r' = "scan_reverse_cursor ?pm (?r - 1)"
    have first: "?c \<in> W - {i}" using ends rear by auto
    note r' = scan_reverse_cursor_spec [of ?pm "?r - 1"]
    have lt: "j < ?r'" if "j \<in> W - {i}" for j
    proof (rule ccontr)
      assume "\<not> j < ?r'"
      moreover have "j < ?r - 1" using enc [of j] that rear by auto
      ultimately have "is_have (?pm ! j) \<or> filtered (?pm ! j)" using r' by auto
      with agree [of j] that in_n [of j] show False by auto
    qed
    have "0 < ?r'" using lt [OF first] by linarith
    moreover have "?r' - 1 < ?n" "?r' - 1 \<noteq> i" using r' \<open>0 < ?r'\<close> in_n [OF ends(3)] rear by linarith+
    ultimately have "?r' - 1 \<in> W - {i}" using r' agree [of "?r' - 1"] by auto
    then show ?thesis using lt first enc \<open>0 < ?r'\<close> rear by (auto simp: cursors_for_def have_cursors_def)
  next
    case mid
    then have "?c \<in> W - {i}" "?r - 1 \<in> W - {i}" using ends by auto
    then show ?thesis using mid enc ends(2) by (auto simp: cursors_for_def have_cursors_def)
  qed
qed

lemma widen_cursors_for:
  assumes W: "cursors_for W (num_pieces s) (m_cursor s) (m_reverse_cursor s)" "W \<subseteq> {..<num_pieces s}" and i: "i < num_pieces s"
  shows "cursors_for (insert i W) (num_pieces s) (m_cursor (widen_cursors i s)) (m_reverse_cursor (widen_cursors i s))"
proof (cases "W = {}")
  case True
  then show ?thesis using W(1) i by (auto simp: cursors_for_def widen_cursors_def Let_def)
next
  case False
  then have ends: "m_cursor s \<in> W" "0 < m_reverse_cursor s" "m_reverse_cursor s - 1 \<in> W" and enc: "\<forall>j\<in>W. m_cursor s \<le> j \<and> j < m_reverse_cursor s"
    using W(1) by (simp_all add: cursors_for_def)
  then have "m_cursor s < m_reverse_cursor s" by blast
  with ends enc show ?thesis by (auto simp: cursors_for_def widen_cursors_def Let_def)
qed

lemma have_cursors_out:
  assumes "cursors_for W (num_pieces s) (m_cursor s) (m_reverse_cursor s)" and "i \<notin> W" and "i < num_pieces s"
  shows "have_cursors i s = s"
proof -
  have "m_cursor s \<noteq> i" using assms by (auto simp: cursors_for_def split: if_splits)
  moreover have "m_reverse_cursor s \<noteq> i + 1" using assms by (auto simp: cursors_for_def split: if_splits)
  ultimately show ?thesis by (simp add: have_cursors_def)
qed

lemma counters_ok_cursors [simp]:
  "counters_ok (s\<lparr>m_cursor := c\<rparr>) = counters_ok s" "counters_ok (s\<lparr>m_reverse_cursor := c\<rparr>) = counters_ok s"
  by (simp_all add: counters_ok_def tot_def pad_blocks_in_piece_def)

lemma cursor_frame [simp]:
  "m_piece_map (have_cursors i s) = m_piece_map s" "m_piece_map (widen_cursors i s) = m_piece_map s"
  "counters_ok (have_cursors i s) = counters_ok s" "counters_ok (widen_cursors i s) = counters_ok s"
  by (simp_all add: have_cursors_def widen_cursors_def Let_def)

lemma wanted_bound: "wanted s \<subseteq> {..<num_pieces s}"
  by (auto simp: wanted_def)

section \<open>The operations keep both\<close>

definition tallied :: "piece_picker \<Rightarrow> bool" where
  "tallied s \<longleftrightarrow> counters_ok s \<and> cursors_ok s"

lemma tallied_tally: "tally s = tally t \<Longrightarrow> tallied s = tallied t"
  using counters_tally [of s t] cursors_tally [of s t] by (simp add: tallied_def)

lemma have_erase_tally [simp]: "tally (have_erase i s) = tally s"
  by (simp add: have_erase_def split: option.split)

lemma have_count_tallied:
  assumes "counters_ok s" and "i < num_pieces s" and "\<not> is_have (piece_at s i)"
  shows "counters_ok (have_count i s)" and "wanted (have_count i s) = wanted s - {i}"
proof -
  let ?s = "have_count i s" and ?f = "filtered (piece_at s i)"
  have n: "num_pieces ?s = num_pieces s" and oth: "j \<noteq> i \<Longrightarrow> piece_at ?s j = piece_at s j" and at: "piece_at ?s i = set_have (piece_at s i)" for j
    using assms(2) by (simp_all add: have_count_def Let_def set_piece_def)
  have fl: "is_have (piece_at ?s i)" "filtered (piece_at ?s i) = ?f" by (simp_all add: at set_have_def is_have_def filtered_def)
  have pd: "pads ?s = pads s" by (simp add: have_count_def Let_def set_piece_def pad_blocks_in_piece_def)
  have chg: "tot P w ?s = tot P w s - (if P False ?f then w i else 0) + (if P True ?f then w i else 0)" for P w
    using tot_change [OF assms(2) n, of w w P] oth fl assms(3) by simp
  have fields: "m_num_have ?s = m_num_have s + 1" "m_num_filtered ?s = m_num_filtered s - (if ?f then 1 else 0)"
    "m_num_have_filtered ?s = m_num_have_filtered s + (if ?f then 1 else 0)" "m_have_pad_blocks ?s = m_have_pad_blocks s + pads s i"
    "m_filtered_pad_blocks ?s = m_filtered_pad_blocks s - (if ?f then pads s i else 0)"
    "m_have_filtered_pad_blocks ?s = m_have_filtered_pad_blocks s + (if ?f then pads s i else 0)"
    by (simp_all add: have_count_def Let_def set_piece_def)
  show "counters_ok ?s" using assms(1) unfolding counters_ok_def chg fields pd by simp
  have "(x \<in> wanted ?s) = (x \<in> wanted s - {i})" for x
    by (cases "x = i") (use n oth fl in \<open>auto simp: wanted_def\<close>)
  then show "wanted ?s = wanted s - {i}" by blast
qed

lemma have_count_cursors [simp]:
  "m_cursor (have_count i s) = m_cursor s" "m_reverse_cursor (have_count i s) = m_reverse_cursor s"
  by (simp_all add: have_count_def Let_def set_piece_def)

lemma num_have_count [simp]:
  "num_pieces (have_count i s) = num_pieces s" "j \<noteq> i \<Longrightarrow> piece_at (have_count i s) j = piece_at s j"
  by (simp_all add: have_count_def Let_def set_piece_def)

text \<open>The cursors when the piece \<open>i\<close> is no longer wanted.\<close>

lemma unwant_cursors:
  assumes "cursors_for W (num_pieces s) (m_cursor s) (m_reverse_cursor s)" "W \<subseteq> {..<num_pieces s}" "i < num_pieces s"
    and "\<And>j. j < num_pieces s \<Longrightarrow> j \<noteq> i \<Longrightarrow> (\<not> is_have (piece_at s j) \<and> \<not> filtered (piece_at s j)) = (j \<in> W)"
  shows "cursors_for (W - {i}) (num_pieces s) (m_cursor (have_cursors i s)) (m_reverse_cursor (have_cursors i s))"
proof (cases "i \<in> W")
  case True
  then show ?thesis using have_cursors_for [OF assms(1,2) True] assms(4) by blast
next
  case False
  then have "W - {i} = W" by auto
  then show ?thesis using have_cursors_out [OF assms(1) False assms(3)] assms(1) by simp
qed

lemma we_have_tally:
  assumes "list_good s" and "i < num_pieces s" and "\<not> is_have (piece_at s i)"
  shows "tally (we_have i s) = tally (have_cursors i (have_count i (have_erase i s)))"
proof -
  let ?s4 = "have_cursors i (have_count i (have_erase i s))"
  obtain f where ch: "piece_changed i f s ?s4" and f: "is_have (f (piece_at s i))" by (rule we_have_changed [OF assms(1,2)])
  have neg: "prio_of ?s4 i = -1" using piece_changed_at(2) [OF ch] f by (intro have_prio) simp
  show ?thesis
  proof (cases "prio_of s i = -1 \<or> m_dirty s")
    case False
    then have "same_pieces ?s4 (remove (nat (prio_of s i)) (pindex (piece_at s i)) ?s4)"
      using changed_remove(2) [OF ch assms(1)] neg prio_values [OF assms(1,2)] by simp
    with False assms(3) tally_same show ?thesis by (auto simp: we_have_def Let_def)
  qed (use assms(3) in \<open>auto simp: we_have_def Let_def\<close>)
qed

lemma we_have_tallied:
  assumes "list_good s" and "i < num_pieces s" and "tallied s"
  shows "tallied (we_have i s)"
proof (cases "is_have (piece_at s i)")
  case False
  let ?e = "have_erase i s" and ?c = "have_count i (have_erase i s)" let ?s4 = "have_cursors i ?c"
  have e: "counters_ok ?e" "cursors_ok ?e" "num_pieces ?e = num_pieces s" "\<not> is_have (piece_at ?e i)"
    using assms False tallied_tally [of ?e s] tally_eqD(1,11) [of ?e s] by (auto simp: tallied_def)
  note c = have_count_tallied [OF e(1) _ e(4)]
  have "cursors_for (wanted ?e - {i}) (num_pieces ?c) (m_cursor ?s4) (m_reverse_cursor ?s4)"
  proof (rule unwant_cursors)
    show "(\<not> is_have (piece_at ?c j) \<and> \<not> filtered (piece_at ?c j)) = (j \<in> wanted ?e)" if "j < num_pieces ?c" "j \<noteq> i" for j
      using that by (simp add: wanted_def)
  qed (use e assms(2) wanted_bound [of ?e] in \<open>auto simp: cursors_ok_def\<close>)
  moreover have "wanted ?s4 = wanted ?e - {i}" using c(2) e(3) assms(2) by (simp add: wanted_def)
  ultimately have "tallied ?s4" using c(1) e(3) assms(2) by (simp add: tallied_def cursors_ok_def)
  then show ?thesis using tallied_tally [OF we_have_tally [OF assms(1,2) False]] by simp
qed (use assms in \<open>simp add: we_have_def\<close>)

text \<open>What \<open>we_have\<close> does to the pieces: it has exactly one more.\<close>

lemma we_have_flags:
  assumes "list_good s" and "i < num_pieces s" and "j < num_pieces s"
  shows "is_have (piece_at (we_have i s) j) = (j = i \<or> is_have (piece_at s j))"
    and "filtered (piece_at (we_have i s) j) = filtered (piece_at s j)"
proof -
  let ?e = "have_erase i s" and ?t = "have_cursors i (have_count i (have_erase i s))"
  have n: "num_pieces ?e = num_pieces s" using tally_eqD(1) [of ?e s] by simp
  have e: "is_have (piece_at ?e j) = is_have (piece_at s j)" "filtered (piece_at ?e j) = filtered (piece_at s j)"
    using tally_eqD(11,12) [of ?e s] assms(3) by simp_all
  have at: "piece_at ?t j = (if j = i then set_have (piece_at ?e j) else piece_at ?e j)"
    using assms(2) n by (simp add: have_count_def Let_def set_piece_def)
  have "is_have (piece_at (we_have i s) j) = (j = i \<or> is_have (piece_at s j)) \<and> filtered (piece_at (we_have i s) j) = filtered (piece_at s j)"
  proof (cases "is_have (piece_at s i)")
    case False
    note t = we_have_tally [OF assms(1,2) False]
    have "is_have (piece_at (we_have i s) j) = is_have (piece_at ?t j)" "filtered (piece_at (we_have i s) j) = filtered (piece_at ?t j)"
      using tally_eqD(11,12) [OF t, of j] assms(3) n by simp_all
    then show ?thesis using e unfolding at by (cases "j = i") (simp_all add: set_have_def is_have_def filtered_def)
  qed (auto simp: we_have_def)
  then show "is_have (piece_at (we_have i s) j) = (j = i \<or> is_have (piece_at s j))"
    "filtered (piece_at (we_have i s) j) = filtered (piece_at s j)" by simp_all
qed

lemma piece_passed_tallied:
  assumes "list_good s" and "i < num_pieces s" and "tallied s"
  shows "tallied (piece_passed i s)"
proof (cases "dl_iter_of i s")
  case (Some it)
  let ?s1 = "(dl_modify it (\<lambda>d. d\<lparr>passed_hash_check := True\<rparr>) s)\<lparr>m_num_passed := m_num_passed s + 1\<rparr>"
  have t1: "tallied ?s1" using assms(3) tallied_tally [of ?s1 s] by simp
  have "tallied (we_have i ?s1)" by (rule we_have_tallied) (use assms t1 in simp_all)
  with Some assms t1 show ?thesis by (simp add: piece_passed_def Let_def)
qed (use assms in \<open>simp add: piece_passed_def\<close>)

lemma we_dont_have_tallied:
  assumes "list_good s" and "i < num_pieces s" and "tallied s"
  shows "tallied (we_dont_have i s)"
proof (cases "is_have (piece_at s i)")
  case False
  then have "tally (we_dont_have i s) = tally s" by (simp add: we_dont_have_def split: option.split)
  then show ?thesis using tallied_tally assms(3) by blast
next
  case True
  let ?f = "filtered (piece_at s i)" and ?s1 = "s\<lparr>m_num_passed := m_num_passed s - 1\<rparr>"
  define s2 where "s2 = (if filtered (piece_at ?s1 i)
      then ?s1\<lparr>m_filtered_pad_blocks := m_filtered_pad_blocks ?s1 + pads s i, m_num_filtered := m_num_filtered ?s1 + 1,
               m_have_filtered_pad_blocks := m_have_filtered_pad_blocks ?s1 - pads s i,
               m_num_have_filtered := m_num_have_filtered ?s1 - 1\<rparr>
      else widen_cursors i ?s1)"
  define s3 where "s3 = set_piece i set_not_have
      (s2\<lparr>m_num_have := m_num_have s2 - 1, m_have_pad_blocks := m_have_pad_blocks s2 - pads s i\<rparr>)"
  have v2: "list_view s2 = list_view s" "m_dirty s2 = m_dirty s" by (simp_all add: s2_def)
  have pm2: "m_piece_map s2 = m_piece_map s" using list_view_eqD(1) [OF v2(1)] .
  have oth: "j \<noteq> i \<Longrightarrow> piece_at s3 j = piece_at s j" and n: "num_pieces s3 = num_pieces s" and at: "piece_at s3 i = set_not_have (piece_at s i)" for j
    using assms(2) by (simp_all add: s3_def set_piece_def pm2)
  have fl: "\<not> is_have (piece_at s3 i)" "filtered (piece_at s3 i) = ?f" by (simp_all add: at set_not_have_def is_have_def filtered_def)
  have pd: "pads s3 = pads s" by (simp add: s3_def s2_def set_piece_def pad_blocks_in_piece_def widen_cursors_def Let_def)
  have chg: "tot P w s3 = tot P w s - (if P True ?f then w i else 0) + (if P False ?f then w i else 0)" for P w
    using tot_change [OF assms(2) n, of w w P] oth fl True by simp
  have fields: "m_num_have s3 = m_num_have s - 1" "m_num_filtered s3 = m_num_filtered s + (if ?f then 1 else 0)"
    "m_num_have_filtered s3 = m_num_have_filtered s - (if ?f then 1 else 0)" "m_have_pad_blocks s3 = m_have_pad_blocks s - pads s i"
    "m_filtered_pad_blocks s3 = m_filtered_pad_blocks s + (if ?f then pads s i else 0)"
    "m_have_filtered_pad_blocks s3 = m_have_filtered_pad_blocks s - (if ?f then pads s i else 0)"
    by (simp_all add: s3_def s2_def set_piece_def widen_cursors_def Let_def)
  have "counters_ok s" using assms(3) by (simp add: tallied_def)
  then have c3: "counters_ok s3" unfolding counters_ok_def chg fields pd by simp
  have "(x \<in> wanted s3) = (x \<in> (if ?f then wanted s else insert i (wanted s)))" for x
    by (cases "x = i") (use n oth fl True assms(2) in \<open>auto simp: wanted_def\<close>)
  then have w3: "wanted s3 = (if ?f then wanted s else insert i (wanted s))" by blast
  have cur: "m_cursor s3 = m_cursor s2" "m_reverse_cursor s3 = m_reverse_cursor s2" by (simp_all add: s3_def set_piece_def)
  have "cursors_for (wanted s) (num_pieces s) (m_cursor s) (m_reverse_cursor s)" using assms(3) by (simp add: tallied_def cursors_ok_def)
  with widen_cursors_for [of "wanted s" ?s1 i] wanted_bound [of s] assms(2)
  have "cursors_ok s3" unfolding cursors_ok_def w3 n cur by (simp add: s2_def)
  with c3 have t3: "tallied s3" by (simp add: tallied_def)
  have "list_view s3 = list_view (set_piece i set_not_have s)" unfolding s3_def by (rule set_piece_view) (use v2 in simp)
  then have ch: "piece_changed i set_not_have s s3"
    using assms good_prio v2(2) by (simp add: piece_changed_def s3_def set_not_have_def)
  have res: "we_dont_have i s = (if m_dirty s3 then s3 else if prio_of s3 i \<ge> 0 then add i s3 else s3)"
    using True unfolding we_dont_have_def Let_def s3_def s2_def by simp
  have "m_dirty s3 = m_dirty s" using ch by (simp add: piece_changed_def)
  moreover have "tally (add i s3) = tally s3" if "\<not> m_dirty s" "0 \<le> prio_of s3 i"
    using tally_same [OF changed_add(2) [OF ch assms(1) that(1) _ that(2)]] have_prio [OF True] by simp
  ultimately show ?thesis unfolding res using t3 tallied_tally [of "add i s3" s3] by simp
qed

text \<open>The change of a piece's priority: the counters and cursors are changed first, then the piece.\<close>

lemma cursors_fields [simp]:
  "m_pads_in_piece (have_cursors i s) = m_pads_in_piece s" "m_pads_in_piece (widen_cursors i s) = m_pads_in_piece s"
  "m_num_have (have_cursors i s) = m_num_have s" "m_num_have (widen_cursors i s) = m_num_have s"
  "m_num_filtered (have_cursors i s) = m_num_filtered s" "m_num_filtered (widen_cursors i s) = m_num_filtered s"
  "m_num_have_filtered (have_cursors i s) = m_num_have_filtered s" "m_num_have_filtered (widen_cursors i s) = m_num_have_filtered s"
  "m_have_pad_blocks (have_cursors i s) = m_have_pad_blocks s" "m_have_pad_blocks (widen_cursors i s) = m_have_pad_blocks s"
  "m_filtered_pad_blocks (have_cursors i s) = m_filtered_pad_blocks s" "m_filtered_pad_blocks (widen_cursors i s) = m_filtered_pad_blocks s"
  "m_have_filtered_pad_blocks (have_cursors i s) = m_have_filtered_pad_blocks s"
  "m_have_filtered_pad_blocks (widen_cursors i s) = m_have_filtered_pad_blocks s"
  by (simp_all add: have_cursors_def widen_cursors_def Let_def)

lemma filter_count_fields:
  fixes i np s
  defines "h \<equiv> is_have (piece_at s i)" and "on \<equiv> np = 0 \<and> \<not> filtered (piece_at s i)" and "off \<equiv> np \<noteq> 0 \<and> filtered (piece_at s i)"
  shows "m_pads_in_piece (snd (filter_count i np s)) = m_pads_in_piece s"
    "m_num_have (snd (filter_count i np s)) = m_num_have s" "m_have_pad_blocks (snd (filter_count i np s)) = m_have_pad_blocks s"
    "m_num_filtered (snd (filter_count i np s)) = m_num_filtered s + (if on \<and> \<not> h then 1 else 0) - (if off \<and> \<not> h then 1 else 0)"
    "m_num_have_filtered (snd (filter_count i np s)) = m_num_have_filtered s + (if on \<and> h then 1 else 0) - (if off \<and> h then 1 else 0)"
    "m_filtered_pad_blocks (snd (filter_count i np s))
       = m_filtered_pad_blocks s + (if on \<and> \<not> h then pads s i else 0) - (if off \<and> \<not> h then pads s i else 0)"
    "m_have_filtered_pad_blocks (snd (filter_count i np s))
       = m_have_filtered_pad_blocks s + (if on \<and> h then pads s i else 0) - (if off \<and> h then pads s i else 0)"
  by (simp_all add: h_def on_def off_def filter_count_def filtered_def Let_def)

lemma filtered_count_tallied:
  assumes "i < num_pieces s" and "tallied s" and "np < priority_levels" and "filter_count i np s = (ret, s1)"
  shows "tallied (set_piece i (\<lambda>p. p\<lparr>piece_priority := np mod 2 ^ 3\<rparr>) s1)"
proof -
  let ?p = "piece_at s i" and ?s2 = "set_piece i (\<lambda>p. p\<lparr>piece_priority := np mod 2 ^ 3\<rparr>) s1"
  let ?h = "is_have ?p" and ?f = "filtered ?p"
  have pm1: "m_piece_map s1 = m_piece_map s" using list_view_eqD(1) [of s1 s] filter_count_view(1) [of i np s] assms(4) by simp
  have oth: "j \<noteq> i \<Longrightarrow> piece_at ?s2 j = piece_at s j" and n: "num_pieces ?s2 = num_pieces s" and at: "piece_at ?s2 i = ?p\<lparr>piece_priority := np\<rparr>" for j
    using assms(1,3) by (simp_all add: set_piece_def pm1)
  have fl: "is_have (piece_at ?s2 i) = ?h" "filtered (piece_at ?s2 i) = (np = 0)" by (simp_all only: at) (simp_all add: is_have_def filtered_def)
  note fc = filter_count_fields [of i np s, unfolded assms(4) snd_conv]
  have pd: "pads ?s2 = pads s" using fc(1) by (simp add: set_piece_def pad_blocks_in_piece_def)
  have chg: "tot P w ?s2 = tot P w s - (if P ?h ?f then w i else 0) + (if P ?h (np = 0) then w i else 0)" for P w
    using tot_change [OF assms(1) n, of w w P] oth fl by simp
  let ?on = "np = 0 \<and> \<not> ?f" and ?off = "np \<noteq> 0 \<and> ?f"
  have fields: "m_num_have ?s2 = m_num_have s" "m_have_pad_blocks ?s2 = m_have_pad_blocks s"
    "m_num_filtered ?s2 = m_num_filtered s + (if ?on \<and> \<not> ?h then 1 else 0) - (if ?off \<and> \<not> ?h then 1 else 0)"
    "m_num_have_filtered ?s2 = m_num_have_filtered s + (if ?on \<and> ?h then 1 else 0) - (if ?off \<and> ?h then 1 else 0)"
    "m_filtered_pad_blocks ?s2 = m_filtered_pad_blocks s + (if ?on \<and> \<not> ?h then pads s i else 0) - (if ?off \<and> \<not> ?h then pads s i else 0)"
    "m_have_filtered_pad_blocks ?s2 = m_have_filtered_pad_blocks s + (if ?on \<and> ?h then pads s i else 0) - (if ?off \<and> ?h then pads s i else 0)"
    using fc by (simp_all add: set_piece_def)
  have "counters_ok s" using assms(2) by (simp add: tallied_def)
  then have c2: "counters_ok ?s2" unfolding counters_ok_def chg fields pd by auto
  have "(x \<in> wanted ?s2) = (x \<in> (if ?h \<or> \<not> ?on \<and> \<not> ?off then wanted s else if ?on then wanted s - {i} else insert i (wanted s)))" for x
    by (cases "x = i") (use n oth fl assms(1) in \<open>auto simp: wanted_def\<close>)
  then have w2: "wanted ?s2 = (if ?h \<or> \<not> ?on \<and> \<not> ?off then wanted s else if ?on then wanted s - {i} else insert i (wanted s))" by blast
  have cur: "m_cursor ?s2 = m_cursor s1" "m_reverse_cursor ?s2 = m_reverse_cursor s1" by (simp_all add: set_piece_def)
  have old: "cursors_for (wanted s) (num_pieces s) (m_cursor s) (m_reverse_cursor s)" using assms(2) by (simp add: tallied_def cursors_ok_def)
  let ?a = "s\<lparr>m_filtered_pad_blocks := m_filtered_pad_blocks s + pads s i, m_num_filtered := m_num_filtered s + 1\<rparr>"
  let ?b = "s\<lparr>m_filtered_pad_blocks := m_filtered_pad_blocks s - pads s i, m_num_filtered := m_num_filtered s - 1\<rparr>"
  have agree: "(\<not> is_have (piece_at ?a j) \<and> \<not> filtered (piece_at ?a j)) = (j \<in> wanted s)" if "j < num_pieces ?a" "j \<noteq> i" for j
    using that by (simp add: wanted_def)
  have s1: "s1 = (if ?on then if ?h then s1 else have_cursors i ?a else if ?off then if ?h then s1 else widen_cursors i ?b else s)"
    and same: "?h \<Longrightarrow> m_cursor s1 = m_cursor s \<and> m_reverse_cursor s1 = m_reverse_cursor s"
    using assms(4) by (auto simp: filter_count_def filtered_def Let_def split: if_splits)
  have "cursors_ok ?s2" unfolding cursors_ok_def w2 n cur
  proof (cases ?h)
    case False
    then show "cursors_for (if ?h \<or> \<not> ?on \<and> \<not> ?off then wanted s else if ?on then wanted s - {i} else insert i (wanted s))
        (num_pieces s) (m_cursor s1) (m_reverse_cursor s1)"
      using old unwant_cursors [of "wanted s" ?a i] agree widen_cursors_for [of "wanted s" ?b i] wanted_bound [of s] assms(1)
      by (subst (1 2) s1) auto
  qed (use old same in simp)
  with c2 show ?thesis by (simp add: tallied_def)
qed

lemma set_piece_priority_tally:
  assumes "list_good s" and "i < num_pieces s" and "np \<noteq> piece_priority (piece_at s i)" and "filter_count i np s = (ret, s1)"
  shows "tally (snd (set_piece_priority i np s)) = tally (set_piece i (\<lambda>p. p\<lparr>piece_priority := np mod 2 ^ 3\<rparr>) s1)"
proof -
  let ?f = "\<lambda>p. p\<lparr>piece_priority := np mod 2 ^ 3\<rparr>"
  let ?s2 = "set_piece i ?f s1" let ?s3 = "relist (prio_of s i) i ?s2"
  have v: "list_view ?s2 = list_view (set_piece i ?f s)" "m_dirty ?s2 = m_dirty s"
    using filter_count_view [of i np s] assms(4) by (auto intro!: set_piece_view)
  have ch: "piece_changed i ?f s ?s2" using v assms(2) by (simp add: piece_changed_def)
  have r: "relisted ?s2 ?s3" by (rule relist_good [OF ch assms(1)]) simp
  have g3: "list_good ?s3" "num_pieces ?s3 = num_pieces s" "tally ?s3 = tally ?s2"
    using r relisted_num [OF r] piece_changed_at(1) [OF ch] relisted_tally [OF r] by (simp_all add: relisted_def)
  have "tally (snd (update_piece_state it ?s3)) = tally ?s2" if "dl_iter_of i ?s3 = Some it" for it
    using finish_good [of ?s3 it] dl_iter_ofD(1) [OF that] g3 assms(2) by simp
  with assms(3,4) g3 show ?thesis by (simp add: set_piece_priority_def Let_def split: option.split)
qed

lemma set_piece_priority_tallied:
  assumes "list_good s" and "i < num_pieces s" and "tallied s" and "np < priority_levels"
  shows "tallied (snd (set_piece_priority i np s))"
proof (cases "np = piece_priority (piece_at s i)")
  case False
  obtain ret s1 where fc: "filter_count i np s = (ret, s1)" by (rule prod.exhaust)
  show ?thesis
    using tallied_tally [OF set_piece_priority_tally [OF assms(1,2) False fc]] filtered_count_tallied [OF assms(2,3,4) fc] by simp
qed (use assms in \<open>simp add: set_piece_priority_def\<close>)

lemma set_piece_priority_flags:
  assumes "list_good s" and "i < num_pieces s" and "j < num_pieces s" and "np < priority_levels"
  shows "is_have (piece_at (snd (set_piece_priority i np s)) j) = is_have (piece_at s j)"
    and "filtered (piece_at (snd (set_piece_priority i np s)) j) = (if j = i then np = 0 else filtered (piece_at s j))"
proof -
  let ?t = "snd (set_piece_priority i np s)"
  have "is_have (piece_at ?t j) = is_have (piece_at s j) \<and> filtered (piece_at ?t j) = (if j = i then np = 0 else filtered (piece_at s j))"
  proof (cases "np = piece_priority (piece_at s i)")
    case True
    then show ?thesis by (simp add: set_piece_priority_def filtered_def)
  next
    case False
    obtain ret s1 where fc: "filter_count i np s = (ret, s1)" by (rule prod.exhaust)
    have pm: "m_piece_map s1 = m_piece_map s" using list_view_eqD(1) [of s1 s] filter_count_view(1) [of i np s] fc by simp
    note t = set_piece_priority_tally [OF assms(1,2) False fc]
    show ?thesis using tally_eqD(11,12) [OF t, of j] assms pm by (auto simp: set_piece_def is_have_def filtered_def nth_list_update)
  qed
  then show "is_have (piece_at ?t j) = is_have (piece_at s j)"
    "filtered (piece_at ?t j) = (if j = i then np = 0 else filtered (piece_at s j))" by simp_all
qed

lemma mark_as_finished_tallied:
  assumes "list_good s" and "fst b < num_pieces s" and "tallied s"
  shows "tallied (mark_as_finished b peer s)"
proof (cases "download_queue (piece_at s (fst b)) = piece_open")
  case True
  obtain dp s2 where ad: "add_download_piece (fst b) (open_piece (fst b) piece_downloading s) = (dp, s2)" by (rule prod.exhaust)
  have g: "list_good s2" "num_pieces s2 = num_pieces s" "tally s2 = tally s" "dindex (dl_at s2 dp) = fst b"
    using opened_download_good [OF assms(1,2) True ad] by auto
  let ?s4 = "dl_modify dp (\<lambda>d. d\<lparr>finished := bits_inc 15 (finished d)\<rparr>)
    (set_block (dl_at s2 dp) (snd b) (\<lambda>info. info\<lparr>bpeer := peer, bstate := state_finished\<rparr>) s2)"
  have "dindex (dl_at ?s4 dp) = fst b" using g by (simp add: dindex_dl_modify)
  then have "tally (snd (update_piece_state dp ?s4)) = tally s" using finish_good [of ?s4 dp] g assms(2) by simp
  with g(3) assms(3) tallied_tally [of s2 s] tallied_tally [of "snd (update_piece_state dp ?s4)" s]
  have "tallied s2" "tallied (snd (update_piece_state dp ?s4))" by simp_all
  with True assms(3) ad show ?thesis by (simp add: mark_as_finished_def Let_def)
next
  case False
  show ?thesis
  proof (cases "dl_iter_of (fst b) s")
    case (Some it)
    note it = dl_iter_ofD [OF Some]
    let ?d = "dl_at s it" and ?st = "bstate (block_at s (dl_at s it) (snd b))"
    let ?s1 = "if ?st \<noteq> state_writing \<or> peer \<noteq> None
      then set_block ?d (snd b) (\<lambda>info. info\<lparr>bpeer := peer\<rparr>) s else s"
    let ?s2 = "dl_modify it (\<lambda>d. d\<lparr>finished := bits_inc 15 (finished d)\<rparr>) ?s1"
    let ?s3 = "if ?st = state_writing then dl_modify it (\<lambda>d. d\<lparr>writing := bits_dec 15 (writing d)\<rparr>) ?s2 else ?s2"
    let ?s4 = "set_block ?d (snd b) (\<lambda>info. info\<lparr>bstate := state_finished\<rparr>) ?s3"
    obtain it' s5 where up: "update_piece_state it ?s4 = (it', s5)" by (rule prod.exhaust)
    have "dindex (dl_at ?s4 it) = fst b" using it by (simp add: dindex_dl_modify)
    with update_piece_state_good [OF _ _ up] assms
    have g5: "list_good s5" "num_pieces s5 = num_pieces s" "tally s5 = tally s" "dindex (dl_at s5 it') = fst b" by simp_all
    have t5: "tallied s5" using tallied_tally [OF g5(3)] assms(3) by simp
    have "tallied (we_have (fst b) s5)" using we_have_tallied [of s5 "fst b"] g5 t5 assms(2) by simp
    moreover have "mark_as_finished b peer s = (if ?st = state_finished then s
        else if finished (dl_at s5 it') < blocks_in_piece s5 (fst b) then s5
        else if passed_hash_check (dl_at s5 it') then we_have (fst b) s5 else s5)"
      using False Some up g5(4) unfolding mark_as_finished_def Let_def by simp
    ultimately show ?thesis using assms(3) t5 by simp
  qed (use False assms in \<open>simp add: mark_as_finished_def Let_def\<close>)
qed

lemma pad_count_tallied:
  assumes "tallied s" and "fst b < num_pieces s" and "\<not> is_have (piece_at s (fst b))"
  shows "tallied (pad_count b s)"
proof -
  let ?s = "pad_count b s" and ?i = "fst b"
  have pm: "m_piece_map ?s = m_piece_map s" using list_view_eqD(1) [of ?s s] by simp
  have pd: "pads ?s j = pads s j + (if j = ?i then 1 else 0)" for j
    by (simp add: pad_count_def pad_blocks_in_piece_def Let_def split: option.split)
  have chg: "tot P (pads ?s) ?s = tot P (pads s) s + (if P False (filtered (piece_at s ?i)) then 1 else 0)" for P
    using tot_change [OF assms(2), of ?s "pads ?s" "pads s" P] pm pd assms(3) by simp
  have one: "tot P (\<lambda>_. 1) ?s = tot P (\<lambda>_. 1) s" for P by (simp add: tot_def pm)
  have fields: "m_num_have ?s = m_num_have s" "m_num_filtered ?s = m_num_filtered s" "m_num_have_filtered ?s = m_num_have_filtered s"
    "m_have_pad_blocks ?s = m_have_pad_blocks s" "m_have_filtered_pad_blocks ?s = m_have_filtered_pad_blocks s"
    "m_filtered_pad_blocks ?s = m_filtered_pad_blocks s + (if filtered (piece_at s ?i) then 1 else 0)"
    "m_cursor ?s = m_cursor s" "m_reverse_cursor ?s = m_reverse_cursor s"
    by (simp_all add: pad_count_def Let_def)
  have "counters_ok ?s" using assms(1) unfolding tallied_def counters_ok_def chg one fields by simp
  moreover have "cursors_ok ?s" using assms(1) by (simp add: tallied_def cursors_ok_def wanted_def pm fields)
  ultimately show ?thesis by (simp add: tallied_def)
qed

lemma mark_as_pad_tallied:
  assumes "list_good s" and "fst b < num_pieces s" and "tallied s" and "\<not> is_have (piece_at s (fst b))"
  shows "tallied (mark_as_pad b s)"
proof -
  have g: "list_good (pad_count b s)" "num_pieces (pad_count b s) = num_pieces s"
    using assms(1) list_good_view [of "pad_count b s" s] list_view_eqD(1) [of "pad_count b s" s] by simp_all
  have "tallied (pad_count b s)" by (rule pad_count_tallied [OF assms(3,2,4)])
  with we_have_tallied [of "pad_count b s" "fst b"] g assms(2) show ?thesis by (simp add: mark_as_pad_def Let_def)
qed

section \<open>What the picker reports\<close>

lemma tot_card: "tot P (\<lambda>_. 1) s = int (card {i. i < num_pieces s \<and> P (is_have (piece_at s i)) (filtered (piece_at s i))})"
proof -
  have "{i \<in> {..<num_pieces s}. P (is_have (piece_at s i)) (filtered (piece_at s i))}
    = {i. i < num_pieces s \<and> P (is_have (piece_at s i)) (filtered (piece_at s i))}" by auto
  then show ?thesis by (simp add: tot_def sum.If_cases Int_def)
qed

lemma card_split: "finite A \<Longrightarrow> card A = card {x\<in>A. P x} + card {x\<in>A. \<not> P x}"
  by (subst card_Un_disjoint [symmetric]) (auto intro: arg_cong [where f = card])

lemma reported_counts:
  assumes "counters_ok s"
  shows "num_want_left s = int (card (wanted s)) + int (card {i. i < num_pieces s \<and> is_have (piece_at s i) \<and> filtered (piece_at s i)})"
    and "pc_num_pieces (have_want s) = int (card {i. i < num_pieces s \<and> is_have (piece_at s i) \<and> \<not> filtered (piece_at s i)})"
    and "pc_num_pieces (want s) = int (card {i. i < num_pieces s \<and> \<not> filtered (piece_at s i)})"
    and "is_seeding s \<longleftrightarrow> (\<forall>i<num_pieces s. is_have (piece_at s i))"
proof -
  let ?A = "{..<num_pieces s}" let ?h = "\<lambda>i. is_have (piece_at s i)" and ?f = "\<lambda>i. filtered (piece_at s i)"
  have c: "m_num_have s = int (card {i\<in>?A. ?h i})" "m_num_filtered s = int (card {i\<in>?A. ?f i \<and> \<not> ?h i})"
    "m_num_have_filtered s = int (card {i\<in>?A. ?h i \<and> ?f i})"
    using assms by (simp_all add: counters_ok_def tot_card)
  have "card ?A = card {i\<in>?A. ?h i} + card {i\<in>?A. \<not> ?h i}" by (rule card_split) simp
  moreover have "card {i\<in>?A. \<not> ?h i} = card {i\<in>{i\<in>?A. \<not> ?h i}. ?f i} + card {i\<in>{i\<in>?A. \<not> ?h i}. \<not> ?f i}"
    by (rule card_split) simp
  moreover have "{i\<in>{i\<in>?A. \<not> ?h i}. ?f i} = {i\<in>?A. ?f i \<and> \<not> ?h i}" "{i\<in>{i\<in>?A. \<not> ?h i}. \<not> ?f i} = wanted s"
    by (auto simp: wanted_def)
  ultimately have total: "num_pieces s = card {i\<in>?A. ?h i} + (card {i\<in>?A. ?f i \<and> \<not> ?h i} + card (wanted s))" by simp
  show "num_want_left s = int (card (wanted s)) + int (card {i. i < num_pieces s \<and> ?h i \<and> ?f i})"
    using total c by (simp add: num_want_left_def)
  have "card {i\<in>?A. ?h i} = card {i\<in>{i\<in>?A. ?h i}. ?f i} + card {i\<in>{i\<in>?A. ?h i}. \<not> ?f i}" by (rule card_split) simp
  moreover have "{i\<in>{i\<in>?A. ?h i}. ?f i} = {i\<in>?A. ?h i \<and> ?f i}" "{i\<in>{i\<in>?A. ?h i}. \<not> ?f i} = {i\<in>?A. ?h i \<and> \<not> ?f i}" by auto
  ultimately have hsplit: "card {i\<in>?A. ?h i} = card {i\<in>?A. ?h i \<and> ?f i} + card {i\<in>?A. ?h i \<and> \<not> ?f i}" by simp
  then show "pc_num_pieces (have_want s) = int (card {i. i < num_pieces s \<and> ?h i \<and> \<not> ?f i})"
    using c by (simp add: have_want_def)
  have "wanted s \<union> {i\<in>?A. ?h i \<and> \<not> ?f i} = {i. i < num_pieces s \<and> \<not> ?f i}" "wanted s \<inter> {i\<in>?A. ?h i \<and> \<not> ?f i} = {}"
    by (auto simp: wanted_def)
  then have "card {i. i < num_pieces s \<and> \<not> ?f i} = card (wanted s) + card {i\<in>?A. ?h i \<and> \<not> ?f i}"
    using card_Un_disjoint [of "wanted s" "{i\<in>?A. ?h i \<and> \<not> ?f i}"] by (simp add: wanted_def)
  with total c hsplit show "pc_num_pieces (want s) = int (card {i. i < num_pieces s \<and> \<not> ?f i})"
    by (simp add: want_def)
  show "is_seeding s \<longleftrightarrow> (\<forall>i<num_pieces s. ?h i)"
  proof
    assume "is_seeding s"
    then have "card {i\<in>?A. ?h i} = card ?A" using c(1) by (simp add: is_seeding_def)
    then have "{i\<in>?A. ?h i} = ?A" by (intro card_subset_eq) auto
    then show "\<forall>i<num_pieces s. ?h i" by blast
  next
    assume "\<forall>i<num_pieces s. ?h i"
    then have "{i\<in>?A. ?h i} = ?A" by auto
    with c(1) show "is_seeding s" by (simp add: is_seeding_def)
  qed
qed

end
