(* ===== verification/Picker_Rebuild.thy ===== *)
theory Picker_Rebuild
  imports Picker_Order
begin

text \<open>
  \<open>update_pieces\<close> of \<open>piece_picker.cpp\<close> rebuilds the list of pieces when it is dirty: it counts the pieces of
  each priority, turns the counts into boundaries, puts each piece into its range, shuffles the ranges
  and numbers the pieces. What comes out is right for the priorities, whatever the list was before.
\<close>

definition count_at :: "nat list \<Rightarrow> nat \<Rightarrow> nat" where
  "count_at c q = (if q < length c then c ! q else 0)"

lemma count_at_extend [simp]: "count_at (c @ replicate k 0) q = count_at c q"
  by (auto simp: count_at_def nth_append)

lemma count_at_update:
  "p < length c \<Longrightarrow> count_at (c[p := c ! p + 1]) q = count_at c q + (if q = p then 1 else 0)"
  by (auto simp: count_at_def)

abbreviation of_prio :: "int \<Rightarrow> nat \<Rightarrow> piece_pos \<Rightarrow> bool" where
  "of_prio seeds q p \<equiv> priority seeds p = int q"

lemma count_prios_spec:
  assumes "\<forall>p\<in>set ps. priority seeds p = -1 \<or> 0 \<le> priority seeds p" and "count_prios seeds ps c = (ps', b)"
  shows "length ps' = length ps \<and> length c \<le> length b
    \<and> (\<forall>x<length ps. ps' ! x = (if priority seeds (ps ! x) = -1 then ps ! x
         else (ps ! x)\<lparr>pindex := count_at c (nat (priority seeds (ps ! x)))
                + length (filter (of_prio seeds (nat (priority seeds (ps ! x)))) (take x ps))\<rparr>))
    \<and> (\<forall>q. count_at b q = count_at c q + length (filter (of_prio seeds q) ps))
    \<and> (\<forall>p\<in>set ps. priority seeds p < int (length b))"
  using assms
proof (induction ps arbitrary: c ps' b)
  case (Cons p ps)
  show ?case
  proof (cases "priority seeds p = -1")
    case True
    then obtain ps1 where r: "count_prios seeds ps c = (ps1, b)" "ps' = p # ps1" using Cons.prems(2) by (auto split: prod.splits)
    with Cons.IH [OF _ r(1)] Cons.prems(1) True show ?thesis by (auto simp: nth_Cons' take_Cons')
  next
    case False
    define q where "q = nat (priority seeds p)"
    have q: "priority seeds p = int q" using False Cons.prems(1) by (auto simp: q_def)
    define b1 where "b1 = c @ replicate (q + 1 - length c) 0"
    have len: "q < length b1" "length c \<le> length b1" by (simp_all add: b1_def)
    obtain ps1 where r: "count_prios seeds ps (b1[q := b1 ! q + 1]) = (ps1, b)" "ps' = p\<lparr>pindex := b1 ! q\<rparr> # ps1"
      using Cons.prems(2) False unfolding count_prios.simps Let_def q_def [symmetric] b1_def [symmetric]
      by (auto split: prod.splits)
    have ca: "count_at (b1[q := b1 ! q + 1]) j = count_at c j + (if j = q then 1 else 0)" for j
      using count_at_update [OF len(1), of j] by (simp add: b1_def)
    have b1q: "b1 ! q = count_at c q" using len(1) count_at_extend [of c "q + 1 - length c" q]
      by (simp add: count_at_def b1_def)
    note IH = Cons.IH [OF _ r(1), unfolded ca]
    have *: "length ps1 = length ps" "length b1 \<le> length b" "\<forall>p\<in>set ps. priority seeds p < int (length b)"
      using IH Cons.prems(1) by auto
    have "ps' ! x = (if priority seeds ((p # ps) ! x) = -1 then (p # ps) ! x
        else ((p # ps) ! x)\<lparr>pindex := count_at c (nat (priority seeds ((p # ps) ! x)))
              + length (filter (of_prio seeds (nat (priority seeds ((p # ps) ! x)))) (take x (p # ps)))\<rparr>)"
      if "x < length (p # ps)" for x
    proof (cases x)
      case 0
      then show ?thesis using r(2) q b1q by simp
    next
      case (Suc y)
      define j where "j = nat (priority seeds (ps ! y))"
      have "ps1 ! y = (if priority seeds (ps ! y) = -1 then ps ! y else (ps ! y)\<lparr>pindex :=
          count_at c j + (if j = q then 1 else 0) + length (filter (of_prio seeds j) (take y ps))\<rparr>)"
        using IH Cons.prems(1) that Suc by (simp add: j_def)
      moreover have "length (filter (of_prio seeds j) (take x (p # ps))) =
          (if j = q then 1 else 0) + length (filter (of_prio seeds j) (take y ps))" using Suc q by simp
      ultimately show ?thesis using Suc r(2) by (simp add: j_def [symmetric] add.assoc)
    qed
    moreover have "count_at b j = count_at c j + length (filter (of_prio seeds j) (p # ps))" for j
      using IH Cons.prems(1) q by simp
    moreover have "int q < int (length b)" using len(1) *(2) by simp
    ultimately show ?thesis using * r(2) len(2) q by auto
  qed
qed simp

lemma filter_rank: "P x \<Longrightarrow> x < n \<Longrightarrow> filter P [0..<n] ! length (filter P [0..<x]) = x \<and> length (filter P [0..<x]) < length (filter P [0..<n])"
proof -
  assume x: "P x" "x < n"
  then have "[0..<n] = [0..<x] @ x # [Suc x..<n]" by (metis add_0 le_add1 less_imp_add_positive less_imp_le_nat upt_add_eq_append upt_conv_Cons)
  then have "filter P [0..<n] = filter P [0..<x] @ x # filter P [Suc x..<n]" using x(1) by simp
  then show ?thesis by (simp add: nth_append)
qed

lemma concat_nth: "q < length bs \<Longrightarrow> r < length (bs ! q) \<Longrightarrow> concat bs ! (length (concat (take q bs)) + r) = bs ! q ! r
    \<and> length (concat (take q bs)) + r < length (concat bs)"
proof -
  assume q: "q < length bs" "r < length (bs ! q)"
  have "concat bs = concat (take q bs) @ bs ! q @ concat (drop (Suc q) bs)"
    by (metis append_assoc concat.simps(2) concat_append id_take_nth_drop q(1))
  with q(2) show ?thesis by (simp add: nth_append)
qed

text \<open>The pieces of each priority, in the order of their indices.\<close>

definition ranges_of :: "(nat \<Rightarrow> int) \<Rightarrow> nat \<Rightarrow> nat \<Rightarrow> nat list list" where
  "ranges_of pr n m = map (\<lambda>q. filter (\<lambda>x. pr x = int q) [0..<n]) [0..<m]"

lemma ranges_prio_upt: "(\<And>j x. x \<in> set (f j) \<Longrightarrow> pr x = int j) \<Longrightarrow> ranges_prio pr k (map f [k..<k + m])"
proof (induction m arbitrary: k)
  case (Suc m)
  have "[k..<k + Suc m] = k # [Suc k..<Suc k + m]" by (simp add: upt_conv_Cons)
  with Suc.IH [of "Suc k"] Suc.prems show ?case by (simp del: upt_Suc)
qed simp

lemma ranges_of_prio: "ranges_prio pr 0 (ranges_of pr n m)"
  using ranges_prio_upt [of "\<lambda>q. filter (\<lambda>x. pr x = int q) [0..<n]" pr 0 m] by (simp add: ranges_of_def)

lemma ranges_of_set: "set (concat (ranges_of pr n m)) = {x. x < n \<and> 0 \<le> pr x \<and> pr x < int m}"
proof -
  have "\<exists>q\<in>{0..<m}. pr x = int q" if "0 \<le> pr x" "pr x < int m" for x
    using that by (intro bexI [of _ "nat (pr x)"]) auto
  then show ?thesis by (auto simp: ranges_of_def)
qed

lemma ranges_prio_distinct: "ranges_prio pr k bs \<Longrightarrow> \<forall>b\<in>set bs. distinct b \<Longrightarrow> distinct (concat bs)"
proof (induction bs arbitrary: k)
  case (Cons b bs)
  have "set b \<inter> set (concat bs) = {}"
    using Cons.prems(1) ranges_prio_nonneg [of pr "Suc k" bs] by force
  with Cons show ?case by auto
qed simp

lemma ranges_of_distinct: "distinct (concat (ranges_of pr n m))"
  by (rule ranges_prio_distinct [OF ranges_of_prio]) (auto simp: ranges_of_def)

text \<open>The place of a piece: behind the ranges before its own, and the pieces of its priority before it.\<close>

definition place_of :: "(nat \<Rightarrow> int) \<Rightarrow> nat \<Rightarrow> nat \<Rightarrow> nat \<Rightarrow> nat" where
  "place_of pr n m x = length (concat (take (nat (pr x)) (ranges_of pr n m)))
     + length (filter (\<lambda>y. pr y = pr x) [0..<x])"

lemma place_of_nth:
  assumes "x < n" and "0 \<le> pr x" and "pr x < int m"
  shows "concat (ranges_of pr n m) ! place_of pr n m x = x \<and> place_of pr n m x < length (concat (ranges_of pr n m))"
proof -
  let ?q = "nat (pr x)" and ?P = "\<lambda>y. pr y = pr x"
  have q: "?q < m" "ranges_of pr n m ! ?q = filter ?P [0..<n]" using assms by (auto simp: ranges_of_def)
  note rank = filter_rank [of ?P x n, OF refl assms(1)]
  from concat_nth [of ?q "ranges_of pr n m" "length (filter ?P [0..<x])"] rank q show ?thesis
    by (simp add: place_of_def ranges_of_def)
qed

section \<open>Filling, shuffling, numbering\<close>

lemma length_fill [simp]: "length (fill_pieces seeds b ps k pcs) = length pcs"
  by (induction ps arbitrary: k pcs) (auto simp: Let_def)

text \<open>\<open>f\<close> is where the piece \<open>x\<close> goes.\<close>

lemma fill_pieces_at:
  assumes "\<And>j. j < length ps \<Longrightarrow> priority seeds (ps ! j) \<noteq> -1 \<Longrightarrow>
      priority_begin b (nat (priority seeds (ps ! j))) + pindex (ps ! j) = f (k + j) \<and> f (k + j) < length pcs"
    and "\<And>i j. i < length ps \<Longrightarrow> j < length ps \<Longrightarrow> priority seeds (ps ! i) \<noteq> -1 \<Longrightarrow> priority seeds (ps ! j) \<noteq> -1 \<Longrightarrow>
      f (k + i) = f (k + j) \<Longrightarrow> i = j"
  shows "(\<forall>j<length ps. priority seeds (ps ! j) \<noteq> -1 \<longrightarrow> fill_pieces seeds b ps k pcs ! f (k + j) = k + j)
    \<and> (\<forall>y. (\<forall>j<length ps. priority seeds (ps ! j) \<noteq> -1 \<longrightarrow> f (k + j) \<noteq> y) \<longrightarrow> fill_pieces seeds b ps k pcs ! y = pcs ! y)"
  using assms
proof (induction ps arbitrary: k pcs)
  case (Cons p ps)
  let ?pcs = "if priority seeds p = -1 then pcs else pcs[f k := k]"
  have step: "fill_pieces seeds b (p # ps) k pcs = fill_pieces seeds b ps (Suc k) ?pcs"
    using Cons.prems(1) [of 0] by (auto simp: Let_def)
  have IH: "(\<forall>j<length ps. priority seeds (ps ! j) \<noteq> -1 \<longrightarrow> fill_pieces seeds b ps (Suc k) ?pcs ! f (Suc k + j) = Suc k + j)
    \<and> (\<forall>y. (\<forall>j<length ps. priority seeds (ps ! j) \<noteq> -1 \<longrightarrow> f (Suc k + j) \<noteq> y) \<longrightarrow>
          fill_pieces seeds b ps (Suc k) ?pcs ! y = ?pcs ! y)"
  proof (rule Cons.IH)
    fix j assume "j < length ps" "priority seeds (ps ! j) \<noteq> -1"
    with Cons.prems(1) [of "Suc j"]
    show "priority_begin b (nat (priority seeds (ps ! j))) + pindex (ps ! j) = f (Suc k + j) \<and> f (Suc k + j) < length ?pcs"
      by simp
  next
    fix i j assume "i < length ps" "j < length ps" "priority seeds (ps ! i) \<noteq> -1" "priority seeds (ps ! j) \<noteq> -1"
      "f (Suc k + i) = f (Suc k + j)"
    with Cons.prems(2) [of "Suc i" "Suc j"] show "i = j" by simp
  qed
  have other: "f (Suc k + j) \<noteq> f k" if "j < length ps" "priority seeds (ps ! j) \<noteq> -1" "priority seeds p \<noteq> -1" for j
    using Cons.prems(2) [of "Suc j" 0] that by auto
  show ?case
  proof (intro conjI allI impI)
    fix j assume j: "j < length (p # ps)" "priority seeds ((p # ps) ! j) \<noteq> -1"
    show "fill_pieces seeds b (p # ps) k pcs ! f (k + j) = k + j"
    proof (cases j)
      case 0
      have "fill_pieces seeds b ps (Suc k) ?pcs ! f k = ?pcs ! f k"
        using IH other j 0 by auto
      then show ?thesis unfolding step using Cons.prems(1) [of 0] j 0 by simp
    next
      case (Suc j')
      then show ?thesis unfolding step using IH j by simp
    qed
  next
    fix y assume y: "\<forall>j<length (p # ps). priority seeds ((p # ps) ! j) \<noteq> -1 \<longrightarrow> f (k + j) \<noteq> y"
    have "fill_pieces seeds b ps (Suc k) ?pcs ! y = ?pcs ! y"
      using IH y by (auto simp: All_less_Suc2)
    then show "fill_pieces seeds b (p # ps) k pcs ! y = pcs ! y"
      unfolding step using spec [OF y, of 0] by auto
  qed
qed simp

lemma shuffle_range_perm:
  "k \<le> length B \<Longrightarrow> \<exists>B' g'. shuffle_range (length F) k (F @ B @ R) g = (F @ B' @ R, g') \<and> mset B' = mset B"
proof (induction k arbitrary: B g)
  case (Suc k)
  show ?case
  proof (cases "k = 0")
    case False
    let ?r = "g 0 mod (k + 1)"
    have r: "?r < length B" "k < length B" using Suc.prems mod_less_divisor [of "k + 1" "g 0"] by linarith+
    let ?B = "B[k := B ! ?r, ?r := B ! k]"
    have "(F @ B @ R)[length F + k := (F @ B @ R) ! (length F + ?r), length F + ?r := (F @ B @ R) ! (length F + k)] = F @ ?B @ R"
      using r by (simp add: nth_append list_update_append)
    then have "shuffle_range (length F) (Suc k) (F @ B @ R) g = shuffle_range (length F) k (F @ ?B @ R) (\<lambda>n. g (Suc n))"
      using False by (simp add: random_def)
    moreover have "mset ?B = mset B" using r by (metis mset_swap)
    ultimately show ?thesis using Suc.IH [of ?B "\<lambda>n. g (Suc n)"] r(2) by auto
  qed auto
qed simp

lemma shuffle_ranges_perm:
  "\<exists>rs' g'. shuffle_ranges (length F) (cumulate (length F) (map length rs)) (F @ concat rs) g = (F @ concat rs', g')
     \<and> list_all2 (\<lambda>a b. mset a = mset b) rs' rs"
proof (induction rs arbitrary: F g)
  case (Cons B rs)
  show ?case
  proof (cases "B = []")
    case True
    obtain rs' g' where "shuffle_ranges (length F) (cumulate (length F) (map length rs)) (F @ concat rs) g = (F @ concat rs', g')"
      "list_all2 (\<lambda>a b. mset a = mset b) rs' rs" using Cons.IH by blast
    then show ?thesis using True by (intro exI [of _ "[] # rs'"] exI [of _ g']) simp
  next
    case False
    obtain B' g1 where B': "shuffle_range (length F) (length B) (F @ B @ concat rs) g = (F @ B' @ concat rs, g1)" "mset B' = mset B"
      using shuffle_range_perm [of "length B" B F "concat rs" g] by blast
    have len: "length B' = length B" using B'(2) by (rule mset_eq_length)
    obtain rs' g' where "shuffle_ranges (length (F @ B')) (cumulate (length (F @ B')) (map length rs)) ((F @ B') @ concat rs) g1
        = ((F @ B') @ concat rs', g')" "list_all2 (\<lambda>a b. mset a = mset b) rs' rs" using Cons.IH by blast
    then show ?thesis using False B' len by (intro exI [of _ "B' # rs'"] exI [of _ g']) simp
  qed
qed simp

lemma number_pieces_idx:
  assumes "distinct xs" and "\<forall>x\<in>set xs. x < length pm"
  shows "idx_from (number_pieces k xs pm) k xs \<and> moved (set xs) pm (number_pieces k xs pm)"
  using assms
proof (induction xs arbitrary: k pm)
  case (Cons x xs)
  let ?pm = "pm[x := (pm ! x)\<lparr>pindex := k\<rparr>]"
  have IH: "idx_from (number_pieces (Suc k) xs ?pm) (Suc k) xs" "moved (set xs) ?pm (number_pieces (Suc k) xs ?pm)"
    using Cons by simp_all
  have "number_pieces (Suc k) xs ?pm ! x = ?pm ! x" using IH(2) Cons.prems by (auto simp: moved_def)
  moreover have "moved (set (x # xs)) pm (number_pieces (Suc k) xs ?pm)"
    by (rule moved_mono [OF moved_trans [OF moved_place [of x "{x}"] IH(2)]]) auto
  ultimately show ?case using IH(1) Cons.prems by simp
qed simp

section \<open>The rebuilt list\<close>

lemma filter_take_index:
  "x \<le> length xs \<Longrightarrow> length (filter P (take x xs)) = length (filter (\<lambda>i. P (xs ! i)) [0..<x])"
  by (induction x) (auto simp: take_Suc_conv_app_nth)

lemma filter_length_less: "x < n \<Longrightarrow> length (filter P [0..<x]) < Suc n"
  by (rule le_less_trans [OF length_filter_le]) simp

lemma counted:
  assumes vals: "\<And>x. x < num_pieces s \<Longrightarrow> prio_of s x = -1 \<or> 0 \<le> prio_of s x"
    and c: "count_prios (m_seeds s) (m_piece_map s) (replicate k 0) = (pm, b)" and n: "num_pieces s \<le> max_pieces"
  shows "b = map length (ranges_of (prio_of s) (num_pieces s) (length b))"
    and "\<And>x. x < num_pieces s \<Longrightarrow> prio_of s x < int (length b)"
    and "moved {x. x < num_pieces s \<and> prio_of s x \<noteq> -1} (m_piece_map s) pm"
    and "\<And>x. x < num_pieces s \<Longrightarrow> priority (m_seeds s) (pm ! x) = prio_of s x"
    and "\<And>x. x < num_pieces s \<Longrightarrow> prio_of s x \<noteq> -1 \<Longrightarrow> pindex (pm ! x) = length (filter (\<lambda>y. prio_of s y = prio_of s x) [0..<x])"
proof -
  have zero: "count_at (replicate k 0) q = 0" for q by (simp add: count_at_def)
  have "\<forall>p\<in>set (m_piece_map s). priority (m_seeds s) p = -1 \<or> 0 \<le> priority (m_seeds s) p"
    using vals unfolding prio_of_def by (metis in_set_conv_nth)
  note spec = count_prios_spec [OF this c, unfolded zero, simplified]
  have rank: "length (filter (of_prio (m_seeds s) q) (take x (m_piece_map s))) = length (filter (\<lambda>y. prio_of s y = int q) [0..<x])"
    if "x \<le> num_pieces s" for q x using filter_take_index [OF that] by (simp add: prio_of_def)
  have cnt: "count_at b q = length (filter (\<lambda>y. prio_of s y = int q) [0..<num_pieces s])" for q
    using spec rank [of "num_pieces s" q] by simp
  have "b ! q = length (filter (\<lambda>y. prio_of s y = int q) [0..<num_pieces s])" if "q < length b" for q
    using cnt [of q] that by (simp add: count_at_def)
  then show "b = map length (ranges_of (prio_of s) (num_pieces s) (length b))"
    by (intro nth_equalityI) (simp_all add: ranges_of_def)
  have at: "pm ! x = (if prio_of s x = -1 then piece_at s x
      else (piece_at s x)\<lparr>pindex := length (filter (\<lambda>y. prio_of s y = prio_of s x) [0..<x])\<rparr>)" if "x < num_pieces s" for x
    using spec that rank [of x "nat (prio_of s x)"] vals [OF that] by (auto simp: prio_of_def)
  have len: "length pm = num_pieces s" using spec by simp
  show "prio_of s x < int (length b)" if "x < num_pieces s" for x
  proof (rule ccontr)
    assume big: "\<not> prio_of s x < int (length b)"
    then have "\<not> nat (prio_of s x) < length b" by linarith
    then have "count_at b (nat (prio_of s x)) = 0" by (simp add: count_at_def)
    then have "\<forall>y<num_pieces s. prio_of s y \<noteq> int (nat (prio_of s x))" using cnt by (auto simp: filter_empty_conv)
    with that big show False by (metis int_nat_eq linorder_not_less of_nat_0_le_iff order_trans)
  qed
  show "moved {x. x < num_pieces s \<and> prio_of s x \<noteq> -1} (m_piece_map s) pm"
    unfolding moved_def using at len by simp
  show "pindex (pm ! x) = length (filter (\<lambda>y. prio_of s y = prio_of s x) [0..<x])"
    if "x < num_pieces s" "prio_of s x \<noteq> -1" for x using at that by simp
  show "priority (m_seeds s) (pm ! x) = prio_of s x" if x: "x < num_pieces s" for x
  proof (cases "prio_of s x = -1")
    case False
    have "length (filter (\<lambda>y. prio_of s y = prio_of s x) [0..<x]) < we_have_index"
      using filter_length_less [OF x, of "\<lambda>y. prio_of s y = prio_of s x"] n by simp
    moreover have "\<not> is_have (piece_at s x)" using False have_prio by blast
    ultimately have "priority (m_seeds s) (pm ! x) = priority (m_seeds s) (piece_at s x)"
      by (intro priority_moved) (use at [OF x] False in \<open>auto simp: is_have_def\<close>)
    then show ?thesis by (simp add: prio_of_def)
  qed (use at x in \<open>simp add: prio_of_def\<close>)
qed

lemma priority_begin_cumulate: "q \<le> length b \<Longrightarrow> priority_begin (cumulate 0 b) q = sum_list (take q b)"
  by (cases q) (auto simp: priority_begin_def cumulate_nth)

lemma length_concat_take: "length (concat (take q bs)) = sum_list (take q (map length bs))"
  by (simp add: length_concat take_map)

lemma filled:
  assumes b: "b = map length (ranges_of pr n (length b))" and lt: "\<And>x. x < n \<Longrightarrow> pr x < int (length b)"
    and vals: "\<And>x. x < n \<Longrightarrow> pr x = -1 \<or> 0 \<le> pr x" and pm: "length pm = n" "\<And>x. x < n \<Longrightarrow> priority seeds (pm ! x) = pr x"
    and idx: "\<And>x. x < n \<Longrightarrow> pr x \<noteq> -1 \<Longrightarrow> pindex (pm ! x) = length (filter (\<lambda>y. pr y = pr x) [0..<x])"
    and len: "length pcs = sum_list b"
  shows "fill_pieces seeds (cumulate 0 b) pm 0 pcs = concat (ranges_of pr n (length b))"
proof -
  let ?R = "concat (ranges_of pr n (length b))" and ?f = "place_of pr n (length b)"
  have lenR: "length ?R = length pcs" using len b by (metis length_concat)
  have nth: "?R ! ?f x = x \<and> ?f x < length ?R" if "x < n" "pr x \<noteq> -1" for x
    using place_of_nth [of x n pr "length b"] that lt vals by blast
  have at: "(\<forall>j<length pm. priority seeds (pm ! j) \<noteq> -1 \<longrightarrow> fill_pieces seeds (cumulate 0 b) pm 0 pcs ! ?f (0 + j) = 0 + j)"
  proof (rule conjunct1 [OF fill_pieces_at])
    fix j assume j: "j < length pm" "priority seeds (pm ! j) \<noteq> -1"
    then have x: "j < n" "pr j \<noteq> -1" "0 \<le> pr j" "pr j < int (length b)" using pm lt vals by force+
    have "priority_begin (cumulate 0 b) (nat (pr j)) = length (concat (take (nat (pr j)) (ranges_of pr n (length b))))"
      using x(4) by (subst priority_begin_cumulate) (auto simp: length_concat_take b [symmetric])
    then show "priority_begin (cumulate 0 b) (nat (priority seeds (pm ! j))) + pindex (pm ! j) = ?f (0 + j) \<and> ?f (0 + j) < length pcs"
      using x pm idx nth lenR by (simp add: place_of_def)
  next
    fix i j assume "i < length pm" "j < length pm" "priority seeds (pm ! i) \<noteq> -1" "priority seeds (pm ! j) \<noteq> -1"
      "?f (0 + i) = ?f (0 + j)"
    then show "i = j" using nth pm by (metis add_0)
  qed
  show ?thesis
  proof (rule nth_equalityI)
    fix y assume "y < length (fill_pieces seeds (cumulate 0 b) pm 0 pcs)"
    then have y: "y < length ?R" using lenR by simp
    let ?x = "?R ! y"
    have "?x \<in> {x. x < n \<and> 0 \<le> pr x \<and> pr x < int (length b)}" using nth_mem [OF y] unfolding ranges_of_set .
    then have x: "?x < n" "pr ?x \<noteq> -1" by auto
    then have "?f ?x = y" using nth y ranges_of_distinct [of pr n "length b"] by (metis nth_eq_iff_index_eq)
    then show "fill_pieces seeds (cumulate 0 b) pm 0 pcs ! y = ?R ! y" using at x pm by (metis add_0)
  qed (use lenR in simp)
qed

lemma mset_ranges:
  assumes "list_all2 (\<lambda>a b. mset a = mset b) rs' rs"
  shows "map length rs' = map length rs" and "mset (concat rs') = mset (concat rs)"
    and "ranges_prio pr k rs \<Longrightarrow> ranges_prio pr k rs'"
proof -
  show "map length rs' = map length rs" using assms by (induction rule: list_all2_induct) (auto dest: mset_eq_length)
  show "mset (concat rs') = mset (concat rs)" using assms by (induction rule: list_all2_induct) auto
  show "ranges_prio pr k rs \<Longrightarrow> ranges_prio pr k rs'"
    using assms by (induction arbitrary: k rule: list_all2_induct) (auto dest: mset_eq_setD)
qed

lemma update_pieces_ok:
  assumes n: "num_pieces s \<le> max_pieces" and pp: "\<forall>x<num_pieces s. piece_priority (piece_at s x) < priority_levels"
  shows "list_ok (update_pieces s) \<and> same_pieces (s\<lparr>m_dirty := False\<rparr>) (update_pieces s)"
proof -
  let ?n = "num_pieces s" and ?s = "s\<lparr>m_dirty := False\<rparr>"
  define b0 where "b0 = (if m_priority_boundaries s = [] then [0] else m_priority_boundaries s)"
  obtain pm b where c: "count_prios (m_seeds s) (m_piece_map s) (replicate (length b0) 0) = (pm, b)" by (rule prod.exhaust)
  have vals: "prio_of s x = -1 \<or> 0 \<le> prio_of s x" if "x < ?n" for x
    using pp that priority_range_values unfolding prio_of_def by blast
  note cnt = counted [OF vals c n]
  let ?rs = "ranges_of (prio_of s) ?n (length b)"
  have len: "length pm = ?n" using cnt(3) by (rule moved_length)
  have "fill_pieces (m_seeds s) (cumulate 0 b) pm 0 (vec_resize (sum_list b) 0 (m_pieces s)) = concat ?rs"
    by (rule filled [OF cnt(1,2) vals len cnt(4,5)]) (simp_all add: vec_resize_def)
  moreover obtain rs' g where sh: "shuffle_ranges 0 (cumulate 0 (map length ?rs)) (concat ?rs) (rng s) = (concat rs', g)"
      and perm: "list_all2 (\<lambda>a b. mset a = mset b) rs' ?rs"
    using shuffle_ranges_perm [of "[]" ?rs "rng s"] by auto
  ultimately have eq: "update_pieces s = ?s\<lparr>m_piece_map := number_pieces 0 (concat rs') pm, m_pieces := concat rs',
      m_priority_boundaries := cumulate 0 (map length rs'), rng := g\<rparr>"
    using c cnt(1) mset_ranges(1) [OF perm]
    by (simp add: update_pieces_def Let_def b0_def [symmetric] map_replicate_const)
  have set: "set (concat rs') = {x. x < ?n \<and> 0 \<le> prio_of s x}"
    using mset_eq_setD [OF mset_ranges(2) [OF perm]] ranges_of_set [of "prio_of s" ?n "length b"] cnt(2) by auto
  have d: "distinct (concat rs')"
    using mset_ranges(2) [OF perm] ranges_of_distinct [of "prio_of s" ?n "length b"] by (metis mset_eq_imp_distinct_iff)
  have num: "idx_from (number_pieces 0 (concat rs') pm) 0 (concat rs')"
      "moved (set (concat rs')) pm (number_pieces 0 (concat rs') pm)"
    using number_pieces_idx [OF d, of pm 0] set len by auto
  have pr: "ranges_prio (prio_of s) 0 rs'" by (rule mset_ranges(3) [OF perm ranges_of_prio])
  have prio: "prio_of ?s = prio_of s" by (auto simp: prio_of_def)
  have "same_pieces ?s (update_pieces s) \<and> ranges_ok (prio_of (update_pieces s)) (update_pieces s) rs'"
    by (rule rearranged [OF eq moved_trans [OF _ num(2)]])
      (use cnt(3) num(1) d set pr n vals in \<open>auto simp: prio\<close>)
  then show ?thesis by (rule list_okI) (use num(1) n pp eq in auto)
qed

end
