(* ===== verification/Picker_Frame.thy ===== *)
theory Picker_Frame
  imports Picker_Order
begin

text \<open>
  What the operations on the list of pieces leave alone, whatever state the list is in: everything but the
  list itself, the positions the pieces keep, and the random numbers.
\<close>

section \<open>The picker without its list\<close>

definition unplaced :: "piece_pos list \<Rightarrow> piece_pos list" where
  "unplaced pm = map (\<lambda>p. p\<lparr>pindex := 0\<rparr>) pm"

definition unlisted :: "piece_picker \<Rightarrow> piece_picker" where
  "unlisted s = s\<lparr>m_piece_map := unplaced (m_piece_map s), m_pieces := [], m_priority_boundaries := [], rng := (\<lambda>_. 0)\<rparr>"

lemma unplaced_update [simp]: "unplaced (pm[x := (pm ! x)\<lparr>pindex := i\<rparr>]) = unplaced pm"
  by (cases "x < length pm") (auto simp: unplaced_def map_update list_update_beyond intro: list_update_same_conv [THEN iffD2])

lemma unlisted_list_update:
  "unplaced pm = unplaced (m_piece_map s) \<Longrightarrow>
     unlisted (s\<lparr>m_piece_map := pm, m_pieces := ps, m_priority_boundaries := bs\<rparr>) = unlisted s"
  by (simp add: unlisted_def)

section \<open>The operations on the list\<close>

lemma unplaced_place [simp]: "unplaced (fst (place i x pl)) = unplaced (fst pl)"
  by (simp add: place_def split: prod.split)

lemma unplaced_add_loop: "unplaced (fst (snd (snd (add_loop n i p pl)))) = unplaced (fst pl)"
proof (induction n i p pl rule: add_loop.induct)
  case (1 n i p pm pcs bounds)
  obtain pm' pcs' b0 where pl: "place n i (pm, pcs, bounds) = (pm', pcs', b0)" by (rule prod_cases3)
  obtain b t q where sc: "add_scan bounds n p = (b, t, q)" by (rule prod_cases3)
  have "unplaced pm' = unplaced pm" using unplaced_place [of n i "(pm, pcs, bounds)"] pl by simp
  with 1 [OF refl pl [symmetric] refl sc [symmetric] refl] pl sc show ?case by (subst add_loop.simps) (simp add: Let_def)
qed

lemma unplaced_remove_loop: "unplaced (fst (remove_loop n e p pl)) = unplaced (fst pl)"
proof (induction n e p pl rule: remove_loop.induct)
  case (1 n e p pm pcs bounds)
  obtain b t q where sc: "remove_scan bounds n p = (b, t, q)" by (rule prod_cases3)
  obtain pm' pcs' b0 where pl: "place e (pcs ! t) (pm, pcs, b) = (pm', pcs', b0)" by (rule prod_cases3)
  have "unplaced pm' = unplaced pm" using unplaced_place [of e "pcs ! t" "(pm, pcs, b)"] pl by simp
  with 1 [OF sc [symmetric] refl _ pl [symmetric] refl] pl sc show ?case by (subst remove_loop.simps) simp
qed

lemma unplaced_update_down: "unplaced (fst (snd (update_down k t e p pl))) = unplaced (fst pl)"
  by (induction k t e p pl rule: update_down.induct) (simp_all add: Let_def)

lemma unplaced_update_up: "unplaced (fst (snd (update_up k t e p pl))) = unplaced (fst pl)"
  by (induction k t e p pl rule: update_up.induct) (simp_all add: Let_def)

lemma unlisted_remove [simp]: "unlisted (remove p e s) = unlisted s"
  using unplaced_remove_loop [of e e p "(m_piece_map s, m_pieces s, m_priority_boundaries s)"]
  by (auto simp: remove_def unlisted_list_update split: prod.split)

lemma unlisted_set_index [simp]: "unlisted (set_piece x (\<lambda>p. p\<lparr>pindex := i\<rparr>) s) = unlisted s"
  by (simp add: unlisted_def set_piece_def)

lemma unlisted_list_fields [simp]: "unlisted (s\<lparr>m_pieces := ps\<rparr>) = unlisted s" "unlisted (s\<lparr>rng := g\<rparr>) = unlisted s"
  by (simp_all add: unlisted_def)

lemma unlisted_shuffle [simp]: "unlisted (shuffle p e s) = unlisted s"
proof -
  obtain r g where r: "random (snd (priority_range (m_priority_boundaries s) p) - fst (priority_range (m_priority_boundaries s) p) - 1) (rng s) = (r, g)"
    by (rule prod.exhaust)
  show ?thesis
  proof (cases "r + fst (priority_range (m_priority_boundaries s) p) = e")
    case True
    with r show ?thesis by (simp add: shuffle_def Let_def case_prod_beta)
  next
    case False
    let ?o = "r + fst (priority_range (m_priority_boundaries s) p)"
    let ?s = "s\<lparr>rng := g, m_pieces := (m_pieces s)[?o := m_pieces s ! e, e := m_pieces s ! ?o]\<rparr>"
    have "unlisted ?s = unlisted s" by simp
    with False r show ?thesis by (simp add: shuffle_def Let_def case_prod_beta)
  qed
qed

lemma unlisted_add [simp]: "unlisted (add i s) = unlisted s"
proof (cases "prio_of s i < 0")
  case False
  define bounds where "bounds = m_priority_boundaries s
    @ replicate (nat (prio_of s i) + 1 - length (m_priority_boundaries s)) (length (m_pieces s))"
  obtain first second where r: "priority_range bounds (nat (prio_of s i)) = (first, second)" by (rule prod.exhaust)
  obtain n g where n: "(if second = first then (first, rng s) else case random (second - first) (rng s) of (r, g) \<Rightarrow> (r + first, g)) = (n, g)"
    by (rule prod.exhaust)
  obtain n' i' pl where l: "add_loop n i (nat (prio_of s i)) (m_piece_map s, m_pieces s @ [minus_one], bounds) = (n', i', pl)" by (rule prod_cases3)
  obtain pm pcs b where pl: "(if i' \<noteq> minus_one then place n' i' pl else pl) = (pm, pcs, b)" by (rule prod_cases3)
  have "unplaced (fst pl) = unplaced (m_piece_map s)"
    using unplaced_add_loop [of n i "nat (prio_of s i)" "(m_piece_map s, m_pieces s @ [minus_one], bounds)"] l by simp
  moreover have "pm = fst (if i' \<noteq> minus_one then place n' i' pl else pl)" by (simp only: pl fst_conv)
  then have "unplaced pm = unplaced (fst pl)" by simp
  moreover have "add i s = s\<lparr>m_piece_map := pm, m_pieces := pcs, m_priority_boundaries := b, rng := g\<rparr>"
    using False r n l pl unfolding add_def Let_def bounds_def [symmetric] by simp
  ultimately show ?thesis by (simp add: unlisted_list_update)
qed (simp add: add_def)

lemma unlisted_update [simp]: "unlisted (update p e s) = unlisted s"
proof -
  let ?x = "m_pieces s ! e"
  consider "prio_of s ?x = p" | "prio_of s ?x \<noteq> p" "prio_of s ?x = -1" | "prio_of s ?x \<noteq> p" "prio_of s ?x \<noteq> -1" by blast
  then show ?thesis
  proof cases
    case 3
    let ?np = "nat (prio_of s ?x)"
    define bounds where "bounds = m_priority_boundaries s
      @ replicate (?np + 1 - length (m_priority_boundaries s)) (length (m_pieces s))"
    obtain e' pl where l: "(if p > prio_of s ?x then update_down (nat p - ?np) ?x e (nat p) (m_piece_map s, m_pieces s, bounds)
      else update_up (?np - nat p) ?x e (nat p) (m_piece_map s, m_pieces s, bounds)) = (e', pl)" by (rule prod.exhaust)
    obtain pm pcs b where pl: "place e' ?x pl = (pm, pcs, b)" by (rule prod_cases3)
    have "unplaced (fst pl) = unplaced (m_piece_map s)"
      using l unplaced_update_down [of "nat p - ?np" ?x e "nat p" "(m_piece_map s, m_pieces s, bounds)"]
        unplaced_update_up [of "?np - nat p" ?x e "nat p" "(m_piece_map s, m_pieces s, bounds)"] by (auto split: if_splits)
    moreover have "unplaced pm = unplaced (fst pl)" using pl unplaced_place [of e' ?x pl] by simp
    moreover have "update p e s = shuffle ?np e' (s\<lparr>m_piece_map := pm, m_pieces := pcs, m_priority_boundaries := b\<rparr>)"
      using 3 l pl unfolding update_def Let_def bounds_def [symmetric] by simp
    ultimately show ?thesis by (simp add: unlisted_list_update)
  qed (simp_all add: update_def)
qed

lemma unplaced_count_prios: "unplaced (fst (count_prios seeds ps b)) = unplaced ps"
proof (induction seeds ps b rule: count_prios.induct)
  case (2 seeds p ps b)
  then show ?case by (auto simp: Let_def unplaced_def split: prod.splits)
qed (simp add: unplaced_def)

lemma unplaced_number_pieces [simp]: "unplaced (number_pieces i xs pm) = unplaced pm"
  by (induction i xs pm rule: number_pieces.induct) simp_all

lemma unlisted_update_pieces: "unlisted (update_pieces s) = unlisted (s\<lparr>m_dirty := False\<rparr>)"
proof -
  let ?b = "map (\<lambda>_. 0) (if m_priority_boundaries s = [] then [0] else m_priority_boundaries s)"
  have "unplaced (fst (count_prios (m_seeds s) (m_piece_map s) ?b)) = unplaced (m_piece_map s)" by (rule unplaced_count_prios)
  then show ?thesis by (simp add: update_pieces_def Let_def case_prod_beta unlisted_def)
qed

end
