(* ===== verification/Picker_Downloads.thy ===== *)
theory Picker_Downloads
  imports Picker_Frame Picker_Counters
begin

text \<open>
  The pieces that are being downloaded: every one is in the queue its state names, the queues are sorted, no
  two downloads share a slot of \<open>m_block_info\<close>, the counters of a download count its blocks, and the
  state of a piece is the one its counters give it. This is what \<open>check_piece_state\<close> and
  \<open>check_invariant\<close> of \<open>piece_picker.cpp\<close> assert of the downloads.
\<close>

section \<open>Sorted queues\<close>

abbreviation sorted_dl :: "downloading_piece list \<Rightarrow> bool" where
  "sorted_dl ds \<equiv> sorted_wrt (<) (map dindex ds)"

lemma sorted_dl_nth: "sorted_dl ds \<Longrightarrow> i < j \<Longrightarrow> j < length ds \<Longrightarrow> dindex (ds ! i) < dindex (ds ! j)"
  using sorted_wrt_nth_less [of "(<)" "map dindex ds" i j] by simp

lemma sorted_dl_inj: "sorted_dl ds \<Longrightarrow> inj_on dindex (set ds)"
  by (metis distinct_map strict_sorted_iff)

lemma sorted_dl_distinct: "sorted_dl ds \<Longrightarrow> distinct ds"
  by (metis distinct_map strict_sorted_iff)

lemma lower_bound_take: "d \<in> set (take (dl_lower_bound ds i) ds) \<Longrightarrow> dindex d < i"
proof -
  have "take (dl_lower_bound ds i) ds = takeWhile (\<lambda>d. dindex d < i) ds"
    by (simp add: dl_lower_bound_def takeWhile_eq_take [symmetric])
  then show "d \<in> set (take (dl_lower_bound ds i) ds) \<Longrightarrow> dindex d < i" by (auto dest: set_takeWhileD)
qed

lemma lower_bound_drop:
  assumes "sorted_dl ds" and "d \<in> set (drop (dl_lower_bound ds i) ds)"
  shows "i \<le> dindex d"
proof -
  let ?b = "dl_lower_bound ds i"
  obtain j where j: "?b + j < length ds" "d = ds ! (?b + j)" using assms(2) by (metis add.commute in_set_conv_nth length_drop less_diff_conv nth_drop less_imp_le linorder_not_le drop_eq_Nil2 list.size(3) not_less_zero)
  then have "\<not> dindex (ds ! ?b) < i" unfolding dl_lower_bound_def by (intro nth_length_takeWhile) simp
  moreover have "dindex (ds ! ?b) \<le> dindex d"
    using sorted_dl_nth [OF assms(1), of ?b "?b + j"] j by (cases j) auto
  ultimately show ?thesis by simp
qed

lemma lower_bound_nth:
  assumes "sorted_dl ds" and "k < length ds"
  shows "dl_lower_bound ds (dindex (ds ! k)) = k"
proof -
  let ?b = "dl_lower_bound ds (dindex (ds ! k))"
  have "ds ! k \<in> set (take ?b ds) \<longrightarrow> False" using lower_bound_take by blast
  then have "?b \<le> k" using assms(2) by (metis in_set_conv_nth length_take linorder_not_le min_less_iff_conj nth_take)
  moreover have "\<not> ?b < k"
  proof
    assume lt: "?b < k"
    then have "ds ! ?b \<in> set (drop ?b ds)" using assms(2) by (metis drop_eq_Nil hd_drop_conv_nth hd_in_set linorder_not_le order.strict_trans)
    then have "dindex (ds ! k) \<le> dindex (ds ! ?b)" by (rule lower_bound_drop [OF assms(1)])
    with sorted_dl_nth [OF assms(1) lt assms(2)] show False by simp
  qed
  ultimately show ?thesis by simp
qed

lemma sorted_dl_insert:
  assumes "sorted_dl ds" and "dindex d \<notin> dindex ` set ds" and "k = dl_lower_bound ds (dindex d)"
  shows "sorted_dl (take k ds @ d # drop k ds)" and "set (take k ds @ d # drop k ds) = insert d (set ds)"
proof -
  have app: "sorted_dl (take k ds @ drop k ds)" using assms(1) by simp
  have lt: "\<forall>e\<in>set (take k ds). dindex e < dindex d" using lower_bound_take assms(3) by blast
  have ge: "\<forall>e\<in>set (drop k ds). dindex d < dindex e"
    using lower_bound_drop [OF assms(1), of _ "dindex d"] assms(2,3) by (metis image_eqI in_set_dropD order_le_less)
  show "sorted_dl (take k ds @ d # drop k ds)"
    using app lt ge unfolding map_append list.map sorted_wrt_append sorted_wrt.simps by force
  show "set (take k ds @ d # drop k ds) = insert d (set ds)"
    by (metis Un_insert_right append_take_drop_id list.simps(15) set_append)
qed

lemma sorted_dl_erase:
  assumes "sorted_dl ds" and "k < length ds"
  shows "sorted_dl (take k ds @ drop (Suc k) ds)" and "set (take k ds @ drop (Suc k) ds) = set ds - {ds ! k}"
proof -
  have ds: "ds = take k ds @ ds ! k # drop (Suc k) ds" using assms(2) by (rule id_take_nth_drop)
  have "sorted_dl (take k ds @ ds ! k # drop (Suc k) ds)" using assms(1) ds by simp
  then show "sorted_dl (take k ds @ drop (Suc k) ds)"
    unfolding map_append list.map sorted_wrt_append sorted_wrt.simps by auto
  have "distinct (take k ds @ ds ! k # drop (Suc k) ds)" using sorted_dl_distinct [OF assms(1)] ds by simp
  moreover have "set ds = set (take k ds @ ds ! k # drop (Suc k) ds)" using ds by simp
  ultimately show "set (take k ds @ drop (Suc k) ds) = set ds - {ds ! k}" by auto
qed

lemma sorted_dl_set:
  assumes "sorted_dl ds" and "k < length ds" and "dindex d = dindex (ds ! k)"
  shows "sorted_dl (ds[k := d])" and "set (ds[k := d]) = insert d (set ds - {ds ! k})"
proof -
  have "map dindex (ds[k := d]) = map dindex ds" using assms(2,3) by (simp add: map_update list_update_same_conv)
  then show "sorted_dl (ds[k := d])" using assms(1) by simp
  have ds: "ds = take k ds @ ds ! k # drop (Suc k) ds" using assms(2) by (rule id_take_nth_drop)
  have "set (ds[k := d]) = insert d (set (take k ds @ drop (Suc k) ds))"
    using assms(2) by (simp add: upd_conv_take_nth_drop)
  with sorted_dl_erase(2) [OF assms(1,2)] show "set (ds[k := d]) = insert d (set ds - {ds ! k})" by simp
qed

section \<open>The queues and the states of the pieces\<close>

definition in_download :: "piece_picker \<Rightarrow> downloading_piece set" where
  "in_download s = (\<Union>q. set (m_downloads s q))"

text \<open>Every piece is in the queue of its state, but those in \<open>X\<close>, which are in none.\<close>

definition queues_but :: "nat set \<Rightarrow> piece_picker \<Rightarrow> bool" where
  "queues_but X s \<longleftrightarrow>
     (\<forall>q. sorted_dl (m_downloads s q) \<and>
        dindex ` set (m_downloads s q) =
          {i. i < num_pieces s \<and> i \<notin> X \<and> q \<noteq> piece_open \<and> download_queue (piece_at s i) = q})"

abbreviation queues_ok :: "piece_picker \<Rightarrow> bool" where
  "queues_ok \<equiv> queues_but {}"

lemma queues_okD:
  assumes "queues_ok s"
  shows "sorted_dl (m_downloads s q)"
    and "d \<in> set (m_downloads s q) \<Longrightarrow> dindex d < num_pieces s \<and> q \<noteq> piece_open \<and> download_queue (piece_at s (dindex d)) = q"
    and "i < num_pieces s \<Longrightarrow> download_queue (piece_at s i) = q \<Longrightarrow> q \<noteq> piece_open \<Longrightarrow> \<exists>d\<in>set (m_downloads s q). dindex d = i"
proof -
  have q: "sorted_dl (m_downloads s q)"
    "dindex ` set (m_downloads s q) = {i. i < num_pieces s \<and> q \<noteq> piece_open \<and> download_queue (piece_at s i) = q}"
    using assms by (simp_all add: queues_but_def)
  show "sorted_dl (m_downloads s q)" by (rule q)
  show "dindex d < num_pieces s \<and> q \<noteq> piece_open \<and> download_queue (piece_at s (dindex d)) = q" if "d \<in> set (m_downloads s q)"
    using q(2) imageI [OF that, of dindex] by simp
  show "\<exists>d\<in>set (m_downloads s q). dindex d = i"
    if "i < num_pieces s" "download_queue (piece_at s i) = q" "q \<noteq> piece_open"
  proof -
    have "i \<in> dindex ` set (m_downloads s q)" using that q(2) by simp
    then show ?thesis by blast
  qed
qed

lemma find_entry:
  assumes "queues_ok s" and "k < length (m_downloads s q)"
  shows "dl_iter_of (dindex (m_downloads s q ! k)) s = Some (q, k)"
proof -
  have "m_downloads s q ! k \<in> set (m_downloads s q)" using assms(2) by simp
  from queues_okD(2) [OF assms(1) this] lower_bound_nth [OF queues_okD(1) [OF assms(1)] assms(2)] assms(2)
  show ?thesis by (simp add: dl_iter_of_def find_dl_piece_def Let_def)
qed

lemma iter_exists:
  assumes "queues_ok s" and "i < num_pieces s" and "download_queue (piece_at s i) \<noteq> piece_open"
  obtains k where "dl_iter_of i s = Some (download_queue (piece_at s i), k)"
    and "k < length (m_downloads s (download_queue (piece_at s i)))"
    and "dindex (dl_at s (download_queue (piece_at s i), k)) = i"
proof -
  let ?q = "download_queue (piece_at s i)"
  obtain d where d: "d \<in> set (m_downloads s ?q)" "dindex d = i" using queues_okD(3) [OF assms(1,2) refl assms(3)] by blast
  then obtain k where k: "k < length (m_downloads s ?q)" "m_downloads s ?q ! k = d" by (metis in_set_conv_nth)
  from find_entry [OF assms(1) k(1)] k d(2) have "dl_iter_of i s = Some (?q, k)" by simp
  then show thesis by (rule that) (use k d(2) in \<open>simp_all add: dl_at_def\<close>)
qed

lemma iterD:
  assumes "queues_ok s" and "dl_iter_of i s = Some it"
  shows "fst it = download_queue (piece_at s i)" and "snd it < length (m_downloads s (fst it))"
    and "dindex (dl_at s it) = i" and "dl_at s it \<in> set (m_downloads s (fst it))" and "dl_at s it \<in> in_download s"
    and "i < num_pieces s" and "download_queue (piece_at s i) \<noteq> piece_open"
proof -
  note d = dl_iter_ofD [OF assms(2)]
  show "fst it = download_queue (piece_at s i)" "snd it < length (m_downloads s (fst it))" "dindex (dl_at s it) = i"
    using d by simp_all
  show m: "dl_at s it \<in> set (m_downloads s (fst it))" using d(2) by (simp add: dl_at_def)
  then show "dl_at s it \<in> in_download s" by (auto simp: in_download_def)
  show "i < num_pieces s" "download_queue (piece_at s i) \<noteq> piece_open"
    using queues_okD(2) [OF assms(1) m] d by auto
qed

lemma entry_unique:
  assumes "queues_ok s" and "d \<in> in_download s" and "e \<in> in_download s" and "dindex d = dindex e"
  shows "d = e"
proof -
  obtain q r where q: "d \<in> set (m_downloads s q)" and r: "e \<in> set (m_downloads s r)" using assms(2,3) by (auto simp: in_download_def)
  have "q = r" using queues_okD(2) [OF assms(1) q] queues_okD(2) [OF assms(1) r] assms(4) by simp
  with q r sorted_dl_inj [OF queues_okD(1) [OF assms(1), of r]] assms(4) show ?thesis by (auto dest: inj_onD)
qed

lemma entry_iter:
  assumes "queues_ok s" and "d \<in> in_download s"
  obtains it where "dl_iter_of (dindex d) s = Some it" and "dl_at s it = d"
proof -
  obtain q where "d \<in> set (m_downloads s q)" using assms(2) by (auto simp: in_download_def)
  then obtain k where k: "k < length (m_downloads s q)" "m_downloads s q ! k = d" by (metis in_set_conv_nth)
  from find_entry [OF assms(1) k(1)] k(2) have "dl_iter_of (dindex d) s = Some (q, k)" by simp
  then show thesis by (rule that) (simp add: dl_at_def k(2))
qed

section \<open>Changes of the queues\<close>

lemma in_download_updates [simp]:
  "in_download (s\<lparr>m_piece_map := pm\<rparr>) = in_download s" "in_download (s\<lparr>m_block_info := bi\<rparr>) = in_download s"
  "in_download (s\<lparr>m_free_block_infos := fb\<rparr>) = in_download s" "in_download (set_piece i f s) = in_download s"
  "in_download (set_block d j g s) = in_download s"
  by (simp_all add: in_download_def set_piece_def set_block_def)

lemma queues_but_upd:
  assumes "queues_but X s" and "m_downloads t = (m_downloads s)(q := ds)" and "m_piece_map t = m_piece_map s"
    and "sorted_dl ds"
    and "dindex ` set ds = {i. i < num_pieces s \<and> i \<notin> Y \<and> q \<noteq> piece_open \<and> download_queue (piece_at s i) = q}"
    and "\<And>i. i < num_pieces s \<Longrightarrow> download_queue (piece_at s i) \<noteq> q \<Longrightarrow> i \<in> X \<longleftrightarrow> i \<in> Y"
  shows "queues_but Y t"
  unfolding queues_but_def
proof (intro allI)
  fix r
  show "sorted_dl (m_downloads t r) \<and> dindex ` set (m_downloads t r) =
    {i. i < num_pieces t \<and> i \<notin> Y \<and> r \<noteq> piece_open \<and> download_queue (piece_at t i) = r}"
  proof (cases "r = q")
    case False
    have "{i. i < num_pieces s \<and> i \<notin> X \<and> r \<noteq> piece_open \<and> download_queue (piece_at s i) = r}
      = {i. i < num_pieces s \<and> i \<notin> Y \<and> r \<noteq> piece_open \<and> download_queue (piece_at s i) = r}"
      using assms(6) False by blast
    then show ?thesis using False assms(1-3) by (simp add: queues_but_def)
  qed (use assms in simp)
qed

lemma modify_download:
  assumes "queues_ok s" and "dl_iter_of i s = Some it" and "dindex (f (dl_at s it)) = i"
  shows "queues_ok (dl_modify it f s)"
    and "in_download (dl_modify it f s) = insert (f (dl_at s it)) (in_download s - {dl_at s it})"
    and "dl_iter_of i (dl_modify it f s) = Some it"
    and "dl_at (dl_modify it f s) it = f (dl_at s it)"
proof -
  note it = iterD [OF assms(1,2)]
  let ?t = "dl_modify it f s" let ?ds = "m_downloads s (fst it)"
  have at: "?ds ! snd it = dl_at s it" by (simp add: dl_at_def)
  have dt: "m_downloads ?t = (m_downloads s)(fst it := ?ds[snd it := f (dl_at s it)])" by (simp add: dl_modify_def)
  note st = sorted_dl_set [OF queues_okD(1) [OF assms(1)] it(2), of "f (dl_at s it)", unfolded at]
  have idx: "dindex (f (dl_at s it)) = dindex (dl_at s it)" using it(3) assms(3) by simp
  have "dindex ` insert (f (dl_at s it)) (set ?ds - {dl_at s it}) = dindex ` set ?ds" using idx it(4) by force
  then show q: "queues_ok ?t" using assms(1) st idx by (auto simp: queues_but_def dt)
  show "in_download ?t = insert (f (dl_at s it)) (in_download s - {dl_at s it})"
  proof -
    have "dl_at s it \<notin> set (m_downloads s r)" if "r \<noteq> fst it" for r
      using that queues_okD(2) [OF assms(1), of "dl_at s it" r] it(1,3) by auto
    then have "(\<Union>r. set (m_downloads ?t r)) = insert (f (dl_at s it)) ((\<Union>r. set (m_downloads s r)) - {dl_at s it})"
      using st(2) idx by (auto simp: dt split: if_splits)
    then show ?thesis by (simp add: in_download_def)
  qed
  show fit: "dl_at ?t it = f (dl_at s it)" using it(2) by simp
  have "snd it < length (m_downloads ?t (fst it))" using it(2) by (simp add: dt)
  from find_entry [OF q this] fit assms(3) show "dl_iter_of i ?t = Some it" by (simp add: dl_at_def)
qed

lemma erase_entry:
  assumes "queues_ok s" and "dl_iter_of i s = Some it"
  shows "queues_but {i} (dl_erase it s)" and "in_download (dl_erase it s) = in_download s - {dl_at s it}"
proof -
  note it = iterD [OF assms]
  let ?t = "dl_erase it s" let ?ds = "m_downloads s (fst it)"
  have at: "?ds ! snd it = dl_at s it" by (simp add: dl_at_def)
  have dt: "m_downloads ?t = (m_downloads s)(fst it := take (snd it) ?ds @ drop (Suc (snd it)) ?ds)"
    by (simp add: dl_erase_def Let_def)
  note st = sorted_dl_erase [OF queues_okD(1) [OF assms(1)] it(2), unfolded at]
  have other: "dl_at s it \<notin> set (m_downloads s r)" "i \<notin> dindex ` set (m_downloads s r)" if "r \<noteq> fst it" for r
    using that queues_okD(2) [OF assms(1), of _ r] it(1,3) by auto
  have "dindex ` (set ?ds - {dl_at s it}) = dindex ` set ?ds - {i}"
    using it(3,4) inj_on_image_set_diff [OF sorted_dl_inj [OF queues_okD(1) [OF assms(1), of "fst it"]], of "set ?ds" "{dl_at s it}"]
    by simp
  then have "dindex ` set (take (snd it) ?ds @ drop (Suc (snd it)) ?ds) = dindex ` set ?ds - {i}" unfolding st(2) .
  also have "\<dots> = {j. j < num_pieces s \<and> j \<notin> {i} \<and> fst it \<noteq> piece_open \<and> download_queue (piece_at s j) = fst it}"
    using assms(1) by (auto simp: queues_but_def)
  finally have set: "dindex ` set (take (snd it) ?ds @ drop (Suc (snd it)) ?ds) = {j. j < num_pieces s \<and> j \<notin> {i} \<and> fst it \<noteq> piece_open \<and> download_queue (piece_at s j) = fst it}" .
  show "queues_but {i} ?t"
    by (rule queues_but_upd [OF assms(1) dt _ st(1) set]) (use it(1) in auto)
  show "in_download ?t = in_download s - {dl_at s it}"
    using other(1) st(2) by (auto simp: in_download_def dt split: if_splits)
qed

lemma insert_entry:
  assumes "queues_but {i} s" and "i < num_pieces s" and "download_queue (piece_at s i) = q" and "q \<noteq> piece_open"
    and "dindex d = i" and "k = dl_lower_bound (m_downloads s q) i"
  shows "queues_ok (dl_insert (q, k) d s)" and "in_download (dl_insert (q, k) d s) = insert d (in_download s)"
    and "dl_iter_of i (dl_insert (q, k) d s) = Some (q, k)" and "dl_at (dl_insert (q, k) d s) (q, k) = d"
proof -
  let ?t = "dl_insert (q, k) d s" let ?ds = "m_downloads s q"
  have dt: "m_downloads ?t = (m_downloads s)(q := take k ?ds @ d # drop k ?ds)" by (simp add: dl_insert_def Let_def)
  have sq: "sorted_dl ?ds" "dindex d \<notin> dindex ` set ?ds" using assms(1,5) by (auto simp: queues_but_def)
  note st = sorted_dl_insert [OF sq, of k]
  have k: "k = dl_lower_bound ?ds (dindex d)" using assms(5,6) by simp
  have "dindex ` set (take k ?ds @ d # drop k ?ds) = insert i (dindex ` set ?ds)" unfolding st(2) [OF k] by (simp add: assms(5))
  also have "\<dots> = {j. j < num_pieces s \<and> j \<notin> {} \<and> q \<noteq> piece_open \<and> download_queue (piece_at s j) = q}"
    using assms(1-4) by (auto simp: queues_but_def)
  finally have set: "dindex ` set (take k ?ds @ d # drop k ?ds) = {j. j < num_pieces s \<and> j \<notin> {} \<and> q \<noteq> piece_open \<and> download_queue (piece_at s j) = q}" .
  show qs: "queues_ok ?t"
    by (rule queues_but_upd [OF assms(1) dt _ st(1) [OF k] set]) (use assms(3) in auto)
  show "in_download ?t = insert d (in_download s)"
    using st(2) [OF k] by (auto simp: in_download_def dt split: if_splits)
  have kl: "k \<le> length ?ds" using assms(6) dl_lower_bound_le by simp
  then have nth: "m_downloads ?t q ! k = d" and len: "k < length (m_downloads ?t q)" by (simp_all add: dt nth_append)
  from find_entry [OF qs len] nth assms(5) show "dl_iter_of i ?t = Some (q, k)" by simp
  show "dl_at ?t (q, k) = d" using nth by (simp add: dl_at_def)
qed

text \<open>A change of the state of a piece that is in no queue.\<close>

lemma queues_but_state:
  "queues_but X s \<Longrightarrow> i \<in> X \<Longrightarrow> queues_but X (set_piece i f s)"
proof -
  assume X: "queues_but X s" "i \<in> X"
  have "piece_at (set_piece i f s) j = piece_at s j" if "j \<notin> X" for j
    using X(2) that by (cases "i = j") (simp_all add: set_piece_def)
  then have "{j. j < num_pieces s \<and> j \<notin> X \<and> q \<noteq> piece_open \<and> download_queue (piece_at s j) = q}
    = {j. j < num_pieces s \<and> j \<notin> X \<and> q \<noteq> piece_open \<and> download_queue (piece_at (set_piece i f s) j) = q}" for q
    by (intro Collect_cong) auto
  with X(1) show ?thesis by (simp add: queues_but_def set_piece_def)
qed

lemma queues_but_open:
  assumes "queues_but X s" and "\<And>i. i < num_pieces s \<Longrightarrow> i \<in> Y \<Longrightarrow> download_queue (piece_at s i) = piece_open"
  shows "queues_but (X - Y) s" and "queues_but (X \<union> Y) s"
  using assms unfolding queues_but_def by (auto 0 4)

section \<open>What the downloads depend on\<close>

definition works where
  "works s = (map (\<lambda>p. (pstate p, piece_priority p)) (m_piece_map s), m_downloads s, m_block_info s,
     m_free_block_infos s, m_blocks_per_piece s, m_blocks_in_last_piece s)"

lemma works_eqD:
  assumes "works s = works t"
  shows "m_downloads s = m_downloads t" "m_block_info s = m_block_info t" "m_free_block_infos s = m_free_block_infos t"
    "m_blocks_per_piece s = m_blocks_per_piece t" "m_blocks_in_last_piece s = m_blocks_in_last_piece t"
    "num_pieces s = num_pieces t"
    "i < num_pieces s \<Longrightarrow> pstate (piece_at s i) = pstate (piece_at t i)"
    "i < num_pieces s \<Longrightarrow> filtered (piece_at s i) = filtered (piece_at t i)"
proof -
  have m: "map (\<lambda>p. (pstate p, piece_priority p)) (m_piece_map s) = map (\<lambda>p. (pstate p, piece_priority p)) (m_piece_map t)"
    and rest: "m_downloads s = m_downloads t" "m_block_info s = m_block_info t" "m_free_block_infos s = m_free_block_infos t"
      "m_blocks_per_piece s = m_blocks_per_piece t" "m_blocks_in_last_piece s = m_blocks_in_last_piece t"
    using assms by (simp_all add: works_def)
  show "m_downloads s = m_downloads t" "m_block_info s = m_block_info t" "m_free_block_infos s = m_free_block_infos t"
    "m_blocks_per_piece s = m_blocks_per_piece t" "m_blocks_in_last_piece s = m_blocks_in_last_piece t" by fact+
  show n: "num_pieces s = num_pieces t" using m by (rule map_eq_imp_length_eq)
  assume "i < num_pieces s"
  with arg_cong [OF m, of "\<lambda>xs. xs ! i"] n
  show "pstate (piece_at s i) = pstate (piece_at t i)" "filtered (piece_at s i) = filtered (piece_at t i)"
    by (simp_all add: filtered_def)
qed

lemma works_unlisted: "unlisted s = unlisted t \<Longrightarrow> works s = works t"
proof -
  assume eq: "unlisted s = unlisted t"
  have "works r = works (unlisted r)" for r by (simp add: works_def unlisted_def unplaced_def)
  then show ?thesis using eq by metis
qed

lemma works_list [simp]: "works (add i s) = works s" "works (remove q e s) = works s" "works (update p e s) = works s"
  by (simp_all add: works_unlisted [of "add i s" s] works_unlisted [of "remove q e s" s] works_unlisted [of "update p e s" s])

lemma works_updates [simp]:
  "works (s\<lparr>m_num_passed := np\<rparr>) = works s" "works (s\<lparr>m_recent_extents := re\<rparr>) = works s" "works (s\<lparr>m_num_have := nh\<rparr>) = works s"
  "works (s\<lparr>m_have_pad_blocks := hp\<rparr>) = works s" "works (s\<lparr>m_filtered_pad_blocks := fp\<rparr>) = works s"
  "works (s\<lparr>m_have_filtered_pad_blocks := hf\<rparr>) = works s" "works (s\<lparr>m_num_filtered := nf\<rparr>) = works s"
  "works (s\<lparr>m_num_have_filtered := nhf\<rparr>) = works s" "works (s\<lparr>m_cursor := c\<rparr>) = works s"
  "works (s\<lparr>m_reverse_cursor := rc\<rparr>) = works s" "works (s\<lparr>m_pad_blocks := pb\<rparr>) = works s"
  "works (s\<lparr>m_num_pad_blocks := npb\<rparr>) = works s" "works (s\<lparr>m_pads_in_piece := pp\<rparr>) = works s"
  "works (s\<lparr>m_dirty := b\<rparr>) = works s" "works (s\<lparr>m_seeds := sd\<rparr>) = works s" "works (s\<lparr>rng := g\<rparr>) = works s"
  by (simp_all add: works_def)

lemma works_set_piece:
  assumes "\<And>p. pstate (f p) = pstate p \<and> piece_priority (f p) = piece_priority p"
  shows "works (set_piece i f s) = works s"
  using assms by (cases "i < num_pieces s") (auto simp: works_def set_piece_def map_update list_update_beyond intro: list_update_same_conv [THEN iffD2])

lemma works_relist [simp]: "works (relist p i s) = works s"
  by (simp add: relist_def)

lemma same_queue: "pstate p = pstate q \<Longrightarrow> download_queue p = download_queue q"
  by (simp add: download_queue_def)

lemma works_queues:
  assumes "works s = works t"
  shows "queues_but X s = queues_but X t" and "in_download s = in_download t" and "dl_at s = dl_at t"
    and "block_at s = block_at t" and "blocks_in_piece s = blocks_in_piece t"
    and "i < num_pieces s \<Longrightarrow> dl_iter_of i s = dl_iter_of i t"
proof -
  note eq = works_eqD [OF assms]
  have "{i. i < num_pieces s \<and> i \<notin> X \<and> q \<noteq> piece_open \<and> download_queue (piece_at s i) = q}
    = {i. i < num_pieces t \<and> i \<notin> X \<and> q \<noteq> piece_open \<and> download_queue (piece_at t i) = q}" for q
    by (intro Collect_cong) (use eq(6,7) in \<open>auto simp: download_queue_def\<close>)
  then show "queues_but X s = queues_but X t" by (simp add: queues_but_def eq(1))
  show "in_download s = in_download t" "dl_at s = dl_at t" "blocks_in_piece s = blocks_in_piece t"
    using eq(1,4-6) by (auto simp: in_download_def dl_at_def blocks_in_piece_def)
  show "block_at s = block_at t" by (intro ext) (simp add: block_at_def blocks_begin_def eq(2,4))
  show "dl_iter_of i s = dl_iter_of i t" if "i < num_pieces s"
    using eq(1) eq(7) [of i] that same_queue [of "piece_at s i" "piece_at t i"] by (simp add: dl_iter_of_def find_dl_piece_def Let_def)
qed

section \<open>Blocks and their counters\<close>

definition block_count :: "block_state \<Rightarrow> piece_picker \<Rightarrow> downloading_piece \<Rightarrow> nat" where
  "block_count st s d = length (filter (\<lambda>j. bstate (block_at s d j) = st) [0..<blocks_in_piece s (dindex d)])"

definition counted :: "piece_picker \<Rightarrow> downloading_piece \<Rightarrow> bool" where
  "counted s d \<longleftrightarrow> requested d = block_count state_requested s d \<and> writing d = block_count state_writing s d
     \<and> finished d = block_count state_finished s d"

definition settled :: "piece_picker \<Rightarrow> downloading_piece \<Rightarrow> bool" where
  "settled s d \<longleftrightarrow> 0 < requested d + finished d + writing d \<and> pstate (piece_at s (dindex d)) = new_dl_state s d"

definition sizes_ok :: "piece_picker \<Rightarrow> bool" where
  "sizes_ok s \<longleftrightarrow> 0 < m_blocks_per_piece s \<and> m_blocks_per_piece s \<le> max_blocks_per_piece
     \<and> 0 < m_blocks_in_last_piece s \<and> m_blocks_in_last_piece s \<le> m_blocks_per_piece s"

text \<open>
  The slots of \<open>m_block_info\<close>: a download owns one, the free list holds the others, and the number of slots fits
  the 16 bits of \<open>info_idx\<close>.
\<close>

definition slots_ok :: "piece_picker \<Rightarrow> bool" where
  "slots_ok s \<longleftrightarrow> inj_on info_idx (in_download s) \<and> distinct (m_free_block_infos s)
     \<and> set (m_free_block_infos s) \<inter> info_idx ` in_download s = {}
     \<and> (\<exists>k\<le>2 ^ 16. length (m_block_info s) = k * m_blocks_per_piece s
          \<and> (\<forall>x\<in>set (m_free_block_infos s) \<union> info_idx ` in_download s. x < k))"

text \<open>The invariant; the downloads of the pieces in \<open>X\<close> may have a state that is not up to date.\<close>

definition dl_inv :: "nat set \<Rightarrow> piece_picker \<Rightarrow> bool" where
  "dl_inv X s \<longleftrightarrow> sizes_ok s \<and> queues_ok s \<and> slots_ok s
     \<and> (\<forall>d\<in>in_download s. counted s d \<and> (dindex d \<notin> X \<longrightarrow> settled s d))"

lemma block_count_works: "works s = works t \<Longrightarrow> block_count st s = block_count st t"
  using works_queues(4,5) [of s t] by (simp add: block_count_def fun_eq_iff)

lemma new_dl_state_works:
  assumes "works s = works t" and "dindex d < num_pieces s"
  shows "new_dl_state s d = new_dl_state t d"
  using works_queues(5) [OF assms(1)] works_eqD(7,8) [OF assms] by (simp add: new_dl_state_def is_reverse_def Let_def)

lemma dl_inv_works:
  assumes "works s = works t" and "dl_inv X s"
  shows "dl_inv X t"
proof -
  note eq = works_eqD [OF assms(1)] works_queues [OF assms(1)]
  have "counted t d \<and> (dindex d \<notin> X \<longrightarrow> settled t d)" if d: "d \<in> in_download t" for d
  proof -
    from d eq have "d \<in> in_download s" by simp
    with assms(2) have s: "counted s d" "dindex d \<notin> X \<longrightarrow> settled s d" "dindex d < num_pieces s"
      using queues_okD(2) [of s d] by (auto simp: dl_inv_def in_download_def)
    then show ?thesis
      using block_count_works [OF assms(1)] new_dl_state_works [OF assms(1) s(3)] works_eqD(7) [OF assms(1) s(3)]
      by (simp add: counted_def settled_def)
  qed
  with assms(2) eq show ?thesis by (simp add: dl_inv_def sizes_ok_def slots_ok_def)
qed

lemma dl_invD:
  assumes "dl_inv X s"
  shows "sizes_ok s" "queues_ok s" "slots_ok s" "d \<in> in_download s \<Longrightarrow> counted s d"
    "d \<in> in_download s \<Longrightarrow> dindex d \<notin> X \<Longrightarrow> settled s d" "d \<in> in_download s \<Longrightarrow> dindex d < num_pieces s"
  using assms queues_okD(2) [of s d] by (auto simp: dl_inv_def in_download_def)

section \<open>Moving a download to another queue\<close>

lemma in_download_dl_insert_erase:
  "in_download (dl_insert it d (set_piece i f s)) = in_download (dl_insert it d s)"
  by (simp add: in_download_def dl_insert_def set_piece_def Let_def)

lemma new_dl_state_queue: "0 < requested d + finished d + writing d \<Longrightarrow> new_dl_state s d \<noteq> piece_open"
  by (auto simp: new_dl_state_def Let_def)

text \<open>The state a piece gets does not depend on the state it had, but for its direction, which is kept.\<close>

lemma new_dl_state_stable:
  assumes "dindex d < num_pieces s" and "pstate (piece_at t (dindex d)) = new_dl_state s d"
    and "filtered (piece_at t (dindex d)) = filtered (piece_at s (dindex d))"
    and "blocks_in_piece t = blocks_in_piece s"
  shows "new_dl_state t d = new_dl_state s d"
  using assms(2-4) by (auto simp: new_dl_state_def is_reverse_def Let_def split: if_splits)

lemma dl_iter_of_cong:
  "m_downloads s = m_downloads t \<Longrightarrow> download_queue (piece_at s i) = download_queue (piece_at t i) \<Longrightarrow>
     dl_iter_of i s = dl_iter_of i t"
  by (simp add: dl_iter_of_def find_dl_piece_def Let_def)

definition same_blocks :: "piece_picker \<Rightarrow> piece_picker \<Rightarrow> bool" where
  "same_blocks s t \<longleftrightarrow> m_block_info t = m_block_info s \<and> m_free_block_infos t = m_free_block_infos s
     \<and> m_blocks_per_piece t = m_blocks_per_piece s \<and> m_blocks_in_last_piece t = m_blocks_in_last_piece s
     \<and> num_pieces t = num_pieces s
     \<and> (\<forall>i<num_pieces s. filtered (piece_at t i) = filtered (piece_at s i))"

lemma same_blocksD:
  assumes "same_blocks s t"
  shows "blocks_in_piece t = blocks_in_piece s" "block_at t = block_at s" "block_count st t = block_count st s"
    "counted t = counted s" "sizes_ok t = sizes_ok s" "in_download t = in_download s \<Longrightarrow> slots_ok t = slots_ok s"
proof -
  show b: "blocks_in_piece t = blocks_in_piece s" "block_at t = block_at s"
    using assms by (intro ext; simp add: same_blocks_def blocks_in_piece_def block_at_def blocks_begin_def)+
  then show "block_count st t = block_count st s" "counted t = counted s"
    by (intro ext; simp add: block_count_def counted_def)+
  show "sizes_ok t = sizes_ok s" "in_download t = in_download s \<Longrightarrow> slots_ok t = slots_ok s"
    using assms by (simp_all add: same_blocks_def sizes_ok_def slots_ok_def)
qed

lemma dl_inv_mono: "dl_inv X s \<Longrightarrow> X \<subseteq> Y \<Longrightarrow> dl_inv Y s"
  by (auto simp: dl_inv_def)

abbreviation total_blocks :: "downloading_piece \<Rightarrow> nat" where
  "total_blocks d \<equiv> requested d + finished d + writing d"

lemma move_dl_inv:
  assumes "dl_inv {i} s" and "dl_iter_of i s = Some it" and "new_dl_state s (dl_at s it) \<noteq> piece_open"
    and "move_dl it s = (it', t)"
  shows "dl_inv {i} t" and "0 < total_blocks (dl_at s it) \<Longrightarrow> dl_inv {} t" and "dl_iter_of i t = Some it'"
    and "dl_at t it' = dl_at s it" and "in_download t = in_download s" and "same_blocks s t"
proof -
  note inv = dl_invD [OF assms(1)] and it = iterD [OF dl_invD(2) [OF assms(1)] assms(2)]
  let ?d = "dl_at s it" let ?new = "new_dl_state s (dl_at s it)"
  let ?e = "dl_erase it s"
  let ?m = "set_piece i (\<lambda>p. p\<lparr>pstate := ?new\<rparr>) ?e"
  let ?q = "download_queue (piece_at ?m i)" let ?k = "dl_lower_bound (m_downloads ?m ?q) i"
  have it_eq: "(download_queue (piece_at s i), snd it) = it" using it(1) by (metis prod.collapse)
  have mv: "it' = (?q, ?k)" "t = dl_insert (?q, ?k) ?d ?m"
    using assms(4) it(3) it_eq by (auto simp: move_dl_def Let_def)
  note er = erase_entry [OF inv(2) assms(2)]
  have i: "i < num_pieces ?m" using it(6) by simp
  have st: "pstate (piece_at ?m i) = ?new" using it(6) by (simp add: set_piece_def)
  have q: "?q \<noteq> piece_open" using st assms(3) by (simp add: download_queue_def)
  have qb: "queues_but {i} ?m" by (rule queues_but_state [OF er(1)]) simp
  note ins = insert_entry [OF qb i refl q it(3) refl]
  show "dl_iter_of i t = Some it'" "dl_at t it' = dl_at s it" using ins(3,4) mv by simp_all
  show D: "in_download t = in_download s" using ins(2) er(2) it(5) mv(2) by auto
  have other: "piece_at t j = piece_at s j" if "j \<noteq> i" for j using that by (simp add: mv(2) set_piece_def)
  have ti: "pstate (piece_at t i) = ?new" "filtered (piece_at t i) = filtered (piece_at s i)"
    using st it(6) by (simp_all add: mv(2) set_piece_def filtered_def)
  have "filtered (piece_at t j) = filtered (piece_at s j)" for j using other ti by (cases "j = i") simp_all
  then show sb: "same_blocks s t"
    by (simp add: same_blocks_def mv(2) set_piece_def dl_insert_def dl_erase_def Let_def)
  have elsewhere: "settled t d" if "d \<in> in_download s" "dindex d \<noteq> i" for d
  proof -
    have "settled s d" using inv(5) [OF that(1)] that(2) by simp
    moreover have "new_dl_state t d = new_dl_state s d"
      unfolding new_dl_state_def other [OF that(2)] same_blocksD(1) [OF sb] ..
    ultimately show ?thesis using other [OF that(2)] by (simp add: settled_def)
  qed
  have here: "settled t d" if "d \<in> in_download s" "dindex d = i" "0 < total_blocks ?d" for d
  proof -
    have "d = ?d" using entry_unique [OF inv(2) that(1) it(5)] it(3) that(2) by simp
    with ti that new_dl_state_stable [of d s t] it(6) same_blocksD(1) [OF sb] show ?thesis by (simp add: settled_def)
  qed
  have "queues_ok t" using ins(1) mv(2) by simp
  then show "dl_inv {i} t" "0 < total_blocks ?d \<Longrightarrow> dl_inv {} t"
    using inv(1,3,4) elsewhere here D same_blocksD [OF sb] unfolding dl_inv_def by auto
qed

lemma update_piece_state_move:
  assumes "dindex (dl_at s it) = i" and "pstate (piece_at s i) \<noteq> piece_open"
    and "new_dl_state s (dl_at s it) \<noteq> pstate (piece_at s i)" and "new_dl_state s (dl_at s it) \<noteq> piece_open"
    and "move_dl it s = (it1, s3)" and "update_piece_state it s = (it', t)"
  shows "it' = it1" and "works t = works s3"
proof -
  let ?t = "if m_dirty s3 then s3 else if prio_of s i = -1 \<and> prio_of s3 i \<noteq> -1 then add i s3
    else if prio_of s i \<noteq> -1 then update (prio_of s i) (pindex (piece_at s3 i)) s3 else s3"
  have "update_piece_state it s = (it1, ?t)"
    using assms(1-5) unfolding update_piece_state_def move_dl_def Let_def
    by (auto simp: prio_of_def dl_erase_def Let_def)
  with assms(6) show "it' = it1" "works t = works s3" by auto
qed

lemma same_blocks_works: "works t = works s \<Longrightarrow> same_blocks s t"
  using works_eqD [of t s] by (simp add: same_blocks_def)

lemma same_blocks_trans: "same_blocks s t \<Longrightarrow> same_blocks t u \<Longrightarrow> same_blocks s u"
  by (simp add: same_blocks_def)

text \<open>\<open>update_piece_state\<close> brings the state of the piece up to date and keeps its download.\<close>

lemma update_piece_state_inv:
  assumes "dl_inv {i} s" and "dl_iter_of i s = Some it" and "update_piece_state it s = (it', t)"
  shows "dl_inv {i} t" and "0 < total_blocks (dl_at s it) \<Longrightarrow> dl_inv {} t"
    and "dl_iter_of i t = Some it'" and "dl_at t it' = dl_at s it" and "in_download t = in_download s" and "same_blocks s t"
proof -
  note inv = dl_invD [OF assms(1)] and it = iterD [OF dl_invD(2) [OF assms(1)] assms(2)]
  let ?d = "dl_at s it" let ?new = "new_dl_state s (dl_at s it)"
  have st: "pstate (piece_at s i) \<noteq> piece_open" using it(7) by (auto simp: download_queue_def)
  have "dl_inv {i} t \<and> (0 < total_blocks ?d \<longrightarrow> dl_inv {} t)
    \<and> dl_iter_of i t = Some it' \<and> dl_at t it' = ?d \<and> in_download t = in_download s \<and> same_blocks s t"
  proof (cases "?new = pstate (piece_at s i) \<or> ?new = piece_open")
    case True
    then have t: "it' = it" "t = s" using assms(3) it(3) st by (auto simp: update_piece_state_def Let_def)
    have "settled s d" if "0 < total_blocks ?d" "d \<in> in_download s" for d
      using inv(5) [OF that(2)] entry_unique [OF inv(2) that(2) it(5)] it(3) True new_dl_state_queue [OF that(1), of s] that(1)
      by (cases "dindex d = i") (auto simp: settled_def)
    with assms(1,2) t show ?thesis by (auto simp: dl_inv_def same_blocks_def)
  next
    case False
    then have new: "?new \<noteq> pstate (piece_at s i)" "?new \<noteq> piece_open" by simp_all
    obtain it1 s3 where mv: "move_dl it s = (it1, s3)" by (rule prod.exhaust)
    note m = move_dl_inv [OF assms(1,2) new(2) mv]
    note u = update_piece_state_move [OF it(3) st new mv assms(3)]
    have "i < num_pieces t" using works_eqD(6) [OF u(2)] m(6) it(6) by (simp add: same_blocks_def)
    then show ?thesis
      using m(1,2,3,4,5) u(1) works_queues [OF u(2)] dl_inv_works [OF u(2) [symmetric]]
        same_blocks_trans [OF m(6) same_blocks_works [OF u(2)]] by auto
  qed
  then show "dl_inv {i} t" "0 < total_blocks ?d \<Longrightarrow> dl_inv {} t"
    "dl_iter_of i t = Some it'" "dl_at t it' = ?d" "in_download t = in_download s" "same_blocks s t" by simp_all
qed

section \<open>Changing a block\<close>

lemma length_filter_upd:
  assumes "j < n" and "\<And>k. k < n \<Longrightarrow> k \<noteq> j \<Longrightarrow> P k = Q k"
  shows "length (filter P [0..<n]) + (if Q j then 1 else 0) = length (filter Q [0..<n]) + (if P j then 1 else 0)"
  using assms
proof (induction n)
  case (Suc n)
  show ?case
  proof (cases "j = n")
    case True
    with Suc.prems(2) have "filter P [0..<n] = filter Q [0..<n]" by (intro filter_cong) auto
    with True show ?thesis by simp
  next
    case False
    with Suc have "length (filter P [0..<n]) + (if Q j then 1 else 0) = length (filter Q [0..<n]) + (if P j then 1 else 0)" by simp
    moreover have "P n = Q n" using Suc.prems False by blast
    ultimately show ?thesis by (cases "P j"; cases "Q j") simp_all
  qed
qed simp

lemma blocks_fit:
  assumes "sizes_ok s"
  shows "0 < blocks_in_piece s i" and "blocks_in_piece s i \<le> m_blocks_per_piece s" and "blocks_in_piece s i \<le> 32767"
  using assms by (auto simp: sizes_ok_def blocks_in_piece_def)

lemma slot_room:
  assumes "slots_ok s" and "sizes_ok s" and "d \<in> in_download s" and "j < blocks_in_piece s i"
  shows "blocks_begin s d + j < length (m_block_info s)"
proof -
  obtain k where k: "length (m_block_info s) = k * m_blocks_per_piece s" "info_idx d < k"
    using assms(1,3) by (auto simp: slots_ok_def)
  have "info_idx d * m_blocks_per_piece s + j < (info_idx d + 1) * m_blocks_per_piece s"
    using assms(4) blocks_fit(2) [OF assms(2), of i] by simp
  also have "\<dots> \<le> k * m_blocks_per_piece s" using k(2) by (intro mult_right_mono) simp_all
  finally show ?thesis by (simp add: k(1) blocks_begin_def)
qed

lemma slot_position:
  assumes "sizes_ok s" and "info_idx d * m_blocks_per_piece s + j = info_idx e * m_blocks_per_piece s + k"
    and "j < m_blocks_per_piece s" and "k < m_blocks_per_piece s"
  shows "info_idx d = info_idx e" and "j = k"
proof -
  have "(info_idx d * m_blocks_per_piece s + j) div m_blocks_per_piece s = info_idx d"
    "(info_idx e * m_blocks_per_piece s + k) div m_blocks_per_piece s = info_idx e" using assms(3,4) by simp_all
  with assms(2) show "info_idx d = info_idx e" by simp
  with assms(2) show "j = k" by simp
qed

lemma block_at_set:
  assumes "sizes_ok s" and "slots_ok s" and "d \<in> in_download s" and "e \<in> in_download s"
    and "j < blocks_in_piece s (dindex d)" and "k < blocks_in_piece s (dindex e)"
  shows "block_at (set_block d j f s) e k = (if e = d \<and> k = j then f (block_at s d j) else block_at s e k)"
proof -
  have len: "j < m_blocks_per_piece s" "k < m_blocks_per_piece s"
    using assms(5,6) blocks_fit(2) [OF assms(1)] by (meson order_less_le_trans)+
  have same: "e = d \<and> k = j" if "blocks_begin s d + j = blocks_begin s e + k"
    using slot_position [OF assms(1), of d j e k] that len assms(2-4)
    by (auto simp: blocks_begin_def slots_ok_def dest: inj_onD)
  have "blocks_begin (set_block d j f s) e = blocks_begin s e" by (simp add: blocks_begin_def set_block_def)
  moreover have "blocks_begin s d + j < length (m_block_info s)" by (rule slot_room [OF assms(2,1,3,5)])
  ultimately show ?thesis using same by (auto simp: block_at_def set_block_def nth_list_update)
qed

lemma block_count_set:
  assumes "sizes_ok s" and "slots_ok s" and "d \<in> in_download s" and "j < blocks_in_piece s (dindex d)"
  shows "e \<in> in_download s \<Longrightarrow> e \<noteq> d \<Longrightarrow> block_count st (set_block d j f s) e = block_count st s e"
    and "block_count st (set_block d j f s) d + (if bstate (block_at s d j) = st then 1 else 0)
       = block_count st s d + (if bstate (f (block_at s d j)) = st then 1 else 0)"
proof -
  have bl: "blocks_in_piece (set_block d j f s) = blocks_in_piece s" by (intro ext) (simp add: blocks_in_piece_def set_block_def)
  show "block_count st (set_block d j f s) e = block_count st s e" if "e \<in> in_download s" "e \<noteq> d"
    unfolding block_count_def bl
    by (rule arg_cong [where f = length], rule filter_cong) (use block_at_set [OF assms(1-3) that(1) assms(4)] that(2) in auto)
  show "block_count st (set_block d j f s) d + (if bstate (block_at s d j) = st then 1 else 0)
    = block_count st s d + (if bstate (f (block_at s d j)) = st then 1 else 0)"
    unfolding block_count_def bl
    using length_filter_upd [OF assms(4), of "\<lambda>k. bstate (block_at (set_block d j f s) d k) = st" "\<lambda>k. bstate (block_at s d k) = st"]
      block_at_set [OF assms(1-3,3,4)] assms(4) by simp
qed

lemma block_count_le: "block_count st s d \<le> blocks_in_piece s (dindex d)"
  unfolding block_count_def by (metis length_filter_le length_upt minus_nat.diff_0)

lemma block_count_pos: "j < blocks_in_piece s (dindex d) \<Longrightarrow> bstate (block_at s d j) = st \<Longrightarrow> 0 < block_count st s d"
  unfolding block_count_def by (force simp: filter_empty_conv)

lemma block_count_less:
  assumes "j < blocks_in_piece s (dindex d)" and "bstate (block_at s d j) \<noteq> st"
  shows "block_count st s d < blocks_in_piece s (dindex d)"
  unfolding block_count_def
  using length_filter_less [of j "[0..<blocks_in_piece s (dindex d)]" "\<lambda>k. bstate (block_at s d k) = st"] assms by simp

text \<open>The counters never leave their 15 bits.\<close>

lemma counter_steps:
  assumes "sizes_ok s" and "counted s d" and "j < blocks_in_piece s (dindex d)"
  shows "bstate (block_at s d j) \<noteq> state_requested \<Longrightarrow> bits_inc 15 (requested d) = requested d + 1"
    and "bstate (block_at s d j) \<noteq> state_writing \<Longrightarrow> bits_inc 15 (writing d) = writing d + 1"
    and "bstate (block_at s d j) \<noteq> state_finished \<Longrightarrow> bits_inc 15 (finished d) = finished d + 1"
    and "bstate (block_at s d j) = state_requested \<Longrightarrow> bits_dec 15 (requested d) = requested d - 1 \<and> 0 < requested d"
    and "bstate (block_at s d j) = state_writing \<Longrightarrow> bits_dec 15 (writing d) = writing d - 1 \<and> 0 < writing d"
proof -
  have lim: "block_count st s d < 2 ^ 15" for st
    using block_count_le [of st s d] blocks_fit(3) [OF assms(1), of "dindex d"] by simp
  have inc: "bits_inc 15 (block_count st s d) = block_count st s d + 1" if "bstate (block_at s d j) \<noteq> st" for st
    using block_count_less [OF assms(3) that] blocks_fit(3) [OF assms(1), of "dindex d"] by (simp add: bits_inc_def)
  have dec: "bits_dec 15 (block_count st s d) = block_count st s d - 1 \<and> 0 < block_count st s d"
    if "bstate (block_at s d j) = st" for st
    using block_count_pos [OF assms(3) that] lim by simp
  show "bstate (block_at s d j) \<noteq> state_requested \<Longrightarrow> bits_inc 15 (requested d) = requested d + 1"
    "bstate (block_at s d j) \<noteq> state_writing \<Longrightarrow> bits_inc 15 (writing d) = writing d + 1"
    "bstate (block_at s d j) \<noteq> state_finished \<Longrightarrow> bits_inc 15 (finished d) = finished d + 1"
    "bstate (block_at s d j) = state_requested \<Longrightarrow> bits_dec 15 (requested d) = requested d - 1 \<and> 0 < requested d"
    "bstate (block_at s d j) = state_writing \<Longrightarrow> bits_dec 15 (writing d) = writing d - 1 \<and> 0 < writing d"
    using inc dec assms(2) by (simp_all add: counted_def)
qed

text \<open>What a change of the state of a block has to do to the counters of its download.\<close>

definition turns :: "block_state \<Rightarrow> block_state \<Rightarrow> downloading_piece \<Rightarrow> downloading_piece \<Rightarrow> bool" where
  "turns old new d d' \<longleftrightarrow> dindex d' = dindex d \<and> info_idx d' = info_idx d
     \<and> requested d' + (if old = state_requested then 1 else 0) = requested d + (if new = state_requested then 1 else 0)
     \<and> writing d' + (if old = state_writing then 1 else 0) = writing d + (if new = state_writing then 1 else 0)
     \<and> finished d' + (if old = state_finished then 1 else 0) = finished d + (if new = state_finished then 1 else 0)"

lemma block_count_cong: "info_idx d = info_idx e \<Longrightarrow> dindex d = dindex e \<Longrightarrow> block_count st s d = block_count st s e"
  by (simp add: block_count_def block_at_def blocks_begin_def)

lemma set_block_view [simp]:
  "m_downloads (set_block d j f s) = m_downloads s" "m_piece_map (set_block d j f s) = m_piece_map s"
  "dl_iter_of i (set_block d j f s) = dl_iter_of i s" "queues_but X (set_block d j f s) = queues_but X s"
  "sizes_ok (set_block d j f s) = sizes_ok s" "slots_ok (set_block d j f s) = slots_ok s"
  by (simp_all add: set_block_def dl_iter_of_def find_dl_piece_def queues_but_def sizes_ok_def slots_ok_def in_download_def Let_def)

lemma dl_modify_view [simp]:
  "m_block_info (dl_modify it g s) = m_block_info s" "m_free_block_infos (dl_modify it g s) = m_free_block_infos s"
  "block_at (dl_modify it g s) = block_at s" "blocks_in_piece (dl_modify it g s) = blocks_in_piece s"
  "sizes_ok (dl_modify it g s) = sizes_ok s" "block_count st (dl_modify it g s) = block_count st s"
  "m_blocks_per_piece (dl_modify it g s) = m_blocks_per_piece s"
  by (intro ext | simp add: dl_modify_def block_at_def blocks_begin_def blocks_in_piece_def sizes_ok_def block_count_def)+

lemma slots_ok_modify:
  assumes "slots_ok s" and "in_download t = insert e (in_download s - {d})" and "d \<in> in_download s" and "info_idx e = info_idx d"
    and "m_free_block_infos t = m_free_block_infos s" "length (m_block_info t) = length (m_block_info s)" "m_blocks_per_piece t = m_blocks_per_piece s"
  shows "slots_ok t"
proof -
  have img: "info_idx ` in_download t = info_idx ` in_download s" using assms(2-4) by (force simp: insert_absorb)
  have inj: "inj_on info_idx (in_download s)" using assms(1) by (simp add: slots_ok_def)
  then have "inj_on info_idx (in_download t)"
    unfolding assms(2) using assms(3,4) by (auto simp: inj_on_def)
  with assms(1,5-7) img show ?thesis by (simp add: slots_ok_def)
qed

lemma turn_block:
  assumes "dl_inv X s" and "dl_iter_of i s = Some it" and "j < blocks_in_piece s i"
    and "turns (bstate (block_at s (dl_at s it) j)) (bstate (f (block_at s (dl_at s it) j))) (dl_at s it) (g (dl_at s it))"
    and "t = dl_modify it g (set_block (dl_at s it) j f s)"
  shows "dl_inv (insert i X) t" and "dl_iter_of i t = Some it" and "dl_at t it = g (dl_at s it)"
    and "in_download t = insert (g (dl_at s it)) (in_download s - {dl_at s it})"
    and "requested (g (dl_at s it)) = requested (dl_at s it) \<Longrightarrow> writing (g (dl_at s it)) = writing (dl_at s it)
      \<Longrightarrow> finished (g (dl_at s it)) = finished (dl_at s it) \<Longrightarrow> dl_inv X t"
proof -
  note inv = dl_invD [OF assms(1)] and it = iterD [OF dl_invD(2) [OF assms(1)] assms(2)]
  let ?d = "dl_at s it" let ?u = "set_block ?d j f s"
  have u: "dl_at ?u it = ?d" "queues_ok ?u" "dl_iter_of i ?u = Some it" using inv(2) assms(2) by simp_all
  have g: "dindex (g (dl_at ?u it)) = i" "info_idx (g ?d) = info_idx ?d" using assms(4) it(3) by (simp_all add: turns_def)
  note m = modify_download [OF u(2,3), of g, OF g(1)]
  show iter: "dl_iter_of i t = Some it" "dl_at t it = g ?d" using m(3,4) assms(5) by simp_all
  show D: "in_download t = insert (g ?d) (in_download s - {?d})" using m(2) assms(5) by simp
  have j: "j < blocks_in_piece s (dindex ?d)" using assms(3) it(3) by simp
  note bc = block_count_set [OF inv(1,3) it(5) j, where f = f]
  have cnt: "block_count st t = block_count st ?u" for st by (simp add: assms(5))
  have new: "counted t (g ?d)"
  proof -
    have "block_count st t (g ?d) = block_count st ?u ?d" for st
      unfolding cnt using g it(3) by (intro block_count_cong) simp_all
    then show ?thesis
      using bc(2) [of state_requested] bc(2) [of state_writing] bc(2) [of state_finished] inv(4) [OF it(5)] assms(4)
      by (auto simp: counted_def turns_def)
  qed
  have old: "counted t e" if "e \<in> in_download s" "e \<noteq> ?d" for e
    using bc(1) [OF that] inv(4) [OF that(1)] by (simp add: counted_def cnt)
  have pm: "m_piece_map t = m_piece_map s" "blocks_in_piece t = blocks_in_piece s"
    by (simp_all add: assms(5)) (intro ext, simp add: blocks_in_piece_def set_block_def)
  have st: "settled t e = settled s e" for e
    unfolding settled_def new_dl_state_def pm ..
  have sl: "slots_ok t" by (rule slots_ok_modify [OF inv(3) D it(5) g(2)]) (simp_all add: assms(5), simp_all add: set_block_def)
  have idx: "dindex e \<noteq> i" if "e \<in> in_download s" "e \<noteq> ?d" for e
    using entry_unique [OF inv(2) that(1) it(5)] that(2) it(3) by auto
  have base: "sizes_ok t \<and> queues_ok t \<and> slots_ok t" using inv(1) m(1) sl assms(5) by simp
  show "dl_inv (insert i X) t"
    using base new old inv(5) idx g(1) u(1) unfolding dl_inv_def st D by auto
  show "dl_inv X t" if c: "requested (g ?d) = requested ?d" "writing (g ?d) = writing ?d" "finished (g ?d) = finished ?d"
  proof -
    have "settled s (g ?d) = settled s ?d" using c g(1) u(1) it(3) by (simp add: settled_def new_dl_state_def Let_def)
    moreover have "settled s ?d" if "i \<notin> X" using inv(5) [OF it(5)] it(3) that by simp
    ultimately show ?thesis using base new old inv(5) g(1) u(1) unfolding dl_inv_def st D by auto
  qed
qed

lemma set_block_same:
  assumes "\<And>b. bstate (f b) = bstate b" and "dl_inv X s" and "dl_iter_of i s = Some it" and "j < blocks_in_piece s i"
  shows "dl_inv X (set_block (dl_at s it) j f s)"
proof -
  have "dl_modify it (\<lambda>d. d) (set_block (dl_at s it) j f s) = set_block (dl_at s it) j f s"
    by (simp add: dl_modify_def dl_at_def)
  with turn_block(5) [OF assms(2-4), of f "\<lambda>d. d", OF _ refl] assms(1) show ?thesis by (simp add: turns_def)
qed

lemma dl_modify_same:
  assumes "dl_inv X s" and "dl_iter_of i s = Some it"
    and "dindex (g (dl_at s it)) = dindex (dl_at s it)" "info_idx (g (dl_at s it)) = info_idx (dl_at s it)"
    "requested (g (dl_at s it)) = requested (dl_at s it)" "writing (g (dl_at s it)) = writing (dl_at s it)"
    "finished (g (dl_at s it)) = finished (dl_at s it)"
  shows "dl_inv X (dl_modify it g s)" and "dl_iter_of i (dl_modify it g s) = Some it"
    and "in_download (dl_modify it g s) = insert (g (dl_at s it)) (in_download s - {dl_at s it})"
proof -
  let ?d = "dl_at s it"
  note inv = dl_invD [OF assms(1)] and it = iterD [OF dl_invD(2) [OF assms(1)] assms(2)]
  have "0 < blocks_in_piece s i" using blocks_fit(1) [OF inv(1)] .
  moreover have "set_block ?d 0 (\<lambda>b. b) s = s" by (simp add: set_block_def block_at_def)
  ultimately show "dl_inv X (dl_modify it g s)" "dl_iter_of i (dl_modify it g s) = Some it"
    "in_download (dl_modify it g s) = insert (g ?d) (in_download s - {?d})"
    using turn_block [OF assms(1,2), of 0 "\<lambda>b. b" g, OF _ _ refl] assms(3-7) by (simp_all add: turns_def)
qed

section \<open>The end of a download\<close>

lemma queues_but_cong:
  assumes "m_downloads s = m_downloads t" and "num_pieces s = num_pieces t"
    and "\<And>i. i < num_pieces s \<Longrightarrow> download_queue (piece_at s i) = download_queue (piece_at t i)"
  shows "queues_but X s = queues_but X t"
proof -
  have "{i. i < num_pieces s \<and> i \<notin> X \<and> q \<noteq> piece_open \<and> download_queue (piece_at s i) = q}
    = {i. i < num_pieces t \<and> i \<notin> X \<and> q \<noteq> piece_open \<and> download_queue (piece_at t i) = q}" for q
    by (intro Collect_cong) (use assms in auto)
  with assms(1) show ?thesis by (simp add: queues_but_def)
qed

text \<open>Two states in which a download has the same blocks and its piece the same state.\<close>

lemma counted_cong: "block_at t d = block_at s d \<Longrightarrow> blocks_in_piece t = blocks_in_piece s \<Longrightarrow> counted t d = counted s d"
  by (simp add: counted_def block_count_def)

lemma settled_cong:
  "pstate (piece_at t (dindex d)) = pstate (piece_at s (dindex d)) \<Longrightarrow>
   filtered (piece_at t (dindex d)) = filtered (piece_at s (dindex d)) \<Longrightarrow>
   blocks_in_piece t = blocks_in_piece s \<Longrightarrow> settled t d = settled s d"
  by (simp add: settled_def new_dl_state_def is_reverse_def Let_def)

lemma erase_inv:
  assumes "dl_inv X s" and "dl_iter_of i s = Some it" and "t = erase_download_piece it s"
  shows "dl_inv (X - {i}) t" and "in_download t = in_download s - {dl_at s it}"
    and "j \<noteq> i \<Longrightarrow> piece_at t j = piece_at s j" and "piece_at t i = (piece_at s i)\<lparr>pstate := piece_open\<rparr>"
    and "num_pieces t = num_pieces s"
proof -
  note inv = dl_invD [OF assms(1)] and it = iterD [OF dl_invD(2) [OF assms(1)] assms(2)]
  let ?d = "dl_at s it"
  have it_eq: "(download_queue (piece_at s i), snd it) = it" using it(1) by (metis prod.collapse)
  have t: "t = dl_erase it (set_piece i (\<lambda>p. p\<lparr>pstate := piece_open\<rparr>) (s\<lparr>m_free_block_infos := m_free_block_infos s @ [info_idx ?d]\<rparr>))"
    unfolding assms(3) erase_download_piece_def Let_def it(3) it_eq ..
  let ?m = "set_piece i (\<lambda>p. p\<lparr>pstate := piece_open\<rparr>) (dl_erase it s)"
  have dm: "m_downloads t = m_downloads ?m" "m_piece_map t = m_piece_map ?m" "m_block_info t = m_block_info s"
    "m_free_block_infos t = m_free_block_infos s @ [info_idx ?d]" "m_blocks_per_piece t = m_blocks_per_piece s"
    "m_blocks_in_last_piece t = m_blocks_in_last_piece s"
    by (simp_all add: t dl_erase_def set_piece_def Let_def)
  show pieces: "j \<noteq> i \<Longrightarrow> piece_at t j = piece_at s j" "piece_at t i = (piece_at s i)\<lparr>pstate := piece_open\<rparr>"
    "num_pieces t = num_pieces s" for j
    using it(6) by (simp_all add: dm(2) set_piece_def)
  note er = erase_entry [OF inv(2) assms(2)]
  have "queues_but {i} ?m" by (rule queues_but_state [OF er(1)]) simp
  then have "queues_but ({i} - {i}) ?m"
    by (rule queues_but_open(1)) (use it(6) in \<open>auto simp: set_piece_def download_queue_def\<close>)
  then have q: "queues_ok t" using queues_but_cong [of t ?m] dm(1,2) by simp
  have "in_download t = in_download ?m" unfolding in_download_def dm(1) ..
  then show D: "in_download t = in_download s - {?d}" using er(2) by simp
  have bl: "blocks_in_piece t = blocks_in_piece s" "block_at t = block_at s"
    by (intro ext; simp add: blocks_in_piece_def block_at_def blocks_begin_def dm pieces)+
  have ne: "dindex e \<noteq> i" if "e \<in> in_download t" for e
    using that D entry_unique [OF inv(2) _ it(5), of e] it(3) by auto
  have "counted t e \<and> (dindex e \<notin> X - {i} \<longrightarrow> settled t e)" if e: "e \<in> in_download t" for e
  proof -
    have "counted t e = counted s e" "settled t e = settled s e"
      using counted_cong [of t e s] settled_cong [of t e s] bl pieces(1) [OF ne [OF e]] by simp_all
    with e D ne [OF e] inv(4,5) show ?thesis by auto
  qed
  moreover have "slots_ok t"
  proof -
    have "info_idx ` in_download t = info_idx ` in_download s - {info_idx ?d}"
      using inv(3) it(5) unfolding D slots_ok_def by (simp add: inj_on_image_set_diff [where C = "in_download s"])
    moreover have "inj_on info_idx (in_download t)" using inv(3) unfolding D slots_ok_def by (auto intro: inj_on_subset)
    ultimately show ?thesis using inv(3) it(5) unfolding slots_ok_def dm by auto
  qed
  moreover have "sizes_ok t" using inv(1) by (simp add: sizes_ok_def dm)
  ultimately show "dl_inv (X - {i}) t" using q by (simp add: dl_inv_def)
qed

section \<open>A new download\<close>

lemma init_blocks_spec:
  assumes "init_blocks pad_bits first pf n infos fin = (infos', fin')" and "first + n \<le> length infos" and "fin + n < 2 ^ 15"
  shows "length infos' = length infos" and "k < first \<or> first + n \<le> k \<Longrightarrow> infos' ! k = infos ! k"
    and "k < n \<Longrightarrow> bstate (infos' ! (first + k)) = state_none \<or> bstate (infos' ! (first + k)) = state_finished"
    and "fin' = fin + length (filter (\<lambda>k. bstate (infos' ! (first + k)) = state_finished) [0..<n])"
proof -
  have "length infos' = length infos \<and> (\<forall>k. k < first \<or> first + n \<le> k \<longrightarrow> infos' ! k = infos ! k)
    \<and> (\<forall>k<n. bstate (infos' ! (first + k)) = state_none \<or> bstate (infos' ! (first + k)) = state_finished)
    \<and> fin' = fin + length (filter (\<lambda>k. bstate (infos' ! (first + k)) = state_finished) [0..<n])"
    using assms
  proof (induction n arbitrary: first pf infos fin)
    case (Suc n)
    let ?pad = "pad_bits \<noteq> [] \<and> pad_bits ! pf"
    define b where "b = \<lparr>bpeer = None, num_peers_of = 0, bstate = (if ?pad then state_finished else state_none)\<rparr>"
    let ?fin = "if ?pad then bits_inc 15 fin else fin"
    have fin: "?fin = fin + (if ?pad then 1 else 0)" using Suc.prems(3) by simp
    have "init_blocks pad_bits (first + 1) (pf + 1) n (infos[first := b]) ?fin = (infos', fin')"
      using Suc.prems(1) by (simp add: Let_def b_def)
    moreover have "first + 1 + n \<le> length (infos[first := b])" using Suc.prems(2) by simp
    moreover have "?fin + n < 2 ^ 15" using Suc.prems(3) unfolding fin by simp
    ultimately have "length infos' = length (infos[first := b])
      \<and> (\<forall>k. k < first + 1 \<or> first + 1 + n \<le> k \<longrightarrow> infos' ! k = infos[first := b] ! k)
      \<and> (\<forall>k<n. bstate (infos' ! (first + 1 + k)) = state_none \<or> bstate (infos' ! (first + 1 + k)) = state_finished)
      \<and> fin' = ?fin + length (filter (\<lambda>k. bstate (infos' ! (first + 1 + k)) = state_finished) [0..<n])"
      by (rule Suc.IH)
    then have IH: "length infos' = length (infos[first := b])" "\<And>k. k < first + 1 \<or> first + 1 + n \<le> k \<Longrightarrow> infos' ! k = infos[first := b] ! k"
      "\<And>k. k < n \<Longrightarrow> bstate (infos' ! (first + 1 + k)) = state_none \<or> bstate (infos' ! (first + 1 + k)) = state_finished"
      "fin' = ?fin + length (filter (\<lambda>k. bstate (infos' ! (first + 1 + k)) = state_finished) [0..<n])"
      by blast+
    have b: "infos' ! first = b" "bstate b = (if ?pad then state_finished else state_none)"
      using IH(2) [of first] Suc.prems(2) by (simp_all add: b_def)
    have "[0..<Suc n] = 0 # map Suc [0..<n]" by (simp add: map_Suc_upt upt_conv_Cons del: upt_Suc)
    then have flt: "length (filter (\<lambda>k. bstate (infos' ! (first + k)) = state_finished) [0..<Suc n])
      = (if ?pad then 1 else 0) + length (filter (\<lambda>k. bstate (infos' ! (first + 1 + k)) = state_finished) [0..<n])"
      by (simp add: b filter_map o_def del: upt_Suc)
    have "bstate (infos' ! (first + k)) = state_none \<or> bstate (infos' ! (first + k)) = state_finished" if "k < Suc n" for k
      using that IH(3) [of "k - 1"] b by (cases k) auto
    moreover have "infos' ! k = infos ! k" if "k < first \<or> first + Suc n \<le> k" for k
      using IH(2) [of k] that by auto
    ultimately show ?case using IH(1,4) flt fin by (simp del: upt_Suc)
  qed simp
  then show "length infos' = length infos" "k < first \<or> first + n \<le> k \<Longrightarrow> infos' ! k = infos ! k"
    "k < n \<Longrightarrow> bstate (infos' ! (first + k)) = state_none \<or> bstate (infos' ! (first + k)) = state_finished"
    "fin' = fin + length (filter (\<lambda>k. bstate (infos' ! (first + k)) = state_finished) [0..<n])" by blast+
qed

text \<open>There is a slot for one more download.\<close>

definition slot_free :: "piece_picker \<Rightarrow> bool" where
  "slot_free s \<longleftrightarrow> m_free_block_infos s \<noteq> [] \<or> length (m_block_info s) div m_blocks_per_piece s < 2 ^ 16"

text \<open>A piece that has left the open state, but whose download is not set up yet.\<close>

definition opening_piece :: "nat \<Rightarrow> piece_picker \<Rightarrow> bool" where
  "opening_piece i s \<longleftrightarrow> sizes_ok s \<and> slots_ok s \<and> queues_but {i} s \<and> i < num_pieces s
     \<and> download_queue (piece_at s i) = piece_downloading \<and> slot_free s
     \<and> (\<forall>d\<in>in_download s. counted s d \<and> settled s d)"

lemma opening_other: "opening_piece i s \<Longrightarrow> d \<in> in_download s \<Longrightarrow> dindex d \<noteq> i \<and> dindex d < num_pieces s"
  by (auto simp: opening_piece_def queues_but_def in_download_def)

text \<open>The slot \<open>add_download_piece\<close> takes: the last one of the free list, or a new one at the end.\<close>

definition take_slot :: "piece_picker \<Rightarrow> nat \<times> piece_picker" where
  "take_slot s =
     (if m_free_block_infos s = []
      then (length (m_block_info s) div m_blocks_per_piece s,
            s\<lparr>m_block_info := m_block_info s @ replicate (m_blocks_per_piece s) new_block_info\<rparr>)
      else (last (m_free_block_infos s), s\<lparr>m_free_block_infos := butlast (m_free_block_infos s)\<rparr>))"

lemma take_slot_spec:
  assumes "sizes_ok s" and "slots_ok s" and "slot_free s" and "take_slot s = (x, t)"
  shows "x < 2 ^ 16" and "x \<notin> info_idx ` in_download s" and "x \<notin> set (m_free_block_infos t)"
    and "slots_ok t" and "(x + 1) * m_blocks_per_piece s \<le> length (m_block_info t)"
    and "m_downloads t = m_downloads s" and "m_piece_map t = m_piece_map s" and "m_blocks_per_piece t = m_blocks_per_piece s"
    and "m_blocks_in_last_piece t = m_blocks_in_last_piece s" and "m_pad_blocks t = m_pad_blocks s"
    and "k < length (m_block_info s) \<Longrightarrow> m_block_info t ! k = m_block_info s ! k"
    and "\<exists>k\<le>2 ^ 16. length (m_block_info t) = k * m_blocks_per_piece s \<and> x < k \<and> (\<forall>y\<in>set (m_free_block_infos t) \<union> info_idx ` in_download s. y < k)"
proof -
  obtain k where k: "k \<le> 2 ^ 16" "length (m_block_info s) = k * m_blocks_per_piece s"
    "\<forall>y\<in>set (m_free_block_infos s) \<union> info_idx ` in_download s. y < k"
    using assms(2) by (auto simp: slots_ok_def)
  have b: "0 < m_blocks_per_piece s" using assms(1) by (simp add: sizes_ok_def)
  show "m_downloads t = m_downloads s" "m_piece_map t = m_piece_map s" "m_blocks_per_piece t = m_blocks_per_piece s"
    "m_blocks_in_last_piece t = m_blocks_in_last_piece s" "m_pad_blocks t = m_pad_blocks s"
    "k < length (m_block_info s) \<Longrightarrow> m_block_info t ! k = m_block_info s ! k" for k
    using assms(4) by (auto simp: take_slot_def nth_append split: if_splits)
  have "x < 2 ^ 16 \<and> x \<notin> info_idx ` in_download s \<and> x \<notin> set (m_free_block_infos t) \<and> slots_ok t
    \<and> (\<exists>k\<le>2 ^ 16. length (m_block_info t) = k * m_blocks_per_piece s \<and> x < k \<and> (\<forall>y\<in>set (m_free_block_infos t) \<union> info_idx ` in_download s. y < k))"
  proof (cases "m_free_block_infos s = []")
    case True
    then have x: "x = k" "t = s\<lparr>m_block_info := m_block_info s @ replicate (m_blocks_per_piece s) new_block_info\<rparr>"
      using assms(4) k(2) b by (auto simp: take_slot_def)
    have "k < 2 ^ 16" using assms(3) True k(2) b by (simp add: slot_free_def)
    moreover have "length (m_block_info t) = (k + 1) * m_blocks_per_piece s" using x(2) k(2) by simp
    moreover have "slots_ok t"
      using assms(2) \<open>k < 2 ^ 16\<close> \<open>length (m_block_info t) = (k + 1) * m_blocks_per_piece s\<close> k(3) True x(2)
      unfolding slots_ok_def by (auto intro!: exI [of _ "k + 1"] simp: less_Suc_eq)
    ultimately show ?thesis using k(3) True x by (auto intro!: exI [of _ "k + 1"])
  next
    case False
    then have x: "x = last (m_free_block_infos s)" "t = s\<lparr>m_free_block_infos := butlast (m_free_block_infos s)\<rparr>"
      using assms(4) by (auto simp: take_slot_def)
    have fr: "m_free_block_infos s = butlast (m_free_block_infos s) @ [x]" using False x(1) by simp
    have mem: "set (m_free_block_infos s) = insert x (set (butlast (m_free_block_infos s)))"
      using arg_cong [OF fr, of set] unfolding set_append by simp
    have "distinct (butlast (m_free_block_infos s) @ [x])" using assms(2) fr by (simp add: slots_ok_def)
    then have d: "x \<notin> set (butlast (m_free_block_infos s))" "distinct (butlast (m_free_block_infos s))" by simp_all
    have "x < k" "x \<notin> info_idx ` in_download s" using k(3) assms(2) mem by (auto simp: slots_ok_def)
    moreover have D: "in_download t = in_download s" "m_free_block_infos t = butlast (m_free_block_infos s)"
      "m_block_info t = m_block_info s" "m_blocks_per_piece t = m_blocks_per_piece s" by (simp_all add: x(2) in_download_def)
    moreover have bound: "\<forall>y\<in>set (m_free_block_infos t) \<union> info_idx ` in_download s. y < k" using k(3) mem D(2) by simp
    moreover have "slots_ok t"
      unfolding slots_ok_def D(1,3,4)
    proof (intro conjI exI [of _ k])
      show "inj_on info_idx (in_download s)" using assms(2) by (simp add: slots_ok_def)
      show "distinct (m_free_block_infos t)" using d(2) D(2) by simp
      show "set (m_free_block_infos t) \<inter> info_idx ` in_download s = {}"
        using assms(2) mem D(2) unfolding slots_ok_def by simp
    qed (use k bound in simp_all)
    moreover have "x < 2 ^ 16" using \<open>x < k\<close> k(1) by simp
    ultimately show ?thesis using k(1,2) d(1) by metis
  qed
  then show "x < 2 ^ 16" "x \<notin> info_idx ` in_download s" "x \<notin> set (m_free_block_infos t)" "slots_ok t"
    and len: "\<exists>k\<le>2 ^ 16. length (m_block_info t) = k * m_blocks_per_piece s \<and> x < k \<and> (\<forall>y\<in>set (m_free_block_infos t) \<union> info_idx ` in_download s. y < k)"
    by blast+
  from len obtain k' where "length (m_block_info t) = k' * m_blocks_per_piece s" "x < k'" by blast
  then show "(x + 1) * m_blocks_per_piece s \<le> length (m_block_info t)" by (metis Suc_eq_plus1 Suc_leI mult_le_mono1)
qed

lemma new_entry_inv:
  assumes "opening_piece i s" and "take_slot s = (x, s1)"
    and "init_blocks pad_bits (x * m_blocks_per_piece s) pf (blocks_in_piece s i) (m_block_info s1) 0 = (infos, fin)"
    and "d = new_downloading_piece\<lparr>dindex := i, info_idx := x, finished := fin\<rparr>"
    and "k = dl_lower_bound (m_downloads s piece_downloading) i"
    and "u = dl_insert (piece_downloading, k) d (s1\<lparr>m_block_info := infos\<rparr>)"
  shows "dl_inv {i} u" and "dl_iter_of i u = Some (piece_downloading, k)" and "dl_at u (piece_downloading, k) = d"
    and "in_download u = insert d (in_download s)"
    and "j < blocks_in_piece s i \<Longrightarrow> bstate (block_at u d j) = state_none \<or> bstate (block_at u d j) = state_finished"
    and "m_piece_map u = m_piece_map s" and "blocks_in_piece u = blocks_in_piece s"
proof -
  have op: "sizes_ok s" "slots_ok s" "queues_but {i} s" "i < num_pieces s" "download_queue (piece_at s i) = piece_downloading"
    "slot_free s" "\<And>e. e \<in> in_download s \<Longrightarrow> counted s e \<and> settled s e"
    using assms(1) by (auto simp: opening_piece_def)
  note sl = take_slot_spec [OF op(1,2,6) assms(2)]
  let ?n = "blocks_in_piece s i" let ?v = "s1\<lparr>m_block_info := infos\<rparr>"
  have n: "?n \<le> m_blocks_per_piece s" "?n \<le> 32767" using blocks_fit [OF op(1)] by simp_all
  have "x * m_blocks_per_piece s + ?n \<le> length (m_block_info s1)" using sl(5) n(1) by simp
  moreover have "0 + ?n < 2 ^ 15" using n(2) by simp
  ultimately have ib: "length infos = length (m_block_info s1)"
    "\<And>k. k < x * m_blocks_per_piece s \<or> x * m_blocks_per_piece s + ?n \<le> k \<Longrightarrow> infos ! k = m_block_info s1 ! k"
    "\<And>k. k < ?n \<Longrightarrow> bstate (infos ! (x * m_blocks_per_piece s + k)) = state_none \<or> bstate (infos ! (x * m_blocks_per_piece s + k)) = state_finished"
    "fin = 0 + length (filter (\<lambda>k. bstate (infos ! (x * m_blocks_per_piece s + k)) = state_finished) [0..<?n])"
    using init_blocks_spec [OF assms(3)] by blast+
  have uf: "m_block_info u = infos" "m_free_block_infos u = m_free_block_infos s1" "m_piece_map u = m_piece_map s"
    "m_blocks_per_piece u = m_blocks_per_piece s" "m_blocks_in_last_piece u = m_blocks_in_last_piece s"
    by (simp_all add: assms(6) dl_insert_def Let_def sl)
  show "m_piece_map u = m_piece_map s" by (rule uf)
  show bl: "blocks_in_piece u = blocks_in_piece s" by (intro ext) (simp add: blocks_in_piece_def uf)
  have qv: "queues_but {i} ?v" using op(3) queues_but_cong [of ?v s] by (simp add: sl)
  have v: "i < num_pieces ?v" "download_queue (piece_at ?v i) = piece_downloading" "k = dl_lower_bound (m_downloads ?v piece_downloading) i"
    using op(4,5) assms(5) by (simp_all add: sl)
  have di: "dindex d = i" "info_idx d = x" "requested d = 0" "writing d = 0" "finished d = fin"
    by (simp_all add: assms(4) new_downloading_piece_def)
  note ins = insert_entry [OF qv v(1,2) _ di(1) v(3)]
  show "dl_iter_of i u = Some (piece_downloading, k)" "dl_at u (piece_downloading, k) = d" using ins(3,4) assms(6) by simp_all
  have vD: "in_download ?v = in_download s" by (simp add: in_download_def sl)
  show D: "in_download u = insert d (in_download s)" using ins(2) assms(6) vD by simp
  have at: "block_at u d j = infos ! (x * m_blocks_per_piece s + j)" for j by (simp add: block_at_def blocks_begin_def uf di)
  show "j < ?n \<Longrightarrow> bstate (block_at u d j) = state_none \<or> bstate (block_at u d j) = state_finished" for j
    unfolding at by (rule ib(3))
  have cd: "counted u d"
  proof -
    have no: "filter (\<lambda>j. bstate (infos ! (x * m_blocks_per_piece s + j)) = st) [0..<?n] = []"
      if "st = state_requested \<or> st = state_writing" for st
      using ib(3) that by (force simp: filter_empty_conv)
    show ?thesis unfolding counted_def block_count_def at bl di(1) using no ib(4) di(3-5) by simp
  qed
  have slot: "x * m_blocks_per_piece s + j \<noteq> info_idx e * m_blocks_per_piece s + l"
    if "e \<in> in_download s" "j < m_blocks_per_piece s" "l < m_blocks_per_piece s" for e j l
    using slot_position(1) [OF op(1), of d j e l] that sl(2) di(2) by auto
  have ce: "counted u e \<and> settled u e" if e: "e \<in> in_download s" for e
  proof -
    have pos: "block_at u e l = block_at s e l" if l: "l < blocks_in_piece s (dindex e)" for l
    proof -
      have lb: "l < m_blocks_per_piece s" using l blocks_fit(2) [OF op(1), of "dindex e"] by simp
      let ?p = "info_idx e * m_blocks_per_piece s + l"
      have "?p < x * m_blocks_per_piece s \<or> x * m_blocks_per_piece s + ?n \<le> ?p"
      proof (rule ccontr)
        assume "\<not> (?p < x * m_blocks_per_piece s \<or> x * m_blocks_per_piece s + ?n \<le> ?p)"
        then have "x * m_blocks_per_piece s \<le> ?p" "?p < x * m_blocks_per_piece s + ?n" by linarith+
        then have "?p = x * m_blocks_per_piece s + (?p - x * m_blocks_per_piece s)" "?p - x * m_blocks_per_piece s < m_blocks_per_piece s"
          using n(1) by linarith+
        with slot [OF e _ lb] show False by metis
      qed
      then have "infos ! ?p = m_block_info s1 ! ?p" by (rule ib(2))
      moreover have "?p < length (m_block_info s)" using slot_room [OF op(2,1) e l] by (simp add: blocks_begin_def)
      ultimately show ?thesis using sl(11) by (simp add: block_at_def blocks_begin_def uf)
    qed
    have "block_count st u e = block_count st s e" for st
      unfolding block_count_def bl by (rule arg_cong [where f = length], rule filter_cong) (use pos in auto)
    then have "counted u e = counted s e" by (simp add: counted_def)
    moreover have "settled u e = settled s e" by (rule settled_cong) (simp_all add: uf bl)
    ultimately show ?thesis using op(7) [OF e] by simp
  qed
  have "slots_ok u"
  proof -
    obtain k' where k': "k' \<le> 2 ^ 16" "length (m_block_info s1) = k' * m_blocks_per_piece s" "x < k'"
      "\<forall>y\<in>set (m_free_block_infos s1) \<union> info_idx ` in_download s. y < k'" using sl(12) by (elim exE conjE) (rule that)
    have sD: "in_download s1 = in_download s" by (simp add: in_download_def sl)
    have s1: "inj_on info_idx (in_download s)" "distinct (m_free_block_infos s1)" "set (m_free_block_infos s1) \<inter> info_idx ` in_download s = {}"
      using sl(4) by (simp_all add: slots_ok_def sD)
    show ?thesis unfolding slots_ok_def D uf
    proof (intro conjI exI [of _ k'])
      show "inj_on info_idx (insert d (in_download s))" using s1(1) sl(2) unfolding inj_on_insert di(2) by blast
      show "set (m_free_block_infos s1) \<inter> info_idx ` insert d (in_download s) = {}" using s1(3) sl(3) unfolding image_insert di(2) by blast
      show "\<forall>y\<in>set (m_free_block_infos s1) \<union> info_idx ` insert d (in_download s). y < k'" using k'(3,4) unfolding image_insert di(2) by blast
    qed (use s1(2) k'(1,2) ib(1) in simp_all)
  qed
  moreover have "sizes_ok u" using op(1) by (simp add: sizes_ok_def uf)
  moreover have "queues_ok u" using ins(1) assms(6) by simp
  ultimately show "dl_inv {i} u" using cd ce di(1) unfolding dl_inv_def D by auto
qed

lemma add_download_inv:
  assumes "opening_piece i s" and "add_download_piece i s = (it, t)"
  shows "dl_inv {i} t" and "0 < finished (dl_at t it) \<Longrightarrow> dl_inv {} t" and "dl_iter_of i t = Some it"
    and "requested (dl_at t it) = 0" and "writing (dl_at t it) = 0"
    and "in_download t = insert (dl_at t it) (in_download s)"
    and "j < blocks_in_piece s i \<Longrightarrow> bstate (block_at t (dl_at t it) j) = state_none \<or> bstate (block_at t (dl_at t it) j) = state_finished"
    and "blocks_in_piece t = blocks_in_piece s"
proof -
  have op: "sizes_ok s" "slots_ok s" "slot_free s" using assms(1) by (simp_all add: opening_piece_def)
  obtain x s1 where ts: "take_slot s = (x, s1)" by (rule prod.exhaust)
  note sl = take_slot_spec [OF op ts]
  let ?ret = "new_downloading_piece\<lparr>dindex := i, info_idx := x mod 2 ^ 16\<rparr>"
  let ?k = "dl_lower_bound (m_downloads s1 piece_downloading) i"
  obtain infos fin where ib: "init_blocks (m_pad_blocks s1) (x * m_blocks_per_piece s) (i * m_blocks_per_piece s1) (blocks_in_piece s i) (m_block_info s1) 0 = (infos, fin)"
    by (rule prod.exhaust)
  let ?d = "new_downloading_piece\<lparr>dindex := i, info_idx := x, finished := fin\<rparr>"
  define u where "u = dl_insert (piece_downloading, ?k) ?d (s1\<lparr>m_block_info := infos\<rparr>)"
  have x: "x mod 2 ^ 16 = x" using sl(1) by simp
  have bl: "blocks_in_piece s1 = blocks_in_piece s" by (intro ext) (simp add: blocks_in_piece_def sl)
  have bb: "blocks_begin s1 ?ret = x * m_blocks_per_piece s" using x by (simp add: blocks_begin_def sl)
  have up: "update_piece_state (piece_downloading, ?k) u = (it, t)"
    using assms(2) ts ib x bb unfolding add_download_piece_def take_slot_def [symmetric] u_def
    by (simp add: Let_def bl)
  have k: "?k = dl_lower_bound (m_downloads s piece_downloading) i" by (simp add: sl)
  note e = new_entry_inv [OF assms(1) ts ib refl k u_def]
  note st = update_piece_state_inv [OF e(1,2) up]
  have d: "dl_at t it = ?d" using st(4) e(3) by simp
  show "dl_inv {i} t" "dl_iter_of i t = Some it" using st by simp_all
  show "requested (dl_at t it) = 0" "writing (dl_at t it) = 0" by (simp_all add: d new_downloading_piece_def)
  show "0 < finished (dl_at t it) \<Longrightarrow> dl_inv {} t" using st(2) st(4) by simp
  show "in_download t = insert (dl_at t it) (in_download s)" using st(5) e(4) d by simp
  show "blocks_in_piece t = blocks_in_piece s" using same_blocksD(1) [OF st(6)] e(7) by simp
  show "bstate (block_at t (dl_at t it) j) = state_none \<or> bstate (block_at t (dl_at t it) j) = state_finished"
    if "j < blocks_in_piece s i"
    using e(5) [OF that] same_blocksD(2) [OF st(6)] d by simp
qed

section \<open>The operations keep the downloads\<close>

text \<open>The invariant after an operation that may have made the piece \<open>i\<close> a download.\<close>

abbreviation downloads_ok :: "piece_picker \<Rightarrow> bool" where
  "downloads_ok \<equiv> dl_inv {}"

definition kept :: "nat \<Rightarrow> piece_picker \<Rightarrow> piece_picker \<Rightarrow> bool" where
  "kept i s t \<longleftrightarrow> downloads_ok t \<and> dindex ` in_download t \<subseteq> insert i (dindex ` in_download s)"

lemma kept_works: "works t = works s \<Longrightarrow> kept i u s \<Longrightarrow> kept i u t"
  using dl_inv_works [of s t "{}"] works_queues(2) [of t s] by (simp add: kept_def)

lemma kept_refl: "downloads_ok s \<Longrightarrow> kept i s s"
  by (auto simp: kept_def)

lemma keptI: "downloads_ok t \<Longrightarrow> in_download t = insert d (in_download s - X) \<Longrightarrow> dindex d = i \<Longrightarrow> kept i s t"
  by (auto simp: kept_def)

lemma kept_sub: "downloads_ok t \<Longrightarrow> in_download t \<subseteq> in_download s \<Longrightarrow> kept i s t"
  by (auto simp: kept_def)

lemma kept_step: "kept i s t \<Longrightarrow> kept i t u \<Longrightarrow> kept i s u"
  unfolding kept_def by (meson insert_subset order_trans subset_insertI subset_insert_iff insert_mono Diff_subset order_refl insert_absorb2 subset_insertI2)

lemma update_state_ok:
  assumes "dl_inv {i} s" and "dl_iter_of i s = Some it" and "0 < total_blocks (dl_at s it)"
  shows "downloads_ok (snd (update_piece_state it s))" and "in_download (snd (update_piece_state it s)) = in_download s"
proof -
  obtain it' t where up: "update_piece_state it s = (it', t)" by (rule prod.exhaust)
  note u = update_piece_state_inv [OF assms(1,2) up]
  show "downloads_ok (snd (update_piece_state it s))" "in_download (snd (update_piece_state it s)) = in_download s"
    using u(2) [OF assms(3)] u(5) up by simp_all
qed

lemma update_state_kept:
  assumes "dl_inv {i} s" and "dl_iter_of i s = Some it" and "0 < total_blocks (dl_at s it)"
  shows "kept i s (snd (update_piece_state it s))"
proof -
  obtain it' t where up: "update_piece_state it s = (it', t)" by (rule prod.exhaust)
  note u = update_piece_state_inv [OF assms(1,2) up]
  from u(2) [OF assms(3)] u(5) up show ?thesis by (simp add: kept_sub)
qed

lemma total_pos:
  assumes "counted s d" and "j < blocks_in_piece s (dindex d)" and "bstate (block_at s d j) \<noteq> state_none"
  shows "0 < total_blocks d"
  using assms block_count_pos [OF assms(2), of state_requested] block_count_pos [OF assms(2), of state_writing]
    block_count_pos [OF assms(2), of state_finished] by (cases "bstate (block_at s d j)") (auto simp: counted_def)

lemma set_block_cong: "info_idx d = info_idx e \<Longrightarrow> set_block d j f s = set_block e j f s"
  by (simp add: set_block_def block_at_def blocks_begin_def)

lemma block_at_cong: "info_idx d = info_idx e \<Longrightarrow> block_at s d = block_at s e"
  by (intro ext) (simp add: block_at_def blocks_begin_def)

lemma dl_modify_set_block: "dl_modify it g (set_block d j f s) = set_block d j f (dl_modify it g s)"
  by (simp add: dl_modify_def set_block_def dl_at_def block_at_def blocks_begin_def)

lemma works_open_piece: "works (open_piece i st s) = works (set_piece i (\<lambda>p. p\<lparr>pstate := st\<rparr>) s)"
  by (simp add: open_piece_def Let_def)

lemma works_turn_piece: "works (turn_piece i f s) = works (set_piece i f s)"
  by (simp add: turn_piece_def Let_def)

lemma opening_works:
  assumes "works t = works s" and "opening_piece i s"
  shows "opening_piece i t"
proof -
  note eq = works_eqD [OF assms(1)] works_queues [OF assms(1)]
  have i: "i < num_pieces t" using assms(2) eq(6) by (simp add: opening_piece_def)
  have "sizes_ok t = sizes_ok s" "slots_ok t = slots_ok s" "slot_free t = slot_free s"
    using eq by (simp_all add: sizes_ok_def slots_ok_def slot_free_def)
  moreover have "counted t d \<and> settled t d" if "d \<in> in_download t" for d
  proof -
    have d: "d \<in> in_download s" using that eq by simp
    have n: "dindex d < num_pieces t" using opening_other [OF assms(2) d] eq(6) by simp
    have "counted t d = counted s d" using counted_cong [of t d s] eq by simp
    moreover have "settled t d = settled s d" using settled_cong [of t d s] works_eqD(7,8) [OF assms(1) n] eq by simp
    ultimately show ?thesis using assms(2) d by (simp add: opening_piece_def)
  qed
  moreover have "download_queue (piece_at t i) = download_queue (piece_at s i)"
    by (rule same_queue) (rule works_eqD(7) [OF assms(1) i])
  ultimately show ?thesis using assms(2) i eq by (simp add: opening_piece_def)
qed

lemma set_piece_rest [simp]:
  "m_downloads (set_piece i f s) = m_downloads s" "m_block_info (set_piece i f s) = m_block_info s"
  "m_free_block_infos (set_piece i f s) = m_free_block_infos s" "m_blocks_per_piece (set_piece i f s) = m_blocks_per_piece s"
  "m_blocks_in_last_piece (set_piece i f s) = m_blocks_in_last_piece s"
  by (simp_all add: set_piece_def)

lemma set_piece_blocks [simp]:
  "sizes_ok (set_piece i f s) = sizes_ok s" "slots_ok (set_piece i f s) = slots_ok s" "slot_free (set_piece i f s) = slot_free s"
  "block_at (set_piece i f s) = block_at s" "blocks_in_piece (set_piece i f s) = blocks_in_piece s" "dl_at (set_piece i f s) = dl_at s"
  by (intro ext | simp add: sizes_ok_def slots_ok_def slot_free_def block_at_def blocks_begin_def blocks_in_piece_def dl_at_def)+

lemma open_piece_opening:
  assumes "downloads_ok s" and "i < num_pieces s" and "download_queue (piece_at s i) = piece_open" and "slot_free s"
    and "st = piece_downloading \<or> st = piece_downloading_reverse"
  shows "opening_piece i (open_piece i st s)"
proof -
  note inv = dl_invD [OF assms(1)]
  let ?t = "set_piece i (\<lambda>p. p\<lparr>pstate := st\<rparr>) s"
  have "queues_but ({} \<union> {i}) s" by (rule queues_but_open(2) [OF inv(2)]) (use assms(3) in auto)
  then have q: "queues_but {i} ?t" by (simp add: queues_but_state)
  have "counted ?t d \<and> settled ?t d" if d: "d \<in> in_download s" for d
  proof -
    have "dindex d \<noteq> i"
      using d queues_okD(2) [OF inv(2), of d] assms(3) by (auto simp: in_download_def)
    then have "piece_at ?t (dindex d) = piece_at s (dindex d)" by (simp add: set_piece_def)
    then show ?thesis using inv(4,5) [OF d] counted_cong [of ?t d s] settled_cong [of ?t d s] by simp
  qed
  moreover have "download_queue (piece_at ?t i) = piece_downloading"
    using assms(2,5) by (auto simp: set_piece_def download_queue_def)
  ultimately have "opening_piece i ?t" using q inv(1,3) assms(2,4) by (simp add: opening_piece_def)
  then show ?thesis by (rule opening_works [OF works_open_piece])
qed

text \<open>A change of direction.\<close>

lemma turned_state:
  fixes p :: piece_pos
  assumes "pstate p = (if z then piece_zero_prio else if e then piece_open
      else if l then (if is_reverse p then piece_downloading_reverse else piece_downloading)
      else if r then (if is_reverse p then piece_full_reverse else piece_full) else piece_finished)"
    and "f = make_reverse \<or> f = unreverse"
  shows "pstate (f p) = (if z then piece_zero_prio else if e then piece_open
      else if l then (if is_reverse (f p) then piece_downloading_reverse else piece_downloading)
      else if r then (if is_reverse (f p) then piece_full_reverse else piece_full) else piece_finished)"
  using assms by (cases "pstate p") (auto simp: make_reverse_def unreverse_def is_reverse_def split: if_splits)

lemma turn_piece_inv:
  assumes "dl_inv X s" and "f = make_reverse \<or> f = unreverse"
  shows "dl_inv X (turn_piece i f s)" and "in_download (turn_piece i f s) = in_download s"
    and "k < num_pieces s \<Longrightarrow> dl_iter_of k (turn_piece i f s) = dl_iter_of k s" and "dl_at (turn_piece i f s) = dl_at s"
    and "block_at (turn_piece i f s) = block_at s" and "blocks_in_piece (turn_piece i f s) = blocks_in_piece s"
proof -
  note inv = dl_invD [OF assms(1)]
  let ?t = "set_piece i f s"
  note w = works_turn_piece [of i f s]
  have pc: "piece_at ?t j = (if j = i \<and> j < num_pieces s then f (piece_at s i) else piece_at s j)" for j
    by (cases "j = i"; cases "i < num_pieces s") (simp_all add: set_piece_def list_update_beyond)
  have dq: "download_queue (piece_at ?t j) = download_queue (piece_at s j)" for j
    using assms(2) by (auto simp: pc download_queue_def make_reverse_def unreverse_def split: if_splits)
  have fl: "filtered (piece_at ?t j) = filtered (piece_at s j)" for j
    using assms(2) by (auto simp: pc filtered_def make_reverse_def unreverse_def split: if_splits)
  have q: "queues_ok ?t" using inv(2) queues_but_cong [of ?t s] dq by simp
  have "settled ?t d" if d: "settled s d" for d
  proof -
    have st: "pstate (piece_at s (dindex d)) = new_dl_state s d" using d by (simp add: settled_def)
    show ?thesis
    proof (cases "dindex d = i \<and> i < num_pieces s")
      case True
      then have "piece_at ?t (dindex d) = f (piece_at s (dindex d))" by (simp add: pc)
      then have "pstate (piece_at ?t (dindex d)) = new_dl_state ?t d"
        using turned_state [OF st [unfolded new_dl_state_def Let_def] assms(2)] fl [of "dindex d"]
        by (simp add: new_dl_state_def Let_def)
      with d show ?thesis by (simp add: settled_def)
    next
      case False
      then have "piece_at ?t (dindex d) = piece_at s (dindex d)" by (auto simp: pc)
      with d show ?thesis using settled_cong [of ?t d s] by simp
    qed
  qed
  then have t: "dl_inv X ?t" using inv q counted_cong [of ?t _ s] by (simp add: dl_inv_def)
  then show "dl_inv X (turn_piece i f s)" by (rule dl_inv_works [OF w [symmetric]])
  have n: "num_pieces (turn_piece i f s) = num_pieces s" using works_eqD(6) [OF w] by simp
  show "in_download (turn_piece i f s) = in_download s" "dl_at (turn_piece i f s) = dl_at s"
    "block_at (turn_piece i f s) = block_at s" "blocks_in_piece (turn_piece i f s) = blocks_in_piece s"
    using works_queues(2-5) [OF w] by simp_all
  have "m_downloads (turn_piece i f s) = m_downloads s" using works_eqD(1) [OF w] by simp
  moreover have "download_queue (piece_at (turn_piece i f s) k) = download_queue (piece_at s k)" if "k < num_pieces s"
    using works_eqD(7) [OF w, of k] n dq [of k] same_queue that by metis
  ultimately show "dl_iter_of k (turn_piece i f s) = dl_iter_of k s" if "k < num_pieces s"
    using dl_iter_of_cong that by blast
qed

end
