(* ===== verification/Picker_Protocol.thy ===== *)
theory Picker_Protocol
  imports Picker_Downloads
begin

text \<open>
  The life of a block: every operation of the picker keeps the downloads right, as long as its callers keep
  to the protocol the code asserts. A block is requested, then written, then finished; it can go back to
  being free from requested (the request is aborted) and from writing (the write failed or was cancelled).
\<close>

section \<open>Blocks on their way\<close>

lemma set_block_reads [simp]:
  "dl_at (set_block d j f s) = dl_at s" "blocks_in_piece (set_block d j f s) = blocks_in_piece s"
  "blocks_in_piece (dl_modify it g s) = blocks_in_piece s"
  by (intro ext; simp add: dl_at_def blocks_in_piece_def set_block_def dl_modify_def)+

lemma kept_grow: "kept i t u \<Longrightarrow> dindex ` in_download t \<subseteq> insert i (dindex ` in_download s) \<Longrightarrow> kept i s u"
  unfolding kept_def by blast

lemma counted_pos:
  assumes "dl_inv X s" and "dl_iter_of i s = Some it" and "j < blocks_in_piece s i" and "bstate (block_at s (dl_at s it) j) \<noteq> state_none"
  shows "0 < total_blocks (dl_at s it)"
  using total_pos [of s "dl_at s it" j] iterD(3,5) [OF dl_invD(2) [OF assms(1)] assms(2)] dl_invD(4) [OF assms(1)] assms(3,4) by simp

lemma counter_step:
  assumes "dl_inv X s" and "dl_iter_of i s = Some it" and "j < blocks_in_piece s i"
  shows "bstate (block_at s (dl_at s it) j) \<noteq> state_requested \<Longrightarrow> bits_inc 15 (requested (dl_at s it)) = requested (dl_at s it) + 1"
    and "bstate (block_at s (dl_at s it) j) \<noteq> state_writing \<Longrightarrow> bits_inc 15 (writing (dl_at s it)) = writing (dl_at s it) + 1"
    and "bstate (block_at s (dl_at s it) j) \<noteq> state_finished \<Longrightarrow> bits_inc 15 (finished (dl_at s it)) = finished (dl_at s it) + 1"
    and "bstate (block_at s (dl_at s it) j) = state_requested \<Longrightarrow>
      bits_dec 15 (requested (dl_at s it)) = requested (dl_at s it) - 1 \<and> 0 < requested (dl_at s it)"
    and "bstate (block_at s (dl_at s it) j) = state_writing \<Longrightarrow>
      bits_dec 15 (writing (dl_at s it)) = writing (dl_at s it) - 1 \<and> 0 < writing (dl_at s it)"
  using counter_steps [of s "dl_at s it" j] dl_invD(1,4) [OF assms(1)] iterD(3,5) [OF dl_invD(2) [OF assms(1)] assms(2)] assms(3)
  by simp_all

text \<open>A block of a download takes a state other than free; the state of the piece follows.\<close>

lemma turn_settle:
  assumes "dl_inv X s" and "X \<subseteq> {i}" and "dl_iter_of i s = Some it" and "j < blocks_in_piece s i"
    and "turns (bstate (block_at s (dl_at s it) j)) (bstate (f (block_at s (dl_at s it) j))) (dl_at s it) (g (dl_at s it))"
    and "bstate (f (block_at s (dl_at s it) j)) \<noteq> state_none"
    and "u = snd (update_piece_state it (dl_modify it g (set_block (dl_at s it) j f s)))"
  shows "kept i s u" and "\<exists>it'. dl_iter_of i u = Some it' \<and> dl_at u it' = g (dl_at s it)"
    and "blocks_in_piece u = blocks_in_piece s"
proof -
  let ?d = "dl_at s it" let ?t = "dl_modify it g (set_block ?d j f s)"
  note t = turn_block [OF assms(1,3,4), where f = f and g = g, OF assms(5) refl]
  have inv: "dl_inv {i} ?t" using t(1) assms(2) by (auto elim: dl_inv_mono)
  have pos: "0 < total_blocks (dl_at ?t it)"
    unfolding t(3) using assms(5,6) counted_pos [OF assms(1,3,4)]
    by (cases "bstate (f (block_at s ?d j))"; cases "bstate (block_at s ?d j)") (auto simp: turns_def split: if_splits)
  have k: "kept i ?t u" using update_state_kept [OF inv t(2) pos] assms(7) by simp
  have "dindex (g ?d) = i" using assms(5) iterD(3) [OF dl_invD(2) [OF assms(1)] assms(3)] by (simp add: turns_def)
  with t(4) have "dindex ` in_download ?t \<subseteq> insert i (dindex ` in_download s)" by auto
  with k show "kept i s u" by (rule kept_grow)
  obtain it' where up: "update_piece_state it ?t = (it', u)" using assms(7) by (metis prod.collapse)
  note st = update_piece_state_inv [OF inv t(2) up]
  show "\<exists>it'. dl_iter_of i u = Some it' \<and> dl_at u it' = g ?d" using st(3,4) t(3) by auto
  have "blocks_in_piece ?t = blocks_in_piece s" by simp
  then show "blocks_in_piece u = blocks_in_piece s" using same_blocksD(1) [OF st(6)] by simp
qed

text \<open>The first block of a piece that was open.\<close>

lemma in_download_open: "in_download (open_piece i st s) = in_download s"
  using works_queues(2) [OF works_open_piece [of i st s]] by simp

lemma opened_pad:
  assumes "opening_piece i s" and "add_download_piece i s = (dp, t)" and "j < blocks_in_piece s i"
    and "bstate (block_at t (dl_at t dp) j) = state_finished"
  shows "kept i s t"
proof -
  note a = add_download_inv [OF assms(1,2)]
  have "counted t (dl_at t dp)" "dindex (dl_at t dp) = i"
    using dl_invD(4) [OF a(1)] iterD(3,5) [OF dl_invD(2) [OF a(1)] a(3)] by simp_all
  then have "0 < finished (dl_at t dp)"
    using block_count_pos [of j t "dl_at t dp" state_finished] assms(3,4) a(8) by (simp add: counted_def)
  then show ?thesis using a(2,6) \<open>dindex (dl_at t dp) = i\<close> by (auto simp: kept_def)
qed

lemma opened_turn:
  assumes "opening_piece i s" and "add_download_piece i s = (dp, t)" and "j < blocks_in_piece s i"
    and "bstate (block_at t (dl_at t dp) j) \<noteq> state_finished"
    and "bstate (f (block_at t (dl_at t dp) j)) \<noteq> state_none"
    and "bstate (block_at t (dl_at t dp) j) = state_none \<Longrightarrow>
      turns state_none (bstate (f (block_at t (dl_at t dp) j))) (dl_at t dp) (g (dl_at t dp))"
  shows "kept i s (snd (update_piece_state dp (dl_modify dp g (set_block (dl_at t dp) j f t))))"
proof -
  note a = add_download_inv [OF assms(1,2)]
  have none: "bstate (block_at t (dl_at t dp) j) = state_none" using a(7) [OF assms(3)] assms(4) by simp
  have "kept i t (snd (update_piece_state dp (dl_modify dp g (set_block (dl_at t dp) j f t))))"
    by (rule turn_settle(1) [OF a(1) subset_refl a(3), where f = f and g = g and j = j, OF _ _ _ refl])
      (use assms(3,5) assms(6) [OF none] none a(8) in simp_all)
  moreover have "dindex (dl_at t dp) = i" using iterD(3) [OF dl_invD(2) [OF a(1)] a(3)] .
  ultimately show ?thesis using a(6) by (auto simp: kept_def)
qed

lemma mark_as_downloading_kept:
  assumes "downloads_ok s" and "fst b < num_pieces s" and "snd b < blocks_in_piece s (fst b)"
    and "download_queue (piece_at s (fst b)) = piece_open \<Longrightarrow> slot_free s"
  shows "kept (fst b) s (snd (mark_as_downloading b peer rvs affinity s))"
proof (cases "download_queue (piece_at s (fst b)) = piece_open")
  case True
  let ?i = "fst b" let ?j = "snd b"
  let ?st = "if rvs then piece_downloading_reverse else piece_downloading"
  let ?s1 = "open_piece ?i ?st s"
  define s2 where "s2 = (if affinity then record_downloading_piece ?i ?s1 else ?s1)"
  have op1: "opening_piece ?i ?s1" by (rule open_piece_opening) (use assms True in auto)
  have w: "works s2 = works ?s1"
    by (simp add: s2_def record_downloading_piece_def Let_def split: option.split)
  have op: "opening_piece ?i s2" by (rule opening_works [OF w op1])
  have D: "in_download s2 = in_download s" using works_queues(2) [OF w] by (simp add: in_download_open)
  have bl: "blocks_in_piece s2 = blocks_in_piece s"
    using works_queues(5) [OF w] works_queues(5) [OF works_open_piece [of ?i ?st s]] by simp
  obtain dp s3 where ad: "add_download_piece ?i s2 = (dp, s3)" by (rule prod.exhaust)
  let ?d = "dl_at s3 dp"
  note a = add_download_inv [OF op ad]
  have j: "?j < blocks_in_piece s2 ?i" using assms(3) bl by simp
  have k: "kept ?i s2 t \<Longrightarrow> kept ?i s t" for t using D by (simp add: kept_def)
  show ?thesis
  proof (cases "bstate (block_at s3 ?d ?j) = state_finished")
    case True
    have "snd (mark_as_downloading b peer rvs affinity s) = s3"
      using \<open>download_queue (piece_at s ?i) = piece_open\<close> True ad
      by (simp add: mark_as_downloading_def s2_def Let_def case_prod_beta)
    then show ?thesis using k [OF opened_pad [OF op ad j True]] by simp
  next
    case False
    let ?f = "\<lambda>_::block_info. \<lparr>bpeer = peer, num_peers_of = 1, bstate = state_requested\<rparr>"
    let ?g = "\<lambda>d. d\<lparr>requested := bits_inc 15 (requested d)\<rparr>"
    have "snd (mark_as_downloading b peer rvs affinity s) = snd (update_piece_state dp (dl_modify dp ?g (set_block ?d ?j ?f s3)))"
      using \<open>download_queue (piece_at s ?i) = piece_open\<close> False ad
      by (simp add: mark_as_downloading_def s2_def Let_def case_prod_beta)
    moreover have "kept ?i s2 (snd (update_piece_state dp (dl_modify dp ?g (set_block ?d ?j ?f s3))))"
      by (rule opened_turn [OF op ad j False, where f = ?f and g = ?g]) (use a(4) in \<open>auto simp: turns_def bits_inc_def\<close>)
    ultimately show ?thesis using k by simp
  qed
next
  case False
  let ?i = "fst b" let ?j = "snd b"
  obtain k where "dl_iter_of ?i s = Some (download_queue (piece_at s ?i), k)"
    by (rule iter_exists [OF dl_invD(2) [OF assms(1)] assms(2) False])
  then obtain it where it: "dl_iter_of ?i s = Some it" by blast
  let ?d = "dl_at s it" let ?st = "bstate (block_at s ?d ?j)"
  show ?thesis
  proof (cases "?st = state_writing \<or> ?st = state_finished")
    case True
    then show ?thesis using False it assms(1) by (simp add: mark_as_downloading_def Let_def kept_refl)
  next
    case st: False
    define s1 where "s1 = (if rvs \<and> \<not> is_reverse (piece_at s ?i) \<and> requested ?d = 0 then turn_piece ?i make_reverse s else s)"
    note tp = turn_piece_inv [OF assms(1), of make_reverse ?i]
    have s1: "downloads_ok s1" "in_download s1 = in_download s" "dl_iter_of ?i s1 = Some it" "dl_at s1 = dl_at s"
      "block_at s1 = block_at s" "blocks_in_piece s1 = blocks_in_piece s"
      using tp assms(1,2) it by (simp_all add: s1_def)
    define s2 where "s2 = set_block ?d ?j (\<lambda>info. info\<lparr>bpeer := peer\<rparr>) s1"
    have j1: "?j < blocks_in_piece s1 ?i" using assms(3) s1 by simp
    have s2: "downloads_ok s2" using set_block_same [OF _ s1(1,3) j1, of "\<lambda>info. info\<lparr>bpeer := peer\<rparr>"] by (simp add: s2_def s1(4))
    have s2v: "in_download s2 = in_download s" "dl_iter_of ?i s2 = Some it" "dl_at s2 = dl_at s" "blocks_in_piece s2 = blocks_in_piece s"
      using s1 by (simp_all add: s2_def)
    have d1: "?d \<in> in_download s1" "dindex ?d = ?i" using iterD(3,5) [OF dl_invD(2) [OF s1(1)] s1(3)] s1(4) by simp_all
    have at2: "bstate (block_at s2 ?d ?j) = ?st"
      using block_at_set [OF dl_invD(1,3) [OF s1(1)] d1(1) d1(1), of ?j ?j "\<lambda>info. info\<lparr>bpeer := peer\<rparr>"] j1 d1(2)
      by (simp add: s2_def s1(5))
    let ?f = "\<lambda>info::block_info. info\<lparr>bstate := state_requested\<rparr>"
    let ?g = "\<lambda>d::downloading_piece. d\<lparr>requested := bits_inc 15 (requested d)\<rparr>"
    define s3 where "s3 = (if ?st \<noteq> state_requested then snd (update_piece_state it (dl_modify it ?g (set_block ?d ?j ?f s2))) else s2)"
    have k3: "kept ?i s s3 \<and> (\<exists>it'. dl_iter_of ?i s3 = Some it' \<and> info_idx (dl_at s3 it') = info_idx ?d) \<and> blocks_in_piece s3 = blocks_in_piece s"
    proof (cases "?st = state_requested")
      case True
      then show ?thesis using s2 s2v by (auto simp: s3_def kept_sub)
    next
      case no: False
      have j2: "?j < blocks_in_piece s2 ?i" using assms(3) s2v(4) by simp
      have none: "?st = state_none" using no st by (cases ?st) simp_all
      have "bits_inc 15 (requested ?d) = requested ?d + 1"
        using counter_step(1) [OF s2 s2v(2) j2] at2 no s2v(3) by simp
      then have "turns (bstate (block_at s2 (dl_at s2 it) ?j)) (bstate (?f (block_at s2 (dl_at s2 it) ?j))) (dl_at s2 it) (?g (dl_at s2 it))"
        by (simp add: at2 s2v(3) none turns_def)
      note ts = turn_settle [OF s2 empty_subsetI s2v(2) j2, where f = ?f and g = ?g, OF this _ refl]
      have s3: "s3 = snd (update_piece_state it (dl_modify it ?g (set_block (dl_at s2 it) ?j ?f s2)))"
        using no s2v(3) by (simp add: s3_def)
      have "\<exists>it'. dl_iter_of ?i s3 = Some it' \<and> info_idx (dl_at s3 it') = info_idx ?d"
        using ts(2) unfolding s3 [symmetric] unfolding s2v(3) by auto
      then show ?thesis using ts(1,3) s2v(1,4) unfolding s3 [symmetric] by (simp add: kept_def)
    qed
    then obtain it3 where it3: "dl_iter_of ?i s3 = Some it3" "info_idx (dl_at s3 it3) = info_idx ?d" by blast
    let ?h = "\<lambda>info::block_info. info\<lparr>num_peers_of := bits_inc 14 (num_peers_of info)\<rparr>"
    define s4 where "s4 = set_block ?d ?j ?h s3"
    have "s4 = set_block (dl_at s3 it3) ?j ?h s3" unfolding s4_def by (rule set_block_cong) (simp add: it3)
    then have s4: "downloads_ok s4" "in_download s4 = in_download s3"
      using set_block_same [of ?h "{}" s3 ?i it3 ?j] k3 it3(1) assms(3) by (simp_all add: kept_def)
    define s5 where "s5 = (if \<not> rvs \<and> is_reverse (piece_at s4 ?i) then turn_piece ?i unreverse s4 else s4)"
    have "downloads_ok s5" "in_download s5 = in_download s4" using turn_piece_inv [OF s4(1), of unreverse ?i] s4(1) by (simp_all add: s5_def)
    then have "kept ?i s s5" using k3 s4(2) by (simp add: kept_def)
    moreover have "snd (mark_as_downloading b peer rvs affinity s) = s5"
      using False it st by (simp add: mark_as_downloading_def s5_def s4_def s3_def s2_def s1_def Let_def)
    ultimately show ?thesis by simp
  qed
qed

lemma set_block_twice [simp]: "set_block d j f (set_block d j g s) = set_block d j (\<lambda>b. f (g b)) s"
proof (cases "blocks_begin s d + j < length (m_block_info s)")
  case True
  then show ?thesis by (simp add: set_block_def block_at_def blocks_begin_def)
next
  case False
  then show ?thesis by (simp add: set_block_def block_at_def blocks_begin_def list_update_beyond)
qed

lemma dl_modify_twice [simp]: "dl_modify it f (dl_modify it g s) = dl_modify it (\<lambda>d. f (g d)) s"
proof (cases "snd it < length (m_downloads s (fst it))")
  case True
  then show ?thesis by (simp add: dl_modify_def dl_at_def)
next
  case False
  then show ?thesis by (simp add: dl_modify_def dl_at_def list_update_beyond)
qed

lemma num_passed_out:
  "dl_modify it f (s\<lparr>m_num_passed := x\<rparr>) = (dl_modify it f s)\<lparr>m_num_passed := x\<rparr>"
  "set_block d j g (s\<lparr>m_num_passed := x\<rparr>) = (set_block d j g s)\<lparr>m_num_passed := x\<rparr>"
  "m_num_passed (dl_modify it f s) = m_num_passed s" "m_num_passed (set_block d j g s) = m_num_passed s"
  by (simp_all add: dl_modify_def set_block_def dl_at_def block_at_def blocks_begin_def)

lemma set_block_dl_modify: "set_block d j f (dl_modify it g s) = dl_modify it g (set_block d j f s)"
  by (rule dl_modify_set_block [symmetric])

lemma download_iter:
  assumes "downloads_ok s" and "i < num_pieces s" and "download_queue (piece_at s i) \<noteq> piece_open"
  obtains it where "dl_iter_of i s = Some it"
  using iter_exists [OF dl_invD(2) [OF assms(1)] assms(2,3)] by blast

section \<open>Pieces we have\<close>

lemma have_erase_inv:
  assumes "downloads_ok s" and "i < num_pieces s"
  shows "downloads_ok (have_erase i s)" and "in_download (have_erase i s) \<subseteq> in_download s"
    and "i \<notin> dindex ` in_download (have_erase i s)"
proof -
  have "downloads_ok (have_erase i s) \<and> in_download (have_erase i s) \<subseteq> in_download s \<and> i \<notin> dindex ` in_download (have_erase i s)"
  proof (cases "download_queue (piece_at s i) = piece_open")
    case True
    then have "i \<notin> dindex ` in_download s"
      using queues_okD(2) [OF dl_invD(2) [OF assms(1)]] by (auto simp: in_download_def)
    with True assms(1) show ?thesis by (simp add: have_erase_def)
  next
    case False
    obtain it where it: "dl_iter_of i s = Some it" by (rule download_iter [OF assms False])
    define s1 where "s1 = (if passed_hash_check (dl_at s it) then s\<lparr>m_num_passed := m_num_passed s - 1\<rparr> else s)"
    have w: "works s = works s1" by (simp add: s1_def)
    have s1: "downloads_ok s1" "dl_iter_of i s1 = Some it" "in_download s1 = in_download s"
      using dl_inv_works [OF w assms(1)] works_queues(2,6) [OF w] assms(2) it by simp_all
    have t: "have_erase i s = erase_download_piece it s1" using False it by (simp add: have_erase_def s1_def)
    note er = erase_inv [OF s1(1,2) t]
    have "dindex d \<noteq> i" if "d \<in> in_download s1 - {dl_at s1 it}" for d
      using that entry_unique [OF dl_invD(2) [OF s1(1)], of d "dl_at s1 it"] iterD(3,5) [OF dl_invD(2) [OF s1(1)] s1(2)] by auto
    then show ?thesis using er(1,2) s1(3) by auto
  qed
  then show "downloads_ok (have_erase i s)" "in_download (have_erase i s) \<subseteq> in_download s"
    "i \<notin> dindex ` in_download (have_erase i s)" by simp_all
qed

lemma works_have_count [simp]: "works (have_count i s) = works s"
  by (simp add: have_count_def Let_def works_set_piece set_have_def)

lemma works_have_cursors [simp]: "works (have_cursors i s) = works s" "works (widen_cursors i s) = works s"
  by (simp_all add: have_cursors_def widen_cursors_def Let_def)

lemma we_have_inv:
  assumes "downloads_ok s" and "i < num_pieces s"
  shows "downloads_ok (we_have i s)" and "in_download (we_have i s) \<subseteq> in_download s"
    and "is_have (piece_at s i) \<or> i \<notin> dindex ` in_download (we_have i s)"
proof -
  have "works (we_have i s) = works (if is_have (piece_at s i) then s else have_erase i s)"
    by (simp add: we_have_def Let_def)
  then show "downloads_ok (we_have i s)" "in_download (we_have i s) \<subseteq> in_download s"
    "is_have (piece_at s i) \<or> i \<notin> dindex ` in_download (we_have i s)"
    using have_erase_inv [OF assms] assms(1) dl_inv_works [of _ "we_have i s" "{}"] works_queues(2) [of "we_have i s"]
    by (auto split: if_splits)
qed

lemma piece_passed_inv:
  assumes "downloads_ok s" and "i < num_pieces s"
  shows "downloads_ok (piece_passed i s)" and "dindex ` in_download (piece_passed i s) \<subseteq> dindex ` in_download s"
proof -
  have "downloads_ok (piece_passed i s) \<and> dindex ` in_download (piece_passed i s) \<subseteq> dindex ` in_download s"
  proof (cases "download_queue (piece_at s i) = piece_open")
    case True
    then show ?thesis using assms by (simp add: piece_passed_def)
  next
    case False
    obtain it where it: "dl_iter_of i s = Some it" by (rule download_iter [OF assms False])
    show ?thesis
    proof (cases "locked (dl_at s it)")
      case True
      then show ?thesis using False it assms by (simp add: piece_passed_def)
    next
      case nl: False
      let ?g = "\<lambda>d::downloading_piece. d\<lparr>passed_hash_check := True\<rparr>"
      let ?m = "dl_modify it ?g s"
      define s1 where "s1 = ?m\<lparr>m_num_passed := m_num_passed s + 1\<rparr>"
      have m: "downloads_ok ?m" "in_download ?m = insert (?g (dl_at s it)) (in_download s - {dl_at s it})"
        using dl_modify_same [OF assms(1) it, of ?g] by simp_all
      have w: "works ?m = works s1" by (simp add: s1_def)
      have s1: "downloads_ok s1" "in_download s1 = in_download ?m" "num_pieces s1 = num_pieces s"
        using dl_inv_works [OF w m(1)] works_queues(2) [OF w] works_eqD(6) [OF w] by simp_all
      have "dl_at s it \<in> in_download s" using iterD(5) [OF dl_invD(2) [OF assms(1)] it] .
      then have sub: "dindex ` in_download s1 \<subseteq> dindex ` in_download s" using m(2) s1(2) by (auto simp: image_iff)
      have "piece_passed i s = (if finished (dl_at s1 it) < blocks_in_piece s1 i then s1 else we_have i s1)"
        using False it nl by (simp add: piece_passed_def s1_def Let_def)
      moreover have "in_download (we_have i s1) \<subseteq> in_download s1" using we_have_inv(2) [OF s1(1), of i] assms(2) s1(3) by simp
      then have "dindex ` in_download (we_have i s1) \<subseteq> dindex ` in_download s" using sub by blast
      ultimately show ?thesis using s1 sub we_have_inv(1) [OF s1(1), of i] assms(2) by simp
    qed
  qed
  then show "downloads_ok (piece_passed i s)" "dindex ` in_download (piece_passed i s) \<subseteq> dindex ` in_download s" by simp_all
qed

section \<open>Downloads and pieces we have\<close>

text \<open>A piece we have is not being downloaded.\<close>

definition had_free :: "piece_picker \<Rightarrow> bool" where
  "had_free s \<longleftrightarrow> (\<forall>i\<in>dindex ` in_download s. \<not> is_have (piece_at s i))"

lemma had_free_tally:
  assumes "had_free s" and "downloads_ok s" and "tally t = tally s"
    and "dindex ` in_download t \<subseteq> insert i (dindex ` in_download s)" and "i \<in> dindex ` in_download t \<Longrightarrow> i < num_pieces s \<and> \<not> is_have (piece_at s i)"
  shows "had_free t"
  unfolding had_free_def
proof
  fix j assume j: "j \<in> dindex ` in_download t"
  have "j < num_pieces s \<and> \<not> is_have (piece_at s j)"
  proof (cases "j = i")
    case True
    with j assms(5) show ?thesis by blast
  next
    case False
    then obtain d where "d \<in> in_download s" "j = dindex d" using j assms(4) by blast
    then show ?thesis using assms(1) dl_invD(6) [OF assms(2)] by (auto simp: had_free_def)
  qed
  then show "\<not> is_have (piece_at t j)" using tally_eqD(11) [OF assms(3), of j] tally_eqD(1) [OF assms(3)] by simp
qed

lemma we_have_had:
  assumes "had_free s" and "downloads_ok s" and "list_good s" and "i < num_pieces s"
  shows "had_free (we_have i s)"
proof (cases "is_have (piece_at s i)")
  case True
  then show ?thesis using assms(1) by (simp add: we_have_def Let_def)
next
  case False
  show ?thesis unfolding had_free_def
  proof
    fix j assume j: "j \<in> dindex ` in_download (we_have i s)"
    then have "j \<in> dindex ` in_download s" "j \<noteq> i" using we_have_inv(2,3) [OF assms(2,4)] False by auto
    moreover from this have "j < num_pieces s" "\<not> is_have (piece_at s j)" using assms(1) dl_invD(6) [OF assms(2)] by (auto simp: had_free_def)
    ultimately show "\<not> is_have (piece_at (we_have i s) j)" using we_have_flags(1) [OF assms(3,4), of j] by simp
  qed
qed

section \<open>Writing and finishing\<close>

lemma open_download:
  assumes "downloads_ok s" and "i < num_pieces s" and "download_queue (piece_at s i) = piece_open" and "slot_free s"
    and "add_download_piece i (open_piece i piece_downloading s) = (dp, t)"
  shows "opening_piece i (open_piece i piece_downloading s)" and "in_download (open_piece i piece_downloading s) = in_download s"
    and "blocks_in_piece (open_piece i piece_downloading s) = blocks_in_piece s"
    and "requested (dl_at t dp) = 0" "writing (dl_at t dp) = 0"
  using open_piece_opening [OF assms(1-4), of piece_downloading] in_download_open [of i piece_downloading s]
    works_queues(5) [OF works_open_piece [of i piece_downloading s]]
    add_download_inv(4,5) [OF _ assms(5)] by simp_all

lemma kept_in: "kept i s t \<Longrightarrow> in_download s = in_download s' \<Longrightarrow> kept i s' t"
  by (simp add: kept_def)

lemma mark_as_writing_kept:
  assumes "downloads_ok s" and "fst b < num_pieces s" and "snd b < blocks_in_piece s (fst b)"
    and "download_queue (piece_at s (fst b)) = piece_open \<Longrightarrow> slot_free s"
  shows "kept (fst b) s (snd (mark_as_writing b peer s))"
proof (cases "download_queue (piece_at s (fst b)) = piece_open")
  case op: True
  let ?i = "fst b" let ?j = "snd b" let ?s1 = "open_piece ?i piece_downloading s"
  have nd: "\<not> downloading (piece_at s ?i)" using op by (simp add: downloading_queue)
  show ?thesis
  proof (cases "have_piece s ?i")
    case True
    then show ?thesis using nd assms(1) by (simp add: mark_as_writing_def kept_refl)
  next
    case False
    obtain dp s2 where ad: "add_download_piece ?i ?s1 = (dp, s2)" by (rule prod.exhaust)
    note o = open_download [OF assms(1,2) op assms(4) [OF op] ad]
    have j: "?j < blocks_in_piece ?s1 ?i" using assms(3) o(3) by simp
    let ?d = "dl_at s2 dp"
    show ?thesis
    proof (cases "bstate (block_at s2 ?d ?j) = state_finished")
      case True
      then have "snd (mark_as_writing b peer s) = s2" using nd False ad by (simp add: mark_as_writing_def Let_def)
      with kept_in [OF opened_pad [OF o(1) ad j True] o(2)] show ?thesis by simp
    next
      case nf: False
      let ?f = "\<lambda>_::block_info. \<lparr>bpeer = peer, num_peers_of = 0, bstate = state_writing\<rparr>"
      let ?g = "\<lambda>d::downloading_piece. d\<lparr>writing := 1\<rparr>"
      have "snd (mark_as_writing b peer s) = snd (update_piece_state dp (dl_modify dp ?g (set_block ?d ?j ?f s2)))"
        using nd False ad nf by (simp add: mark_as_writing_def Let_def)
      moreover have "kept ?i ?s1 (snd (update_piece_state dp (dl_modify dp ?g (set_block ?d ?j ?f s2))))"
        by (rule opened_turn [OF o(1) ad j nf, where f = ?f and g = ?g]) (simp_all add: turns_def o(5))
      ultimately show ?thesis using o(2) by (simp add: kept_def)
    qed
  qed
next
  case False
  let ?i = "fst b" let ?j = "snd b"
  obtain it where it: "dl_iter_of ?i s = Some it" by (rule download_iter [OF assms(1,2) False])
  let ?d = "dl_at s it" let ?st = "bstate (block_at s ?d ?j)"
  let ?fp = "\<lambda>info::block_info. info\<lparr>bpeer := peer\<rparr>"
  have dn: "downloading (piece_at s ?i)" using False by (simp add: downloading_queue)
  show ?thesis
  proof (cases "?st = state_writing \<or> ?st = state_finished")
    case True
    then have "snd (mark_as_writing b peer s) = set_block ?d ?j ?fp s"
      using dn it by (auto simp: mark_as_writing_def Let_def)
    moreover have "downloads_ok (set_block ?d ?j ?fp s)" by (rule set_block_same [OF _ assms(1) it assms(3)]) simp
    ultimately show ?thesis by (simp add: kept_sub)
  next
    case st: False
    let ?f = "\<lambda>info::block_info. info\<lparr>bpeer := peer, bstate := state_writing, num_peers_of := 0\<rparr>"
    let ?g = "\<lambda>d::downloading_piece. (if ?st = state_requested then d\<lparr>requested := bits_dec 15 (requested d)\<rparr> else d)
      \<lparr>writing := bits_inc 15 (writing d)\<rparr>"
    have eq: "snd (mark_as_writing b peer s) = snd (update_piece_state it (dl_modify it ?g (set_block ?d ?j ?f s)))"
      using dn it st by (simp add: mark_as_writing_def Let_def set_block_dl_modify)
    note c = counter_step [OF assms(1) it assms(3)]
    have "turns (bstate (block_at s ?d ?j)) (bstate (?f (block_at s ?d ?j))) ?d (?g ?d)"
      using c(2,4) st by (cases ?st) (auto simp: turns_def)
    from turn_settle(1) [OF assms(1) empty_subsetI it assms(3), where f = ?f and g = ?g, OF this _ refl]
    show ?thesis unfolding eq by simp
  qed
qed

lemma mark_as_finished_step:
  assumes "downloads_ok s" and "fst b < num_pieces s" and "snd b < blocks_in_piece s (fst b)"
    and "download_queue (piece_at s (fst b)) = piece_open \<Longrightarrow> slot_free s"
    and "\<And>it. dl_iter_of (fst b) s = Some it \<Longrightarrow> bstate (block_at s (dl_at s it) (snd b)) \<noteq> state_requested"
    and "list_good s"
  shows "\<exists>t. kept (fst b) s t \<and> list_good t \<and> tally t = tally s \<and> (mark_as_finished b peer s = t \<or> mark_as_finished b peer s = we_have (fst b) t)
    \<and> (have_piece s (fst b) \<and> download_queue (piece_at s (fst b)) = piece_open \<longrightarrow> t = s \<and> mark_as_finished b peer s = s)"
proof (cases "download_queue (piece_at s (fst b)) = piece_open")
  case op: True
  let ?i = "fst b" let ?j = "snd b" let ?s1 = "open_piece ?i piece_downloading s"
  show ?thesis
  proof (cases "have_piece s ?i")
    case True
    then show ?thesis using op kept_refl [OF assms(1)] assms(6) by (simp add: mark_as_finished_def)
  next
    case False
    obtain dp s2 where ad: "add_download_piece ?i ?s1 = (dp, s2)" by (rule prod.exhaust)
    note o = open_download [OF assms(1,2) op assms(4) [OF op] ad]
    have j: "?j < blocks_in_piece ?s1 ?i" using assms(3) o(3) by simp
    let ?d = "dl_at s2 dp"
    have g: "list_good s2" "num_pieces s2 = num_pieces s" "tally s2 = tally s" "dindex ?d = ?i"
      using opened_download_good [OF assms(6,2) op ad] by auto
    have "kept ?i s (mark_as_finished b peer s) \<and> list_good (mark_as_finished b peer s) \<and> tally (mark_as_finished b peer s) = tally s"
    proof (cases "bstate (block_at s2 ?d ?j) = state_finished")
      case True
      then have "mark_as_finished b peer s = s2" using op False ad by (simp add: mark_as_finished_def Let_def)
      with kept_in [OF opened_pad [OF o(1) ad j True] o(2)] g show ?thesis by simp
    next
      case nf: False
      let ?f = "\<lambda>info::block_info. info\<lparr>bpeer := peer, bstate := state_finished\<rparr>"
      let ?g = "\<lambda>d::downloading_piece. d\<lparr>finished := bits_inc 15 (finished d)\<rparr>"
      note a = add_download_inv [OF o(1) ad]
      have "bits_inc 15 (finished ?d) = finished ?d + 1"
        using counter_step(3) [OF a(1,3), of ?j] nf j a(8) by simp
      then have "kept ?i ?s1 (snd (update_piece_state dp (dl_modify dp ?g (set_block ?d ?j ?f s2))))"
        by (intro opened_turn [OF o(1) ad j nf, where f = ?f and g = ?g]) (simp_all add: turns_def)
      moreover have "mark_as_finished b peer s = snd (update_piece_state dp (dl_modify dp ?g (set_block ?d ?j ?f s2)))"
        using op False ad nf by (simp add: mark_as_finished_def Let_def)
      moreover have "dindex (dl_at (dl_modify dp ?g (set_block ?d ?j ?f s2)) dp) = ?i" using g(4) by (simp add: dindex_dl_modify)
      ultimately show ?thesis using o(2) finish_good [of "dl_modify dp ?g (set_block ?d ?j ?f s2)" dp] g assms(2) by (simp add: kept_def)
    qed
    then show ?thesis using False by blast
  qed
next
  case False
  let ?i = "fst b" let ?j = "snd b"
  obtain it where it: "dl_iter_of ?i s = Some it" by (rule download_iter [OF assms(1,2) False])
  let ?d = "dl_at s it" let ?st = "bstate (block_at s ?d ?j)"
  show ?thesis
  proof (cases "?st = state_finished")
    case True
    then have "mark_as_finished b peer s = s" using False it by (simp add: mark_as_finished_def Let_def)
    then show ?thesis using False kept_refl [OF assms(1)] assms(6) by metis
  next
    case nf: False
    let ?f = "\<lambda>info::block_info. (if ?st \<noteq> state_writing \<or> peer \<noteq> None then info\<lparr>bpeer := peer\<rparr> else info)\<lparr>bstate := state_finished\<rparr>"
    let ?g = "\<lambda>d::downloading_piece. (if ?st = state_writing then d\<lparr>finished := bits_inc 15 (finished d), writing := bits_dec 15 (writing d)\<rparr>
      else d\<lparr>finished := bits_inc 15 (finished d)\<rparr>)"
    let ?t = "dl_modify it ?g (set_block ?d ?j ?f s)"
    obtain it' u where up: "update_piece_state it ?t = (it', u)" by (rule prod.exhaust)
    have f: "?f = (if ?st \<noteq> state_writing \<or> peer \<noteq> None then (\<lambda>info. info\<lparr>bpeer := peer, bstate := state_finished\<rparr>)
      else (\<lambda>info. info\<lparr>bstate := state_finished\<rparr>))" by (simp add: fun_eq_iff)
    have eq: "mark_as_finished b peer s = (if finished (dl_at u it') < blocks_in_piece u (dindex (dl_at u it')) then u
      else if passed_hash_check (dl_at u it') then we_have (dindex (dl_at u it')) u else u)"
      using False it nf up unfolding f
      by (cases "?st = state_writing") (auto simp: mark_as_finished_def Let_def set_block_dl_modify split: if_splits)
    note c = counter_step [OF assms(1) it assms(3)]
    have tn: "turns (bstate (block_at s ?d ?j)) (bstate (?f (block_at s ?d ?j))) ?d (?g ?d)"
      using c(3,5) nf assms(5) [OF it] by (cases ?st) (auto simp: turns_def)
    have u: "u = snd (update_piece_state it ?t)" using up by simp
    have k: "kept ?i s u"
      by (rule turn_settle(1) [OF assms(1) empty_subsetI it assms(3), where f = ?f and g = ?g, OF tn _ u]) simp
    have "dl_inv {?i} ?t" "dl_iter_of ?i ?t = Some it"
      using turn_block [OF assms(1) it assms(3), where f = ?f and g = ?g, OF tn refl] by simp_all
    from iterD(3) [OF dl_invD(2) [OF update_piece_state_inv(1) [OF this up]] update_piece_state_inv(3) [OF this up]]
    have "dindex (dl_at u it') = ?i" .
    moreover have "dindex (dl_at ?t it) = ?i" using dl_iter_ofD(1) [OF it] by (simp add: dindex_dl_modify)
    with update_piece_state_good [OF _ _ up] assms(2,6) have "list_good u" "tally u = tally s" by simp_all
    ultimately show ?thesis using k eq False by auto
  qed
qed

section \<open>Blocks that become free again\<close>

lemma erase_download_ok:
  assumes "dl_inv {i} s" and "dl_iter_of i s = Some it"
  shows "kept i s (erase_download_piece it s)"
proof -
  note e = erase_inv [OF assms refl]
  from e(1) have "downloads_ok (erase_download_piece it s)" by simp
  then show ?thesis by (rule kept_sub) (simp add: e(2))
qed

lemma turn_release:
  assumes "downloads_ok s" and "dl_iter_of i s = Some it" and "j < blocks_in_piece s i"
    and "turns (bstate (block_at s (dl_at s it) j)) (bstate (f (block_at s (dl_at s it) j))) (dl_at s it) (g (dl_at s it))"
    and "works t = works (dl_modify it g (set_block (dl_at s it) j f s))"
  shows "update_piece_state it t = (it', u) \<Longrightarrow> kept i s (erase_if_unused i it' u)"
    and "total_blocks (dl_at t it) = 0 \<Longrightarrow> kept i s (erase_download_piece it t)"
    and "0 < total_blocks (dl_at t it) \<Longrightarrow> kept i s (snd (update_piece_state it t))"
proof -
  note tb = turn_block [OF assms(1-3), where f = f and g = g, OF assms(4) refl]
  note w = works_queues [OF assms(5)]
  have inv: "dl_inv {i} t" using tb(1) dl_inv_works [OF assms(5) [symmetric]] by simp
  have "i < num_pieces t"
    using iterD(6) [OF dl_invD(2) [OF tb(1)] tb(2)] works_eqD(6) [OF assms(5)] by simp
  then have iter: "dl_iter_of i t = Some it" using w(6) tb(2) by simp
  have "dindex (g (dl_at s it)) = i" using assms(4) iterD(3) [OF dl_invD(2) [OF assms(1)] assms(2)] by (simp add: turns_def)
  then have grow: "dindex ` in_download t \<subseteq> insert i (dindex ` in_download s)" using tb(4) w(2) by auto
  show "kept i s (erase_download_piece it t)" by (rule kept_grow [OF erase_download_ok [OF inv iter] grow])
  show "0 < total_blocks (dl_at t it) \<Longrightarrow> kept i s (snd (update_piece_state it t))"
    by (rule kept_grow [OF update_state_kept [OF inv iter] grow])
  assume up: "update_piece_state it t = (it', u)"
  note st = update_piece_state_inv [OF inv iter up]
  have gu: "dindex ` in_download u \<subseteq> insert i (dindex ` in_download s)" using grow st(5) by simp
  show "kept i s (erase_if_unused i it' u)"
  proof (cases "finished (dl_at u it') + writing (dl_at u it') + requested (dl_at u it') = 0")
    case True
    have "works (erase_if_unused i it' u) = works (erase_download_piece it' u)"
      using True by (simp add: erase_if_unused_def Let_def)
    then show ?thesis by (rule kept_works) (rule kept_grow [OF erase_download_ok [OF st(1,3)] gu])
  next
    case False
    then have "0 < total_blocks (dl_at t it)" using st(4) by auto
    then have "downloads_ok u" by (rule st(2))
    moreover have "erase_if_unused i it' u = u" using False by (auto simp: erase_if_unused_def Let_def)
    ultimately show ?thesis using gu by (simp add: kept_def)
  qed
qed

lemma write_failed_kept:
  assumes "downloads_ok s" and "fst b < num_pieces s" and "snd b < blocks_in_piece s (fst b)"
    and "\<And>it. dl_iter_of (fst b) s = Some it \<Longrightarrow> bstate (block_at s (dl_at s it) (snd b)) = state_writing"
  shows "kept (fst b) s (write_failed b s)"
proof (cases "download_queue (piece_at s (fst b)) = piece_open")
  case True
  then show ?thesis using assms(1) by (simp add: write_failed_def kept_refl)
next
  case False
  let ?i = "fst b" let ?j = "snd b"
  obtain it where it: "dl_iter_of ?i s = Some it" by (rule download_iter [OF assms(1,2) False])
  let ?d = "dl_at s it"
  have st: "bstate (block_at s ?d ?j) = state_writing" by (rule assms(4) [OF it])
  let ?f = "\<lambda>info::block_info. info\<lparr>bpeer := None, bstate := state_none\<rparr>"
  let ?p = "passed_hash_check ?d"
  let ?g = "\<lambda>d::downloading_piece. (if ?p then d\<lparr>writing := bits_dec 15 (writing d), passed_hash_check := False\<rparr>
    else d\<lparr>writing := bits_dec 15 (writing d)\<rparr>)\<lparr>locked := True\<rparr>"
  let ?t = "dl_modify it ?g (set_block ?d ?j ?f s)"
  let ?t' = "if ?p then ?t\<lparr>m_num_passed := m_num_passed s - 1\<rparr> else ?t"
  obtain it' u where up: "update_piece_state it ?t' = (it', u)" by (rule prod.exhaust)
  have eq: "write_failed b s = erase_if_unused ?i it' u"
    using False it st up by (cases ?p) (simp_all add: write_failed_def Let_def set_block_dl_modify num_passed_out)
  have "turns (bstate (block_at s ?d ?j)) (bstate (?f (block_at s ?d ?j))) ?d (?g ?d)"
    using counter_step(5) [OF assms(1) it assms(3) st] st by (auto simp: turns_def)
  note tr = turn_release [OF assms(1) it assms(3), where f = ?f and g = ?g, OF this]
  have "works ?t' = works ?t" by simp
  from tr(1) [OF this up] show ?thesis unfolding eq .
qed

lemma mark_as_canceled_kept:
  assumes "downloads_ok s" and "fst b < num_pieces s" and "snd b < blocks_in_piece s (fst b)"
  shows "kept (fst b) s (mark_as_canceled b peer s)"
proof (cases "download_queue (piece_at s (fst b)) = piece_open")
  case True
  then show ?thesis using assms(1) by (simp add: mark_as_canceled_def kept_refl)
next
  case False
  let ?i = "fst b" let ?j = "snd b"
  obtain it where it: "dl_iter_of ?i s = Some it" by (rule download_iter [OF assms(1,2) False])
  let ?d = "dl_at s it" let ?st = "bstate (block_at s ?d ?j)"
  consider "?st = state_finished" | "?st = state_writing" | "?st \<noteq> state_finished" "?st \<noteq> state_writing" by blast
  then show ?thesis
  proof cases
    case 1
    then show ?thesis using False it assms(1) by (simp add: mark_as_canceled_def Let_def kept_refl)
  next
    case 2
    let ?f = "\<lambda>info::block_info. info\<lparr>bpeer := peer, bstate := state_none\<rparr>"
    let ?g = "\<lambda>d::downloading_piece. d\<lparr>writing := bits_dec 15 (writing d)\<rparr>"
    let ?t = "dl_modify it ?g (set_block ?d ?j ?f s)"
    obtain it' u where up: "update_piece_state it ?t = (it', u)" by (rule prod.exhaust)
    have eq: "mark_as_canceled b peer s = erase_if_unused ?i it' u"
      using False it 2 up by (simp add: mark_as_canceled_def Let_def set_block_dl_modify)
    have "turns (bstate (block_at s ?d ?j)) (bstate (?f (block_at s ?d ?j))) ?d (?g ?d)"
      using counter_step(5) [OF assms(1) it assms(3) 2] 2 by (simp add: turns_def)
    from turn_release(1) [OF assms(1) it assms(3), where f = ?f and g = ?g, OF this refl up] show ?thesis unfolding eq .
  next
    case 3
    let ?f = "\<lambda>info::block_info. info\<lparr>bpeer := peer\<rparr>"
    have "mark_as_canceled b peer s = set_block ?d ?j ?f s" using False it 3 by (simp add: mark_as_canceled_def Let_def)
    moreover have "downloads_ok (set_block ?d ?j ?f s)" by (rule set_block_same [OF _ assms(1) it assms(3)]) simp
    ultimately show ?thesis by (simp add: kept_sub)
  qed
qed

lemma abort_download_kept:
  assumes "downloads_ok s" and "fst b < num_pieces s" and "snd b < blocks_in_piece s (fst b)"
  shows "kept (fst b) s (abort_download b peer s)"
proof (cases "download_queue (piece_at s (fst b)) = piece_open")
  case True
  then show ?thesis using assms(1) by (simp add: abort_download_def kept_refl)
next
  case False
  let ?i = "fst b" let ?j = "snd b"
  obtain it where it: "dl_iter_of ?i s = Some it" by (rule download_iter [OF assms(1,2) False])
  let ?d = "dl_at s it" let ?info = "block_at s ?d ?j"
  let ?n = "if num_peers_of ?info > 0 then num_peers_of ?info - 1 else num_peers_of ?info"
  show ?thesis
  proof (cases "bstate ?info = state_requested")
    case no: False
    then show ?thesis using False it assms(1) by (simp add: abort_download_def Let_def kept_refl)
  next
    case rq: True
    let ?h = "\<lambda>info::block_info. info\<lparr>num_peers_of := ?n, bpeer := (if bpeer info = peer then None else bpeer info)\<rparr>"
    let ?f = "\<lambda>info::block_info. (?h info)\<lparr>bpeer := None, bstate := state_none\<rparr>"
    let ?g = "\<lambda>d::downloading_piece. d\<lparr>requested := bits_dec 15 (requested d)\<rparr>"
    let ?t = "dl_modify it ?g (set_block ?d ?j ?f s)"
    let ?e = "erase_download_piece it ?t"
    show ?thesis
    proof (cases "?n > 0")
      case True
      have "abort_download b peer s = set_block ?d ?j ?h s" using False it rq True by (simp add: abort_download_def Let_def)
      moreover have "downloads_ok (set_block ?d ?j ?h s)" by (rule set_block_same [OF _ assms(1) it assms(3)]) simp
      ultimately show ?thesis by (simp add: kept_sub)
    next
      case none: False
      have "turns (bstate ?info) (bstate (?f ?info)) ?d (?g ?d)"
        using counter_step(4) [OF assms(1) it assms(3) rq] rq by (simp add: turns_def)
      note tr = turn_release [OF assms(1) it assms(3), where f = ?f and g = ?g, OF this refl]
      show ?thesis
      proof (cases "requested (dl_at ?t it) + finished (dl_at ?t it) + writing (dl_at ?t it) = 0")
        case True
        have "works (abort_download b peer s) = works ?e"
          using False it rq none True by (simp add: abort_download_def Let_def)
        then show ?thesis using tr(2) [OF True] by (rule kept_works)
      next
        case pos: False
        have "abort_download b peer s = snd (update_piece_state it ?t)"
          using False it rq none pos by (auto simp: abort_download_def Let_def)
        then show ?thesis using tr(3) pos by auto
      qed
    qed
  qed
qed

section \<open>The other operations\<close>

lemma lock_piece_kept:
  assumes "downloads_ok s" and "i < num_pieces s"
  shows "downloads_ok (lock_piece i s)" and "dindex ` in_download (lock_piece i s) \<subseteq> dindex ` in_download s"
proof -
  have "downloads_ok (lock_piece i s) \<and> dindex ` in_download (lock_piece i s) \<subseteq> dindex ` in_download s"
  proof (cases "download_queue (piece_at s i) = piece_open")
    case True
    then show ?thesis using assms(1) by (simp add: lock_piece_def)
  next
    case False
    obtain it where it: "dl_iter_of i s = Some it" by (rule download_iter [OF assms False])
    let ?d = "dl_at s it"
    let ?g = "\<lambda>d::downloading_piece. (if passed_hash_check ?d then d\<lparr>passed_hash_check := False\<rparr> else d)\<lparr>locked := True\<rparr>"
    have w: "works (lock_piece i s) = works (dl_modify it ?g s)"
      using False it by (cases "passed_hash_check ?d") (simp_all add: lock_piece_def Let_def num_passed_out)
    have m: "downloads_ok (dl_modify it ?g s)" "in_download (dl_modify it ?g s) = insert (?g ?d) (in_download s - {?d})"
      using dl_modify_same [OF assms(1) it, of ?g] by simp_all
    have "dindex (?g ?d) \<in> dindex ` in_download s"
      using iterD(5) [OF dl_invD(2) [OF assms(1)] it] by auto
    then have "dindex ` in_download (lock_piece i s) \<subseteq> dindex ` in_download s" unfolding works_queues(2) [OF w] m(2) by blast
    then show ?thesis using dl_inv_works [OF w [symmetric] m(1)] by simp
  qed
  then show "downloads_ok (lock_piece i s)" "dindex ` in_download (lock_piece i s) \<subseteq> dindex ` in_download s" by simp_all
qed

lemma restore_piece_kept:
  assumes "downloads_ok s" and "i < num_pieces s"
  shows "kept i s (restore_piece i s)"
proof (cases "download_queue (piece_at s i) = piece_open")
  case True
  then show ?thesis using assms(1) by (simp add: restore_piece_def kept_refl)
next
  case False
  obtain it where it: "dl_iter_of i s = Some it" by (rule download_iter [OF assms False])
  let ?g = "\<lambda>d::downloading_piece. d\<lparr>locked := False\<rparr>"
  let ?m = "dl_modify it ?g s"
  have m: "downloads_ok ?m" "dl_iter_of i ?m = Some it" "in_download ?m = insert (?g (dl_at s it)) (in_download s - {dl_at s it})"
    using dl_modify_same [OF assms(1) it, of ?g] by simp_all
  have "dl_inv {i} ?m" using m(1) by (auto elim: dl_inv_mono)
  note e = erase_download_ok [OF this m(2)]
  have "dindex (?g (dl_at s it)) = i" using dl_iter_ofD(1) [OF it] by simp
  then have "dindex ` in_download ?m \<subseteq> insert i (dindex ` in_download s)" using m(3) by auto
  from kept_grow [OF e this] have "kept i s (erase_download_piece it ?m)" .
  moreover have "works (restore_piece i s) = works (erase_download_piece it ?m)"
    using False it by (simp add: restore_piece_def Let_def)
  ultimately show ?thesis using kept_works by blast
qed

text \<open>A new priority may make the state of a download out of date.\<close>

lemma priority_changed_inv:
  assumes "downloads_ok s" and "i < num_pieces s" and "t = set_piece i (\<lambda>p. p\<lparr>piece_priority := x\<rparr>) s"
  shows "dl_inv {i} t" and "in_download t = in_download s" and "dl_iter_of i t = dl_iter_of i s" and "dl_at t = dl_at s"
proof -
  note inv = dl_invD [OF assms(1)]
  have pc: "pstate (piece_at t j) = pstate (piece_at s j)" for j
    by (cases "j = i"; cases "i < num_pieces s") (simp_all add: assms(3) set_piece_def list_update_beyond)
  have other: "piece_at t j = piece_at s j" if "j \<noteq> i" for j using that by (simp add: assms(3) set_piece_def)
  have dq: "download_queue (piece_at t j) = download_queue (piece_at s j)" for j by (rule same_queue [OF pc])
  show D: "in_download t = in_download s" "dl_at t = dl_at s" by (simp_all add: assms(3))
  have bl: "blocks_in_piece t = blocks_in_piece s" "block_at t = block_at s" "num_pieces t = num_pieces s" "m_downloads t = m_downloads s"
    by (simp_all add: assms(3))
  have q: "queues_ok t" using inv(2) queues_but_cong [of t s] bl dq by simp
  have "counted t d \<and> (dindex d \<noteq> i \<longrightarrow> settled t d)" if "d \<in> in_download s" for d
    using inv(4,5) [OF that] counted_cong [of t d s] settled_cong [of t d s] bl other [of "dindex d"] by auto
  with q inv(1,3) D show "dl_inv {i} t" unfolding dl_inv_def by (simp add: assms(3))
  show "dl_iter_of i t = dl_iter_of i s" using dl_iter_of_cong [OF bl(4) dq] .
qed

lemma works_filter_count [simp]: "works (snd (filter_count i np s)) = works s"
  by (simp add: filter_count_def Let_def)

lemma works_set_piece_cong: "works s = works t \<Longrightarrow> works (set_piece i (\<lambda>p. p\<lparr>piece_priority := x\<rparr>) s) = works (set_piece i (\<lambda>p. p\<lparr>piece_priority := x\<rparr>) t)"
proof -
  assume w: "works s = works t"
  then have m: "map (\<lambda>p. (pstate p, piece_priority p)) (m_piece_map s) = map (\<lambda>p. (pstate p, piece_priority p)) (m_piece_map t)"
    by (simp add: works_def)
  have "map (\<lambda>p. (pstate p, piece_priority p)) ((m_piece_map r)[i := (piece_at r i)\<lparr>piece_priority := x\<rparr>])
    = (map (\<lambda>p. (pstate p, piece_priority p)) (m_piece_map r))[i := (fst (map (\<lambda>p. (pstate p, piece_priority p)) (m_piece_map r) ! i), x)]" for r
    by (cases "i < num_pieces r") (simp_all add: map_update list_update_beyond)
  with m w show ?thesis by (simp add: works_def set_piece_def)
qed

lemma set_piece_priority_kept:
  assumes "downloads_ok s" and "i < num_pieces s"
  shows "downloads_ok (snd (set_piece_priority i np s)) \<and> in_download (snd (set_piece_priority i np s)) = in_download s"
proof (cases "np = piece_priority (piece_at s i)")
  case True
  then show ?thesis using assms(1) by (simp add: set_piece_priority_def)
next
  case False
  obtain ret s1 where fc: "filter_count i np s = (ret, s1)" by (rule prod.exhaust)
  let ?t = "set_piece i (\<lambda>p. p\<lparr>piece_priority := np mod 2 ^ 3\<rparr>) s"
  define s3 where "s3 = relist (prio_of s i) i (set_piece i (\<lambda>p. p\<lparr>piece_priority := np mod 2 ^ 3\<rparr>) s1)"
  have "works s1 = works s" using works_filter_count [of i np s] fc by simp
  then have w: "works s3 = works ?t" unfolding s3_def works_relist by (rule works_set_piece_cong)
  note pc = priority_changed_inv [OF assms refl, of "np mod 2 ^ 3"]
  note wq = works_queues [OF w]
  have n: "num_pieces s3 = num_pieces s" using works_eqD(6) [OF w] by simp
  have s3: "dl_inv {i} s3" "in_download s3 = in_download s" "dl_iter_of i s3 = dl_iter_of i s" "dl_at s3 = dl_at s"
    using dl_inv_works [OF w [symmetric] pc(1)] wq(2,3) wq(6) [of i] pc(2,3,4) n assms(2) by simp_all
  have dq: "download_queue (piece_at s3 i) = download_queue (piece_at s i)"
    using works_eqD(7) [OF w, of i] n assms(2) by (intro same_queue) (simp add: set_piece_def)
  have eq: "snd (set_piece_priority i np s) = (if downloading (piece_at s3 i)
      then case dl_iter_of i s3 of None \<Rightarrow> s3 | Some it \<Rightarrow> snd (update_piece_state it s3) else s3)"
    using False fc unfolding set_piece_priority_def s3_def Let_def by simp
  show ?thesis
  proof (cases "download_queue (piece_at s i) = piece_open")
    case True
    have "dindex d \<noteq> i" if "d \<in> in_download s3" for d
      using that queues_okD(2) [OF dl_invD(2) [OF s3(1)]] True dq by (auto simp: in_download_def)
    then have "downloads_ok s3" using s3(1) by (auto simp: dl_inv_def)
    then show ?thesis using eq True dq s3(2) by (simp add: downloading_queue)
  next
    case dl: False
    obtain it where it: "dl_iter_of i s = Some it" by (rule download_iter [OF assms dl])
    have "settled s (dl_at s it)" using dl_invD(5) [OF assms(1)] iterD(5) [OF dl_invD(2) [OF assms(1)] it] by simp
    then have pos: "0 < total_blocks (dl_at s3 it)" using s3(4) by (simp add: settled_def)
    have "downloads_ok (snd (update_piece_state it s3)) \<and> in_download (snd (update_piece_state it s3)) = in_download s"
      using update_state_ok [OF s3(1) _ pos] s3(2,3) it by simp
    then show ?thesis using eq dl dq it s3(3) by (simp add: downloading_queue)
  qed
qed

lemma works_we_dont_have: "is_have (piece_at s i) \<Longrightarrow> works (we_dont_have i s) = works s"
proof -
  assume h: "is_have (piece_at s i)"
  have "works (set_piece i set_not_have u) = works u" for u by (rule works_set_piece) (simp add: set_not_have_def)
  with h show ?thesis by (simp add: we_dont_have_def Let_def)
qed

lemma works_pad_count [simp]: "works (pad_count b s) = works s"
  by (simp add: pad_count_def Let_def)

lemma clear_peer_kept:
  assumes "downloads_ok s"
  shows "downloads_ok (clear_peer peer s)" and "in_download (clear_peer peer s) = in_download s"
proof -
  note inv = dl_invD [OF assms]
  let ?t = "clear_peer peer s"
  have same: "m_downloads ?t = m_downloads s" "m_piece_map ?t = m_piece_map s" "blocks_in_piece ?t = blocks_in_piece s"
    "sizes_ok ?t = sizes_ok s" "slots_ok ?t = slots_ok s"
    by (intro ext | simp add: clear_peer_def blocks_in_piece_def sizes_ok_def slots_ok_def)+
  show D: "in_download ?t = in_download s" by (simp add: in_download_def same)
  have st: "bstate (block_at ?t d j) = bstate (block_at s d j)" if "d \<in> in_download s" "j < blocks_in_piece s (dindex d)" for d j
    using slot_room [OF inv(3,1) that] by (simp add: clear_peer_def block_at_def blocks_begin_def)
  have "counted ?t d \<and> settled ?t d" if d: "d \<in> in_download s" for d
  proof -
    have "block_count x ?t d = block_count x s d" for x
      unfolding block_count_def same(3) by (rule arg_cong [where f = length], rule filter_cong) (use st [OF d] in auto)
    then show ?thesis using inv(4,5) [OF d] settled_cong [of ?t d s] same by (simp add: counted_def)
  qed
  then show "downloads_ok ?t" using inv(1,2,3) queues_but_cong [of ?t s] same D by (simp add: dl_inv_def)
qed

section \<open>Availability and the list do not matter\<close>

lemma works_peer_count [simp]: "works (set_piece i inc_peer_count s) = works s" "works (set_piece i dec_peer_count s) = works s"
  by (rule works_set_piece; simp add: inc_peer_count_def dec_peer_count_def)+

lemma works_break_one_seed [simp]: "works (break_one_seed s) = works s"
  by (simp add: works_def break_one_seed_def inc_peer_count_def)

lemma works_fold: "(\<And>i u. works (f i u) = works u) \<Longrightarrow> works (fold f xs s) = works s"
  by (induction xs arbitrary: s) simp_all

lemma works_refcounts [simp]:
  "works (inc_refcount_all s) = works s" "works (dec_refcount_all s) = works s" "works (inc_refcount i s) = works s"
  "works (dec_refcount i s) = works s" "works (inc_one i s) = works s" "works (dec_one i s) = works s" "works (dec_counter i s) = works s"
  by (simp_all add: inc_refcount_all_def dec_refcount_all_def inc_refcount_def dec_refcount_def inc_one_def dec_one_def
      dec_counter_def Let_def) (simp add: works_def dec_peer_count_def)?

lemma works_refcount_bits [simp]: "works (inc_refcount_bits bits s) = works s" "works (dec_refcount_bits bits s) = works s"
proof -
  have "works (fold (\<lambda>i. if bits ! i then set_piece i inc_peer_count else id) xs s) = works s"
    "works (fold (\<lambda>i. if bits ! i then dec_counter i else id) xs s) = works s" for xs
    by (rule works_fold; simp)+
  then show "works (inc_refcount_bits bits s) = works s" "works (dec_refcount_bits bits s) = works s"
    by (simp_all add: inc_refcount_bits_def dec_refcount_bits_def Let_def works_fold split: prod.split)
qed

lemma works_update_pieces [simp]: "works (update_pieces s) = works s"
  using works_unlisted [OF unlisted_update_pieces [of s]] by simp

section \<open>No piece we have is being downloaded\<close>

lemma had_open:
  assumes "had_free s" and "downloads_ok s" and "i < num_pieces s" and "is_have (piece_at s i)"
  shows "download_queue (piece_at s i) = piece_open"
proof (rule ccontr)
  assume "\<not> ?thesis"
  from queues_okD(3) [OF dl_invD(2) [OF assms(2)] assms(3) refl this] have "i \<in> dindex ` in_download s"
    by (auto simp: in_download_def)
  with assms(1,4) show False unfolding had_free_def by blast
qed

lemma had_free_kept:
  assumes "had_free s" and "downloads_ok s" and "i < num_pieces s" and "kept i s t" and "tally t = tally s"
    and "is_have (piece_at s i) \<Longrightarrow> download_queue (piece_at s i) = piece_open \<Longrightarrow> t = s"
  shows "had_free t"
proof (cases "is_have (piece_at s i)")
  case True
  then show ?thesis using assms(6) had_open [OF assms(1-3)] assms(1) by simp
next
  case False
  then show ?thesis using had_free_tally [OF assms(1,2,5), of i] assms(3,4) by (simp add: kept_def)
qed

lemma had_free_sub:
  assumes "had_free s" and "downloads_ok s" and "dindex ` in_download t \<subseteq> dindex ` in_download s"
    and "\<And>j. j < num_pieces s \<Longrightarrow> is_have (piece_at t j) \<Longrightarrow> is_have (piece_at s j)"
  shows "had_free t"
  unfolding had_free_def
proof
  fix j assume "j \<in> dindex ` in_download t"
  with assms(3) have j: "j \<in> dindex ` in_download s" by blast
  then have "j < num_pieces s" using dl_invD(6) [OF assms(2)] by auto
  then show "\<not> is_have (piece_at t j)" using assms(1) assms(4) [of j] j unfolding had_free_def by blast
qed

lemma had_free_works:
  assumes "works t = works s" and "downloads_ok s" and "tally t = tally s" and "had_free s"
  shows "had_free t"
  using had_free_sub [OF assms(4,2), of t] works_queues(2) [OF assms(1)] tally_eqD(1,11) [OF assms(3)] by simp

lemma piece_passed_had:
  assumes "had_free s" and "downloads_ok s" and "list_good s" and "i < num_pieces s"
  shows "had_free (piece_passed i s)"
proof (cases "download_queue (piece_at s i) = piece_open \<or> (\<exists>it. dl_iter_of i s = Some it \<and> locked (dl_at s it))")
  case True
  then show ?thesis using assms(1) by (auto simp: piece_passed_def split: option.split)
next
  case False
  obtain it where it: "dl_iter_of i s = Some it" using download_iter [OF assms(2,4)] False by blast
  let ?g = "\<lambda>d::downloading_piece. d\<lparr>passed_hash_check := True\<rparr>"
  let ?m = "dl_modify it ?g s"
  define s1 where "s1 = ?m\<lparr>m_num_passed := m_num_passed s + 1\<rparr>"
  have w: "works s1 = works ?m" by (simp add: s1_def)
  have m: "downloads_ok ?m" "in_download ?m = insert (?g (dl_at s it)) (in_download s - {dl_at s it})"
    using dl_modify_same [OF assms(2) it, of ?g] by simp_all
  have s1: "downloads_ok s1" "in_download s1 = in_download ?m" "tally s1 = tally s" "num_pieces s1 = num_pieces s"
    using dl_inv_works [OF w [symmetric] m(1)] works_queues(2) [OF w] works_eqD(6) [OF w] by (simp_all add: s1_def)
  have "dl_at s it \<in> in_download s" using iterD(5) [OF dl_invD(2) [OF assms(2)] it] .
  then have "dindex ` in_download s1 \<subseteq> dindex ` in_download s" using m(2) s1(2) by (auto simp: image_iff)
  from had_free_sub [OF assms(1,2) this] have h1: "had_free s1" using tally_eqD(1,11) [OF s1(3)] by simp
  have "list_view s1 = list_view s" "m_dirty s1 = m_dirty s" by (simp_all add: s1_def)
  then have g1: "list_good s1" using list_good_view [of s1 s] assms(3) by simp
  have "piece_passed i s = (if finished (dl_at s1 it) < blocks_in_piece s1 i then s1 else we_have i s1)"
    using False it by (simp add: piece_passed_def s1_def Let_def)
  then show ?thesis using h1 we_have_had [OF h1 s1(1) g1, of i] s1(4) assms(4) by simp
qed

lemma we_dont_have_flags:
  assumes "list_good s" and "i < num_pieces s" and "is_have (piece_at s i)" and "j < num_pieces s" and "j \<noteq> i"
  shows "is_have (piece_at (we_dont_have i s) j) = is_have (piece_at s j)"
proof -
  define s2 where "s2 = (let s1 = s\<lparr>m_num_passed := m_num_passed s - 1\<rparr>; pads = int (pad_blocks_in_piece s i) in
      if filtered (piece_at s1 i)
      then s1\<lparr>m_filtered_pad_blocks := m_filtered_pad_blocks s1 + pads, m_num_filtered := m_num_filtered s1 + 1,
               m_have_filtered_pad_blocks := m_have_filtered_pad_blocks s1 - pads,
               m_num_have_filtered := m_num_have_filtered s1 - 1\<rparr>
      else widen_cursors i s1)"
  define s3 where "s3 = set_piece i set_not_have
      (s2\<lparr>m_num_have := m_num_have s2 - 1, m_have_pad_blocks := m_have_pad_blocks s2 - int (pad_blocks_in_piece s i)\<rparr>)"
  have v2: "list_view s2 = list_view s" "m_dirty s2 = m_dirty s" by (simp_all add: s2_def Let_def)
  have pm: "m_piece_map s3 = (m_piece_map s)[i := set_not_have (piece_at s i)]"
    using list_view_eqD(1) [OF v2(1)] by (simp add: s3_def set_piece_def)
  have at: "piece_at s3 j = piece_at s j" "num_pieces s3 = num_pieces s" using assms(5) by (simp_all add: pm)
  have "list_view s3 = list_view (set_piece i set_not_have s)" unfolding s3_def by (rule Picker_Order.set_piece_view) (use v2 in simp)
  then have ch: "piece_changed i set_not_have s s3"
    using assms good_prio v2(2) by (simp add: piece_changed_def s3_def set_not_have_def)
  have res: "we_dont_have i s = (if m_dirty s3 then s3 else if prio_of s3 i \<ge> 0 then add i s3 else s3)"
    using assms(3) unfolding we_dont_have_def Let_def s3_def s2_def by simp
  have "m_dirty s3 = m_dirty s" using ch by (simp add: piece_changed_def)
  moreover have "tally (add i s3) = tally s3" if "\<not> m_dirty s" "0 \<le> prio_of s3 i"
    using tally_same [OF changed_add(2) [OF ch assms(1) that(1) _ that(2)]] have_prio [OF assms(3)] by simp
  ultimately have "tally (we_dont_have i s) = tally s3" unfolding res by simp
  then show ?thesis using tally_eqD(11) [of "we_dont_have i s" s3 j] at assms(4) by simp
qed

lemma we_dont_have_inv:
  assumes "downloads_ok s" and "had_free s" and "i < num_pieces s" and "is_have (piece_at s i)" and "list_good s"
  shows "downloads_ok (we_dont_have i s)" and "had_free (we_dont_have i s)"
proof -
  let ?t = "we_dont_have i s"
  note w = works_we_dont_have [OF assms(4)]
  show "downloads_ok ?t" by (rule dl_inv_works [OF w [symmetric] assms(1)])
  have "is_have (piece_at ?t j) \<Longrightarrow> is_have (piece_at s j)" if "j < num_pieces s" for j
  proof (cases "j = i")
    case False
    then show "is_have (piece_at ?t j) \<Longrightarrow> is_have (piece_at s j)" using we_dont_have_flags [OF assms(5,3,4) that] by simp
  qed (use assms(4) in simp)
  with had_free_sub [OF assms(2,1), of ?t] works_queues(2) [OF w] show "had_free ?t" by simp
qed

lemma pad_count_inv:
  assumes "downloads_ok s" and "had_free s"
  shows "downloads_ok (pad_count b s)" and "had_free (pad_count b s)"
proof -
  show "downloads_ok (pad_count b s)" using dl_inv_works [of s "pad_count b s"] assms(1) by simp
  have "m_piece_map (pad_count b s) = m_piece_map s" by (simp add: pad_count_def Let_def)
  then show "had_free (pad_count b s)" using assms(2) works_queues(2) [of "pad_count b s" s] by (simp add: had_free_def)
qed

end
