(* ===== verification/Picker_Machine.thy ===== *)
theory Picker_Machine
  imports Picker_Avail Picker_Counters Picker_Rebuild Picker_Protocol
begin

text \<open>
  The piece picker as a machine: its operations as the steps of a transition system, and the invariants of
  its list, counters, cursors and availability in every state it can reach.
\<close>

section \<open>Availability is left alone\<close>

text \<open>What availability depends on; only the operations on availability change it.\<close>

definition peers :: "piece_picker \<Rightarrow> nat list \<times> int" where
  "peers s = (map peer_count (m_piece_map s), m_seeds s)"

lemma peers_availability: "peers s = peers t \<Longrightarrow> get_availability s = get_availability t"
proof -
  assume eq: "peers s = peers t"
  have "get_availability r = map (\<lambda>c. int c + snd (peers r)) (fst (peers r))" for r
    by (simp add: get_availability_def peers_def)
  then show ?thesis using eq by metis
qed

lemma peers_avail_ok: "peers s = peers t \<Longrightarrow> avail_ok s = avail_ok t"
  using peers_availability [of s t] by (simp add: avail_ok_def peers_def)

lemma peers_updates [simp]:
  "peers (s\<lparr>m_downloads := d\<rparr>) = peers s" "peers (s\<lparr>m_block_info := bi\<rparr>) = peers s"
  "peers (s\<lparr>m_free_block_infos := fb\<rparr>) = peers s" "peers (s\<lparr>m_num_passed := np\<rparr>) = peers s"
  "peers (s\<lparr>m_recent_extents := re\<rparr>) = peers s" "peers (s\<lparr>m_num_have := nh\<rparr>) = peers s"
  "peers (s\<lparr>m_have_pad_blocks := hp\<rparr>) = peers s" "peers (s\<lparr>m_filtered_pad_blocks := fp\<rparr>) = peers s"
  "peers (s\<lparr>m_have_filtered_pad_blocks := hf\<rparr>) = peers s" "peers (s\<lparr>m_num_filtered := nf\<rparr>) = peers s"
  "peers (s\<lparr>m_num_have_filtered := nhf\<rparr>) = peers s" "peers (s\<lparr>m_cursor := c\<rparr>) = peers s"
  "peers (s\<lparr>m_reverse_cursor := rc\<rparr>) = peers s" "peers (s\<lparr>m_pad_blocks := pb\<rparr>) = peers s"
  "peers (s\<lparr>m_num_pad_blocks := npb\<rparr>) = peers s" "peers (s\<lparr>m_pads_in_piece := pp\<rparr>) = peers s"
  "peers (s\<lparr>m_dirty := b\<rparr>) = peers s" "peers (s\<lparr>m_pieces := ps\<rparr>) = peers s"
  "peers (s\<lparr>m_priority_boundaries := bs\<rparr>) = peers s" "peers (s\<lparr>rng := g\<rparr>) = peers s"
  by (simp_all add: peers_def)

lemma peers_set_piece [simp]:
  assumes "\<And>p. peer_count (f p) = peer_count p"
  shows "peers (set_piece i f s) = peers s"
  using assms by (cases "i < num_pieces s") (auto simp: peers_def set_piece_def map_update list_update_beyond intro: list_update_same_conv [THEN iffD2])

lemma peers_dl [simp]:
  "peers (dl_modify it f s) = peers s" "peers (dl_erase it s) = peers s" "peers (dl_insert it d s) = peers s"
  "peers (set_block d' j g s) = peers s"
  by (simp_all add: dl_modify_def dl_erase_def dl_insert_def set_block_def Let_def)

text \<open>The operations on the list leave it alone, as they do everything but the list.\<close>

lemma peers_unlisted: "unlisted s = unlisted t \<Longrightarrow> peers s = peers t"
proof -
  assume eq: "unlisted s = unlisted t"
  have "peers r = (map peer_count (m_piece_map (unlisted r)), m_seeds (unlisted r))" for r
    by (simp add: peers_def unlisted_def unplaced_def)
  then show ?thesis using eq by metis
qed

lemma peers_list [simp]:
  "peers (add i s) = peers s" "peers (remove q e s) = peers s" "peers (update p e s) = peers s"
  by (simp_all add: peers_unlisted [of "add i s" s] peers_unlisted [of "remove q e s" s] peers_unlisted [of "update p e s" s])

lemma peers_state [simp]:
  "peers (relist p i s) = peers s" "peers (open_piece i st s) = peers s" "peers (erase_download_piece it s) = peers s"
  "peers (snd (update_piece_state dp s)) = peers s"
  by (simp_all add: relist_def open_piece_def erase_download_piece_def update_piece_state_def Let_def)

lemma peers_turn [simp]: "peers (turn_piece i make_reverse s) = peers s" "peers (turn_piece i unreverse s) = peers s"
  by (simp_all add: turn_piece_def Let_def make_reverse_def unreverse_def)

lemma peers_add_download [simp]: "peers (snd (add_download_piece i s)) = peers s"
  by (simp add: add_download_piece_def Let_def split: prod.split)

text \<open>The operations on blocks and pieces.\<close>

lemma peers_we_have [simp]: "peers (we_have i s) = peers s"
  by (simp add: we_have_def have_erase_def have_count_def have_cursors_def set_have_def Let_def split: option.split)

lemma peers_piece_passed [simp]: "peers (piece_passed i s) = peers s"
  by (simp add: piece_passed_def Let_def split: option.split)

lemma peers_we_dont_have [simp]: "peers (we_dont_have i s) = peers s"
  by (simp add: we_dont_have_def widen_cursors_def set_not_have_def Let_def split: option.split)

lemma peers_filter_count [simp]: "peers (snd (filter_count i np s)) = peers s"
  by (simp add: filter_count_def have_cursors_def widen_cursors_def Let_def)

lemma peers_set_piece_priority [simp]: "peers (snd (set_piece_priority i np s)) = peers s"
proof -
  obtain ret s1 where fc: "filter_count i np s = (ret, s1)" by (rule prod.exhaust)
  have "peers s1 = peers s" using peers_filter_count [of i np s] fc by simp
  with fc show ?thesis by (simp add: set_piece_priority_def Let_def split: option.split)
qed

lemma peers_restore [simp]: "peers (restore_piece i s) = peers s" "peers (lock_piece i s) = peers s" "peers (erase_if_unused i it s) = peers s"
  by (simp_all add: restore_piece_def lock_piece_def erase_if_unused_def Let_def split: option.split)

lemma peers_record [simp]: "peers (record_downloading_piece i s) = peers s"
  by (simp add: record_downloading_piece_def Let_def split: option.split)

lemma peers_mark_as_downloading [simp]: "peers (snd (mark_as_downloading b peer rvs aff s)) = peers s"
  by (simp add: mark_as_downloading_def Let_def case_prod_beta split: option.split)

lemma peers_mark_as_writing [simp]: "peers (snd (mark_as_writing b peer s)) = peers s"
  by (simp add: mark_as_writing_def Let_def case_prod_beta split: option.split)

lemma peers_write_failed [simp]: "peers (write_failed b s) = peers s"
  by (simp add: write_failed_def Let_def case_prod_beta split: option.split)

lemma peers_mark_as_canceled [simp]: "peers (mark_as_canceled b peer s) = peers s"
  by (simp add: mark_as_canceled_def Let_def case_prod_beta split: option.split)

lemma peers_abort_download [simp]: "peers (abort_download b peer s) = peers s"
  by (simp add: abort_download_def Let_def case_prod_beta split: option.split)

lemma peers_mark_as_finished [simp]: "peers (mark_as_finished b peer s) = peers s"
  by (simp add: mark_as_finished_def Let_def case_prod_beta split: option.split)

lemma peers_mark_as_pad [simp]: "peers (mark_as_pad b s) = peers s"
  by (simp add: mark_as_pad_def pad_count_def Let_def)

section \<open>The machine\<close>

text \<open>
  The steps of the picker. Most conditions are those the code asserts of its callers: the piece and the block
  exist, a count of peers neither drops below zero nor outgrows its 26 bits, pads are marked on pieces we do not
  have, a piece we have is not requested, a block is finished
  only after it was written (or was never requested at all), only a block being written can fail, and a piece is opened only
  if one of the \<open>2 ^ 16\<close> slots for its blocks is left.

  Two conditions the code does not assert; without them the invariants fail, which is shown at the end of this theory.
  \<open>we_dont_have\<close> is not called for a piece that is being downloaded (\<open>torrent.cpp\<close> calls it for pieces we have). \<open>resize\<close>, by which
  a torrent that is to be checked again forgets its pieces, keeps the number of pieces, and no filtered piece
  has pad blocks.
\<close>

definition block_exists :: "piece_block \<Rightarrow> piece_picker \<Rightarrow> bool" where
  "block_exists b s \<longleftrightarrow> fst b < num_pieces s \<and> snd b < blocks_in_piece s (fst b)"

definition can_open :: "piece_block \<Rightarrow> piece_picker \<Rightarrow> bool" where
  "can_open b s \<longleftrightarrow> (download_queue (piece_at s (fst b)) = piece_open \<longrightarrow> slot_free s)"

definition block_state_at :: "piece_block \<Rightarrow> piece_picker \<Rightarrow> block_state option" where
  "block_state_at b s = map_option (\<lambda>it. bstate (block_at s (dl_at s it) (snd b))) (dl_iter_of (fst b) s)"

definition no_filtered_pads :: "piece_picker \<Rightarrow> bool" where
  "no_filtered_pads s \<longleftrightarrow> (\<forall>i<num_pieces s. filtered (piece_at s i) \<longrightarrow> pad_blocks_in_piece s i = 0)"

inductive picker_step :: "piece_picker \<Rightarrow> piece_picker \<Rightarrow> bool" where
  step_we_have: "i < num_pieces s \<Longrightarrow> picker_step s (we_have i s)"
| step_piece_passed: "i < num_pieces s \<Longrightarrow> picker_step s (piece_passed i s)"
| step_we_dont_have: "i < num_pieces s \<Longrightarrow> is_have (piece_at s i) \<or> download_queue (piece_at s i) = piece_open \<Longrightarrow>
    picker_step s (we_dont_have i s)"
| step_set_piece_priority: "i < num_pieces s \<Longrightarrow> np < priority_levels \<Longrightarrow> picker_step s (snd (set_piece_priority i np s))"
| step_restore_piece: "i < num_pieces s \<Longrightarrow> picker_step s (restore_piece i s)"
| step_lock_piece: "i < num_pieces s \<Longrightarrow> picker_step s (lock_piece i s)"
| step_inc_all: "\<forall>a\<in>set (get_availability s). a + 1 < peer_limit \<Longrightarrow> picker_step s (inc_refcount_all s)"
| step_dec_all: "\<forall>a\<in>set (get_availability s). 0 < a \<Longrightarrow> picker_step s (dec_refcount_all s)"
| step_inc: "i < num_pieces s \<Longrightarrow> get_availability s ! i + 1 < peer_limit \<Longrightarrow> picker_step s (inc_refcount i s)"
| step_dec: "i < num_pieces s \<Longrightarrow> 0 < get_availability s ! i \<Longrightarrow> picker_step s (dec_refcount i s)"
| step_inc_bits: "bits_room 1 bits s \<Longrightarrow> picker_step s (inc_refcount_bits bits s)"
| step_dec_bits: "bits_room (-1) bits s \<Longrightarrow> picker_step s (dec_refcount_bits bits s)"
| step_downloading: "block_exists b s \<Longrightarrow> can_open b s \<Longrightarrow> \<not> is_have (piece_at s (fst b)) \<Longrightarrow>
    picker_step s (snd (mark_as_downloading b peer rvs aff s))"
| step_writing: "block_exists b s \<Longrightarrow> can_open b s \<Longrightarrow> picker_step s (snd (mark_as_writing b peer s))"
| step_finished: "block_exists b s \<Longrightarrow> can_open b s \<Longrightarrow> block_state_at b s \<noteq> Some state_requested \<Longrightarrow>
    picker_step s (mark_as_finished b peer s)"
| step_failed: "block_exists b s \<Longrightarrow> block_state_at b s \<in> {None, Some state_writing} \<Longrightarrow> picker_step s (write_failed b s)"
| step_canceled: "block_exists b s \<Longrightarrow> picker_step s (mark_as_canceled b peer s)"
| step_aborted: "block_exists b s \<Longrightarrow> picker_step s (abort_download b peer s)"
| step_pad: "fst b < num_pieces s \<Longrightarrow> \<not> is_have (piece_at s (fst b)) \<Longrightarrow> picker_step s (mark_as_pad b s)"
| step_clear_peer: "picker_step s (clear_peer peer s)"
| step_rebuild: "picker_step s (update_pieces s)"
| step_resize: "resize bpp bil (num_pieces s) s = Inr t \<Longrightarrow> 0 < bpp \<Longrightarrow> bil \<le> bpp \<Longrightarrow> no_filtered_pads s \<Longrightarrow> picker_step s t"

definition picker_start :: "piece_picker \<Rightarrow> bool" where
  "picker_start s \<longleftrightarrow> (\<exists>g bpp bil n. n \<le> max_pieces \<and> 0 < bpp \<and> bil \<le> bpp \<and> new_picker g bpp bil n = Inr s)"

definition picker_inv :: "piece_picker \<Rightarrow> bool" where
  "picker_inv s \<longleftrightarrow> list_good s \<and> tallied s \<and> avail_ok s \<and> downloads_ok s \<and> had_free s"

text \<open>The parts of the invariant, one by one.\<close>

lemma picker_invD:
  assumes "picker_inv s"
  shows "list_good s" "tallied s" "avail_ok s" "0 \<le> m_seeds s" "downloads_ok s" "had_free s"
  using assms by (simp_all add: picker_inv_def avail_ok_def)

lemma picker_inv_peersI:
  "list_good t \<Longrightarrow> tallied t \<Longrightarrow> peers t = peers s \<Longrightarrow> downloads_ok t \<Longrightarrow> had_free t \<Longrightarrow> picker_inv s \<Longrightarrow> picker_inv t"
  using peers_avail_ok [of t s] by (simp add: picker_inv_def)

lemma picker_inv_keptI:
  assumes "picker_inv s" and "i < num_pieces s" and "list_good t" and "tally t = tally s" and "peers t = peers s" and "kept i s t"
    and "is_have (piece_at s i) \<Longrightarrow> download_queue (piece_at s i) = piece_open \<Longrightarrow> t = s"
  shows "picker_inv t"
  using picker_inv_peersI [OF assms(3) _ assms(5) _ _ assms(1)] tallied_tally [OF assms(4)] picker_invD(2) [OF assms(1)] assms(6)
    had_free_kept [OF picker_invD(6) [OF assms(1)] picker_invD(5) [OF assms(1)] assms(2,6,4,7)]
  by (simp add: kept_def)

lemma picker_inv_worksI:
  assumes "picker_inv s" and "works t = works s" and "list_good t" and "avail_ok t" and "tally t = tally s"
  shows "picker_inv t"
  using assms(3,4) tallied_tally [OF assms(5)] picker_invD(2) [OF assms(1)] dl_inv_works [OF assms(2) [symmetric] picker_invD(5) [OF assms(1)]]
    had_free_works [OF assms(2) picker_invD(5) [OF assms(1)] assms(5) picker_invD(6) [OF assms(1)]]
  by (simp add: picker_inv_def)

lemma tally_clear_peer: "tally (clear_peer peer s) = tally s" "peers (clear_peer peer s) = peers s" "list_good (clear_peer peer s) = list_good s"
  by (simp_all add: clear_peer_def)

lemma update_pieces_inv:
  assumes "picker_inv s"
  shows "picker_inv (update_pieces s)" and "list_ok (update_pieces s)" and "\<not> m_dirty (update_pieces s)"
proof -
  have g: "num_pieces s \<le> max_pieces" "\<forall>x<num_pieces s. piece_priority (piece_at s x) < priority_levels"
    using assms by (auto simp: picker_inv_def list_good_def)
  note up = update_pieces_ok [OF g]
  then show ok: "list_ok (update_pieces s)" by blast
  have "tally (update_pieces s) = tally s" using tally_same [OF conjunct2 [OF up]] by simp
  moreover have "avail_ok (update_pieces s)"
    using availability_same [OF conjunct2 [OF up]] assms by (simp add: picker_inv_def avail_ok_def get_availability_def)
  ultimately show "picker_inv (update_pieces s)" using picker_inv_worksI [OF assms _ list_ok_good [OF ok]] by simp
  show "\<not> m_dirty (update_pieces s)" by (simp add: update_pieces_def Let_def case_prod_beta)
qed

lemma block_existsD: "block_exists b s \<Longrightarrow> fst b < num_pieces s" "block_exists b s \<Longrightarrow> snd b < blocks_in_piece s (fst b)"
  by (simp_all add: block_exists_def)

lemma can_openD: "can_open b s \<Longrightarrow> download_queue (piece_at s (fst b)) = piece_open \<Longrightarrow> slot_free s"
  by (simp add: can_open_def)

lemma block_state_atD: "dl_iter_of (fst b) s = Some it \<Longrightarrow> block_state_at b s = Some (bstate (block_at s (dl_at s it) (snd b)))"
  by (simp add: block_state_at_def)

text \<open>Every block of a full piece is taken, so one of them is requested or all are written: the first is the state the code relies on.\<close>

lemma full_requested:
  assumes "downloads_ok s" and "dl_iter_of i s = Some it" and "requested (dl_at s it) = 0"
  shows "pstate (piece_at s i) \<noteq> piece_full"
proof -
  have "settled s (dl_at s it)" "dindex (dl_at s it) = i"
    using iterD(3,5) [OF dl_invD(2) [OF assms(1)] assms(2)] dl_invD(5) [OF assms(1)] by simp_all
  then have "pstate (piece_at s i) = new_dl_state s (dl_at s it)" by (simp add: settled_def)
  then show ?thesis using assms(3) by (simp add: new_dl_state_def Let_def)
qed

text \<open>Where nothing is downloading the invariant of the downloads is about the sizes of pieces only.\<close>

lemma fresh_downloads:
  assumes "m_downloads s = (\<lambda>_. [])" and "m_block_info s = []" and "m_free_block_infos s = []" and "0 < bpp" and "bil \<le> bpp"
    and "bpp \<le> max_blocks_per_piece" and "m_blocks_per_piece s = bpp mod 2 ^ 16"
    and "m_blocks_in_last_piece s = (if bil mod 2 ^ 16 = 0 then bpp mod 2 ^ 16 else bil mod 2 ^ 16)"
    and "\<And>i. i < num_pieces s \<Longrightarrow> download_queue (piece_at s i) = piece_open"
  shows "downloads_ok s \<and> had_free s"
proof -
  have none: "in_download s = {}" by (simp add: in_download_def assms(1))
  have "sizes_ok s" using assms(4-8) by (simp add: sizes_ok_def)
  moreover have "queues_ok s" using assms(9) by (auto simp: queues_but_def assms(1))
  moreover have "slots_ok s" by (simp add: slots_ok_def none assms) (rule exI [of _ 0], simp)
  ultimately show ?thesis by (simp add: dl_inv_def had_free_def none)
qed

lemma picker_step_downloading:
  assumes "picker_inv s" and "block_exists b s" and "can_open b s" and "\<not> is_have (piece_at s (fst b))"
  shows "picker_inv (snd (mark_as_downloading b peer rvs aff s))"
proof -
  note inv = picker_invD [OF assms(1)] and b = block_existsD [OF assms(2)]
  have "list_good (snd (mark_as_downloading b peer rvs aff s)) \<and> num_pieces (snd (mark_as_downloading b peer rvs aff s)) = num_pieces s
    \<and> tally (snd (mark_as_downloading b peer rvs aff s)) = tally s"
    by (rule mark_as_downloading_good [OF inv(1) b(1)]) (use full_requested [OF inv(5)] in blast)
  then show ?thesis
    using picker_inv_keptI [OF assms(1) b(1) _ _ _ mark_as_downloading_kept [OF inv(5) b can_openD [OF assms(3)]]] assms(4) by simp
qed

lemma picker_step_finished:
  assumes "picker_inv s" and "block_exists b s" and "can_open b s" and "block_state_at b s \<noteq> Some state_requested"
  shows "picker_inv (mark_as_finished b peer s)"
proof -
  note inv = picker_invD [OF assms(1)] and b = block_existsD [OF assms(2)]
  let ?t = "mark_as_finished b peer s"
  have "\<exists>t. kept (fst b) s t \<and> list_good t \<and> tally t = tally s \<and> (?t = t \<or> ?t = we_have (fst b) t)
    \<and> (have_piece s (fst b) \<and> download_queue (piece_at s (fst b)) = piece_open \<longrightarrow> t = s \<and> ?t = s)"
    by (rule mark_as_finished_step [OF inv(5) b can_openD [OF assms(3)] _ inv(1)]) (use block_state_atD assms(4) in auto)
  then obtain t where t: "kept (fst b) s t" "list_good t" "tally t = tally s" "?t = t \<or> ?t = we_have (fst b) t"
      "have_piece s (fst b) \<Longrightarrow> download_queue (piece_at s (fst b)) = piece_open \<Longrightarrow> t = s" by blast
  have "had_free t" by (rule had_free_kept [OF inv(6,5) b(1) t(1,3)]) (use t(5) in \<open>simp add: is_have_def have_piece_def\<close>)
  moreover have n: "num_pieces t = num_pieces s" using tally_eqD(1) [OF t(3)] .
  moreover have "downloads_ok t" using t(1) by (simp add: kept_def)
  ultimately have "downloads_ok ?t \<and> had_free ?t" using t(2,4) we_have_inv(1) [of t "fst b"] we_have_had [of t "fst b"] b(1) by auto
  then show ?thesis
    using picker_inv_peersI [of ?t s] mark_as_finished_good [of s b peer] mark_as_finished_tallied [of s b peer] inv b(1) assms(1) by simp
qed

text \<open>A picker that forgets its pieces: nothing is had or downloading any more, what was filtered still is.\<close>

lemma resize_inv:
  assumes "picker_inv s" and "resize bpp bil (num_pieces s) s = Inr t" and "0 < bpp" and "bil \<le> bpp" and "no_filtered_pads s"
  shows "picker_inv t"
proof -
  note inv = picker_invD [OF assms(1)]
  let ?f = "\<lambda>m. m\<lparr>peer_count := 0, pstate := piece_open, pindex := 0\<rparr>"
  have t: "m_piece_map t = map ?f (m_piece_map s)" "m_cursor t = scan_cursor (map ?f (m_piece_map s)) 0"
      "m_reverse_cursor t = scan_reverse_cursor (map ?f (m_piece_map s)) (num_pieces s)" "m_dirty t" "m_seeds t = m_seeds s" "m_num_have t = 0"
      "m_num_filtered t = m_num_filtered s + m_num_have_filtered s" "m_num_have_filtered t = 0" "m_have_pad_blocks t = 0"
      "m_filtered_pad_blocks t = 0" "m_have_filtered_pad_blocks t = 0" "m_pads_in_piece t = m_pads_in_piece s"
    and fresh: "m_downloads t = (\<lambda>_. [])" "m_block_info t = []" "m_free_block_infos t = []" "bpp \<le> max_blocks_per_piece"
      "m_blocks_per_piece t = bpp mod 2 ^ 16" "m_blocks_in_last_piece t = (if bil mod 2 ^ 16 = 0 then bpp mod 2 ^ 16 else bil mod 2 ^ 16)"
    using assms(2) by (auto simp: resize_def Let_def split: if_splits)
  have at: "\<not> is_have (piece_at t i)" "filtered (piece_at t i) = filtered (piece_at s i)" "piece_priority (piece_at t i) = piece_priority (piece_at s i)"
      "download_queue (piece_at t i) = piece_open" "peer_count (piece_at t i) = 0" if "i < num_pieces s" for i
    using that by (simp_all add: t(1) is_have_def filtered_def download_queue_def)
  have n: "num_pieces t = num_pieces s" by (simp add: t(1))
  have "list_good t" using inv(1) at(3) by (simp add: list_good_def n t(4))
  moreover have "counters_ok t"
  proof -
    have z: "tot had w t = 0" "tot had_unwanted w t = 0" for w using at(1) by (simp_all add: tot_def n)
    have "tot unwanted (\<lambda>_. 1) t = tot unwanted (\<lambda>_. 1) s + tot had_unwanted (\<lambda>_. 1) s"
      unfolding tot_def n sum.distrib [symmetric] by (rule sum.cong) (simp_all add: at)
    moreover have "tot unwanted (pads t) t = 0"
      unfolding tot_def n by (rule sum.neutral) (use assms(5) at in \<open>auto simp: no_filtered_pads_def pad_blocks_in_piece_def t(12)\<close>)
    ultimately show ?thesis using inv(2) z t by (simp add: counters_ok_def tallied_def)
  qed
  moreover have "cursors_ok t"
    using scanned_cursors [of "map ?f (m_piece_map s)"] by (simp add: cursors_ok_def wanted_def t(1-3) cong: conj_cong)
  moreover have "avail_ok t"
  proof (rule avail_okI)
    fix i assume "i < num_pieces t"
    then show "int (peer_count (piece_at t i)) + m_seeds t < peer_limit" using avail_okD(1) [OF inv(3), of i] at(5) n t(5) by simp
  qed (use inv(4) t(5) in simp)
  moreover have "downloads_ok t \<and> had_free t" by (rule fresh_downloads [OF fresh(1-3) assms(3,4) fresh(4-6)]) (use at n in simp)
  ultimately show ?thesis by (simp add: picker_inv_def tallied_def)
qed

text \<open>What is left alone when the piece is not being downloaded.\<close>

lemma not_downloading:
  assumes "download_queue (piece_at s i) = piece_open"
  shows "restore_piece i s = s" and "lock_piece i s = s" and "fst b = i \<Longrightarrow> write_failed b s = s"
    and "fst b = i \<Longrightarrow> mark_as_canceled b peer s = s" and "fst b = i \<Longrightarrow> abort_download b peer s = s"
    and "fst b = i \<Longrightarrow> is_have (piece_at s i) \<Longrightarrow> snd (mark_as_writing b peer s) = s"
  using assms by (auto simp: restore_piece_def lock_piece_def write_failed_def mark_as_canceled_def abort_download_def mark_as_writing_def
      downloading_queue have_piece_def is_have_def Let_def)

lemma picker_step_inv:
  assumes "picker_step s t" and "picker_inv s"
  shows "picker_inv t"
proof -
  note inv = picker_invD [OF assms(2)]
  note works_invI = picker_inv_worksI [OF assms(2)] and peers_invI = picker_inv_peersI [OF _ _ _ _ _ assms(2)]
    and kept_invI = picker_inv_keptI [OF assms(2)]
  show ?thesis using assms(1)
  proof cases
    case (step_we_have i)
    then show ?thesis using peers_invI [of t] we_have_good [of s i] we_have_tallied [of s i] we_have_inv(1) [of s i] we_have_had [of s i] inv by simp
  next
    case (step_piece_passed i)
    then show ?thesis
      using peers_invI [of t] piece_passed_good [of s i] piece_passed_tallied [of s i] piece_passed_inv(1) [of s i] piece_passed_had [of s i] inv
      by simp
  next
    case (step_we_dont_have i)
    show ?thesis
    proof (cases "is_have (piece_at s i)")
      case True
      then show ?thesis using step_we_dont_have peers_invI [of t] we_dont_have_good [of s i] we_dont_have_tallied [of s i] we_dont_have_inv [of s i] inv
        by simp
    next
      case False
      then have "we_dont_have i s = s" using step_we_dont_have(3) by (simp add: we_dont_have_def)
      then show ?thesis using step_we_dont_have(1) assms(2) by simp
    qed
  next
    case (step_set_piece_priority i np)
    have "had_free t" using step_set_piece_priority set_piece_priority_kept [OF inv(5), of i np]
      by (intro had_free_sub [OF inv(6,5)]) (simp_all add: set_piece_priority_flags(1) [OF inv(1)])
    then show ?thesis
      using step_set_piece_priority peers_invI [of t] set_piece_priority_good [of s i np] set_piece_priority_tallied [of s i np]
        set_piece_priority_kept [of s i np] inv by simp
  next
    case (step_restore_piece i)
    show ?thesis unfolding step_restore_piece(1)
      by (rule kept_invI [OF step_restore_piece(2)])
        (use step_restore_piece(2) restore_piece_good [of s i] restore_piece_kept [of s i] inv in \<open>simp_all add: not_downloading\<close>)
  next
    case (step_lock_piece i)
    then show ?thesis using kept_invI [of i t] lock_piece_good [of s i] lock_piece_kept [of s i] inv
      by (auto simp: kept_def not_downloading)
  next
    case step_inc_all
    then show ?thesis using works_invI [of t] inc_refcount_all_avail [of s] inv by simp
  next
    case step_dec_all
    then show ?thesis using works_invI [of t] dec_refcount_all_avail [of s] inv by simp
  next
    case (step_inc i)
    then show ?thesis using works_invI [of t] inc_refcount_good [of s i] inc_refcount_avail [of s i] inv by simp
  next
    case (step_dec i)
    then show ?thesis using works_invI [of t] dec_refcount_good [of s i] dec_refcount_avail [of s i] inv by simp
  next
    case (step_inc_bits bits)
    then show ?thesis using works_invI [of t] inc_refcount_bits_avail [of s bits] inv by simp
  next
    case (step_dec_bits bits)
    then show ?thesis using works_invI [of t] dec_refcount_bits_avail [of s bits] inv by simp
  next
    case (step_downloading b peer rvs aff)
    then show ?thesis using picker_step_downloading [OF assms(2)] by simp
  next
    case (step_writing b peer)
    note b = block_existsD [OF step_writing(2)]
    show ?thesis unfolding step_writing(1)
      by (rule kept_invI [OF b(1)])
        (use mark_as_writing_good [of s b peer] mark_as_writing_kept [OF inv(5) b can_openD [OF step_writing(3)], of peer] b inv
          in \<open>simp_all add: not_downloading\<close>)
  next
    case (step_finished b peer)
    then show ?thesis using picker_step_finished [OF assms(2)] by simp
  next
    case (step_failed b)
    note b = block_existsD [OF step_failed(2)]
    have "kept (fst b) s (write_failed b s)"
      by (rule write_failed_kept [OF inv(5) b]) (use step_failed(3) block_state_atD in auto)
    then show ?thesis unfolding step_failed(1)
      using kept_invI [OF b(1), of "write_failed b s"] write_failed_good [of s b] b inv by (simp add: not_downloading)
  next
    case (step_canceled b peer)
    note b = block_existsD [OF step_canceled(2)]
    show ?thesis unfolding step_canceled(1)
      using kept_invI [OF b(1) _ _ _ mark_as_canceled_kept [OF inv(5) b]] mark_as_canceled_good [of s b peer] b inv
      by (simp add: not_downloading)
  next
    case (step_aborted b peer)
    note b = block_existsD [OF step_aborted(2)]
    show ?thesis unfolding step_aborted(1)
      using kept_invI [OF b(1) _ _ _ abort_download_kept [OF inv(5) b]] abort_download_good [of s b peer] b inv
      by (simp add: not_downloading)
  next
    case (step_pad b)
    let ?p = "pad_count b s"
    have g: "list_good ?p" "num_pieces ?p = num_pieces s"
      using inv(1) list_good_view [of ?p s] list_view_eqD(1) [of ?p s] by simp_all
    have "downloads_ok t \<and> had_free t"
      using pad_count_inv [OF inv(5,6)] we_have_inv(1) [of ?p "fst b"] we_have_had [of ?p "fst b"] g step_pad by (simp add: mark_as_pad_def Let_def)
    then show ?thesis using step_pad peers_invI [of t] mark_as_pad_good [of s b] mark_as_pad_tallied [of s b] inv by simp
  next
    case (step_clear_peer peer)
    have c: "m_piece_map t = m_piece_map s" using step_clear_peer by (simp add: clear_peer_def)
    show ?thesis using step_clear_peer peers_invI [of t] tally_clear_peer [of peer s] tallied_tally [of t s] clear_peer_kept [OF inv(5), of peer] inv c
      by (simp add: had_free_def)
  next
    case step_rebuild
    then show ?thesis using update_pieces_inv(1) assms(2) by blast
  next
    case (step_resize bpp bil)
    then show ?thesis using resize_inv [OF assms(2)] by blast
  qed
qed

lemma new_picker_inv:
  assumes "n \<le> max_pieces" and "0 < bpp" and "bil \<le> bpp" and "new_picker g bpp bil n = Inr s"
  shows "picker_inv s"
proof -
  let ?p = "new_piece_pos 0 0\<lparr>peer_count := 0, pstate := piece_open, pindex := 0\<rparr>"
  have pm: "m_piece_map s = replicate n ?p" and cur: "m_cursor s = scan_cursor (replicate n ?p) 0" "m_reverse_cursor s = scan_reverse_cursor (replicate n ?p) n"
    and rest: "m_dirty s" "m_seeds s = 0" "m_num_have s = 0" "m_num_filtered s = 0" "m_num_have_filtered s = 0" "m_have_pad_blocks s = 0"
      "m_filtered_pad_blocks s = 0" "m_have_filtered_pad_blocks s = 0"
    using assms(4) by (auto simp: new_picker_def resize_def Let_def split: if_splits)
  have p: "\<not> is_have ?p" "\<not> filtered ?p" "piece_priority ?p < priority_levels" "peer_count ?p = 0"
    by (simp_all add: new_piece_pos_def is_have_def filtered_def)
  have "list_good s" using assms(1) p rest(1) by (simp add: list_good_def pm)
  moreover have "counters_ok s" using p rest by (simp add: counters_ok_def tot_def pm)
  moreover have "cursors_ok s" using scanned_cursors [of "replicate n ?p"] by (simp add: cursors_ok_def wanted_def pm cur cong: conj_cong)
  moreover have "avail_ok s" using p rest by (intro avail_okI) (simp_all add: pm)
  moreover have "downloads_ok s \<and> had_free s"
    by (rule fresh_downloads [where bpp = bpp and bil = bil])
      (use assms in \<open>auto simp: new_picker_def resize_def Let_def download_queue_def split: if_splits\<close>)
  ultimately show ?thesis by (simp add: picker_inv_def tallied_def)
qed

lemma picker_start_inv: "picker_start s \<Longrightarrow> picker_inv s"
  unfolding picker_start_def using new_picker_inv by blast

interpretation picker_machine: invariant_system picker_start picker_step picker_inv
  by unfold_locales (fact picker_start_inv, rule picker_step_inv)

abbreviation picker_reachable :: "piece_picker \<Rightarrow> bool" where
  "picker_reachable \<equiv> reach picker_start picker_step"

section \<open>What holds in every reachable state\<close>

text \<open>
  C1: However the picker was used, its list is either marked dirty or right: it holds exactly the pieces
  that can be picked, each once, in ranges of equal priority in increasing order, and every piece knows its
  place. \<open>update_pieces\<close> makes it right in any case, without changing any piece.
\<close>

theorem picker_list_sound:
  assumes "picker_reachable s"
  shows "(\<not> m_dirty s \<longrightarrow> list_ok s)
    \<and> list_ok (update_pieces s) \<and> same_pieces (s\<lparr>m_dirty := False\<rparr>) (update_pieces s)"
proof -
  have inv: "picker_inv s" using picker_machine.inv_reach [OF assms] .
  then have "\<not> m_dirty s \<longrightarrow> list_ok s" using list_good_clean by (simp add: picker_inv_def)
  moreover from inv have "list_ok (update_pieces s) \<and> same_pieces (s\<lparr>m_dirty := False\<rparr>) (update_pieces s)"
    by (intro update_pieces_ok) (auto simp: picker_inv_def list_good_def)
  ultimately show ?thesis by simp
qed

text \<open>
  C5: In every reachable state the six counters of pieces and pad blocks are what counting the pieces
  gives, and the two cursors enclose exactly the pieces that are neither had nor filtered. Reachable includes checking a
  torrent again (\<open>resize\<close>) as long as no filtered piece has pad blocks; where one has, the count of filtered
  pad blocks is lost, as shown at the end of this theory.
\<close>

theorem picker_counters_sound:
  assumes "picker_reachable s"
  shows "counters_ok s \<and> cursors_ok s"
  using picker_machine.inv_reach [OF assms] by (simp add: picker_inv_def tallied_def)

text \<open>
  C2: In every reachable state the queues of downloads are sorted, hold exactly the pieces whose state says so and own
  disjoint slots of blocks; the counters of a download are what counting its blocks gives, no download is without a
  taken block, its piece has the state that follows from the counters, and it is not a piece we have.
\<close>

theorem picker_downloads_sound:
  assumes "picker_reachable s"
  shows "queues_ok s \<and> slots_ok s \<and> (\<forall>d\<in>in_download s. counted s d \<and> settled s d \<and> \<not> is_have (piece_at s (dindex d)))"
proof -
  have "downloads_ok s" "had_free s" using picker_invD [OF picker_machine.inv_reach [OF assms]] by simp_all
  then show ?thesis by (auto simp: dl_inv_def had_free_def)
qed

text \<open>
  C33: What the picker reports of its pieces in every reachable state. \<open>want\<close>, \<open>have_want\<close> and \<open>is_seeding\<close>
  are exact; \<open>num_want_left\<close>, meant to be the number of pieces we want and do not have, is too big by
  the number of filtered pieces that we have.
\<close>

theorem picker_reports:
  assumes "picker_reachable s"
  shows "num_want_left s = int (card (wanted s)) + int (card {i. i < num_pieces s \<and> is_have (piece_at s i) \<and> filtered (piece_at s i)})
    \<and> pc_num_pieces (have_want s) = int (card {i. i < num_pieces s \<and> is_have (piece_at s i) \<and> \<not> filtered (piece_at s i)})
    \<and> pc_num_pieces (want s) = int (card {i. i < num_pieces s \<and> \<not> filtered (piece_at s i)})
    \<and> (is_seeding s \<longleftrightarrow> (\<forall>i<num_pieces s. is_have (piece_at s i)))"
proof -
  have "counters_ok s" using picker_machine.inv_reach [OF assms] by (simp add: picker_inv_def tallied_def)
  from reported_counts [OF this] show ?thesis by blast
qed

text \<open>A picker of four pieces: one seed, one piece we have and then filter, one piece filtered.\<close>

definition demo_new :: piece_picker where
  "demo_new = projr (new_picker (\<lambda>_. 0) 2 2 4)"

definition demo_seeded :: piece_picker where
  "demo_seeded = update_pieces (inc_refcount_all demo_new)"

definition demo_used :: piece_picker where
  "demo_used = snd (set_piece_priority 3 0 (snd (set_piece_priority 2 0 (we_have 2 demo_seeded))))"

lemma demo_new_start: "picker_start demo_new"
proof -
  have "new_picker (\<lambda>_. 0) 2 2 4 = Inr demo_new" by (simp add: demo_new_def new_picker_def resize_def Let_def)
  moreover have "(4::nat) \<le> max_pieces" "(0::nat) < 2" "(2::nat) \<le> 2" by simp_all
  ultimately show ?thesis unfolding picker_start_def by blast
qed

lemma picker_reachI: "picker_reachable s \<Longrightarrow> picker_step s t \<Longrightarrow> picker_reachable t"
  by (rule reach_step)

lemma reachable_good: "picker_reachable s \<Longrightarrow> list_good s"
  using picker_machine.inv_reach [of s] by (simp add: picker_inv_def)

lemma demo_seeded_reach: "picker_reachable demo_seeded" and demo_seeded_size: "num_pieces demo_seeded = 4"
proof -
  have n: "num_pieces demo_new = 4" and av: "get_availability demo_new = replicate 4 0"
    by (simp_all add: demo_new_def new_picker_def resize_def get_availability_def new_piece_pos_def Let_def)
  have "picker_reachable (inc_refcount_all demo_new)"
    by (rule picker_reachI [OF reach_start [of picker_start, OF demo_new_start]], rule step_inc_all) (simp add: av)
  then show r: "picker_reachable demo_seeded" unfolding demo_seeded_def by (rule picker_reachI) (rule step_rebuild)
  have "num_pieces (inc_refcount_all demo_new) = 4" by (simp add: inc_refcount_all_def Let_def n)
  moreover have "same_pieces ((inc_refcount_all demo_new)\<lparr>m_dirty := False\<rparr>) demo_seeded"
    unfolding demo_seeded_def using reachable_good [OF \<open>picker_reachable (inc_refcount_all demo_new)\<close>]
    by (intro conjunct2 [OF update_pieces_ok]) (auto simp: list_good_def)
  ultimately show "num_pieces demo_seeded = 4" using same_pieces_num by fastforce
qed

lemma demo_used_reach: "picker_reachable demo_used"
  and demo_used_flags: "num_pieces demo_used = 4" "j < 4 \<Longrightarrow> is_have (piece_at demo_used j) = (j = 2 \<or> is_have (piece_at demo_seeded j))"
    "j < 4 \<Longrightarrow> filtered (piece_at demo_used j) = (j = 2 \<or> j = 3 \<or> filtered (piece_at demo_seeded j))"
proof -
  let ?a = "we_have 2 demo_seeded" let ?b = "snd (set_piece_priority 2 0 ?a)"
  have g: "list_good demo_seeded" "num_pieces demo_seeded = 4" using reachable_good [OF demo_seeded_reach] demo_seeded_size by simp_all
  have a: "picker_reachable ?a" by (rule picker_reachI [OF demo_seeded_reach], rule step_we_have) (simp add: demo_seeded_size)
  have na: "num_pieces ?a = 4" using we_have_good [OF g(1), of 2] g(2) by simp
  have b: "picker_reachable ?b" by (rule picker_reachI [OF a], rule step_set_piece_priority) (simp_all add: na)
  have nb: "num_pieces ?b = 4" using set_piece_priority_good [OF reachable_good [OF a], of 2 0] na by simp
  show "picker_reachable demo_used" unfolding demo_used_def by (rule picker_reachI [OF b], rule step_set_piece_priority) (simp_all add: nb)
  show "num_pieces demo_used = 4" unfolding demo_used_def using set_piece_priority_good [OF reachable_good [OF b], of 3 0] nb by simp
  assume j: "j < 4"
  show "is_have (piece_at demo_used j) = (j = 2 \<or> is_have (piece_at demo_seeded j))"
    using set_piece_priority_flags(1) [OF reachable_good [OF b], of 3 j 0] set_piece_priority_flags(1) [OF reachable_good [OF a], of 2 j 0]
      we_have_flags(1) [OF g(1), of 2 j] na nb g(2) j by (simp add: demo_used_def)
  show "filtered (piece_at demo_used j) = (j = 2 \<or> j = 3 \<or> filtered (piece_at demo_seeded j))"
    using set_piece_priority_flags(2) [OF reachable_good [OF b], of 3 j 0] set_piece_priority_flags(2) [OF reachable_good [OF a], of 2 j 0]
      we_have_flags(2) [OF g(1), of 2 j] na nb g(2) j by (auto simp: demo_used_def)
qed

lemma demo_fresh: "j < 4 \<Longrightarrow> \<not> is_have (piece_at demo_seeded j) \<and> \<not> filtered (piece_at demo_seeded j)"
proof -
  assume j: "j < 4"
  let ?t = "inc_refcount_all demo_new"
  have pm: "m_piece_map ?t = replicate 4 (new_piece_pos 0 0\<lparr>peer_count := 0, pstate := piece_open, pindex := 0\<rparr>)"
    by (simp add: inc_refcount_all_def Let_def demo_new_def new_picker_def resize_def)
  have r: "picker_reachable ?t"
    by (rule picker_reachI [OF reach_start [of picker_start, OF demo_new_start]], rule step_inc_all)
      (simp add: demo_new_def new_picker_def resize_def get_availability_def new_piece_pos_def Let_def)
  have "same_pieces (?t\<lparr>m_dirty := False\<rparr>) demo_seeded"
    unfolding demo_seeded_def using reachable_good [OF r] by (intro conjunct2 [OF update_pieces_ok]) (auto simp: list_good_def)
  from tally_same [OF this] have "tally demo_seeded = tally ?t" by simp
  from tally_eqD(11,12) [OF this, of j] show ?thesis
    using j by (simp add: pm) (simp add: new_piece_pos_def is_have_def filtered_def)
qed

text \<open>A picker with a block on its way.\<close>

definition demo_busy :: piece_picker where
  "demo_busy = snd (mark_as_downloading (1, 1) (Some 7) False False demo_new)"

lemma demo_new_view:
  "m_piece_map demo_new = replicate 4 (new_piece_pos 0 0\<lparr>peer_count := 0, pstate := piece_open, pindex := 0\<rparr>)"
  "m_downloads demo_new = (\<lambda>_. [])" "m_block_info demo_new = []" "m_free_block_infos demo_new = []" "m_dirty demo_new"
  "m_blocks_per_piece demo_new = 2" "m_blocks_in_last_piece demo_new = 2" "m_pad_blocks demo_new = []"
  by (simp_all add: demo_new_def new_picker_def resize_def Let_def)

lemma demo_busy_reach: "picker_reachable demo_busy"
  unfolding demo_busy_def
proof (rule picker_reachI [OF reach_start [of picker_start, OF demo_new_start]], rule step_downloading)
  show "block_exists (1, 1) demo_new" "can_open (1, 1) demo_new" "\<not> is_have (piece_at demo_new (fst (1, 1)))"
    by (simp_all add: block_exists_def can_open_def slot_free_def blocks_in_piece_def is_have_def new_piece_pos_def demo_new_view)
qed

lemma demo_busy_downloads: "map dindex (m_downloads demo_busy piece_downloading) = [1]"
proof -
  define p where "p = new_piece_pos 0 0\<lparr>peer_count := 0, pstate := piece_downloading, pindex := 0\<rparr>"
  define s1 where "s1 = open_piece 1 piece_downloading demo_new"
  define d where "d = new_downloading_piece\<lparr>dindex := 1, info_idx := 0\<rparr>"
  define s2 where "s2 = s1\<lparr>m_block_info := replicate 2 new_block_info, m_downloads := (\<lambda>_. [])(piece_downloading := [d])\<rparr>"
  note dls = dl_insert_def dl_lower_bound_def dl_at_def blocks_begin_def blocks_in_piece_def update_piece_state_def new_dl_state_def
  have p: "\<not> filtered p" "pstate p = piece_downloading" "\<not> is_reverse p" by (simp_all add: p_def new_piece_pos_def filtered_def is_reverse_def)
  have s1: "m_downloads s1 = (\<lambda>_. [])" "m_block_info s1 = []" "m_free_block_infos s1 = []" "m_dirty s1" "m_blocks_per_piece s1 = 2"
    "m_blocks_in_last_piece s1 = 2" "m_pad_blocks s1 = []" "piece_at s1 1 = p" "num_pieces s1 = 4"
    by (simp_all add: s1_def open_piece_def set_piece_def demo_new_view p_def Let_def)
  have d: "dindex d = 1" "info_idx d = 0" "finished d = 0" "requested d = 0" "writing d = 0"
    by (simp_all add: d_def new_downloading_piece_def)
  have init: "init_blocks [] 0 2 2 (replicate 2 new_block_info) 0 = (replicate 2 new_block_info, 0)"
    by (simp add: numeral_eq_Suc new_block_info_def)
  have p1: "piece_at s1 (Suc 0) = p" using s1(8) by simp
  have s2: "piece_at s2 1 = p" "m_downloads s2 piece_downloading = [d]" "dl_at s2 (piece_downloading, 0) = d" by (simp_all add: s2_def s1 p1 dl_at_def)
  have ad: "add_download_piece 1 s1 = ((piece_downloading, 0), s2)"
    by (simp add: s1 p1 add_download_piece_def dls init new_downloading_piece_def p Let_def) (simp add: s2_def d_def new_downloading_piece_def)?
  have q: "download_queue (piece_at demo_new 1) = piece_open" by (simp add: demo_new_view download_queue_def)
  let ?s5 = "dl_modify (piece_downloading, 0) (\<lambda>d. d\<lparr>requested := bits_inc 15 (requested d)\<rparr>)
    (set_block d 1 (\<lambda>_. \<lparr>bpeer = Some 7, num_peers_of = 1, bstate = state_requested\<rparr>) s2)"
  have "bstate (block_at s2 d 1) = state_none" by (simp add: s2_def block_at_def blocks_begin_def d s1 new_block_info_def numeral_eq_Suc)
  then have "demo_busy = snd (update_piece_state (piece_downloading, 0) ?s5)"
    unfolding demo_busy_def mark_as_downloading_def using q ad s2(3) by (simp add: s1_def Let_def del: One_nat_def)
  moreover have "snd (update_piece_state (piece_downloading, 0) ?s5) = ?s5"
    using s2(1) p p1 by (simp add: dls d s1 s2_def dl_modify_def set_block_def bits_inc_def Let_def)
  ultimately have busy: "demo_busy = ?s5" by (rule trans)
  show ?thesis unfolding busy by (simp add: dl_modify_def set_block_def s2_def dl_at_def d)
qed

theorem picker_downloads_sound_witness:
  "picker_reachable demo_busy \<and> map dindex (m_downloads demo_busy piece_downloading) = [1] \<and> queues_ok demo_busy \<and> slots_ok demo_busy
     \<and> counted demo_busy (hd (m_downloads demo_busy piece_downloading))
     \<and> settled demo_busy (hd (m_downloads demo_busy piece_downloading)) \<and> \<not> is_have (piece_at demo_busy 1)"
proof -
  let ?d = "hd (m_downloads demo_busy piece_downloading)"
  obtain ds where ds: "m_downloads demo_busy piece_downloading = ?d # ds" "dindex ?d = 1"
    using demo_busy_downloads by (cases "m_downloads demo_busy piece_downloading") auto
  then have "?d \<in> in_download demo_busy" unfolding in_download_def by (metis UN_I UNIV_I list.set_intros(1))
  then show ?thesis using picker_downloads_sound [OF demo_busy_reach] demo_busy_reach demo_busy_downloads ds(2) by auto
qed

theorem picker_list_sound_witness:
  "picker_reachable demo_used \<and> list_ok (update_pieces demo_used)
     \<and> same_pieces (demo_used\<lparr>m_dirty := False\<rparr>) (update_pieces demo_used)"
  using picker_list_sound [OF demo_used_reach] demo_used_reach by blast

text \<open>The seeded picker, told to forget its pieces.\<close>

definition demo_again :: piece_picker where
  "demo_again = projr (resize 2 2 4 demo_seeded)"

lemma demo_again_reach: "resize 2 2 4 demo_seeded = Inr demo_again" "picker_reachable demo_again"
proof -
  show eq: "resize 2 2 4 demo_seeded = Inr demo_again" by (simp add: demo_again_def resize_def Let_def)
  have "no_filtered_pads demo_seeded" using demo_fresh demo_seeded_size by (simp add: no_filtered_pads_def)
  then show "picker_reachable demo_again"
    using eq demo_seeded_size by (intro picker_reachI [OF demo_seeded_reach] step_resize [of 2 2]) simp_all
qed

theorem picker_counters_sound_witness:
  "picker_reachable demo_used \<and> counters_ok demo_used \<and> cursors_ok demo_used
     \<and> resize 2 2 4 demo_seeded = Inr demo_again \<and> counters_ok demo_again \<and> cursors_ok demo_again"
  using picker_counters_sound [OF demo_used_reach] picker_counters_sound [OF demo_again_reach(2)] demo_used_reach demo_again_reach(1) by blast

text \<open>Two pieces are wanted and missing, but the picker reports three.\<close>

theorem picker_reports_witness: "picker_reachable demo_used \<and> wanted demo_used = {0, 1} \<and> num_want_left demo_used = 3"
proof -
  have "{i. i < num_pieces demo_used \<and> is_have (piece_at demo_used i) \<and> filtered (piece_at demo_used i)} = {2}"
    using demo_used_flags demo_fresh by auto
  moreover have "wanted demo_used = {0, 1}"
    unfolding wanted_def using demo_used_flags demo_fresh by (auto simp: numeral_eq_Suc less_Suc_eq)
  ultimately show ?thesis using picker_reports [OF demo_used_reach] demo_used_reach by simp
qed

section \<open>Two defects\<close>

lemma cumulate_inj: "cumulate k xs = cumulate k ys \<Longrightarrow> xs = ys"
proof (induction xs arbitrary: k ys)
  case (Cons x xs)
  then show ?case by (cases ys) auto
next
  case Nil
  then show ?case by (cases ys) auto
qed

lemma concat_lengths: "map length xs = map length ys \<Longrightarrow> concat xs = concat ys \<Longrightarrow> xs = ys"
proof (induction xs arbitrary: ys)
  case (Cons x xs)
  then show ?case by (cases ys) auto
qed simp

text \<open>A list that is right determines the priorities of the pieces in it.\<close>

lemma list_ok_prio:
  assumes "list_ok s" and "list_ok t" and "m_pieces s = m_pieces t" and "m_priority_boundaries s = m_priority_boundaries t"
    and "i < num_pieces s" and "0 \<le> prio_of s i"
  shows "prio_of t i = prio_of s i"
proof -
  obtain bs cs where bs: "ranges_ok (prio_of s) s bs" and cs: "ranges_ok (prio_of t) t cs"
    using assms(1,2) by (auto simp: list_ok_def list_inv_def)
  have "map length bs = map length cs" using bs cs assms(4) cumulate_inj by (simp add: ranges_ok_def) blast
  moreover have "concat bs = concat cs" using bs cs assms(3) by (simp add: ranges_ok_def)
  ultimately have eq: "cs = bs" using concat_lengths by metis
  have "i \<in> set (concat bs)" using bs assms(5,6) by (simp add: ranges_ok_def)
  then obtain pre B1 B2 post where sp: "bs = pre @ (B1 @ i # B2) # post" "length pre = nat (prio_of s i)"
    using ranges_prio_member [of "prio_of s" bs i "nat (prio_of s i)"] bs assms(6) by (auto simp: ranges_ok_def)
  have "ranges_prio (prio_of t) 0 bs" using cs eq by (simp add: ranges_ok_def)
  then show ?thesis using sp assms(6) by (simp add: sp(1))
qed

lemma downloading_priority:
  assumes "0 \<le> priority seeds p" and "pstate p \<noteq> piece_open"
  shows "priority seeds (p\<lparr>pstate := piece_open\<rparr>) \<noteq> priority seeds p"
  using assms by (auto simp: priority_def filtered_def is_have_def is_reverse_def Let_def split: if_splits)

text \<open>
  C39: \<open>we_dont_have\<close> on a piece we do not have, but are downloading, erases the download without moving the
  piece in the list: where the list was right and the piece in it, it is wrong afterwards and not marked dirty.
\<close>

theorem we_dont_have_breaks_list:
  assumes "list_ok s" and "\<not> m_dirty s" and "i < num_pieces s" and "\<not> is_have (piece_at s i)"
    and "0 \<le> prio_of s i" and "dl_iter_of i s = Some it" and "download_queue (piece_at s i) \<noteq> piece_open"
  shows "\<not> m_dirty (we_dont_have i s) \<and> \<not> list_ok (we_dont_have i s)"
proof -
  let ?t = "we_dont_have i s" and ?u = "if passed_hash_check (dl_at s it)
    then (dl_modify it (\<lambda>d. d\<lparr>passed_hash_check := False\<rparr>) s)\<lparr>m_num_passed := m_num_passed s - 1\<rparr> else s"
  have t: "?t = erase_download_piece it ?u" using assms(4,6,7) by (simp add: we_dont_have_def)
  have u: "list_view ?u = list_view s" "m_dirty ?u = m_dirty s" "list_good ?u" "num_pieces ?u = num_pieces s"
    using list_ok_good [OF assms(1)] by simp_all
  have idx: "dindex (dl_at ?u it) = i" using dl_iter_ofD(1,2) [OF assms(6)] by simp
  have ch: "piece_changed i (\<lambda>p. p\<lparr>pstate := piece_open\<rparr>) ?u ?t"
    using erase_changed [OF u(3), of it] idx u(4) assms(3) by (simp add: t)
  note at = piece_changed_at [OF ch] and v = list_view_eqD [OF u(1)]
  have "pstate (piece_at s i) \<noteq> piece_open" using assms(7) by (auto simp: download_queue_def)
  then have "prio_of ?t i \<noteq> prio_of s i"
    using downloading_priority [of "m_seeds s" "piece_at s i"] assms(5) at(2,5) v(1,2) by (simp add: prio_of_def)
  then have "\<not> list_ok ?t"
    using list_ok_prio [OF assms(1) _ _ _ assms(3,5), of ?t] at(6,7) v(3,4) by auto
  moreover have "\<not> m_dirty ?t" using ch u(2) assms(2) by (simp add: piece_changed_def)
  ultimately show ?thesis by simp
qed

definition demo_downloading :: piece_picker where
  "demo_downloading = sample_picker
     \<lparr>m_piece_map := [\<lparr>peer_count = 0, pstate = piece_downloading, piece_priority = 7, pindex = 0\<rparr>,
        \<lparr>peer_count = 0, pstate = piece_open, piece_priority = 0, pindex = 0\<rparr>],
      m_priority_boundaries := [1],
      m_downloads := (\<lambda>_. [])(piece_downloading := [new_downloading_piece\<lparr>dindex := 0, info_idx := 0, requested := 1\<rparr>]),
      m_block_info := [\<lparr>bpeer = Some 1, num_peers_of = 1, bstate = state_requested\<rparr>, new_block_info]\<rparr>"

lemma demo_downloading_prio: "prio_of demo_downloading 0 = 0" "prio_of demo_downloading 1 = -1" "num_pieces demo_downloading = 2"
  by (simp_all add: demo_downloading_def sample_picker_def prio_of_def priority_def filtered_def is_have_def is_reverse_def)

lemma demo_downloading_ok: "list_ok demo_downloading"
proof -
  have "ranges_ok (prio_of demo_downloading) demo_downloading [[0]]"
    using demo_downloading_prio by (auto simp: ranges_ok_def less_2_cases_iff) (simp_all add: demo_downloading_def sample_picker_def)
  moreover have "idx_from (m_piece_map demo_downloading) 0 (concat [[0]])" by (simp add: demo_downloading_def)
  moreover have "\<forall>x<2. piece_priority (piece_at demo_downloading x) < 8"
    by (auto simp: demo_downloading_def less_2_cases_iff)
  ultimately show ?thesis unfolding list_ok_def list_inv_def using demo_downloading_prio(3) by auto
qed

theorem we_dont_have_breaks_list_witness:
  "list_ok demo_downloading \<and> \<not> m_dirty (we_dont_have 0 demo_downloading) \<and> \<not> list_ok (we_dont_have 0 demo_downloading)"
proof -
  have "\<not> m_dirty demo_downloading" "\<not> is_have (piece_at demo_downloading 0)" "download_queue (piece_at demo_downloading 0) \<noteq> piece_open"
    "dl_iter_of 0 demo_downloading = Some (piece_downloading, 0)"
    by (simp_all add: demo_downloading_def sample_picker_def is_have_def download_queue_def dl_iter_of_def find_dl_piece_def dl_lower_bound_def
        new_downloading_piece_def Let_def)
  with we_dont_have_breaks_list [OF demo_downloading_ok, of 0 "(piece_downloading, 0)"] demo_downloading_prio demo_downloading_ok
  show ?thesis by simp
qed

text \<open>
  C40: \<open>resize\<close>, called again for a recheck, resets the count of filtered pad blocks but neither the filtered pieces nor
  their pads: if a filtered piece has a pad block, the counter is wrong afterwards, and negative once
  that piece is wanted again.
\<close>

theorem resize_loses_filtered_pads:
  assumes "resize bpp bil n s = Inr t" and "i < n" and "i < num_pieces s" and "filtered (piece_at s i)"
    and "0 < pad_blocks_in_piece s i"
  shows "\<not> counters_ok t \<and> m_filtered_pad_blocks (snd (filter_count i 4 t)) = - int (pad_blocks_in_piece s i)"
proof -
  have t: "m_piece_map t = map (\<lambda>m. m\<lparr>peer_count := 0, pstate := piece_open, pindex := 0\<rparr>)
      (take n (m_piece_map s) @ replicate (n - num_pieces s) (new_piece_pos 0 0))"
    "m_filtered_pad_blocks t = 0" "m_pads_in_piece t = m_pads_in_piece s"
    using assms(1) by (auto simp: resize_def Let_def split: if_splits)
  have n: "i < num_pieces t" using assms(2) by (simp add: t(1))
  have at: "filtered (piece_at t i)" "\<not> is_have (piece_at t i)"
    using assms(2-4) by (simp_all add: t(1) nth_append filtered_def is_have_def)
  have pd: "pad_blocks_in_piece t i = pad_blocks_in_piece s i" by (simp add: pad_blocks_in_piece_def t(3))
  have "(if unwanted (is_have (piece_at t i)) (filtered (piece_at t i)) then pads t i else 0) \<le> tot unwanted (pads t) t"
    unfolding tot_def by (rule member_le_sum) (use n in auto)
  then have "tot unwanted (pads t) t > 0" using at pd assms(5) by simp
  moreover have "m_filtered_pad_blocks (snd (filter_count i 4 t)) = - int (pad_blocks_in_piece s i)"
    using filter_count_fields(6) [of i 4 t] at pd t(2) by simp
  ultimately show ?thesis using t(2) by (simp add: counters_ok_def)
qed

text \<open>The second piece of the sample is filtered; here it has a pad block.\<close>

theorem resize_loses_filtered_pads_witness:
  "\<exists>t. resize 2 1 2 (sample_picker\<lparr>m_pads_in_piece := [1 \<mapsto> 1], m_filtered_pad_blocks := 1\<rparr>) = Inr t
     \<and> \<not> counters_ok t \<and> m_filtered_pad_blocks (snd (filter_count 1 4 t)) = -1"
proof -
  let ?s = "sample_picker\<lparr>m_pads_in_piece := [1 \<mapsto> 1], m_filtered_pad_blocks := 1\<rparr>"
  obtain t where t: "resize 2 1 2 ?s = Inr t" by (simp add: resize_def Let_def)
  have "filtered (piece_at ?s 1)" "pad_blocks_in_piece ?s 1 = 1" "num_pieces ?s = 2"
    by (simp_all add: sample_picker_def filtered_def pad_blocks_in_piece_def)
  with resize_loses_filtered_pads [OF t, of 1] t show ?thesis by auto
qed

end
