(* ===== verification/Picker_Pick.thy ===== *)
theory Picker_Pick
  imports Picker_Machine
begin

text \<open>
  \<open>pick_pieces\<close> of \<open>piece_picker.cpp\<close>: which blocks to request from a peer, given the pieces the peer has.
  It goes through the partial pieces, the suggested pieces, then one of four orders of the pieces,
  the backups it collected on the way, and at the end picks one block that another peer already has.

  The early returns of the function are the constructor \<open>Return\<close>, a division by zero or the use of an
  iterator that is \<open>end()\<close> is \<open>Crash\<close>. The statistics counters are left out. Where \<open>std::sort\<close> leaves
  the order of equivalent elements open the model keeps the order of the queue.
\<close>

section \<open>Options, flags, results\<close>

record picker_options =
  rarest_first :: bool
  reverse :: bool
  on_parole :: bool
  prioritize_partials :: bool
  sequential :: bool
  time_critical_mode :: bool
  align_expanded_pieces :: bool
  piece_extent_affinity :: bool

datatype picker_flag =
    partial_ratio | prioritize_partials_flag | rarest_first_partials | rarest_first_flag
  | reverse_rarest_first | suggested_pieces_flag | prio_sequential_pieces | sequential_pieces
  | reverse_pieces | time_critical | random_pieces | prefer_contiguous | reverse_sequential
  | backup1 | backup2 | end_game | extent_affinity

record picks =
  interesting_blocks :: "piece_block list"
  backup_blocks :: "piece_block list"
  backup_blocks2 :: "piece_block list"
  num_blocks :: int
  ret_flags :: "picker_flag set"

datatype pick_ctl = Crash | Return picks | Go picks

abbreviation top_priority :: nat where "top_priority \<equiv> 7"

definition flag :: "picker_flag \<Rightarrow> picks \<Rightarrow> picks" where
  "flag f p = p\<lparr>ret_flags := insert f (ret_flags p)\<rparr>"

fun and_then :: "pick_ctl \<Rightarrow> (picks \<Rightarrow> pick_ctl) \<Rightarrow> pick_ctl" where
  "and_then Crash f = Crash"
| "and_then (Return p) f = Return p"
| "and_then (Go p) f = f p"

text \<open>\<open>if (num_blocks <= 0) return ret\<close>\<close>

definition done_or_go :: "picks \<Rightarrow> pick_ctl" where
  "done_or_go p = (if num_blocks p \<le> 0 then Return p else Go p)"

definition append_blocks :: "piece_block list \<Rightarrow> piece_block list \<Rightarrow> int \<Rightarrow> piece_block list \<times> piece_block list \<times> int" where
  "append_blocks dst src n =
     (if src = [] then (dst, src, n)
      else let to_copy = min (int (length src)) n
           in (dst @ take (nat to_copy) src, drop (nat to_copy) src, n - to_copy))"

definition append_backup :: "picks \<Rightarrow> picks" where
  "append_backup p = (case append_blocks (interesting_blocks p) (backup_blocks p) (num_blocks p) of
     (dst, src, n) \<Rightarrow> p\<lparr>interesting_blocks := dst, backup_blocks := src, num_blocks := n\<rparr>)"

definition append_backup2 :: "picks \<Rightarrow> picks" where
  "append_backup2 p = (case append_blocks (interesting_blocks p) (backup_blocks2 p) (num_blocks p) of
     (dst, src, n) \<Rightarrow> p\<lparr>interesting_blocks := dst, backup_blocks2 := src, num_blocks := n\<rparr>)"

definition partial_compare_rarest_first :: "piece_picker \<Rightarrow> downloading_piece \<Rightarrow> downloading_piece \<Rightarrow> bool" where
  "partial_compare_rarest_first s lhs rhs =
     (let lhs_availability = peer_count (piece_at s (dindex lhs));
          rhs_availability = peer_count (piece_at s (dindex rhs)) in
      if lhs_availability \<noteq> rhs_availability then lhs_availability < rhs_availability
      else
        let blocks_left = (\<lambda>d. int (m_blocks_per_piece s) - int (finished d) - int (writing d) - int (requested d))
        in blocks_left lhs < blocks_left rhs)"

text \<open>\<open>std::sort\<close> with a comparison.\<close>

fun insert_by :: "('a \<Rightarrow> 'a \<Rightarrow> bool) \<Rightarrow> 'a \<Rightarrow> 'a list \<Rightarrow> 'a list" where
  "insert_by lt x [] = [x]"
| "insert_by lt x (y # ys) = (if lt y x then y # insert_by lt x ys else x # y # ys)"

definition sort_by :: "('a \<Rightarrow> 'a \<Rightarrow> bool) \<Rightarrow> 'a list \<Rightarrow> 'a list" where
  "sort_by lt xs = foldr (insert_by lt) xs []"

section \<open>Blocks of one piece\<close>

text \<open>The loop of \<open>requested_from\<close>, with the block's number, the run of free blocks before it, and the results so far.\<close>

fun requested_loop ::
  "nat option \<Rightarrow> block_info list \<Rightarrow> nat \<Rightarrow> nat \<Rightarrow> bool \<times> bool \<times> nat \<times> nat \<Rightarrow> nat \<times> bool \<times> bool \<times> nat \<times> nat" where
  "requested_loop peer [] idx run r = (run, r)"
| "requested_loop peer (info # infos) idx run (exclusive, exclusive_active, mx, first_block) =
     (if bstate info = state_none
      then requested_loop peer infos (idx + 1) (run + 1) (exclusive, exclusive_active, mx, first_block)
      else requested_loop peer infos (idx + 1) 0
        (exclusive \<and> bpeer info = peer,
         exclusive_active \<and> \<not> (bpeer info \<noteq> peer \<and> bstate info = state_requested \<and> bpeer info \<noteq> None),
         if run > mx then run else mx, if run > mx then idx - run else first_block))"

definition requested_from :: "downloading_piece \<Rightarrow> nat \<Rightarrow> nat option \<Rightarrow> piece_picker \<Rightarrow> bool \<times> bool \<times> nat \<times> nat" where
  "requested_from d num_blocks_in_piece peer s =
     (case requested_loop peer (blocks_for_piece s d) 0 0 (True, True, 0, 0) of
        (run, exclusive, exclusive_active, mx, first_block) \<Rightarrow>
          (exclusive, exclusive_active, if run > mx then run else mx,
           if run > mx then num_blocks_in_piece - run else first_block))"

text \<open>The loop of \<open>add_blocks_downloading\<close> over the numbers of the blocks; it ends early when enough is picked.\<close>

fun free_blocks_loop ::
  "(nat \<Rightarrow> block_info) \<Rightarrow> nat \<Rightarrow> nat list \<Rightarrow> int \<Rightarrow> piece_block list \<Rightarrow> int \<Rightarrow> piece_block list \<times> int" where
  "free_blocks_loop binfo i [] pref bs n = (bs, n)"
| "free_blocks_loop binfo i (j # js) pref bs n =
     (if bstate (binfo j) \<noteq> state_none then free_blocks_loop binfo i js pref bs n
      else if pref > 0 then free_blocks_loop binfo i js (pref - 1) (bs @ [(i, j)]) (n - 1)
      else if n - 1 \<le> 0 then (bs @ [(i, j)], n - 1)
      else free_blocks_loop binfo i js pref (bs @ [(i, j)]) (n - 1))"

definition add_blocks_downloading ::
  "downloading_piece \<Rightarrow> bool list \<Rightarrow> int \<Rightarrow> nat option \<Rightarrow> picker_options \<Rightarrow> piece_picker \<Rightarrow> picks \<Rightarrow> picks" where
  "add_blocks_downloading d pieces pref peer opts s p =
     (if \<not> pieces ! dindex d then p
      else if locked d then p
      else
        let num_blocks_in_piece = blocks_in_piece s (dindex d);
            (exclusive, exclusive_active, contiguous_blocks, first_free) = requested_from d num_blocks_in_piece peer s;
            first_block = (if pref = 0 then 0 else first_free);
            idxs = map (\<lambda>j. (j + first_block) mod num_blocks_in_piece) [0..<num_blocks_in_piece]
        in if on_parole opts \<and> \<not> exclusive then p
           else if pref > int contiguous_blocks \<and> \<not> exclusive_active \<and> \<not> on_parole opts
           then if int (length (backup_blocks2 p)) \<ge> num_blocks p then p
                else p\<lparr>backup_blocks2 := backup_blocks2 p
                        @ map (Pair (dindex d)) (filter (\<lambda>j. bstate (block_at s d j) = state_none) idxs)\<rparr>
           else case free_blocks_loop (block_at s d) (dindex d) idxs pref (interesting_blocks p) (num_blocks p) of
                  (bs, n) \<Rightarrow> p\<lparr>interesting_blocks := bs, num_blocks := (if n \<le> 0 then 0 else n)\<rparr>)"

text \<open>The two loops of \<open>expand_piece\<close>, with the number of pieces that are left up to the limit.\<close>

fun expand_down :: "(nat \<Rightarrow> bool) \<Rightarrow> nat \<Rightarrow> nat \<Rightarrow> nat" where
  "expand_down ok 0 start = start"
| "expand_down ok (Suc n) start = (if ok (start - 1) then expand_down ok n (start - 1) else start)"

fun expand_up :: "(nat \<Rightarrow> bool) \<Rightarrow> nat \<Rightarrow> nat \<Rightarrow> nat" where
  "expand_up ok 0 e = e"
| "expand_up ok (Suc n) e = (if ok e then expand_up ok n (e + 1) else e)"

definition expand_piece ::
  "nat \<Rightarrow> int \<Rightarrow> bool list \<Rightarrow> picker_options \<Rightarrow> piece_picker \<Rightarrow> (nat \<times> nat) option" where
  "expand_piece piece contiguous_blocks have opts s =
     (if contiguous_blocks = 0 then Some (piece, piece + 1)
      else if m_blocks_per_piece s = 0 then None
      else
        let whole_pieces = tdiv (contiguous_blocks + int (m_blocks_per_piece s) - 1) (int (m_blocks_per_piece s));
            ok = (\<lambda>i. can_pick s i ((!) have)) in
        if align_expanded_pieces opts \<and> whole_pieces = 0 then None
        else
          let lower_limit = (if align_expanded_pieces opts then int piece - tmod (int piece) whole_pieces
                             else max (int piece - whole_pieces + 1) 0);
              start = expand_down ok (nat (int piece - lower_limit)) piece;
              upper_limit = min (if align_expanded_pieces opts then lower_limit + whole_pieces
                                 else int start + whole_pieces) (int (length have));
              e = expand_up ok (nat (upper_limit - int (piece + 1))) (piece + 1)
          in Some (start, e))"

text \<open>The blocks of a range of pieces; \<open>stop\<close> is the condition to leave the loop over a piece's blocks.\<close>

fun emplace_blocks ::
  "(int \<Rightarrow> int \<Rightarrow> bool) \<Rightarrow> nat \<Rightarrow> nat list \<Rightarrow> piece_block list \<times> int \<times> int \<Rightarrow> piece_block list \<times> int \<times> int" where
  "emplace_blocks stop k [] acc = acc"
| "emplace_blocks stop k (j # js) (bs, n, pref) =
     (if stop (pref - 1) (n - 1) then (bs @ [(k, j)], n - 1, pref - 1)
      else emplace_blocks stop k js (bs @ [(k, j)], n - 1, pref - 1))"

fun emplace_pieces ::
  "(int \<Rightarrow> int \<Rightarrow> bool) \<Rightarrow> piece_picker \<Rightarrow> nat list \<Rightarrow> piece_block list \<times> int \<times> int \<Rightarrow> piece_block list \<times> int \<times> int" where
  "emplace_pieces stop s [] acc = acc"
| "emplace_pieces stop s (k # ks) acc =
     emplace_pieces stop s ks (emplace_blocks stop k [0..<blocks_in_piece s k] acc)"

definition add_blocks ::
  "bool list \<Rightarrow> int \<Rightarrow> nat option \<Rightarrow> nat list \<Rightarrow> picker_options \<Rightarrow> piece_picker \<Rightarrow> nat \<Rightarrow> picks \<Rightarrow> picks option" where
  "add_blocks pieces pref peer ignore opts s piece p =
     (if piece \<in> set ignore then Some p
      else
        let state = download_queue (piece_at s piece) in
        if state \<noteq> piece_open \<and> state \<noteq> piece_downloading then Some p
        else if state = piece_downloading
        then if prioritize_partials opts then Some p
             else map_option (\<lambda>i. add_blocks_downloading (dl_at s (piece_downloading, i)) pieces pref peer opts s p)
                    (find_dl_piece piece_downloading piece s)
        else if pref = 0
        then let n = min (int (blocks_in_piece s piece)) (num_blocks p)
             in Some (p\<lparr>interesting_blocks := interesting_blocks p @ map (Pair piece) [0..<nat n],
                        num_blocks := max (num_blocks p - n) 0\<rparr>)
        else map_option (\<lambda>(start, e).
               case emplace_pieces (\<lambda>pref n. pref = 0 \<and> n \<le> 0) s [start..<e]
                      (interesting_blocks p, num_blocks p, pref) of
                 (bs, n, _) \<Rightarrow> p\<lparr>interesting_blocks := bs, num_blocks := max n 0\<rparr>)
               (expand_piece piece pref pieces opts s))"

section \<open>The orders\<close>

text \<open>The shape of most loops: skip what is not eligible, set a flag, add blocks, return when it is enough.\<close>

fun pick_each ::
  "(nat \<Rightarrow> bool) \<Rightarrow> picker_flag \<Rightarrow> (nat \<Rightarrow> picks \<Rightarrow> picks option) \<Rightarrow> nat list \<Rightarrow> picks \<Rightarrow> pick_ctl" where
  "pick_each ok f fill [] p = Go p"
| "pick_each ok f fill (i # is) p =
     (if \<not> ok i then pick_each ok f fill is p
      else case fill i (flag f p) of None \<Rightarrow> Crash
           | Some q \<Rightarrow> if num_blocks q \<le> 0 then Return q else pick_each ok f fill is q)"

definition critical :: "picker_options \<Rightarrow> piece_picker \<Rightarrow> nat \<Rightarrow> bool" where
  "critical opts s i \<longleftrightarrow> \<not> (time_critical_mode opts \<and> piece_priority (piece_at s i) \<noteq> top_priority)"

definition ordered_partials :: "bool list \<Rightarrow> picker_options \<Rightarrow> piece_picker \<Rightarrow> downloading_piece list" where
  "ordered_partials pieces opts s =
     (let ds = filter (\<lambda>d. critical opts s (dindex d) \<and> is_piece_free s (dindex d) ((!) pieces))
                 (m_downloads s piece_downloading)
      in if rarest_first opts then sort_by (partial_compare_rarest_first s) ds else ds)"

fun partials_loop :: "(downloading_piece \<Rightarrow> picks \<Rightarrow> picks) \<Rightarrow> downloading_piece list \<Rightarrow> picks \<Rightarrow> pick_ctl" where
  "partials_loop fill [] p = Go p"
| "partials_loop fill (d # ds) p =
     (let q = fill d (flag prioritize_partials_flag p) in
      if num_blocks q \<le> 0 then Return q
      else if int (length (backup_blocks q)) \<ge> num_blocks q \<and> int (length (backup_blocks2 q)) \<ge> num_blocks q then Go q
      else partials_loop fill ds q)"

definition pick_partials ::
  "bool list \<Rightarrow> int \<Rightarrow> nat option \<Rightarrow> picker_options \<Rightarrow> piece_picker \<Rightarrow> picks \<Rightarrow> pick_ctl" where
  "pick_partials pieces pref peer opts s p =
     (let p1 = (if rarest_first opts then flag rarest_first_partials p else p) in
      and_then (and_then
        (partials_loop (\<lambda>d. add_blocks_downloading d pieces pref peer opts s) (ordered_partials pieces opts s) p1)
        (\<lambda>q. done_or_go (append_backup q)))
        (\<lambda>q. done_or_go (append_backup2 q)))"

definition pick_sequential ::
  "bool list \<Rightarrow> (nat \<Rightarrow> picks \<Rightarrow> picks option) \<Rightarrow> picker_options \<Rightarrow> piece_picker \<Rightarrow> picks \<Rightarrow> pick_ctl" where
  "pick_sequential pieces fill opts s p =
     (let free = (\<lambda>i. is_piece_free s i ((!) pieces)); top = (\<lambda>i. piece_priority (piece_at s i) = top_priority) in
      and_then (pick_each free prio_sequential_pieces fill (takeWhile top (m_pieces s)) p)
        (\<lambda>q. if time_critical_mode opts then Go q
             else if reverse opts
             then pick_each (\<lambda>i. free i \<and> \<not> top i) reverse_sequential fill (rev [m_cursor s..<m_reverse_cursor s]) q
             else pick_each (\<lambda>i. free i \<and> \<not> top i) sequential_pieces fill [m_cursor s..<m_reverse_cursor s] q))"

definition reverse_order :: "piece_picker \<Rightarrow> nat list" where
  "reverse_order s =
     concat (map (\<lambda>i. rev (map ((!) (m_pieces s))
         [priority_begin (m_priority_boundaries s) i..<priority_end (m_priority_boundaries s) i]))
       (rev [0..<length (m_priority_boundaries s)]))"

text \<open>The loop over the recent extents: what it returns, and the extent to erase.\<close>

fun affinity_loop ::
  "(nat \<Rightarrow> bool) \<Rightarrow> (nat \<Rightarrow> picks \<Rightarrow> picks option) \<Rightarrow> piece_picker \<Rightarrow> nat list \<Rightarrow> nat \<Rightarrow> nat option \<Rightarrow> picks
     \<Rightarrow> pick_ctl \<times> nat option" where
  "affinity_loop free fill s [] idx to_erase p = (Go p, to_erase)"
| "affinity_loop free fill s (e # es) idx to_erase p =
     (case pick_each free extent_affinity fill (extent_pieces s e) p of
        Go q \<Rightarrow> affinity_loop free fill s es (idx + 1)
                  (if list_all (\<lambda>i. is_have (piece_at s i)) (extent_pieces s e) then Some idx else to_erase) q
      | r \<Rightarrow> (r, to_erase))"

definition erase_extent :: "nat option \<Rightarrow> piece_picker \<Rightarrow> piece_picker" where
  "erase_extent to_erase s =
     (case to_erase of None \<Rightarrow> s
      | Some k \<Rightarrow> s\<lparr>m_recent_extents := take k (m_recent_extents s) @ drop (k + 1) (m_recent_extents s)\<rparr>)"

definition pick_rarest ::
  "bool list \<Rightarrow> (nat \<Rightarrow> picks \<Rightarrow> picks option) \<Rightarrow> picker_options \<Rightarrow> piece_picker \<Rightarrow> picks \<Rightarrow> pick_ctl \<times> piece_picker" where
  "pick_rarest pieces fill opts s p =
     (let free = (\<lambda>i. is_piece_free s i ((!) pieces)) in
      if reverse opts \<and> \<not> time_critical_mode opts
      then (pick_each free reverse_rarest_first fill (reverse_order s) p, s)
      else
        let (r, to_erase) = (if piece_extent_affinity opts
                             then affinity_loop free fill s (m_recent_extents s) 0 None p else (Go p, None))
        in (and_then r (pick_each free rarest_first_flag fill (takeWhile (critical opts s) (m_pieces s))),
            erase_extent to_erase s))"

text \<open>The inner loop of the random order: the next piece to pick from, \<open>None\<close> when it is back at the start.\<close>

definition next_piece :: "nat \<Rightarrow> nat \<Rightarrow> nat" where
  "next_piece n i = (if i + 1 = n then 0 else i + 1)"

fun next_free :: "(nat \<Rightarrow> bool) \<Rightarrow> nat \<Rightarrow> nat \<Rightarrow> nat \<Rightarrow> nat \<Rightarrow> nat option" where
  "next_free free n start 0 i = None"
| "next_free free n start (Suc fuel) i =
     (if free i then Some i
      else if next_piece n i = start then None
      else next_free free n start fuel (next_piece n i))"

definition random_pick ::
  "bool list \<Rightarrow> nat option \<Rightarrow> picker_options \<Rightarrow> piece_picker \<Rightarrow> nat \<Rightarrow> int \<Rightarrow> picks \<Rightarrow> (nat \<times> int \<times> picks) option" where
  "random_pick pieces peer opts s i pref p =
     (if pref > 1 \<and> \<not> downloading (piece_at s i)
      then map_option (\<lambda>(start, e).
             case emplace_pieces (\<lambda>pref n. pref \<le> 0 \<and> n \<le> 0) s [start..<e] (interesting_blocks p, num_blocks p, pref) of
               (bs, n, pref') \<Rightarrow> (e, pref', (flag random_pieces p)\<lparr>interesting_blocks := bs, num_blocks := n\<rparr>))
             (expand_piece i pref pieces opts s)
      else map_option (\<lambda>q. (i + 1, pref, q)) (add_blocks pieces pref peer [] opts s i (flag random_pieces p)))"

fun random_loop ::
  "bool list \<Rightarrow> nat option \<Rightarrow> nat list \<Rightarrow> picker_options \<Rightarrow> piece_picker \<Rightarrow> nat \<Rightarrow> nat \<Rightarrow> nat \<Rightarrow> int \<Rightarrow> picks \<Rightarrow> picks option" where
  "random_loop pieces peer suggested opts s start 0 i pref p = None"
| "random_loop pieces peer suggested opts s start (Suc fuel) i pref p =
     (if num_blocks p \<le> 0 then Some p
      else case next_free (\<lambda>i. is_piece_free s i ((!) pieces) \<and> i \<notin> set suggested) (num_pieces s) start (num_pieces s) i of
             None \<Rightarrow> Some p
           | Some i' \<Rightarrow>
               (case random_pick pieces peer opts s i' pref p of
                  None \<Rightarrow> None
                | Some (e, pref', q) \<Rightarrow>
                    let i'' = (if e = num_pieces s then 0 else e) in
                    if i'' = start then Some q
                    else random_loop pieces peer suggested opts s start fuel i'' pref' q))"

definition random_fuel :: "piece_picker \<Rightarrow> picks \<Rightarrow> nat" where
  "random_fuel s p = (nat (num_blocks p) + 1) * num_pieces s + 1"

definition pick_random ::
  "bool list \<Rightarrow> int \<Rightarrow> nat option \<Rightarrow> nat list \<Rightarrow> picker_options \<Rightarrow> piece_picker \<Rightarrow> picks \<Rightarrow> pick_ctl \<times> piece_picker" where
  "pick_random pieces pref peer suggested opts s p =
     (let (start, g) = random (num_pieces s - 1) (rng s) in
      (case random_loop pieces peer suggested opts s start (random_fuel s p) start pref p of
         None \<Rightarrow> Crash | Some q \<Rightarrow> done_or_go q, s\<lparr>rng := g\<rparr>))"

text \<open>The four orders of the pieces.\<close>

definition pick_order ::
  "bool list \<Rightarrow> int \<Rightarrow> nat option \<Rightarrow> picker_options \<Rightarrow> nat list \<Rightarrow> piece_picker \<Rightarrow> picks \<Rightarrow> pick_ctl \<times> piece_picker" where
  "pick_order pieces pref peer opts suggested s p =
     (if sequential opts
      then let s1 = (if m_dirty s then update_pieces s else s)
           in (pick_sequential pieces (add_blocks pieces pref peer suggested opts s1) opts s1 p, s1)
      else if rarest_first opts
      then let s1 = (if m_dirty s then update_pieces s else s)
           in pick_rarest pieces (add_blocks pieces pref peer suggested opts s1) opts s1 p
      else if time_critical_mode opts
      then (pick_each (\<lambda>i. is_piece_free s i ((!) pieces)) time_critical (add_blocks pieces pref peer suggested opts s)
              (takeWhile (\<lambda>i. piece_priority (piece_at s i) = top_priority) (m_pieces s)) p, s)
      else pick_random pieces pref peer suggested opts s p)"

section \<open>End game and the whole\<close>

definition busy_partials :: "bool list \<Rightarrow> picker_options \<Rightarrow> piece_picker \<Rightarrow> downloading_piece list" where
  "busy_partials pieces opts s =
     take (min 200 (length (m_downloads s piece_downloading) + length (m_downloads s piece_full)))
       (filter (\<lambda>d. pieces ! dindex d \<and> critical opts s (dindex d)) (m_downloads s piece_full))"

definition busy_blocks :: "nat option \<Rightarrow> piece_picker \<Rightarrow> downloading_piece \<Rightarrow> piece_block list" where
  "busy_blocks peer s d =
     map (Pair (dindex d))
       (filter (\<lambda>j. bstate (block_at s d j) = state_requested \<and> bpeer (block_at s d j) \<noteq> peer)
          [0..<length (blocks_for_piece s d)])"

function end_game_loop ::
  "nat option \<Rightarrow> piece_picker \<Rightarrow> downloading_piece list \<Rightarrow> (nat \<Rightarrow> nat) \<Rightarrow> piece_block option \<times> (nat \<Rightarrow> nat)" where
  "end_game_loop peer s ds g =
     (if ds = [] then (None, g)
      else
        let (k, g1) = random (length ds - 1) g; temp = busy_blocks peer s (ds ! k) in
        if temp \<noteq> [] then (let (t, g2) = random (length temp - 1) g1 in (Some (temp ! t), g2))
        else end_game_loop peer s (butlast (ds[k := last ds])) g1)"
  by pat_completeness auto
termination by (relation "measure (\<lambda>(peer, s, ds, g). length ds)") auto

declare end_game_loop.simps [simp del]

definition pick_end_game ::
  "bool list \<Rightarrow> nat option \<Rightarrow> picker_options \<Rightarrow> piece_picker \<Rightarrow> picks \<Rightarrow> picks \<times> piece_picker" where
  "pick_end_game pieces peer opts s p =
     (if on_parole opts then (p, s)
      else case end_game_loop peer s (busy_partials pieces opts s) (rng s) of
             (None, g) \<Rightarrow> (p, s\<lparr>rng := g\<rparr>)
           | (Some b, g) \<Rightarrow>
               ((flag end_game p)\<lparr>interesting_blocks := interesting_blocks p @ [b], num_blocks := num_blocks p - 1\<rparr>,
                s\<lparr>rng := g\<rparr>))"

text \<open>The backups, then the end game.\<close>

definition pick_backups :: "picks \<Rightarrow> pick_ctl" where
  "pick_backups p =
     and_then (done_or_go (append_backup (flag backup1 p))) (\<lambda>q. done_or_go (append_backup2 (flag backup2 q)))"

definition too_many_partials :: "int \<Rightarrow> piece_picker \<Rightarrow> bool" where
  "too_many_partials peers_known s \<longleftrightarrow>
     (let num_partials = int (length (m_downloads s piece_downloading)) in
      num_partials > tdiv (peers_known * 3) 2 \<or> num_partials * int (m_blocks_per_piece s) > 2048)"

definition pick_pieces ::
  "bool list \<Rightarrow> int \<Rightarrow> int \<Rightarrow> nat option \<Rightarrow> picker_options \<Rightarrow> nat list \<Rightarrow> int \<Rightarrow> piece_picker
     \<Rightarrow> (picks \<times> piece_picker) option" where
  "pick_pieces pieces n prefer peer options suggested peers_known s =
     (let crowded = too_many_partials peers_known s;
          opts = (if crowded then options\<lparr>prioritize_partials := True\<rparr> else options);
          pref = (if crowded then 0 else prefer);
          p0 = \<lparr>interesting_blocks = [], backup_blocks = [], backup_blocks2 = [], num_blocks = n,
                ret_flags = (if crowded then {partial_ratio} else {})\<rparr>;
          p1 = (if pref \<noteq> 0 then flag prefer_contiguous p0 else p0);
          r = and_then (if prioritize_partials opts then pick_partials pieces pref peer opts s p1 else Go p1)
                (pick_each (\<lambda>i. critical opts s i \<and> is_piece_free s i ((!) pieces)) suggested_pieces_flag
                   (add_blocks pieces pref peer [] opts s) suggested)
      in case r of
           Crash \<Rightarrow> None
         | Return q \<Rightarrow> Some (q, s)
         | Go q \<Rightarrow>
             (case pick_order pieces pref peer opts suggested s q of
                (r1, s1) \<Rightarrow>
                  (case and_then r1 (\<lambda>q1. and_then (done_or_go q1) pick_backups) of
                     Crash \<Rightarrow> None
                   | Return q2 \<Rightarrow> Some (q2, s1)
                   | Go q2 \<Rightarrow> Some (pick_end_game pieces peer opts s1 q2))))"

end
