(* ===== verification/Picker_Choice.thy ===== *)
theory Picker_Choice
  imports Picker_Pick
begin

text \<open>
  What \<open>pick_pieces\<close> promises for every option: it returns, and every block it picks is one the peer has and we
  want and nobody was asked for, except the one block of the end game, which another peer was asked for.
\<close>

section \<open>Loops that keep an invariant\<close>

text \<open>Blocks are collected until there are enough: an early return has enough, going on means it has not.\<close>

definition runs :: "(picks \<Rightarrow> bool) \<Rightarrow> pick_ctl \<Rightarrow> bool" where
  "runs J r = (case r of Crash \<Rightarrow> False | Return q \<Rightarrow> J q \<and> num_blocks q \<le> 0 | Go q \<Rightarrow> J q \<and> 0 < num_blocks q)"

lemma runs_simps [simp]:
  "\<not> runs J Crash" "runs J (Return q) \<longleftrightarrow> J q \<and> num_blocks q \<le> 0" "runs J (Go q) \<longleftrightarrow> J q \<and> 0 < num_blocks q"
  by (simp_all add: runs_def)

lemma runs_and_then: "runs J r \<Longrightarrow> (\<And>q. J q \<Longrightarrow> 0 < num_blocks q \<Longrightarrow> runs J (f q)) \<Longrightarrow> runs J (and_then r f)"
  by (cases r) simp_all

lemma runs_done_or_go: "J q \<Longrightarrow> runs J (done_or_go q)"
  by (simp add: done_or_go_def)

lemma pick_each_runs:
  assumes "\<And>i q. i \<in> set is \<Longrightarrow> ok i \<Longrightarrow> J q \<Longrightarrow> 0 < num_blocks q \<Longrightarrow> \<exists>r. fill i (flag f q) = Some r \<and> J r"
    and "J p" and "0 < num_blocks p"
  shows "runs J (pick_each ok f fill is p)"
  using assms
proof (induction "is" arbitrary: p)
  case (Cons i "is")
  then show ?case
  proof (cases "ok i")
    case True
    then obtain r where "fill i (flag f p) = Some r" "J r" using Cons.prems by fastforce
    then show ?thesis using True Cons by simp
  qed simp
qed simp

lemma partials_loop_runs:
  assumes "\<And>d q. d \<in> set ds \<Longrightarrow> J q \<Longrightarrow> 0 < num_blocks q \<Longrightarrow> J (fill d (flag prioritize_partials_flag q))"
    and "J p" and "0 < num_blocks p"
  shows "runs J (partials_loop fill ds p)"
  using assms by (induction ds arbitrary: p) (auto simp: Let_def)

section \<open>What may be picked\<close>

definition free_block :: "piece_picker \<Rightarrow> piece_block \<Rightarrow> bool" where
  "free_block s b \<longleftrightarrow> download_queue (piece_at s (fst b)) = piece_open
     \<or> (\<exists>d\<in>set (m_downloads s piece_downloading). dindex d = fst b \<and> \<not> locked d \<and> bstate (block_at s d (snd b)) = state_none)"

definition pickable :: "bool list \<Rightarrow> piece_picker \<Rightarrow> piece_block \<Rightarrow> bool" where
  "pickable have s b \<longleftrightarrow> fst b < num_pieces s \<and> is_piece_free s (fst b) ((!) have) \<and> snd b < blocks_in_piece s (fst b) \<and> free_block s b"

text \<open>What the picker relies on.\<close>

definition pick_ready :: "bool list \<Rightarrow> piece_picker \<Rightarrow> bool" where
  "pick_ready have s \<longleftrightarrow> downloads_ok s \<and> length have = num_pieces s"

definition safe_picks :: "bool list \<Rightarrow> piece_picker \<Rightarrow> picks \<Rightarrow> bool" where
  "safe_picks have s p \<longleftrightarrow>
     (\<forall>b\<in>set (interesting_blocks p) \<union> set (backup_blocks p) \<union> set (backup_blocks2 p). pickable have s b)"

lemma flag_simps [simp]:
  "interesting_blocks (flag f p) = interesting_blocks p" "backup_blocks (flag f p) = backup_blocks p"
  "backup_blocks2 (flag f p) = backup_blocks2 p" "num_blocks (flag f p) = num_blocks p"
  "safe_picks have s (flag f p) = safe_picks have s p"
  by (simp_all add: flag_def safe_picks_def)

lemma append_backup_safe: "safe_picks have s p \<Longrightarrow> safe_picks have s (append_backup p)"
  "safe_picks have s p \<Longrightarrow> safe_picks have s (append_backup2 p)"
  by (auto simp: safe_picks_def append_backup_def append_backup2_def append_blocks_def Let_def dest: in_set_takeD in_set_dropD)

lemma free_blocks_loop_picks:
  "free_blocks_loop binfo i js pref bs n = (bs', n') \<Longrightarrow>
     set bs' \<subseteq> set bs \<union> Pair i ` {j \<in> set js. bstate (binfo j) = state_none}"
  by (induction binfo i js pref bs n rule: free_blocks_loop.induct) (auto split: if_splits)

lemma add_blocks_downloading_safe:
  assumes "pick_ready have s" and "safe_picks have s p" and "d \<in> set (m_downloads s piece_downloading)"
    and "is_piece_free s (dindex d) ((!) have)"
  shows "safe_picks have s (add_blocks_downloading d have pref peer opts s p)"
proof -
  let ?n = "blocks_in_piece s (dindex d)" let ?ok = "\<lambda>j. bstate (block_at s d j) = state_none"
  obtain ex act cont first where rf: "requested_from d ?n peer s = (ex, act, cont, first)" by (cases "requested_from d ?n peer s") auto
  let ?js = "map (\<lambda>j. (j + (if pref = 0 then 0 else first)) mod ?n) [0..<?n]"
  have dl: "downloads_ok s" using assms(1) by (simp add: pick_ready_def)
  have "0 < ?n" by (rule blocks_fit) (rule dl_invD(1) [OF dl])
  then have js: "j < ?n" if "j \<in> set ?js" for j using that by auto
  have good: "pickable have s (dindex d, j)" if "\<not> locked d" "j \<in> set ?js" "?ok j" for j
    using that assms(3,4) js [OF that(2)] dl_invD(6) [OF dl, of d]
    by (auto simp: pickable_def free_block_def in_download_def)
  obtain bs n where fb: "free_blocks_loop (block_at s d) (dindex d) ?js pref (interesting_blocks p) (num_blocks p) = (bs, n)" by (rule prod.exhaust)
  consider "\<not> have ! dindex d \<or> locked d \<or> (on_parole opts \<and> \<not> ex)"
    | "\<not> locked d" "have ! dindex d" "\<not> (on_parole opts \<and> \<not> ex)" "pref > int cont \<and> \<not> act \<and> \<not> on_parole opts"
    | "\<not> locked d" "have ! dindex d" "\<not> (on_parole opts \<and> \<not> ex)" "\<not> (pref > int cont \<and> \<not> act \<and> \<not> on_parole opts)"
    by blast
  then show ?thesis
  proof cases
    case 1
    then show ?thesis using rf assms(2) by (auto simp: add_blocks_downloading_def Let_def)
  next
    case 2
    then show ?thesis using rf assms(2) good by (auto simp: add_blocks_downloading_def Let_def safe_picks_def)
  next
    case 3
    have eq: "add_blocks_downloading d have pref peer opts s p
      = p\<lparr>interesting_blocks := bs, num_blocks := (if n \<le> 0 then 0 else n)\<rparr>"
      by (simp only: add_blocks_downloading_def Let_def rf prod.case fb 3 if_False not_True_eq_False not_False_eq_True)
    have "pickable have s b" if b: "b \<in> set bs" for b
    proof (cases "b \<in> set (interesting_blocks p)")
      case True
      then show ?thesis using assms(2) by (simp add: safe_picks_def)
    next
      case False
      then obtain j where "b = (dindex d, j)" "j \<in> set ?js" "?ok j"
        using subsetD [OF free_blocks_loop_picks [OF fb] b] by blast
      then show ?thesis using good 3(1) by simp
    qed
    then show ?thesis unfolding eq using assms(2) by (auto simp: safe_picks_def)
  qed
qed

section \<open>Ranges of pieces\<close>

lemma expand_down_range:
  "n \<le> start \<Longrightarrow> expand_down ok n start \<le> start \<and> (\<forall>k. expand_down ok n start \<le> k \<and> k < start \<longrightarrow> ok k)"
proof (induction ok n start rule: expand_down.induct)
  case (2 ok n start)
  show ?case
  proof (cases "ok (start - 1)")
    case True
    then have IH: "expand_down ok n (start - 1) \<le> start - 1"
        "\<forall>k. expand_down ok n (start - 1) \<le> k \<and> k < start - 1 \<longrightarrow> ok k"
      using 2 by simp_all
    have "ok k" if "expand_down ok n (start - 1) \<le> k" "k < start" for k
      using IH(2) that True by (cases "k = start - 1") auto
    then show ?thesis using True IH(1) by auto
  next
    case False
    then show ?thesis by auto
  qed
qed auto

lemma expand_up_range: "e \<le> expand_up ok n e \<and> expand_up ok n e \<le> e + n \<and> (\<forall>k. e \<le> k \<and> k < expand_up ok n e \<longrightarrow> ok k)"
proof (induction ok n e rule: expand_up.induct)
  case (2 ok n e)
  show ?case
  proof (cases "ok e")
    case True
    then have IH: "e + 1 \<le> expand_up ok n (e + 1)" "expand_up ok n (e + 1) \<le> e + 1 + n" "\<forall>k. e + 1 \<le> k \<and> k < expand_up ok n (e + 1) \<longrightarrow> ok k"
      using 2 by simp_all
    have "ok k" if "e \<le> k" "k < expand_up ok n (e + 1)" for k
      using IH(3) that True by (cases "k = e") auto
    then show ?thesis using True IH(1,2) by auto
  next
    case False
    then show ?thesis by auto
  qed
qed auto

lemma expand_piece_range:
  assumes "expand_piece i pref have opts s = Some (a, e)" and "i < length have"
  shows "a \<le> i" and "i < e" and "e \<le> length have" and "a \<le> k \<Longrightarrow> k < e \<Longrightarrow> k \<noteq> i \<Longrightarrow> can_pick s k ((!) have)"
proof -
  have "a \<le> i \<and> i < e \<and> e \<le> length have \<and> (\<forall>k. a \<le> k \<and> k < e \<and> k \<noteq> i \<longrightarrow> can_pick s k ((!) have))"
  proof (cases "pref = 0")
    case True
    then show ?thesis using assms by (auto simp: expand_piece_def)
  next
    case False
    let ?w = "tdiv (pref + int (m_blocks_per_piece s) - 1) (int (m_blocks_per_piece s))"
    let ?ok = "\<lambda>i. can_pick s i ((!) have)"
    define lo where "lo = (if align_expanded_pieces opts then int i - tmod (int i) ?w else max (int i - ?w + 1) 0)"
    define n1 where "n1 = nat (int i - lo)"
    define up where "up = min (if align_expanded_pieces opts then lo + ?w else int (expand_down ?ok n1 i) + ?w) (int (length have))"
    define n2 where "n2 = nat (up - int (i + 1))"
    have ae: "a = expand_down ?ok n1 i" "e = expand_up ?ok n2 (i + 1)"
      using assms(1) False by (auto simp: expand_piece_def Let_def lo_def n1_def up_def n2_def split: if_splits)
    have "i + 1 + n2 \<le> length have" using assms(2) unfolding n2_def up_def by linarith
    then have e: "i + 1 \<le> e" "e \<le> length have" "\<forall>k. i + 1 \<le> k \<and> k < e \<longrightarrow> ?ok k"
      using expand_up_range [of "i + 1" ?ok n2] by (auto simp: ae(2))
    have "int i - tmod (int i) w = \<bar>w\<bar> * (int i div \<bar>w\<bar>)" for w :: int
      by (cases "i = 0") (simp_all add: tmod_def tdiv_def mult.assoc [symmetric] mult_sgn_abs abs_sgn)
    moreover have "0 \<le> \<bar>w\<bar> * (int i div \<bar>w\<bar>)" for w :: int by (cases "w = 0") (simp_all add: pos_imp_zdiv_nonneg_iff)
    ultimately have "0 \<le> lo" by (simp add: lo_def)
    then have "n1 \<le> i" by (simp add: n1_def)
    then have a: "a \<le> i" "\<forall>k. a \<le> k \<and> k < i \<longrightarrow> ?ok k" using expand_down_range [of n1 i ?ok] by (simp_all add: ae(1))
    have "?ok k" if "a \<le> k" "k < e" "k \<noteq> i" for k
      using that a(2) e(3) by (cases "k < i") auto
    then show ?thesis using a(1) e(1,2) by simp
  qed
  then show "a \<le> i" "i < e" "e \<le> length have" "a \<le> k \<Longrightarrow> k < e \<Longrightarrow> k \<noteq> i \<Longrightarrow> can_pick s k ((!) have)" by auto
qed

lemma expand_piece_defined: "\<not> align_expanded_pieces opts \<Longrightarrow> sizes_ok s \<Longrightarrow> \<exists>a e. expand_piece i pref have opts s = Some (a, e)"
  by (auto simp: expand_piece_def sizes_ok_def Let_def)

lemma emplace_blocks_picks:
  "emplace_blocks stop k js (bs, n, pref) = (bs', n', pref') \<Longrightarrow>
     set bs' \<subseteq> set bs \<union> Pair k ` set js \<and> n' \<le> n \<and> (js \<noteq> [] \<longrightarrow> n' < n)"
proof (induction js arbitrary: bs n pref)
  case (Cons j js)
  show ?case
  proof (cases "stop (pref - 1) (n - 1)")
    case True
    then show ?thesis using Cons.prems by auto
  next
    case False
    then have "emplace_blocks stop k js (bs @ [(k, j)], n - 1, pref - 1) = (bs', n', pref')" using Cons.prems by simp
    from Cons.IH [OF this] show ?thesis by auto
  qed
qed auto

lemma emplace_pieces_picks:
  "emplace_pieces stop s ks (bs, n, pref) = (bs', n', pref') \<Longrightarrow> (\<And>k. k \<in> set ks \<Longrightarrow> 0 < blocks_in_piece s k) \<Longrightarrow>
     set bs' \<subseteq> set bs \<union> {(k, j). k \<in> set ks \<and> j < blocks_in_piece s k} \<and> n' \<le> n \<and> (ks \<noteq> [] \<longrightarrow> n' < n)"
proof (induction ks arbitrary: bs n pref)
  case (Cons k ks)
  obtain b1 n1 p1 where e: "emplace_blocks stop k [0..<blocks_in_piece s k] (bs, n, pref) = (b1, n1, p1)" by (rule prod_cases3)
  have first: "set b1 \<subseteq> set bs \<union> Pair k ` {0..<blocks_in_piece s k}" "n1 < n"
    using emplace_blocks_picks [OF e] Cons.prems(2) [of k] by auto
  have "emplace_pieces stop s ks (b1, n1, p1) = (bs', n', pref')" using Cons.prems(1) e by simp
  from Cons.IH [OF this] Cons.prems(2)
  have rest: "set bs' \<subseteq> set b1 \<union> {(k, j). k \<in> set ks \<and> j < blocks_in_piece s k}" "n' \<le> n1" by auto
  have "x \<in> set bs \<union> {(x, j). x \<in> set (k # ks) \<and> j < blocks_in_piece s x}" if "x \<in> set bs'" for x
  proof (cases "x \<in> set b1")
    case True
    then show ?thesis using first(1) by auto
  next
    case False
    then show ?thesis using rest(1) that by auto
  qed
  then show ?case using first(2) rest(2) by auto
qed auto

text \<open>A range of pieces none of which is being downloaded.\<close>

lemma expanded_pickable:
  assumes "pick_ready have s" and "expand_piece i pref have opts s = Some (a, e)" and "i < num_pieces s"
    and "is_piece_free s i ((!) have)" and "download_queue (piece_at s i) = piece_open" and "a \<le> k" and "k < e" and "j < blocks_in_piece s k"
  shows "pickable have s (k, j)"
proof -
  have n: "length have = num_pieces s" using assms(1) by (simp add: pick_ready_def)
  note r = expand_piece_range [OF assms(2)]
  have "is_piece_free s k ((!) have) \<and> download_queue (piece_at s k) = piece_open"
  proof (cases "k = i")
    case False
    then have "can_pick s k ((!) have)" using r(4) assms(3,6,7) n by simp
    then show ?thesis by (auto simp: can_pick_def is_piece_free_def downloading_queue)
  qed (use assms(4,5) in simp)
  then show ?thesis using r(3) assms(3,7,8) n by (simp add: pickable_def free_block_def)
qed

lemma emplaced_safe:
  assumes "pick_ready have s" and "expand_piece i pref have opts s = Some (a, e)" and "i < num_pieces s"
    and "is_piece_free s i ((!) have)" and "download_queue (piece_at s i) = piece_open" and "safe_picks have s p"
    and "emplace_pieces stop s [a..<e] (interesting_blocks p, m, q) = (bs, m', q')"
  shows "safe_picks have s (p\<lparr>interesting_blocks := bs, num_blocks := x\<rparr>)" and "m' < m"
proof -
  have n: "length have = num_pieces s" "sizes_ok s" using assms(1) dl_invD(1) by (auto simp: pick_ready_def)
  have ne: "[a..<e] \<noteq> []" using expand_piece_range(1,2) [OF assms(2)] assms(3) n by simp
  have pos: "0 < blocks_in_piece s k" for k by (rule blocks_fit [OF n(2)])
  note em = emplace_pieces_picks [OF assms(7) pos]
  have "pickable have s b" if "b \<in> set bs" for b
  proof (cases "b \<in> set (interesting_blocks p)")
    case True
    then show ?thesis using assms(6) by (simp add: safe_picks_def)
  next
    case False
    then have "fst b \<in> set [a..<e]" "snd b < blocks_in_piece s (fst b)" using subsetD [OF conjunct1 [OF em] that] by auto
    then show ?thesis using expanded_pickable [OF assms(1-5), of "fst b" "snd b"] by simp
  qed
  then show "safe_picks have s (p\<lparr>interesting_blocks := bs, num_blocks := x\<rparr>)" using assms(6) by (auto simp: safe_picks_def)
  show "m' < m" using em ne by blast
qed

lemma add_blocks_safe:
  assumes "pick_ready have s" and "\<not> align_expanded_pieces opts" and "safe_picks have s p" and "i < num_pieces s"
    and "is_piece_free s i ((!) have)"
  shows "\<exists>q. add_blocks have pref peer ignore opts s i p = Some q \<and> safe_picks have s q"
proof -
  let ?q = "download_queue (piece_at s i)"
  have dl: "downloads_ok s" using assms(1) by (simp add: pick_ready_def)
  consider "i \<in> set ignore \<or> (?q \<noteq> piece_open \<and> ?q \<noteq> piece_downloading) \<or> (?q = piece_downloading \<and> prioritize_partials opts)"
    | "i \<notin> set ignore" "?q = piece_downloading" "\<not> prioritize_partials opts"
    | "i \<notin> set ignore" "?q = piece_open" "pref = 0" | "i \<notin> set ignore" "?q = piece_open" "pref \<noteq> 0" by blast
  then show ?thesis
  proof cases
    case 1
    then have "add_blocks have pref peer ignore opts s i p = Some p"
      using assms(3) by (cases "i \<in> set ignore"; cases "?q = piece_downloading") (simp_all add: add_blocks_def Let_def)
    then show ?thesis using assms(3) by simp
  next
    case 2
    then obtain k where k: "find_dl_piece piece_downloading i s = Some k"
      using iter_exists [OF dl_invD(2) [OF dl] assms(4)] by (fastforce simp: dl_iter_of_def)
    then have it: "dl_iter_of i s = Some (piece_downloading, k)" using 2(2) by (simp add: dl_iter_of_def)
    let ?d = "dl_at s (piece_downloading, k)"
    have "?d \<in> set (m_downloads s piece_downloading)" "dindex ?d = i" using iterD(3,4) [OF dl_invD(2) [OF dl] it] by simp_all
    then show ?thesis using 2 k add_blocks_downloading_safe [OF assms(1,3), of ?d] assms(5) by (simp add: add_blocks_def)
  next
    case 3
    then have "pickable have s (i, j)" if "j < blocks_in_piece s i" for j
      using assms(4,5) that by (simp add: pickable_def free_block_def)
    then show ?thesis using 3 assms(3) by (auto simp: add_blocks_def safe_picks_def Let_def)
  next
    case 4
    obtain a e where ae: "expand_piece i pref have opts s = Some (a, e)"
      using expand_piece_defined [OF assms(2) dl_invD(1) [OF dl]] by blast
    obtain bs m q where em: "emplace_pieces (\<lambda>pref n. pref = 0 \<and> n \<le> 0) s [a..<e] (interesting_blocks p, num_blocks p, pref) = (bs, m, q)"
      by (rule prod_cases3)
    from emplaced_safe(1) [OF assms(1) ae assms(4,5) 4(2) assms(3) em] ae em 4 show ?thesis by (simp add: add_blocks_def)
  qed
qed

text \<open>Adding blocks never raises the number of blocks that are still missing.\<close>

lemma free_blocks_loop_num: "free_blocks_loop binfo i js pref bs n = (bs', n') \<Longrightarrow> n' \<le> n"
proof (induction binfo i js pref bs n rule: free_blocks_loop.induct)
  case (2 binfo i j js pref bs n)
  then show ?case by (force split: if_splits)
qed auto

lemma add_blocks_downloading_num:
  "0 < num_blocks p \<Longrightarrow> num_blocks (add_blocks_downloading d have pref peer opts s p) \<le> num_blocks p"
  using free_blocks_loop_num by (fastforce simp: add_blocks_downloading_def Let_def split: prod.split)

lemma add_blocks_num:
  assumes "add_blocks have pref peer ignore opts s i p = Some q" and "0 < num_blocks p" and "sizes_ok s" and "i < length have"
  shows "num_blocks q \<le> num_blocks p"
proof -
  have pos: "0 < blocks_in_piece s k" for k by (rule blocks_fit [OF assms(3)])
  have "num_blocks q \<le> num_blocks p" if c: "pref \<noteq> 0" "download_queue (piece_at s i) = piece_open" "i \<notin> set ignore"
  proof -
    obtain a e where ae: "expand_piece i pref have opts s = Some (a, e)" using assms(1) c by (auto simp: add_blocks_def)
    obtain bs m r where em: "emplace_pieces (\<lambda>pref n. pref = 0 \<and> n \<le> 0) s [a..<e] (interesting_blocks p, num_blocks p, pref) = (bs, m, r)"
      by (rule prod_cases3)
    have "num_blocks q = max m 0" using ae em assms(1) c by (auto simp: add_blocks_def)
    then show ?thesis using emplace_pieces_picks [OF em pos] assms(2) by simp
  qed
  then show ?thesis using assms(1,2) add_blocks_downloading_num [of p] by (auto simp: add_blocks_def Let_def split: if_splits)
qed

section \<open>The random order\<close>

text \<open>The pieces from one piece on, around the end, up to the start.\<close>

definition circle :: "nat \<Rightarrow> nat \<Rightarrow> nat \<Rightarrow> nat list" where
  "circle n start i = (if i < start then [i..<start] else [i..<n] @ [0..<start])"

lemma circle_step:
  assumes "i < n" and "start < n"
  shows "circle n start i = i # (if next_piece n i = start then [] else circle n start (next_piece n i))" and "next_piece n i < n"
  using assms by (auto simp: circle_def next_piece_def upt_conv_Cons)

lemma circle_length: "i < n \<Longrightarrow> start < n \<Longrightarrow> 0 < length (circle n start i) \<and> length (circle n start i) \<le> n"
  by (auto simp: circle_def)

lemma next_free_circle:
  assumes "i < n" and "start < n" and "length (circle n start i) \<le> fuel"
  shows "case next_free free n start fuel i of None \<Rightarrow> \<forall>k\<in>set (circle n start i). \<not> free k
    | Some k \<Rightarrow> k < n \<and> free k \<and> (\<exists>skipped. circle n start i = skipped @ circle n start k \<and> (\<forall>k\<in>set skipped. \<not> free k))"
  using assms
proof (induction fuel arbitrary: i)
  case 0
  then show ?case using circle_length by simp
next
  case (Suc fuel)
  note step = circle_step [OF Suc.prems(1,2)]
  show ?case
  proof (cases "free i \<or> next_piece n i = start")
    case True
    have "\<exists>skipped. circle n start i = skipped @ circle n start i \<and> (\<forall>k\<in>set skipped. \<not> free k)" by (rule exI [of _ "[]"]) simp
    then show ?thesis using True step Suc.prems(1) by auto
  next
    case False
    then have c: "circle n start i = i # circle n start (next_piece n i)" using step by simp
    have IH: "case next_free free n start fuel (next_piece n i) of None \<Rightarrow> \<forall>k\<in>set (circle n start (next_piece n i)). \<not> free k
      | Some k \<Rightarrow> k < n \<and> free k
        \<and> (\<exists>skipped. circle n start (next_piece n i) = skipped @ circle n start k \<and> (\<forall>k\<in>set skipped. \<not> free k))"
      by (rule Suc.IH) (use step Suc.prems c in auto)
    show ?thesis
    proof (cases "next_free free n start fuel (next_piece n i)")
      case None
      then show ?thesis using False IH c by simp
    next
      case (Some k)
      then obtain sk where "circle n start (next_piece n i) = sk @ circle n start k" "\<forall>k\<in>set sk. \<not> free k" using IH by auto
      then have "circle n start i = (i # sk) @ circle n start k \<and> (\<forall>k\<in>set (i # sk). \<not> free k)" using c False by simp
      then show ?thesis using Some False IH by auto
    qed
  qed
qed

lemma random_pick_safe:
  assumes "pick_ready have s" and "\<not> align_expanded_pieces opts" and "safe_picks have s p" and "i < num_pieces s"
    and "is_piece_free s i ((!) have)" and "0 < num_blocks p"
  shows "\<exists>e pref' q. random_pick have peer opts s i pref p = Some (e, pref', q) \<and> safe_picks have s q \<and> e \<le> num_pieces s
    \<and> (num_blocks q < num_blocks p \<or> (e = i + 1 \<and> num_blocks q \<le> num_blocks p))"
proof (cases "pref > 1 \<and> \<not> downloading (piece_at s i)")
  case True
  have n: "length have = num_pieces s" "sizes_ok s" using assms(1) dl_invD(1) by (auto simp: pick_ready_def)
  then have op: "download_queue (piece_at s i) = piece_open" using True by (simp add: downloading_queue)
  obtain a e where ae: "expand_piece i pref have opts s = Some (a, e)" using expand_piece_defined [OF assms(2) n(2)] by blast
  obtain bs m r where em: "emplace_pieces (\<lambda>pref n. pref \<le> 0 \<and> n \<le> 0) s [a..<e] (interesting_blocks (flag random_pieces p), num_blocks p, pref)
      = (bs, m, r)" by (rule prod_cases3)
  have fl: "safe_picks have s (flag random_pieces p)" using assms(3) by simp
  note safe = emplaced_safe [OF assms(1) ae assms(4,5) op fl em]
  show ?thesis using True ae em safe expand_piece_range(3) [OF ae] assms(4) n by (simp add: random_pick_def)
next
  case False
  obtain q where q: "add_blocks have pref peer [] opts s i (flag random_pieces p) = Some q" "safe_picks have s q"
    using add_blocks_safe [OF assms(1,2) _ assms(4,5), of "flag random_pieces p" pref peer "[]"] assms(3) by auto
  have "num_blocks q \<le> num_blocks (flag random_pieces p)"
    by (rule add_blocks_num [OF q(1)]) (use assms dl_invD(1) in \<open>auto simp: pick_ready_def\<close>)
  moreover have "random_pick have peer opts s i pref p = Some (i + 1, pref, q)"
    using q(1) unfolding random_pick_def if_not_P [OF False] by simp
  ultimately show ?thesis using q(2) assms(4) by auto
qed

text \<open>Every round either picks a block or gets nearer to the start, so the fuel is enough.\<close>

lemma random_loop_safe:
  assumes "pick_ready have s" and "\<not> align_expanded_pieces opts" and "safe_picks have s p"
    and "i < num_pieces s" and "start < num_pieces s"
    and "nat (num_blocks p) * num_pieces s + length (circle (num_pieces s) start i) < fuel"
  shows "\<exists>q. random_loop have peer suggested opts s start fuel i pref p = Some q \<and> safe_picks have s q"
  using assms(3,4,6)
proof (induction fuel arbitrary: i pref p)
  case (Suc fuel)
  let ?n = "num_pieces s" let ?free = "\<lambda>i. is_piece_free s i ((!) have) \<and> i \<notin> set suggested"
  show ?case
  proof (cases "num_blocks p \<le> 0")
    case False
    have nf: "case next_free ?free ?n start ?n i of None \<Rightarrow> \<forall>k\<in>set (circle ?n start i). \<not> ?free k
        | Some k \<Rightarrow> k < ?n \<and> ?free k \<and> (\<exists>skipped. circle ?n start i = skipped @ circle ?n start k \<and> (\<forall>k\<in>set skipped. \<not> ?free k))"
      by (rule next_free_circle) (use Suc.prems assms(5) circle_length in auto)
    show ?thesis
    proof (cases "next_free ?free ?n start ?n i")
      case None
      then show ?thesis using False Suc.prems(1) by simp
    next
      case (Some k)
      then have k: "k < ?n" "?free k" "length (circle ?n start k) \<le> length (circle ?n start i)" using nf by auto
      obtain e pref' q where rp: "random_pick have peer opts s k pref p = Some (e, pref', q)" "safe_picks have s q" "e \<le> ?n"
          "num_blocks q < num_blocks p \<or> (e = k + 1 \<and> num_blocks q \<le> num_blocks p)"
        using random_pick_safe [OF assms(1,2) Suc.prems(1) k(1), of peer pref] k(2) False by auto
      let ?i = "if e = ?n then 0 else e"
      have i: "?i < ?n" using rp(3) k(1) by auto
      show ?thesis
      proof (cases "?i = start")
        case True
        then show ?thesis using False Some rp by (simp add: Let_def)
      next
        case nb: False
        have "nat (num_blocks q) * ?n + length (circle ?n start ?i) < nat (num_blocks p) * ?n + length (circle ?n start i)"
          using rp(4)
        proof
          assume less: "num_blocks q < num_blocks p"
          then have "nat (num_blocks q) + 1 \<le> nat (num_blocks p)" using False by simp
          then have "(nat (num_blocks q) + 1) * ?n \<le> nat (num_blocks p) * ?n" by (rule mult_le_mono1)
          then have "nat (num_blocks q) * ?n + ?n \<le> nat (num_blocks p) * ?n" by (simp add: algebra_simps)
          moreover have "length (circle ?n start ?i) \<le> ?n" "0 < length (circle ?n start i)"
            using circle_length [OF i assms(5)] circle_length [OF Suc.prems(2) assms(5)] by blast+
          ultimately show ?thesis by linarith
        next
          assume c: "e = k + 1 \<and> num_blocks q \<le> num_blocks p"
          then have "?i = next_piece ?n k" by (simp add: next_piece_def)
          then have "length (circle ?n start k) = Suc (length (circle ?n start ?i))" using circle_step(1) [OF k(1) assms(5)] nb by simp
          moreover have "nat (num_blocks q) * ?n \<le> nat (num_blocks p) * ?n" by (rule mult_le_mono1, rule nat_mono) (use c in simp)
          ultimately show ?thesis using k(3) by linarith
        qed
        then have "nat (num_blocks q) * ?n + length (circle ?n start ?i) < fuel" using Suc.prems(3) by simp
        from Suc.IH [OF rp(2) i this, of pref'] show ?thesis using False Some rp(1) nb by (auto simp: Let_def)
      qed
    qed
  next
    case True
    then show ?thesis using Suc.prems(1) by simp
  qed
next
  case 0
  from 0(3) show ?case by (rule notE [OF not_less0])
qed

section \<open>The orders\<close>

lemma pick_random_runs:
  assumes "pick_ready have s" and "\<not> align_expanded_pieces opts" and "safe_picks have s p" and "0 < num_pieces s"
  shows "runs (safe_picks have s) (fst (pick_random have pref peer suggested opts s p))"
proof -
  obtain start g where r: "random (num_pieces s - 1) (rng s) = (start, g)" by (rule prod.exhaust)
  then have start: "start < num_pieces s" using assms(4) by (auto simp: random_def)
  have "length (circle (num_pieces s) start start) \<le> num_pieces s" using circle_length [OF start start] by blast
  then have "nat (num_blocks p) * num_pieces s + length (circle (num_pieces s) start start) < random_fuel s p"
    by (simp add: random_fuel_def algebra_simps)
  from random_loop_safe [OF assms(1-3) start start this] obtain q where
    "random_loop have peer suggested opts s start (random_fuel s p) start pref p = Some q" "safe_picks have s q" by blast
  then show ?thesis using r by (simp add: pick_random_def runs_done_or_go)
qed

lemma extent_pieces_range: "i \<in> set (extent_pieces s e) \<Longrightarrow> i < num_pieces s"
  by (simp add: extent_pieces_def Let_def)

lemma affinity_loop_runs:
  assumes "\<And>i q. i < num_pieces s \<Longrightarrow> free i \<Longrightarrow> J q \<Longrightarrow> 0 < num_blocks q \<Longrightarrow> \<exists>r. fill i (flag extent_affinity q) = Some r \<and> J r"
    and "J p" and "0 < num_blocks p"
  shows "runs J (fst (affinity_loop free fill s es idx to_erase p))"
  using assms(2,3)
proof (induction es arbitrary: idx to_erase p)
  case (Cons e es)
  have "runs J (pick_each free extent_affinity fill (extent_pieces s e) p)"
    by (rule pick_each_runs) (use assms(1) Cons.prems extent_pieces_range in auto)
  then show ?case using Cons.IH by (auto split: pick_ctl.split)
qed simp

text \<open>\<open>update_pieces\<close> changes nothing that matters for what may be picked.\<close>

lemma free_block_works:
  assumes "works s = works t" and "fst b < num_pieces s"
  shows "free_block s b = free_block t b"
  using same_queue [OF works_eqD(7) [OF assms]] works_eqD(1) [OF assms(1)] works_queues(4) [OF assms(1)] by (simp add: free_block_def)

lemma rebuilt:
  assumes "list_good s"
  defines "t \<equiv> if m_dirty s then update_pieces s else s"
  shows "list_ok t" and "works t = works s" and "tally t = tally s" and "num_pieces t = num_pieces s"
    and "i < num_pieces s \<Longrightarrow> is_piece_free t i f = is_piece_free s i f"
    and "pick_ready have s \<Longrightarrow> pick_ready have t" and "safe_picks have s p \<Longrightarrow> safe_picks have t p" and "safe_picks have t p \<Longrightarrow> safe_picks have s p"
proof -
  have up: "list_ok (update_pieces s) \<and> same_pieces (s\<lparr>m_dirty := False\<rparr>) (update_pieces s)"
    using assms(1) by (intro update_pieces_ok) (auto simp: list_good_def)
  then show "list_ok t" using assms(1) by (auto simp: t_def list_good_def)
  show w: "works t = works s" by (simp add: t_def)
  show ta: "tally t = tally s" using tally_same [OF conjunct2 [OF up]] by (simp add: t_def)
  show n: "num_pieces t = num_pieces s" using tally_eqD(1) [OF ta] .
  have free: "is_piece_free t i f = is_piece_free s i f" if "i < num_pieces s" for i f
    using tally_eqD(11,12) [OF ta, of i] n that by (simp add: is_piece_free_def)
  then show "i < num_pieces s \<Longrightarrow> is_piece_free t i f = is_piece_free s i f" .
  show "pick_ready have s \<Longrightarrow> pick_ready have t" using dl_inv_works [OF w [symmetric]] n by (simp add: pick_ready_def)
  have "pickable have t b = pickable have s b" for b
    using free free_block_works [OF w, of b] works_queues(5) [OF w] n by (auto simp: pickable_def)
  then show "safe_picks have s p \<Longrightarrow> safe_picks have t p" "safe_picks have t p \<Longrightarrow> safe_picks have s p" by (simp_all add: safe_picks_def)
qed

lemma list_ok_range: "list_ok s \<Longrightarrow> i \<in> set (m_pieces s) \<Longrightarrow> i < num_pieces s"
  by (auto simp: list_ok_def list_inv_def ranges_ok_def)

text \<open>The reverse order is the list of pieces from its end.\<close>

lemma range_segment:
  assumes "i < length bs"
  shows "map ((!) (concat bs)) [priority_begin (cumulate 0 (map length bs)) i..<priority_end (cumulate 0 (map length bs)) i] = bs ! i"
proof -
  have sum: "sum_list (take k (map length bs)) = length (concat (take k bs))" for k by (simp add: take_map length_concat)
  have b: "priority_begin (cumulate 0 (map length bs)) i = length (concat (take i bs))"
    using assms by (cases i) (simp_all add: priority_begin_def cumulate_nth sum)
  have e: "priority_end (cumulate 0 (map length bs)) i = length (concat (take i bs)) + length (bs ! i)"
    using assms by (simp add: priority_end_def cumulate_nth sum take_Suc_conv_app_nth)
  have "concat bs = concat (take i bs) @ bs ! i @ concat (drop (Suc i) bs)"
    using id_take_nth_drop [OF assms] by (metis concat.simps(2) concat_append)
  then show ?thesis unfolding b e by (intro nth_equalityI) (simp_all add: nth_append)
qed

lemma reverse_order_rev:
  assumes "list_ok s"
  shows "reverse_order s = rev (m_pieces s)"
proof -
  obtain bs where bs: "m_pieces s = concat bs" "m_priority_boundaries s = cumulate 0 (map length bs)"
    using assms by (auto simp: list_ok_def list_inv_def ranges_ok_def)
  have "reverse_order s = concat (map (\<lambda>i. rev (bs ! i)) (rev [0..<length bs]))"
    unfolding reverse_order_def bs length_cumulate length_map
    by (rule arg_cong [where f = concat], rule map_cong) (simp_all add: range_segment)
  also have "\<dots> = concat (map rev (rev (map ((!) bs) [0..<length bs])))" by (simp add: rev_map comp_def)
  also have "\<dots> = rev (m_pieces s)" unfolding map_nth bs(1) by (simp add: rev_concat rev_map)
  finally show ?thesis .
qed

lemma cursor_range: "cursors_ok s \<Longrightarrow> m_reverse_cursor s \<le> num_pieces s"
  by (auto simp: cursors_ok_def cursors_for_def wanted_def split: if_splits)

lemma pick_sequential_runs:
  assumes "pick_ready have s" and "\<not> align_expanded_pieces opts" and "list_ok s" and "cursors_ok s" and "safe_picks have s p"
    and "0 < num_blocks p"
  shows "runs (safe_picks have s) (pick_sequential have (add_blocks have pref peer ign opts s) opts s p)"
proof -
  let ?free = "\<lambda>i. is_piece_free s i ((!) have)"
  have fill: "\<exists>r. add_blocks have pref peer ign opts s i (flag f q) = Some r \<and> safe_picks have s r"
    if "i < num_pieces s" "?free i" "safe_picks have s q" for i f q
    by (rule add_blocks_safe [OF assms(1,2) _ that(1,2)]) (simp add: that(3))
  have each: "runs (safe_picks have s) (pick_each ok f (add_blocks have pref peer ign opts s) is q)"
    if "\<And>i. i \<in> set is \<Longrightarrow> i < num_pieces s" "\<And>i. ok i \<Longrightarrow> ?free i" "safe_picks have s q" "0 < num_blocks q" for ok f "is" q
    by (rule pick_each_runs) (use fill that in auto)
  have top: "i \<in> set (takeWhile P (m_pieces s)) \<Longrightarrow> i < num_pieces s" for i P
    using list_ok_range [OF assms(3)] set_takeWhileD by metis
  have cur: "i < num_pieces s" if "i < m_reverse_cursor s" for i using cursor_range [OF assms(4)] that by simp
  show ?thesis
    unfolding pick_sequential_def Let_def
    by (rule runs_and_then, rule each) (use assms(5,6) top cur in \<open>auto intro!: each\<close>)
qed

lemma pick_rarest_runs:
  assumes "pick_ready have s" and "\<not> align_expanded_pieces opts" and "list_ok s" and "safe_picks have s p" and "0 < num_blocks p"
  shows "runs (safe_picks have s) (fst (pick_rarest have (add_blocks have pref peer ign opts s) opts s p))"
proof -
  let ?free = "\<lambda>i. is_piece_free s i ((!) have)" let ?fill = "add_blocks have pref peer ign opts s"
  have fill: "\<exists>r. ?fill i (flag f q) = Some r \<and> safe_picks have s r"
    if "i < num_pieces s" "?free i" "safe_picks have s q" for i f q
    by (rule add_blocks_safe [OF assms(1,2) _ that(1,2)]) (simp add: that(3))
  have each: "runs (safe_picks have s) (pick_each ?free f ?fill is q)"
    if "set is \<subseteq> set (m_pieces s)" "safe_picks have s q" "0 < num_blocks q" for f "is" q
    by (rule pick_each_runs) (use fill that list_ok_range [OF assms(3)] in auto)
  have "runs (safe_picks have s) (fst (affinity_loop ?free ?fill s es idx te p))" for es idx te
    by (rule affinity_loop_runs) (use fill assms(4,5) in auto)
  then have "runs (safe_picks have s) (fst (if piece_extent_affinity opts
      then affinity_loop ?free ?fill s (m_recent_extents s) 0 None p else (Go p, None)))"
    using assms(4,5) by simp
  moreover have "runs (safe_picks have s) (pick_each ?free rarest_first_flag ?fill (takeWhile P (m_pieces s)) q)"
    if "safe_picks have s q" "0 < num_blocks q" for P q using each that set_takeWhileD by (metis subsetI)
  ultimately show ?thesis
    using each [of "reverse_order s" p] assms(4,5)
    by (auto simp: pick_rarest_def reverse_order_rev [OF assms(3)] Let_def case_prod_beta intro!: runs_and_then)
qed

lemma pick_order_runs:
  assumes "pick_ready have s" and "\<not> align_expanded_pieces opts" and "list_good s" and "cursors_ok s" and "safe_picks have s p"
    and "0 < num_blocks p" and "0 < num_pieces s" and "m_dirty s \<Longrightarrow> set (m_pieces s) \<subseteq> {..<num_pieces s}"
  shows "runs (safe_picks have s) (fst (pick_order have pref peer opts suggested s p))"
proof -
  let ?t = "if m_dirty s then update_pieces s else s"
  note re = rebuilt [OF assms(3)]
  have t: "pick_ready have ?t" "list_ok ?t" "cursors_ok ?t" "safe_picks have ?t p"
    using re(1) re(6) [OF assms(1)] re(7) [OF assms(5)] cursors_tally [OF re(3)] assms(4) by simp_all
  have same: "runs (safe_picks have s) r" if "runs (safe_picks have ?t) r" for r
    using that re(8) by (cases r) simp_all
  have "m_pieces s = m_pieces ?t" if "\<not> m_dirty s" using that by simp
  then have mem: "i < num_pieces s" if "i \<in> set (m_pieces s)" for i
    using assms(8) list_ok_range [OF t(2), of i] re(4) that by (cases "m_dirty s") auto
  have crit: "runs (safe_picks have s) (pick_each (\<lambda>i. is_piece_free s i ((!) have)) time_critical (add_blocks have pref peer suggested opts s)
      (takeWhile P (m_pieces s)) p)" for P
  proof (rule pick_each_runs [where J = "safe_picks have s"])
    fix i q assume "i \<in> set (takeWhile P (m_pieces s))" "is_piece_free s i ((!) have)" "safe_picks have s q"
    moreover from this have "i < num_pieces s" using mem set_takeWhileD by metis
    ultimately show "\<exists>r. add_blocks have pref peer suggested opts s i (flag time_critical q) = Some r \<and> safe_picks have s r"
      using add_blocks_safe [OF assms(1,2), of "flag time_critical q" i] by simp
  qed (use assms(5,6) in simp_all)
  show ?thesis
    using same [OF pick_sequential_runs [OF t(1) assms(2) t(2,3,4) assms(6)]] same [OF pick_rarest_runs [OF t(1) assms(2) t(2,4) assms(6)]]
      crit pick_random_runs [OF assms(1,2,5,7)]
    by (simp add: pick_order_def Let_def)
qed

text \<open>
  What an order does to the picker itself: it may rebuild the list, forget extents, or draw a number. Nothing else changes:
  \<open>unlisted\<close> is the picker without its list, the places of the pieces in it and the random numbers.
\<close>

definition unpicked :: "piece_picker \<Rightarrow> piece_picker \<Rightarrow> bool" where
  "unpicked s t \<longleftrightarrow> works t = works s \<and> tally t = tally s \<and> list_good t \<and> set (m_recent_extents t) \<subseteq> set (m_recent_extents s)
     \<and> unlisted (t\<lparr>m_dirty := m_dirty s, m_recent_extents := m_recent_extents s\<rparr>) = unlisted s"

lemma erase_extent_same [simp]: "works (erase_extent k s) = works s" "tally (erase_extent k s) = tally s"
  by (simp_all add: erase_extent_def split: option.split)

lemma tally_rng [simp]: "tally (s\<lparr>rng := g\<rparr>) = tally s" "works (s\<lparr>rng := g\<rparr>) = works s"
  by (simp_all add: tally_def)

lemma unpicked_refl: "list_good s \<Longrightarrow> unpicked s s"
  by (simp add: unpicked_def)

lemma unpicked_rng: "unpicked s t \<Longrightarrow> unpicked s (t\<lparr>rng := g\<rparr>)"
proof -
  have "list_good (t\<lparr>rng := g\<rparr>) = list_good t" by (rule list_good_view) (simp_all add: list_view_def)
  moreover have "unlisted (t\<lparr>rng := g, m_dirty := a, m_recent_extents := b\<rparr>) = unlisted (t\<lparr>m_dirty := a, m_recent_extents := b\<rparr>)" for a b
    by (simp add: unlisted_def)
  ultimately show "unpicked s t \<Longrightarrow> unpicked s (t\<lparr>rng := g\<rparr>)" by (simp add: unpicked_def)
qed

lemma unpicked_extents: "unpicked s t \<Longrightarrow> unpicked s (erase_extent k t)"
proof (cases k)
  case (Some i)
  assume u: "unpicked s t"
  have "list_good (erase_extent k t) = list_good t" using Some by (intro list_good_view) (simp_all add: erase_extent_def list_view_def)
  moreover have "set (m_recent_extents (erase_extent k t)) \<subseteq> set (m_recent_extents t)"
    using Some by (auto simp: erase_extent_def dest: in_set_takeD in_set_dropD)
  ultimately show ?thesis using u Some by (auto simp: unpicked_def) (simp add: erase_extent_def)
qed (simp add: erase_extent_def)

lemma unpicked_rebuilt: "list_good s \<Longrightarrow> unpicked s (if m_dirty s then update_pieces s else s)"
proof -
  assume g: "list_good s"
  have dirty: "unlisted (r\<lparr>m_dirty := b\<rparr>) = (unlisted r)\<lparr>m_dirty := b\<rparr>" for r b by (cases r) (simp add: unlisted_def)
  have same: "r\<lparr>m_dirty := b, m_recent_extents := x\<rparr> = r\<lparr>m_dirty := b\<rparr>" if "m_recent_extents r = x" for r b x using that by (cases r) simp
  have ext: "m_recent_extents (update_pieces s) = m_recent_extents s"
    using arg_cong [OF unlisted_update_pieces [of s], of m_recent_extents] by (simp add: unlisted_def)
  have "unlisted ((update_pieces s)\<lparr>m_dirty := m_dirty s, m_recent_extents := m_recent_extents s\<rparr>) = unlisted s"
    unfolding same [OF ext] dirty unlisted_update_pieces by (cases s) (simp add: unlisted_def)
  then have "unpicked s (update_pieces s)" if "m_dirty s" using rebuilt(1-3) [OF g] list_ok_good ext that by (simp add: unpicked_def)
  then show ?thesis using unpicked_refl [OF g] by simp
qed

lemma pick_order_state:
  assumes "list_good s"
  shows "unpicked s (snd (pick_order have pref peer opts suggested s p))"
  using unpicked_rebuilt [OF assms] unpicked_extents [OF unpicked_rebuilt [OF assms]] unpicked_refl [OF assms] unpicked_rng [OF unpicked_refl [OF assms]]
  by (auto simp: pick_order_def pick_rarest_def pick_random_def Let_def case_prod_beta)

section \<open>The end game\<close>

text \<open>A block that another peer was asked for, of a piece with no free block.\<close>

definition busy_block :: "bool list \<Rightarrow> nat option \<Rightarrow> piece_picker \<Rightarrow> piece_block \<Rightarrow> bool" where
  "busy_block have peer s b \<longleftrightarrow> have ! fst b \<and> snd b < blocks_in_piece s (fst b)
     \<and> (\<exists>d\<in>set (m_downloads s piece_full). dindex d = fst b
          \<and> bstate (block_at s d (snd b)) = state_requested \<and> bpeer (block_at s d (snd b)) \<noteq> peer)"

lemma end_game_loop_busy:
  assumes "end_game_loop peer s ds g = (Some b, g')"
  shows "\<exists>d\<in>set ds. b \<in> set (busy_blocks peer s d)"
  using assms
proof (induction peer s ds g rule: end_game_loop.induct)
  case (1 peer s ds g)
  show ?case
  proof (cases "ds = []")
    case True
    then show ?thesis using "1.prems" by (simp add: end_game_loop.simps)
  next
    case False
    obtain k g1 where k: "random (length ds - 1) g = (k, g1)" by (rule prod.exhaust)
    have kl: "k < length ds" using k False by (auto simp: random_def)
    let ?temp = "busy_blocks peer s (ds ! k)"
    show ?thesis
    proof (cases "?temp = []")
      case True
      have "end_game_loop peer s (butlast (ds[k := last ds])) g1 = (Some b, g')"
        using "1.prems" False k True by (subst (asm) end_game_loop.simps) (simp add: Let_def)
      from "1.IH" [OF False k [symmetric] refl refl _ this] True
      obtain d where d: "d \<in> set (butlast (ds[k := last ds]))" "b \<in> set (busy_blocks peer s d)" by auto
      have "set (ds[k := last ds]) \<subseteq> insert (last ds) (set ds)" by (rule set_update_subset_insert)
      then have "d \<in> set ds" using in_set_butlastD [OF d(1)] last_in_set [OF False] by auto
      then show ?thesis using d(2) by blast
    next
      case ne: False
      obtain t g2 where t: "random (length ?temp - 1) g1 = (t, g2)" by (rule prod.exhaust)
      have "t < length ?temp" using t ne by (auto simp: random_def)
      moreover have "b = ?temp ! t" using "1.prems" False k ne t by (subst (asm) end_game_loop.simps) (simp add: Let_def)
      ultimately have "b \<in> set ?temp" by simp
      then show ?thesis using nth_mem [OF kl] by blast
    qed
  qed
qed

lemma busy_partials_in: "d \<in> set (busy_partials have opts s) \<Longrightarrow> d \<in> set (m_downloads s piece_full) \<and> have ! dindex d"
  by (auto simp: busy_partials_def dest: in_set_takeD)

lemma pick_end_game_picks:
  "interesting_blocks (fst (pick_end_game have peer opts s p)) = interesting_blocks p
   \<or> (\<exists>b. interesting_blocks (fst (pick_end_game have peer opts s p)) = interesting_blocks p @ [b] \<and> busy_block have peer s b
        \<and> end_game \<in> ret_flags (fst (pick_end_game have peer opts s p)))"
proof (cases "on_parole opts")
  case False
  obtain r g where e: "end_game_loop peer s (busy_partials have opts s) (rng s) = (r, g)" by (rule prod.exhaust)
  show ?thesis
  proof (cases r)
    case None
    then show ?thesis using False e by (simp add: pick_end_game_def)
  next
    case (Some b)
    from end_game_loop_busy [OF e [unfolded Some]] obtain d where
      d: "d \<in> set (m_downloads s piece_full)" "have ! dindex d" "b \<in> set (busy_blocks peer s d)" using busy_partials_in by blast
    then have "busy_block have peer s b" by (auto simp: busy_block_def busy_blocks_def blocks_for_piece_def)
    then show ?thesis using False e Some by (simp add: pick_end_game_def flag_def)
  qed
qed (simp add: pick_end_game_def)

section \<open>The whole\<close>

lemma ordered_partials_in:
  "d \<in> set (ordered_partials have opts s) \<Longrightarrow> d \<in> set (m_downloads s piece_downloading) \<and> is_piece_free s (dindex d) ((!) have)"
proof -
  have "set (insert_by lt x ys) = insert x (set ys)" for lt :: "downloading_piece \<Rightarrow> downloading_piece \<Rightarrow> bool" and x ys
    by (induction ys) auto
  then have "set (sort_by lt xs) = set xs" for lt :: "downloading_piece \<Rightarrow> downloading_piece \<Rightarrow> bool" and xs
    by (induction xs) (auto simp: sort_by_def)
  then show "d \<in> set (ordered_partials have opts s) \<Longrightarrow> ?thesis" by (auto simp: ordered_partials_def Let_def split: if_splits)
qed

lemma pick_partials_runs:
  assumes "pick_ready have s" and "safe_picks have s p" and "0 < num_blocks p"
  shows "runs (safe_picks have s) (pick_partials have pref peer opts s p)"
proof -
  let ?p = "if rarest_first opts then flag rarest_first_partials p else p"
  have "runs (safe_picks have s) (partials_loop (\<lambda>d. add_blocks_downloading d have pref peer opts s) (ordered_partials have opts s) ?p)"
  proof (rule partials_loop_runs)
    fix d q assume "d \<in> set (ordered_partials have opts s)" "safe_picks have s q"
    then show "safe_picks have s (add_blocks_downloading d have pref peer opts s (flag prioritize_partials_flag q))"
      using add_blocks_downloading_safe [OF assms(1)] ordered_partials_in by simp
  qed (use assms(2,3) in simp_all)
  then show ?thesis
    unfolding pick_partials_def Let_def
    by (intro runs_and_then [where f = "\<lambda>q. done_or_go (append_backup2 q)"] runs_and_then [where f = "\<lambda>q. done_or_go (append_backup q)"])
      (auto intro: runs_done_or_go append_backup_safe)
qed

lemma pick_backups_runs: "safe_picks have s p \<Longrightarrow> runs (safe_picks have s) (pick_backups p)"
  unfolding pick_backups_def
  by (rule runs_and_then; rule runs_done_or_go) (simp_all add: append_backup_safe)

lemma pick_end_game_state: "unpicked s t \<Longrightarrow> unpicked s (snd (pick_end_game have peer opts t p))"
  using unpicked_rng by (auto simp: pick_end_game_def split: prod.split option.split)

text \<open>What is picked: free blocks, and at the end perhaps a busy one.\<close>

definition good_choice :: "bool list \<Rightarrow> nat option \<Rightarrow> piece_picker \<Rightarrow> picks \<Rightarrow> bool" where
  "good_choice have peer s q \<longleftrightarrow>
     (\<forall>b\<in>set (interesting_blocks q). pickable have s b
        \<or> (b = last (interesting_blocks q) \<and> end_game \<in> ret_flags q \<and> busy_block have peer s b))"

lemma safe_choice: "safe_picks have s q \<Longrightarrow> good_choice have peer s q"
  by (simp add: safe_picks_def good_choice_def)

lemma end_game_choice:
  assumes "safe_picks have s q" and "works t = works s"
  shows "good_choice have peer s (fst (pick_end_game have peer opts t q))"
proof -
  have "busy_block have peer t b = busy_block have peer s b" for b
    using works_eqD(1) [OF assms(2)] works_queues(4,5) [OF assms(2)] by (simp add: busy_block_def)
  moreover have "pickable have s b" if "b \<in> set (interesting_blocks q)" for b using that assms(1) by (simp add: safe_picks_def)
  ultimately show ?thesis using pick_end_game_picks [of "have" peer opts t q] by (auto simp: good_choice_def)
qed

lemma pick_pieces_good:
  assumes "pick_ready have s" and "list_good s" and "cursors_ok s" and "m_dirty s \<Longrightarrow> set (m_pieces s) \<subseteq> {..<num_pieces s}"
    and "\<not> align_expanded_pieces options" and "0 < num_pieces s" and "set suggested \<subseteq> {..<num_pieces s}" and "0 < n"
  shows "\<exists>q t. pick_pieces have n prefer peer options suggested known s = Some (q, t) \<and> unpicked s t \<and> good_choice have peer s q"
proof -
  define crowded where "crowded = too_many_partials known s"
  define opts where "opts = (if crowded then options\<lparr>prioritize_partials := True\<rparr> else options)"
  define pref where "pref = (if crowded then 0 else prefer)"
  define p0 where "p0 = \<lparr>interesting_blocks = [], backup_blocks = [], backup_blocks2 = [], num_blocks = n,
    ret_flags = (if crowded then {partial_ratio} else {})\<rparr>"
  define p1 where "p1 = (if pref \<noteq> 0 then flag prefer_contiguous p0 else p0)"
  define r where "r = and_then (if prioritize_partials opts then pick_partials have pref peer opts s p1 else Go p1)
    (pick_each (\<lambda>i. critical opts s i \<and> is_piece_free s i ((!) have)) suggested_pieces_flag (add_blocks have pref peer [] opts s) suggested)"
  have pp: "pick_pieces have n prefer peer options suggested known s =
      (case r of Crash \<Rightarrow> None | Return q \<Rightarrow> Some (q, s)
       | Go q \<Rightarrow> (case pick_order have pref peer opts suggested s q of (r1, s1) \<Rightarrow>
           (case and_then r1 (\<lambda>q1. and_then (done_or_go q1) pick_backups) of Crash \<Rightarrow> None
            | Return q2 \<Rightarrow> Some (q2, s1) | Go q2 \<Rightarrow> Some (pick_end_game have peer opts s1 q2))))"
    unfolding pick_pieces_def Let_def r_def p1_def p0_def pref_def opts_def crowded_def ..
  have al: "\<not> align_expanded_pieces opts" using assms(5) by (simp add: opts_def)
  have p1: "safe_picks have s p1" "0 < num_blocks p1" using assms(8) by (simp_all add: p1_def p0_def safe_picks_def)
  have "runs (safe_picks have s) (if prioritize_partials opts then pick_partials have pref peer opts s p1 else Go p1)"
    using pick_partials_runs [OF assms(1) p1] p1 by simp
  then have r: "runs (safe_picks have s) r"
    unfolding r_def
  proof (rule runs_and_then)
    fix q assume q: "safe_picks have s q" "0 < num_blocks q"
    show "runs (safe_picks have s) (pick_each (\<lambda>i. critical opts s i \<and> is_piece_free s i ((!) have)) suggested_pieces_flag
        (add_blocks have pref peer [] opts s) suggested q)"
      by (rule pick_each_runs) (use q assms(7) add_blocks_safe [OF assms(1) al, of "flag suggested_pieces_flag _"] in auto)
  qed
  show ?thesis
  proof (cases r)
    case Crash
    then show ?thesis using r by simp
  next
    case (Return q)
    then show ?thesis using r safe_choice unpicked_refl [OF assms(2)] by (auto simp: pp)
  next
    case (Go q)
    then have q: "safe_picks have s q" "0 < num_blocks q" using r by simp_all
    obtain r1 s1 where o: "pick_order have pref peer opts suggested s q = (r1, s1)" by (rule prod.exhaust)
    have r1: "runs (safe_picks have s) r1" using pick_order_runs [OF assms(1) al assms(2,3) q assms(6,4), of pref peer suggested] o by simp
    have s1: "unpicked s s1" using pick_order_state [OF assms(2), of "have" pref peer opts suggested q] o by simp
    define r2 where "r2 = and_then r1 (\<lambda>q1. and_then (done_or_go q1) pick_backups)"
    have r2: "runs (safe_picks have s) r2"
      unfolding r2_def by (rule runs_and_then [OF r1], rule runs_and_then, rule runs_done_or_go) (simp_all add: pick_backups_runs)
    have pp2: "pick_pieces have n prefer peer options suggested known s =
        (case r2 of Crash \<Rightarrow> None | Return q2 \<Rightarrow> Some (q2, s1) | Go q2 \<Rightarrow> Some (pick_end_game have peer opts s1 q2))"
      using Go o by (simp add: pp r2_def)
    show ?thesis
    proof (cases r2)
      case Crash
      then show ?thesis using r2 by simp
    next
      case (Return q2)
      then show ?thesis using r2 s1 safe_choice by (auto simp: pp2)
    next
      case e: (Go q2)
      obtain q3 t where t: "pick_end_game have peer opts s1 q2 = (q3, t)" by (rule prod.exhaust)
      then have "pick_pieces have n prefer peer options suggested known s = Some (q3, t)" using e by (simp add: pp2)
      moreover have "unpicked s t" using pick_end_game_state [OF s1, of "have" peer opts q2] t by simp
      moreover have "good_choice have peer s q3"
        using end_game_choice [of "have" s q2 s1 peer opts] r2 e s1 t by (simp add: unpicked_def)
      ultimately show ?thesis by blast
    qed
  qed
qed

text \<open>
  The aligned expansion divides by the number of whole pieces preferred, which is zero for the small negative preferences that the
  random order comes to when it picked more blocks of a range than were preferred.
\<close>

lemma aligned_expansion_divides_by_zero:
  assumes "align_expanded_pieces opts" and "contiguous_blocks < 0" and "- 2 * int (m_blocks_per_piece s) + 1 < contiguous_blocks"
  shows "expand_piece i contiguous_blocks have opts s = None"
proof -
  have "tdiv (contiguous_blocks + int (m_blocks_per_piece s) - 1) (int (m_blocks_per_piece s)) = 0"
    using assms(2,3) by (auto simp: tdiv_def)
  then show ?thesis using assms(1,2) by (simp add: expand_piece_def)
qed

text \<open>
  C3: In every reachable state, for all options but \<open>align_expanded_pieces\<close> (which no caller sets, and which can make the code
  divide by zero), \<open>pick_pieces\<close> returns. It picks only blocks of pieces the peer has
  and we neither have nor filter: blocks nobody was asked for, of pieces that are open or being downloaded and not
  locked. Only the last block can be one that another peer was asked for, and then the end game is on. The picker itself
  stays as it was, but for a list that may be rebuilt, random numbers that are drawn and recent extents that are forgotten.
\<close>

theorem pick_pieces_safe:
  assumes "picker_reachable s" and "length have = num_pieces s" and "0 < num_pieces s" and "0 < n"
    and "m_dirty s \<Longrightarrow> set (m_pieces s) \<subseteq> {..<num_pieces s}" and "set suggested \<subseteq> {..<num_pieces s}"
    and "\<not> align_expanded_pieces options"
  shows "\<exists>q t. pick_pieces have n prefer peer options suggested known s = Some (q, t)
    \<and> (\<forall>b\<in>set (interesting_blocks q). pickable have s b
         \<or> (b = last (interesting_blocks q) \<and> end_game \<in> ret_flags q \<and> busy_block have peer s b))
    \<and> works t = works s \<and> tally t = tally s \<and> list_good t \<and> set (m_recent_extents t) \<subseteq> set (m_recent_extents s)
    \<and> unlisted (t\<lparr>m_dirty := m_dirty s, m_recent_extents := m_recent_extents s\<rparr>) = unlisted s"
proof -
  have inv: "list_good s" "tallied s" "downloads_ok s" using picker_invD [OF picker_machine.inv_reach [OF assms(1)]] by simp_all
  then have "pick_ready have s" "cursors_ok s" using assms(2) by (simp_all add: pick_ready_def tallied_def)
  from pick_pieces_good [OF this(1) inv(1) this(2) assms(5,7,3,6,4)] show ?thesis unfolding unpicked_def good_choice_def by blast
qed

text \<open>More fuel changes nothing once the loop has ended.\<close>

lemma random_loop_more:
  "random_loop pieces peer suggested opts s start fuel i pref p = Some q \<Longrightarrow>
   random_loop pieces peer suggested opts s start (fuel + k) i pref p = Some q"
proof (induction pieces peer suggested opts s start fuel i pref p rule: random_loop.induct)
  case (2 pieces peer suggested opts s start fuel i pref p)
  let ?nf = "next_free (\<lambda>i. is_piece_free s i ((!) pieces) \<and> i \<notin> set suggested) (num_pieces s) start (num_pieces s) i"
  show ?case
  proof (cases "num_blocks p \<le> 0 \<or> ?nf = None")
    case True
    then show ?thesis using "2.prems" by (auto split: if_splits)
  next
    case False
    then obtain j where j: "?nf = Some j" by auto
    obtain e pref' r where e: "random_pick pieces peer opts s j pref p = Some (e, pref', r)"
      using "2.prems" False j by (cases "random_pick pieces peer opts s j pref p") auto
    show ?thesis
    proof (cases "(if e = num_pieces s then 0 else e) = start")
      case True
      then show ?thesis using "2.prems" False j e by (simp add: Let_def)
    next
      case go: False
      have "random_loop pieces peer suggested opts s start fuel (if e = num_pieces s then 0 else e) pref' r = Some q"
        using "2.prems" False j e go by (simp add: Let_def split: if_splits)
      from "2.IH" [OF _ j e refl refl refl _ this] False go
      have "random_loop pieces peer suggested opts s start (fuel + k) (if e = num_pieces s then 0 else e) pref' r = Some q" by simp
      then show ?thesis using False j e go by (simp add: Let_def)
    qed
  qed
qed simp

text \<open>
  C20: The loop of the random order ends in every reachable state, although a jump over a range of pieces can skip the piece
  it started at, so that it may go around more than once: each time around some block is picked.
\<close>

theorem random_order_terminates:
  assumes "picker_reachable s" and "length have = num_pieces s" and "\<not> align_expanded_pieces opts"
    and "start < num_pieces s" and "safe_picks have s p"
  shows "\<exists>q. \<forall>k. random_loop have peer suggested opts s start (random_fuel s p + k) start pref p = Some q"
proof -
  have "downloads_ok s" using picker_invD [OF picker_machine.inv_reach [OF assms(1)]] by simp
  then have "pick_ready have s" using assms(2) by (simp add: pick_ready_def)
  moreover have "length (circle (num_pieces s) start start) \<le> num_pieces s" using circle_length [OF assms(4,4)] by blast
  then have "nat (num_blocks p) * num_pieces s + length (circle (num_pieces s) start start) < random_fuel s p"
    by (simp add: random_fuel_def algebra_simps)
  ultimately obtain q where "random_loop have peer suggested opts s start (random_fuel s p) start pref p = Some q"
    using random_loop_safe [OF _ assms(3,5,4,4)] by blast
  then have "\<forall>k. random_loop have peer suggested opts s start (random_fuel s p + k) start pref p = Some q" using random_loop_more by blast
  then show ?thesis by blast
qed

end
