(* ===== verification/Picker_Candidates.thy ===== *)
theory Picker_Candidates
  imports Picker_Choice
begin

text \<open>
  What \<open>pick_pieces\<close> picks when no contiguous blocks are preferred: the first blocks of one list of candidates, which
  is written down here without loops, flags and early returns. What follows from it: no block is picked twice, nothing is
  missed, and rare pieces come first.
\<close>

section \<open>The candidates\<close>

definition partial_blocks :: "bool list \<Rightarrow> nat option \<Rightarrow> picker_options \<Rightarrow> piece_picker \<Rightarrow> downloading_piece \<Rightarrow> piece_block list" where
  "partial_blocks have peer opts s d =
     (if \<not> have ! dindex d \<or> locked d \<or> (on_parole opts \<and> \<not> fst (requested_from d (blocks_in_piece s (dindex d)) peer s)) then []
      else map (Pair (dindex d)) (filter (\<lambda>j. bstate (block_at s d j) = state_none) [0..<blocks_in_piece s (dindex d)]))"

definition piece_blocks ::
  "bool list \<Rightarrow> nat option \<Rightarrow> picker_options \<Rightarrow> piece_picker \<Rightarrow> nat list \<Rightarrow> nat \<Rightarrow> piece_block list" where
  "piece_blocks have peer opts s ignore i =
     (if i \<in> set ignore then []
      else if download_queue (piece_at s i) = piece_open then map (Pair i) [0..<blocks_in_piece s i]
      else if prioritize_partials opts then []
      else concat (map (partial_blocks have peer opts s) (filter (\<lambda>d. dindex d = i) (m_downloads s piece_downloading))))"

text \<open>The pieces in the order of the options; in this order they are tried. The list is rebuilt first where the order needs it.\<close>

definition pick_state :: "picker_options \<Rightarrow> piece_picker \<Rightarrow> piece_picker" where
  "pick_state opts s = (if m_dirty s \<and> (sequential opts \<or> rarest_first opts) then update_pieces s else s)"

definition piece_order :: "picker_options \<Rightarrow> piece_picker \<Rightarrow> nat list" where
  "piece_order opts s =
     (let top = (\<lambda>i. piece_priority (piece_at s i) = top_priority) in
      if sequential opts
      then takeWhile top (m_pieces s)
        @ (if time_critical_mode opts then []
           else filter (\<lambda>i. \<not> top i) ((if reverse opts then rev else id) [m_cursor s..<m_reverse_cursor s]))
      else if rarest_first opts
      then if reverse opts \<and> \<not> time_critical_mode opts then rev (m_pieces s)
           else (if piece_extent_affinity opts then concat (map (extent_pieces s) (m_recent_extents s)) else [])
             @ takeWhile (critical opts s) (m_pieces s)
      else if time_critical_mode opts then takeWhile top (m_pieces s)
      else (let start = fst (random (num_pieces s - 1) (rng s)) in circle (num_pieces s) start start))"

definition candidates :: "bool list \<Rightarrow> nat option \<Rightarrow> picker_options \<Rightarrow> nat list \<Rightarrow> piece_picker \<Rightarrow> piece_block list" where
  "candidates have peer opts suggested s =
     (let t = pick_state opts s in
      (if prioritize_partials opts then concat (map (partial_blocks have peer opts s) (ordered_partials have opts s)) else [])
      @ concat (map (piece_blocks have peer opts s []) (filter (\<lambda>i. critical opts s i \<and> is_piece_free s i ((!) have)) suggested))
      @ concat (map (piece_blocks have peer opts t suggested) (filter (\<lambda>i. is_piece_free t i ((!) have)) (piece_order opts t))))"

section \<open>Collecting from a list\<close>

definition lean :: "picks \<Rightarrow> bool" where
  "lean p \<longleftrightarrow> backup_blocks p = [] \<and> backup_blocks2 p = [] \<and> 0 \<le> num_blocks p"

definition collects :: "picks \<Rightarrow> piece_block list \<Rightarrow> picks \<Rightarrow> bool" where
  "collects p xs q \<longleftrightarrow> lean q \<and> interesting_blocks q = interesting_blocks p @ take (nat (num_blocks p)) xs
     \<and> num_blocks q = max (num_blocks p - int (length xs)) 0"

definition gathers :: "picks \<Rightarrow> piece_block list \<Rightarrow> pick_ctl \<Rightarrow> bool" where
  "gathers p xs r = (case r of Crash \<Rightarrow> False | Return q \<Rightarrow> collects p xs q \<and> num_blocks q \<le> 0 | Go q \<Rightarrow> collects p xs q \<and> 0 < num_blocks q)"

lemma gathers_simps [simp]:
  "\<not> gathers p xs Crash" "gathers p xs (Return q) \<longleftrightarrow> collects p xs q \<and> num_blocks q \<le> 0"
  "gathers p xs (Go q) \<longleftrightarrow> collects p xs q \<and> 0 < num_blocks q"
  by (simp_all add: gathers_def)

lemma lean_flag [simp]: "lean (flag f p) = lean p"
  by (simp add: lean_def)

lemma collects_flag [simp]: "collects (flag f p) xs q = collects p xs q" "collects p xs (flag f q) = collects p xs q"
  by (simp_all add: collects_def)

lemma gathers_flag [simp]: "gathers (flag f p) xs r = gathers p xs r"
  by (cases r) simp_all

lemma collects_lean: "collects p xs q \<Longrightarrow> lean q"
  by (simp add: collects_def)

lemma collects_none: "lean p \<Longrightarrow> collects p [] p"
  by (simp add: collects_def lean_def)

lemma collects_enough: "collects p xs q \<Longrightarrow> num_blocks q \<le> 0 \<Longrightarrow> collects p (xs @ ys) q"
  by (auto simp: collects_def)

lemma collects_append: "lean p \<Longrightarrow> collects p xs q \<Longrightarrow> collects q ys r \<Longrightarrow> collects p (xs @ ys) r"
  by (auto simp: collects_def lean_def nat_diff_distrib max_def)

lemma gathers_append:
  assumes "lean p" and "collects p xs q" and "gathers q ys r"
  shows "gathers p (xs @ ys) r"
  using assms(3) collects_append [OF assms(1,2)] by (cases r) auto

lemma gathers_and_then:
  assumes "lean p" and "gathers p xs r" and "\<And>q. lean q \<Longrightarrow> 0 < num_blocks q \<Longrightarrow> gathers q ys (f q)"
  shows "gathers p (xs @ ys) (and_then r f)"
proof (cases r)
  case (Return q)
  then show ?thesis using assms(2) collects_enough by auto
next
  case (Go q)
  then show ?thesis using gathers_append [OF assms(1)] assms(2,3) collects_lean by auto
qed (use assms in simp)

lemma gathers_done: "collects p xs q \<Longrightarrow> gathers p xs (done_or_go q)"
  by (simp add: done_or_go_def)

lemma pick_each_gathers:
  assumes "\<And>i q. i \<in> set is \<Longrightarrow> ok i \<Longrightarrow> lean q \<Longrightarrow> 0 < num_blocks q \<Longrightarrow> \<exists>r. fill i q = Some r \<and> collects q (B i) r"
    and "lean p" and "0 < num_blocks p"
  shows "gathers p (concat (map B (filter ok is))) (pick_each ok f fill is p)"
  using assms
proof (induction "is" arbitrary: p)
  case (Cons i "is")
  show ?case
  proof (cases "ok i")
    case True
    obtain r where r: "fill i (flag f p) = Some r" "collects p (B i) r" using Cons.prems(1) [of i "flag f p"] True Cons.prems(2,3) by auto
    then show ?thesis
    proof (cases "num_blocks r \<le> 0")
      case True
      then show ?thesis using \<open>ok i\<close> r collects_enough by simp
    next
      case False
      have "gathers r (concat (map B (filter ok is))) (pick_each ok f fill is r)"
        by (rule Cons.IH) (use Cons.prems(1) collects_lean [OF r(2)] False in auto)
      then show ?thesis using \<open>ok i\<close> r False gathers_append [OF Cons.prems(2) r(2)] by simp
    qed
  qed (use Cons in simp)
qed (simp add: collects_none)

lemma partials_loop_gathers:
  assumes "\<And>d q. lean q \<Longrightarrow> 0 < num_blocks q \<Longrightarrow> collects q (B d) (fill d q)" and "lean p" and "0 < num_blocks p"
  shows "gathers p (concat (map B ds)) (partials_loop fill ds p)"
  using assms(2,3)
proof (induction ds arbitrary: p)
  case (Cons d ds)
  let ?q = "fill d (flag prioritize_partials_flag p)"
  have q: "collects p (B d) ?q" using assms(1) [of "flag prioritize_partials_flag p"] Cons.prems by simp
  show ?case
  proof (cases "num_blocks ?q \<le> 0")
    case True
    then show ?thesis using q collects_enough by (simp add: Let_def)
  next
    case False
    have lq: "lean ?q" by (rule collects_lean [OF q])
    from Cons.IH [OF this] False have "gathers ?q (concat (map B ds)) (partials_loop fill ds ?q)" by simp
    moreover have "\<not> num_blocks ?q \<le> int (length (backup_blocks ?q))" using False lq by (simp add: lean_def)
    ultimately show ?thesis using False gathers_append [OF Cons.prems(1) q] by (simp add: Let_def)
  qed
qed (simp add: collects_none)

lemma append_backup_lean: "lean p \<Longrightarrow> append_backup p = p" "lean p \<Longrightarrow> append_backup2 p = p"
  by (simp_all add: append_backup_def append_backup2_def append_blocks_def lean_def)

section \<open>One piece\<close>

lemma free_blocks_loop_take:
  "0 < n \<Longrightarrow> free_blocks_loop binfo i js 0 bs n =
     (let xs = filter (\<lambda>j. bstate (binfo j) = state_none) js
      in (bs @ map (Pair i) (take (nat n) xs), max (n - int (length xs)) 0))"
proof (induction js arbitrary: bs n)
  case (Cons j js)
  let ?xs = "filter (\<lambda>j. bstate (binfo j) = state_none) js"
  consider "bstate (binfo j) \<noteq> state_none" | "bstate (binfo j) = state_none" "n - 1 \<le> 0" | "bstate (binfo j) = state_none" "0 < n - 1"
    by linarith
  then show ?case
  proof cases
    case 1
    then show ?thesis using Cons by simp
  next
    case 2
    then have "n = 1" using Cons.prems by simp
    then show ?thesis using 2 by (simp add: Let_def)
  next
    case 3
    have "nat n = Suc (nat (n - 1))" using Cons.prems by simp
    then show ?thesis using 3 Cons.IH [of "n - 1" "bs @ [(i, j)]"] by (simp add: Let_def)
  qed
qed (simp add: Let_def)

lemma add_blocks_downloading_collects:
  assumes "lean p" and "0 < num_blocks p"
  shows "collects p (partial_blocks have peer opts s d) (add_blocks_downloading d have 0 peer opts s p)"
proof -
  let ?n = "blocks_in_piece s (dindex d)"
  obtain ex act cont first where rf: "requested_from d ?n peer s = (ex, act, cont, first)" by (cases "requested_from d ?n peer s") auto
  have ids: "map (\<lambda>j. (j + (if (0::int) = 0 then 0 else first)) mod ?n) [0..<?n] = [0..<?n]" by (rule map_idI) simp
  show ?thesis
  proof (cases "\<not> have ! dindex d \<or> locked d \<or> (on_parole opts \<and> \<not> ex)")
    case True
    then show ?thesis using rf collects_none [OF assms(1)] by (auto simp: add_blocks_downloading_def partial_blocks_def Let_def)
  next
    case False
    then have eq: "add_blocks_downloading d have 0 peer opts s p
      = (case free_blocks_loop (block_at s d) (dindex d) [0..<?n] 0 (interesting_blocks p) (num_blocks p) of
           (bs, n) \<Rightarrow> p\<lparr>interesting_blocks := bs, num_blocks := (if n \<le> 0 then 0 else n)\<rparr>)"
      unfolding add_blocks_downloading_def Let_def rf prod.case ids by auto
    show ?thesis
      using False rf assms by (auto simp: eq free_blocks_loop_take partial_blocks_def collects_def lean_def Let_def take_map)
  qed
qed

lemma entries_of:
  assumes "queues_ok s" and "find_dl_piece q i s = Some k" and "download_queue (piece_at s i) = q"
  shows "filter (\<lambda>d. dindex d = i) (m_downloads s q) = [dl_at s (q, k)]"
proof -
  have "dl_iter_of i s = Some (q, k)" using assms(2,3) by (simp add: dl_iter_of_def)
  note it = iterD [OF assms(1) this]
  have k: "k < length (m_downloads s q)" "dindex (m_downloads s q ! k) = i" "dl_at s (q, k) = m_downloads s q ! k"
    using it(2,3) by (simp_all add: dl_at_def)
  have "distinct (map dindex (m_downloads s q))" using queues_okD(1) [OF assms(1), of q] by (simp add: strict_sorted_iff)
  moreover have "distinct (map dindex ds) \<Longrightarrow> k < length ds \<Longrightarrow> filter (\<lambda>d. dindex d = dindex (ds ! k)) ds = [ds ! k]" for ds k
  proof (induction ds arbitrary: k)
    case (Cons d ds)
    then show ?case
    proof (cases k)
      case 0
      have "filter (\<lambda>e. dindex e = dindex d) ds = []" using Cons.prems(1) by (auto simp: filter_empty_conv) (metis imageI)
      then show ?thesis using 0 by simp
    next
      case (Suc j)
      then have "dindex d \<noteq> dindex (ds ! j)" using Cons.prems nth_mem [of j ds] by (auto dest: imageI)
      then show ?thesis using Suc Cons by simp
    qed
  qed simp
  ultimately show ?thesis using k by fastforce
qed

lemma add_blocks_collects:
  assumes "downloads_ok s" and "i < num_pieces s" and "lean p" and "0 < num_blocks p"
  shows "\<exists>q. add_blocks have 0 peer ignore opts s i p = Some q \<and> collects p (piece_blocks have peer opts s ignore i) q"
proof -
  let ?q = "download_queue (piece_at s i)"
  note qs = dl_invD(2) [OF assms(1)]
  consider "i \<in> set ignore" | "i \<notin> set ignore" "?q \<noteq> piece_open" "?q \<noteq> piece_downloading"
    | "i \<notin> set ignore" "?q = piece_downloading" "prioritize_partials opts"
    | "i \<notin> set ignore" "?q = piece_downloading" "\<not> prioritize_partials opts" | "i \<notin> set ignore" "?q = piece_open" by blast
  then show ?thesis
  proof cases
    case 1
    then show ?thesis using collects_none [OF assms(3)] by (simp add: add_blocks_def piece_blocks_def)
  next
    case 2
    have "dindex d \<noteq> i" if "d \<in> set (m_downloads s piece_downloading)" for d
      using queues_okD(2) [OF qs that] 2(3) by auto
    then have "filter (\<lambda>d. dindex d = i) (m_downloads s piece_downloading) = []" by (simp add: filter_empty_conv)
    then have "piece_blocks have peer opts s ignore i = []" using 2 by (simp add: piece_blocks_def)
    then show ?thesis using 2 collects_none [OF assms(3)] by (simp add: add_blocks_def Let_def)
  next
    case 3
    then show ?thesis using collects_none [OF assms(3)] by (simp add: add_blocks_def piece_blocks_def Let_def)
  next
    case 4
    then obtain k where k: "find_dl_piece piece_downloading i s = Some k"
      using iter_exists [OF qs assms(2)] by (fastforce simp: dl_iter_of_def)
    let ?d = "dl_at s (piece_downloading, k)"
    have "piece_blocks have peer opts s ignore i = partial_blocks have peer opts s ?d"
      using 4 entries_of [OF qs k] by (simp add: piece_blocks_def)
    then show ?thesis using 4 k add_blocks_downloading_collects [OF assms(3,4), of "have" peer opts s ?d] by (simp add: add_blocks_def)
  next
    case 5
    let ?b = "int (blocks_in_piece s i)"
    have "take (nat (num_blocks p)) (map (Pair i) [0..<blocks_in_piece s i]) = map (Pair i) [0..<nat (min ?b (num_blocks p))]"
      using assms(4) by (auto simp: take_map take_upt min_def nat_le_iff)
    then show ?thesis using 5 assms(3,4)
      by (auto simp: add_blocks_def piece_blocks_def collects_def lean_def Let_def)
  qed
qed

section \<open>The orders\<close>

lemma next_free_filter:
  assumes "i < n" and "start < n" and "length (circle n start i) \<le> fuel"
  shows "next_free free n start fuel i = None \<Longrightarrow> filter free (circle n start i) = []"
    and "next_free free n start fuel i = Some k \<Longrightarrow> k < n \<and> free k \<and> filter free (circle n start i) = filter free (circle n start k)
      \<and> length (circle n start k) \<le> length (circle n start i)"
  using next_free_circle [OF assms, of free] by (auto simp: filter_empty_conv)

lemma random_loop_collects:
  assumes "downloads_ok s" and "lean p" and "i < num_pieces s" and "start < num_pieces s"
    and "length (circle (num_pieces s) start i) < fuel"
  shows "\<exists>q. random_loop have peer suggested opts s start fuel i 0 p = Some q
    \<and> collects p (concat (map (piece_blocks have peer opts s [])
        (filter (\<lambda>i. is_piece_free s i ((!) have) \<and> i \<notin> set suggested) (circle (num_pieces s) start i)))) q"
  using assms(2,3,5)
proof (induction fuel arbitrary: i p)
  case 0
  from 0(3) show ?case by (rule notE [OF not_less0])
next
  case (Suc fuel)
  let ?n = "num_pieces s" let ?free = "\<lambda>i. is_piece_free s i ((!) have) \<and> i \<notin> set suggested"
  let ?all = "\<lambda>i. concat (map (piece_blocks have peer opts s []) (filter ?free (circle ?n start i)))"
  show ?case
  proof (cases "num_blocks p \<le> 0")
    case True
    then have "collects p (?all i) p" using Suc.prems(1) by (simp add: collects_def lean_def)
    then show ?thesis using True by simp
  next
    case False
    have len: "length (circle ?n start i) \<le> ?n" using circle_length [OF Suc.prems(2) assms(4)] by blast
    note nf = next_free_filter [OF Suc.prems(2) assms(4) len, of ?free]
    show ?thesis
    proof (cases "next_free ?free ?n start ?n i")
      case None
      then show ?thesis using False nf(1) collects_none [OF Suc.prems(1)] by simp
    next
      case (Some k)
      note k = nf(2) [OF Some]
      have "k < ?n" using k by blast
      note step = circle_step [OF this assms(4)]
      have all: "?all i = piece_blocks have peer opts s [] k @ (if next_piece ?n k = start then [] else ?all (next_piece ?n k))"
        using k step(1) by simp
      obtain q where q: "add_blocks have 0 peer [] opts s k (flag random_pieces p) = Some q" "collects p (piece_blocks have peer opts s [] k) q"
        using add_blocks_collects [OF assms(1) \<open>k < ?n\<close>, of "flag random_pieces p" "have" peer "[]" opts] Suc.prems(1) False by auto
      have rp: "random_pick have peer opts s k 0 p = Some (k + 1, 0, q)" using q(1) by (simp add: random_pick_def)
      have nx: "(if k + 1 = ?n then 0 else k + 1) = next_piece ?n k" by (simp add: next_piece_def)
      have "random_loop have peer suggested opts s start (Suc fuel) i 0 p = (let i' = (if k + 1 = ?n then 0 else k + 1) in
          if i' = start then Some q else random_loop have peer suggested opts s start fuel i' 0 q)" using False Some rp by simp
      then have rl: "random_loop have peer suggested opts s start (Suc fuel) i 0 p =
          (if next_piece ?n k = start then Some q else random_loop have peer suggested opts s start fuel (next_piece ?n k) 0 q)"
        unfolding nx Let_def .
      show ?thesis
      proof (cases "next_piece ?n k = start")
        case True
        then show ?thesis using q(2) all rl by simp
      next
        case no: False
        have "Suc (length (circle ?n start (next_piece ?n k))) = length (circle ?n start k)" using step(1) no by simp
        then have "length (circle ?n start (next_piece ?n k)) < fuel" using k Suc.prems(3) by linarith
        from Suc.IH [OF collects_lean [OF q(2)] step(2) this] obtain r where
          r: "random_loop have peer suggested opts s start fuel (next_piece ?n k) 0 q = Some r" "collects q (?all (next_piece ?n k)) r" by blast
        have "random_loop have peer suggested opts s start (Suc fuel) i 0 p = Some r"
          using rl no r(1) by simp
        moreover have "collects p (?all i) r" unfolding all using no collects_append [OF Suc.prems(1) q(2) r(2)] by simp
        ultimately show ?thesis by blast
      qed
    qed
  qed
qed

lemma piece_blocks_works:
  assumes "works t = works s" and "i < num_pieces s"
  shows "piece_blocks have peer opts t ign i = piece_blocks have peer opts s ign i"
proof -
  note w = works_eqD [OF assms(1)] works_queues [OF assms(1)]
  have "blocks_for_piece t = blocks_for_piece s"
    by (simp add: fun_eq_iff blocks_for_piece_def blocks_begin_def w(2,4) w(13))
  then have "partial_blocks have peer opts t = partial_blocks have peer opts s"
    by (simp add: fun_eq_iff partial_blocks_def requested_from_def w)
  moreover have "download_queue (piece_at t i) = download_queue (piece_at s i)"
    by (rule same_queue) (use works_eqD(7) [OF assms(1)] assms(2) works_eqD(6) [OF assms(1)] in simp)
  ultimately show ?thesis by (simp add: piece_blocks_def w)
qed

lemma affinity_loop_gathers:
  assumes "\<And>i q. i < num_pieces s \<Longrightarrow> free i \<Longrightarrow> lean q \<Longrightarrow> 0 < num_blocks q \<Longrightarrow> \<exists>r. fill i q = Some r \<and> collects q (B i) r"
    and "lean p" and "0 < num_blocks p"
  shows "gathers p (concat (map B (filter free (concat (map (extent_pieces s) es))))) (fst (affinity_loop free fill s es idx to_erase p))"
  using assms(2,3)
proof (induction es arbitrary: idx to_erase p)
  case (Cons e es)
  have g: "gathers p (concat (map B (filter free (extent_pieces s e)))) (pick_each free extent_affinity fill (extent_pieces s e) p)"
    by (rule pick_each_gathers) (use assms(1) Cons.prems extent_pieces_range in auto)
  show ?case
  proof (cases "pick_each free extent_affinity fill (extent_pieces s e) p")
    case Crash
    then show ?thesis using g by simp
  next
    case (Return q)
    then show ?thesis using g collects_enough by simp
  next
    case (Go q)
    then have q: "collects p (concat (map B (filter free (extent_pieces s e)))) q" "0 < num_blocks q" using g by simp_all
    from gathers_append [OF Cons.prems(1) q(1) Cons.IH [OF collects_lean [OF q(1)] q(2)]] show ?thesis using Go by simp
  qed
qed (simp add: collects_none)

lemma pick_order_gathers:
  fixes opts :: picker_options
  assumes "downloads_ok s" and "length have = num_pieces s" and "list_good s" and "cursors_ok s" and "0 < num_pieces s"
    and "m_dirty s \<Longrightarrow> set (m_pieces s) \<subseteq> {..<num_pieces s}" and "lean p" and "0 < num_blocks p"
  defines "t \<equiv> pick_state opts s"
  shows "gathers p (concat (map (piece_blocks have peer opts t suggested) (filter (\<lambda>i. is_piece_free t i ((!) have)) (piece_order opts t))))
    (fst (pick_order have 0 peer opts suggested s p))"
proof -
  let ?free = "\<lambda>i. is_piece_free t i ((!) have)" let ?B = "piece_blocks have peer opts t suggested"
  let ?fill = "add_blocks have 0 peer suggested opts t"
  note re = rebuilt [OF assms(3)]
  have t: "downloads_ok t" "num_pieces t = num_pieces s" "cursors_ok t"
    using re(2,3,4) assms(1,4) dl_inv_works [of s t "{}"] cursors_tally [of t s] by (auto simp: t_def pick_state_def)
  have mem: "i < num_pieces t" if "i \<in> set (m_pieces t)" for i
    using that assms(6) list_ok_range [of t i] re(1,4) by (auto simp: t_def pick_state_def split: if_splits)
  have cur: "i < num_pieces t" if "i < m_reverse_cursor t" for i using cursor_range [OF t(3)] that by simp
  have fill: "\<exists>r. ?fill i q = Some r \<and> collects q (?B i) r" if "i < num_pieces t" "lean q" "0 < num_blocks q" for i q
    using add_blocks_collects [OF t(1) that] by blast
  have each: "gathers q (concat (map ?B (filter ok is))) (pick_each ok f ?fill is q)"
    if "\<And>i. i \<in> set is \<Longrightarrow> i < num_pieces t" "lean q" "0 < num_blocks q" for ok f "is" q
    by (rule pick_each_gathers) (use fill that in auto)
  have tw: "i < num_pieces t" if "i \<in> set (takeWhile P (m_pieces t))" for i P using that mem set_takeWhileD by metis
  show ?thesis
  proof (cases "sequential opts")
    case True
    let ?top = "\<lambda>i. piece_priority (piece_at t i) = top_priority"
    let ?is = "(if reverse opts then rev else id) [m_cursor t..<m_reverse_cursor t]"
    have r: "gathers q (concat (map ?B (filter ?free (filter (\<lambda>i. \<not> ?top i) ?is)))) (if reverse opts
        then pick_each (\<lambda>i. ?free i \<and> \<not> ?top i) reverse_sequential ?fill (rev [m_cursor t..<m_reverse_cursor t]) q
        else pick_each (\<lambda>i. ?free i \<and> \<not> ?top i) sequential_pieces ?fill [m_cursor t..<m_reverse_cursor t] q)"
      if "lean q" "0 < num_blocks q" for q
      using that each [of ?is q "\<lambda>i. ?free i \<and> \<not> ?top i"] cur by (auto simp: conj_commute)
    have "gathers p (concat (map ?B (filter ?free (takeWhile ?top (m_pieces t)))) @
        (if time_critical_mode opts then [] else concat (map ?B (filter ?free (filter (\<lambda>i. \<not> ?top i) ?is)))))
      (pick_sequential have ?fill opts t p)"
      unfolding pick_sequential_def Let_def
      by (rule gathers_and_then [OF assms(7) each [OF tw assms(7,8)]]) (use r collects_none in auto)
    moreover have "fst (pick_order have 0 peer opts suggested s p) = pick_sequential have ?fill opts t p"
      using True by (simp add: pick_order_def t_def pick_state_def Let_def)
    moreover have "piece_order opts t = takeWhile ?top (m_pieces t) @ (if time_critical_mode opts then [] else filter (\<lambda>i. \<not> ?top i) ?is)"
      using True by (simp add: piece_order_def)
    ultimately show ?thesis by (cases "time_critical_mode opts") simp_all
  next
    case ns: False
    show ?thesis
    proof (cases "rarest_first opts")
      case True
      have lo: "list_ok t" using True re(1) by (simp add: t_def pick_state_def)
      have mn: "gathers q (concat (map ?B (filter ?free (takeWhile (critical opts t) (m_pieces t)))))
          (pick_each ?free rarest_first_flag ?fill (takeWhile (critical opts t) (m_pieces t)) q)"
        if "lean q" "0 < num_blocks q" for q by (rule each [OF tw that])
      have "gathers p (concat (map ?B (filter ?free (piece_order opts t)))) (fst (pick_rarest have ?fill opts t p))"
      proof (cases "reverse opts \<and> \<not> time_critical_mode opts")
        case rv: True
        have "gathers p (concat (map ?B (filter ?free (rev (m_pieces t))))) (pick_each ?free reverse_rarest_first ?fill (rev (m_pieces t)) p)"
          by (rule each) (use mem assms(7,8) in auto)
        then show ?thesis using rv ns True reverse_order_rev [OF lo] by (simp add: pick_rarest_def piece_order_def)
      next
        case nr: False
        have af: "gathers p (concat (map ?B (filter ?free (if piece_extent_affinity opts then concat (map (extent_pieces t) (m_recent_extents t)) else []))))
          (fst (if piece_extent_affinity opts then affinity_loop ?free ?fill t (m_recent_extents t) 0 None p else (Go p, None)))"
          using affinity_loop_gathers [of t ?free ?fill ?B p "m_recent_extents t" 0 None] fill assms(7,8) collects_none by auto
        from gathers_and_then [OF assms(7) this mn] show ?thesis
          using nr ns True by (auto simp: pick_rarest_def piece_order_def Let_def case_prod_beta)
      qed
      then show ?thesis using True ns by (simp add: pick_order_def t_def pick_state_def Let_def)
    next
      case nr: False
      have st: "t = s" using ns nr by (simp add: t_def pick_state_def)
      show ?thesis
      proof (cases "time_critical_mode opts")
        case True
        let ?top = "\<lambda>i. piece_priority (piece_at s i) = top_priority"
        have "gathers p (concat (map ?B (filter ?free (takeWhile ?top (m_pieces t))))) (pick_each ?free time_critical ?fill (takeWhile ?top (m_pieces t)) p)"
          by (rule each [OF tw assms(7,8)])
        then show ?thesis using True ns nr by (simp add: pick_order_def piece_order_def st)
      next
        case False
        obtain start g where r: "random (num_pieces s - 1) (rng s) = (start, g)" by (rule prod.exhaust)
        then have start: "start < num_pieces s" using assms(5) by (auto simp: random_def)
        have "length (circle (num_pieces s) start start) < random_fuel s p"
          using circle_length [OF start start] by (simp add: random_fuel_def)
        from random_loop_collects [OF assms(1,7) start start this, of "have" peer suggested opts] obtain q where
          q: "random_loop have peer suggested opts s start (random_fuel s p) start 0 p = Some q"
            "collects p (concat (map (piece_blocks have peer opts s [])
               (filter (\<lambda>i. is_piece_free s i ((!) have) \<and> i \<notin> set suggested) (circle (num_pieces s) start start)))) q" by blast
        have "concat (map (piece_blocks have peer opts s []) (filter (\<lambda>i. is_piece_free s i ((!) have) \<and> i \<notin> set suggested) is))
            = concat (map (piece_blocks have peer opts s suggested) (filter (\<lambda>i. is_piece_free s i ((!) have)) is))" for "is"
          by (induction "is") (auto simp: piece_blocks_def)
        with q(2) have "collects p (concat (map ?B (filter ?free (piece_order opts t)))) q"
          using ns nr False r by (simp add: piece_order_def st)
        then show ?thesis using ns nr False r q(1) by (simp add: pick_order_def pick_random_def gathers_done)
      qed
    qed
  qed
qed

section \<open>The whole\<close>

text \<open>The options in force: with too many partial pieces these are finished first.\<close>

definition options_used :: "int \<Rightarrow> picker_options \<Rightarrow> piece_picker \<Rightarrow> picker_options" where
  "options_used known options s = (if too_many_partials known s then options\<lparr>prioritize_partials := True\<rparr> else options)"

lemma pick_partials_gathers:
  assumes "lean p" and "0 < num_blocks p"
  shows "gathers p (concat (map (partial_blocks have peer opts s) (ordered_partials have opts s))) (pick_partials have 0 peer opts s p)"
proof -
  let ?p = "if rarest_first opts then flag rarest_first_partials p else p"
  have p: "lean ?p" "0 < num_blocks ?p" using assms by simp_all
  have "gathers ?p (concat (map (partial_blocks have peer opts s) (ordered_partials have opts s)))
      (partials_loop (\<lambda>d. add_blocks_downloading d have 0 peer opts s) (ordered_partials have opts s) ?p)"
    by (rule partials_loop_gathers [OF add_blocks_downloading_collects p])
  from gathers_and_then [OF p(1) gathers_and_then [OF p(1) this, of "[]" "\<lambda>q. done_or_go (append_backup q)"], of "[]" "\<lambda>q. done_or_go (append_backup2 q)"]
  have "gathers ?p (concat (map (partial_blocks have peer opts s) (ordered_partials have opts s))) (pick_partials have 0 peer opts s p)"
    by (simp add: pick_partials_def Let_def append_backup_lean gathers_done collects_none)
  then show ?thesis by (cases "rarest_first opts") simp_all
qed

lemma pick_backups_gathers: "lean p \<Longrightarrow> 0 < num_blocks p \<Longrightarrow> gathers p [] (pick_backups p)"
proof -
  assume p: "lean p" "0 < num_blocks p"
  have "gathers p ([] @ []) (pick_backups p)"
    unfolding pick_backups_def
    by (rule gathers_and_then [OF p(1)]; rule gathers_done) (simp_all add: append_backup_lean collects_none p)
  then show ?thesis by simp
qed

lemma pick_pieces_gathers:
  assumes "downloads_ok s" and "length have = num_pieces s" and "list_good s" and "cursors_ok s" and "0 < num_pieces s" and "0 < n"
    and "m_dirty s \<Longrightarrow> set (m_pieces s) \<subseteq> {..<num_pieces s}" and "set suggested \<subseteq> {..<num_pieces s}"
    and "prefer = 0 \<or> too_many_partials known s"
  shows "\<exists>q t. pick_pieces have n prefer peer options suggested known s = Some (q, t)
    \<and> (let c = candidates have peer (options_used known options s) suggested s in
        if n \<le> int (length c) then interesting_blocks q = take (nat n) c
        else interesting_blocks q = c \<or> (\<exists>b. interesting_blocks q = c @ [b] \<and> busy_block have peer s b))"
proof -
  define opts where "opts = options_used known options s"
  define p0 where "p0 = \<lparr>interesting_blocks = [], backup_blocks = [], backup_blocks2 = [], num_blocks = n,
    ret_flags = (if too_many_partials known s then {partial_ratio} else {})\<rparr>"
  define r where "r = and_then (if prioritize_partials opts then pick_partials have 0 peer opts s p0 else Go p0)
    (pick_each (\<lambda>i. critical opts s i \<and> is_piece_free s i ((!) have)) suggested_pieces_flag (add_blocks have 0 peer [] opts s) suggested)"
  define t where "t = pick_state opts s"
  define A where "A = (if prioritize_partials opts then concat (map (partial_blocks have peer opts s) (ordered_partials have opts s)) else [])"
  define B where "B = concat (map (piece_blocks have peer opts s []) (filter (\<lambda>i. critical opts s i \<and> is_piece_free s i ((!) have)) suggested))"
  define C where "C = concat (map (piece_blocks have peer opts t suggested) (filter (\<lambda>i. is_piece_free t i ((!) have)) (piece_order opts t)))"
  have pref: "(if too_many_partials known s then 0 else prefer) = 0" using assms(9) by auto
  have pp: "pick_pieces have n prefer peer options suggested known s =
      (case r of Crash \<Rightarrow> None | Return q \<Rightarrow> Some (q, s)
       | Go q \<Rightarrow> (case pick_order have 0 peer opts suggested s q of (r1, s1) \<Rightarrow>
           (case and_then r1 (\<lambda>q1. and_then (done_or_go q1) pick_backups) of Crash \<Rightarrow> None
            | Return q2 \<Rightarrow> Some (q2, s1) | Go q2 \<Rightarrow> Some (pick_end_game have peer opts s1 q2))))"
    unfolding pick_pieces_def Let_def pref r_def p0_def opts_def options_used_def by simp
  have p0: "lean p0" "0 < num_blocks p0" "interesting_blocks p0 = []" "num_blocks p0 = n" using assms(6) by (simp_all add: p0_def lean_def)
  have "gathers p0 A (if prioritize_partials opts then pick_partials have 0 peer opts s p0 else Go p0)"
    using pick_partials_gathers [OF p0(1,2)] p0 collects_none by (simp add: A_def)
  then have r: "gathers p0 (A @ B) r"
    unfolding r_def B_def
  proof (rule gathers_and_then [OF p0(1)])
    fix q assume "lean q" "0 < num_blocks q"
    then show "gathers q (concat (map (piece_blocks have peer opts s []) (filter (\<lambda>i. critical opts s i \<and> is_piece_free s i ((!) have)) suggested)))
      (pick_each (\<lambda>i. critical opts s i \<and> is_piece_free s i ((!) have)) suggested_pieces_flag (add_blocks have 0 peer [] opts s) suggested q)"
      by (intro pick_each_gathers) (use assms(8) add_blocks_collects [OF assms(1)] in auto)
  qed
  have cand: "candidates have peer opts suggested s = A @ B @ C" by (simp add: candidates_def A_def B_def C_def t_def Let_def)
  have enough: "interesting_blocks q = take (nat n) (A @ B @ C) \<and> n \<le> int (length (A @ B @ C))"
    if en: "collects p0 xs q" "num_blocks q \<le> 0" "\<exists>ys. A @ B @ C = xs @ ys" for xs q
  proof -
    obtain ys where ys: "A @ B @ C = xs @ ys" using en(3) by blast
    show ?thesis using en(1,2) p0 unfolding ys by (auto simp: collects_def)
  qed
  show ?thesis
  proof (cases r)
    case Crash
    then show ?thesis using r by simp
  next
    case (Return q)
    then show ?thesis using r enough [of "A @ B" q] cand by (simp add: pp opts_def)
  next
    case (Go q)
    then have q: "collects p0 (A @ B) q" "0 < num_blocks q" "lean q" using r collects_lean by auto
    obtain r1 s1 where o: "pick_order have 0 peer opts suggested s q = (r1, s1)" by (rule prod.exhaust)
    have r1: "gathers q C r1" using pick_order_gathers [OF assms(1-5,7) q(3,2), of peer opts suggested] o by (simp add: C_def t_def)
    have s1: "works s1 = works s" using pick_order_state [OF assms(3), of "have" 0 peer opts suggested q] o by (simp add: unpicked_def)
    define r2 where "r2 = and_then r1 (\<lambda>q1. and_then (done_or_go q1) pick_backups)"
    have dn: "gathers q1 ([] @ []) (and_then (done_or_go q1) pick_backups)" if "lean q1" "0 < num_blocks q1" for q1
      by (rule gathers_and_then [OF that(1) gathers_done [OF collects_none [OF that(1)]] pick_backups_gathers])
    have "gathers q (C @ [] @ []) r2" unfolding r2_def by (rule gathers_and_then [OF q(3) r1]) (use dn in simp)
    from gathers_append [OF p0(1) q(1) this] have r2: "gathers p0 (A @ B @ C) r2" by simp
    have pp2: "pick_pieces have n prefer peer options suggested known s =
        (case r2 of Crash \<Rightarrow> None | Return q2 \<Rightarrow> Some (q2, s1) | Go q2 \<Rightarrow> Some (pick_end_game have peer opts s1 q2))"
      using Go o by (simp add: pp r2_def)
    show ?thesis
    proof (cases r2)
      case Crash
      then show ?thesis using r2 by simp
    next
      case (Return q2)
      then show ?thesis using r2 enough [of "A @ B @ C" q2] cand by (simp add: pp2 opts_def)
    next
      case e: (Go q2)
      then have q2: "collects p0 (A @ B @ C) q2" "0 < num_blocks q2" using r2 by simp_all
      then have all: "interesting_blocks q2 = A @ B @ C" "\<not> n \<le> int (length (A @ B @ C))" using p0 by (auto simp: collects_def)
      obtain q3 t' where t': "pick_end_game have peer opts s1 q2 = (q3, t')" by (rule prod.exhaust)
      have "busy_block have peer s1 b = busy_block have peer s b" for b
        using works_eqD(1) [OF s1] works_queues(4,5) [OF s1] by (simp add: busy_block_def)
      then have "interesting_blocks q3 = A @ B @ C \<or> (\<exists>b. interesting_blocks q3 = (A @ B @ C) @ [b] \<and> busy_block have peer s b)"
        using pick_end_game_picks [of "have" peer opts s1 q2] t' all(1) by auto
      moreover have "pick_pieces have n prefer peer options suggested known s = Some (q3, t')" using e t' by (simp add: pp2)
      ultimately show ?thesis using all(2) cand by (simp add: opts_def Let_def)
    qed
  qed
qed

text \<open>
  C4: In every reachable state, if no contiguous blocks are preferred (or too many pieces are partial, which switches the
  preference off), \<open>pick_pieces\<close> picks exactly the first blocks of the list of candidates; if there are fewer
  candidates than blocks asked for, all of them and at most one busy block. In particular it never picks more than it was asked for.
\<close>

theorem pick_pieces_candidates:
  assumes "picker_reachable s" and "length have = num_pieces s" and "0 < num_pieces s" and "0 < n"
    and "m_dirty s \<Longrightarrow> set (m_pieces s) \<subseteq> {..<num_pieces s}" and "set suggested \<subseteq> {..<num_pieces s}"
    and "prefer = 0 \<or> too_many_partials known s"
  shows "\<exists>q t. pick_pieces have n prefer peer options suggested known s = Some (q, t)
    \<and> (let c = candidates have peer (options_used known options s) suggested s in
        if n \<le> int (length c) then interesting_blocks q = take (nat n) c
        else interesting_blocks q = c \<or> (\<exists>b. interesting_blocks q = c @ [b] \<and> busy_block have peer s b))"
proof -
  have inv: "list_good s" "tallied s" "downloads_ok s" using picker_invD [OF picker_machine.inv_reach [OF assms(1)]] by simp_all
  then have "cursors_ok s" by (simp add: tallied_def)
  from pick_pieces_gathers [OF inv(3) assms(2) inv(1) this assms(3,4,5,6,7)] show ?thesis .
qed

end
