(* ===== verification/Picker_Promises.thy ===== *)
theory Picker_Promises
  imports Picker_Candidates
begin

text \<open>
  What follows from the list of candidates: when no block is picked twice, what is never missed, in which order pieces
  come, and two cases in which the code does not do what its comments say.
\<close>

section \<open>The candidates of a piece\<close>

lemma partial_blocks_fst: "b \<in> set (partial_blocks have peer opts s d) \<Longrightarrow> fst b = dindex d"
  by (auto simp: partial_blocks_def split: if_splits)

lemma piece_blocks_fst: "b \<in> set (piece_blocks have peer opts s ign i) \<Longrightarrow> fst b = i \<and> i \<notin> set ign
    \<and> (prioritize_partials opts \<longrightarrow> download_queue (piece_at s i) = piece_open)"
  by (auto simp: piece_blocks_def dest: partial_blocks_fst split: if_splits)

lemma distinct_concat_keys:
  assumes "distinct (map k xs)" and "\<And>x. x \<in> set xs \<Longrightarrow> distinct (f x)" and "\<And>x b. x \<in> set xs \<Longrightarrow> b \<in> set (f x) \<Longrightarrow> fst b = k x"
  shows "distinct (concat (map f xs))"
  using assms
proof (induction xs)
  case (Cons x xs)
  have "b \<notin> set (concat (map f xs))" if "b \<in> set (f x)" for b
  proof
    assume "b \<in> set (concat (map f xs))"
    then obtain y where "y \<in> set xs" "b \<in> set (f y)" by auto
    then have "k y = k x" using Cons.prems(3) [of x b] Cons.prems(3) [of y b] that by simp
    then show False using Cons.prems(1) \<open>y \<in> set xs\<close> by (metis distinct.simps(2) image_eqI list.set_map list.simps(9))
  qed
  then show ?case using Cons by auto
qed simp

lemma partial_blocks_distinct: "distinct (partial_blocks have peer opts s d)"
  by (simp add: partial_blocks_def distinct_map inj_on_def)

lemma queue_distinct: "queues_ok s \<Longrightarrow> distinct (map dindex (m_downloads s q))"
  using queues_okD(1) [of s q] by (simp add: strict_sorted_iff)

lemma piece_blocks_distinct:
  assumes "queues_ok s"
  shows "distinct (piece_blocks have peer opts s ign i)"
proof -
  have "distinct (map dindex (filter (\<lambda>d. dindex d = i) (m_downloads s piece_downloading)))"
    by (rule distinct_map_filter [OF queue_distinct [OF assms]])
  then have "distinct (concat (map (partial_blocks have peer opts s) (filter (\<lambda>d. dindex d = i) (m_downloads s piece_downloading))))"
    by (rule distinct_concat_keys) (auto intro: partial_blocks_distinct dest: partial_blocks_fst)
  then show ?thesis by (simp add: piece_blocks_def distinct_map inj_on_def)
qed

lemma sort_by_permutes: "mset (sort_by lt xs) = mset xs"
proof -
  have "mset (insert_by lt x ys) = add_mset x (mset ys)" for x ys by (induction ys) auto
  then show ?thesis by (induction xs) (simp_all add: sort_by_def)
qed

lemma ordered_partials_distinct: "queues_ok s \<Longrightarrow> distinct (map dindex (ordered_partials have opts s))"
proof -
  assume q: "queues_ok s"
  let ?ds = "filter (\<lambda>d. critical opts s (dindex d) \<and> is_piece_free s (dindex d) ((!) have)) (m_downloads s piece_downloading)"
  have d: "distinct (map dindex ?ds)" by (rule distinct_map_filter [OF queue_distinct [OF q]])
  have "mset (map dindex (sort_by lt ?ds)) = mset (map dindex ?ds)" for lt by (simp add: sort_by_permutes)
  then have "distinct (map dindex (sort_by lt ?ds))" for lt using d mset_eq_imp_distinct_iff by blast
  with d show ?thesis by (simp add: ordered_partials_def Let_def)
qed

section \<open>The order of the pieces\<close>

lemma list_ok_distinct: "list_ok s \<Longrightarrow> distinct (m_pieces s)"
  by (auto simp: list_ok_def list_inv_def ranges_ok_def)

lemma list_ok_listed: "list_ok s \<Longrightarrow> i < num_pieces s \<Longrightarrow> 0 \<le> prio_of s i \<Longrightarrow> i \<in> set (m_pieces s)"
  by (auto simp: list_ok_def list_inv_def ranges_ok_def)

lemma ranges_sorted:
  "ranges_prio pr q bs \<Longrightarrow> sorted (map pr (concat bs)) \<and> (\<forall>x\<in>set (concat bs). int q \<le> pr x)"
proof (induction bs arbitrary: q)
  case (Cons B bs)
  then have IH: "sorted (map pr (concat bs))" "\<forall>x\<in>set (concat bs). int (Suc q) \<le> pr x" and B: "\<forall>x\<in>set B. pr x = int q"
    using Cons.IH [of "Suc q"] by simp_all
  have "sorted (map pr B)" using B by (induction B) auto
  then show ?case using IH B by (fastforce simp: sorted_append)
qed simp

lemma list_ok_sorted: "list_ok s \<Longrightarrow> sorted (map (prio_of s) (m_pieces s))"
  using ranges_sorted by (fastforce simp: list_ok_def list_inv_def ranges_ok_def)

lemma circle_distinct: "distinct (circle n start i)"
  by (auto simp: circle_def)

text \<open>The state in which the order is taken.\<close>

lemma pick_state_facts:
  fixes opts :: picker_options
  assumes "list_good s" and "downloads_ok s" and "cursors_ok s"
  defines "t \<equiv> pick_state opts s"
  shows "works t = works s" and "num_pieces t = num_pieces s" and "downloads_ok t" and "cursors_ok t"
    and "sequential opts \<or> rarest_first opts \<or> \<not> m_dirty s \<Longrightarrow> list_ok t"
    and "i < num_pieces s \<Longrightarrow> is_piece_free t i f = is_piece_free s i f"
    and "i < num_pieces s \<Longrightarrow> prio_of t i = prio_of s i"
    and "i < num_pieces s \<Longrightarrow> piece_priority (piece_at t i) = piece_priority (piece_at s i)"
    and "m_recent_extents t = m_recent_extents s"
proof -
  note re = rebuilt [OF assms(1)]
  show w: "works t = works s" and n: "num_pieces t = num_pieces s" using re(2,4) by (auto simp: t_def pick_state_def)
  show "downloads_ok t" by (rule dl_inv_works [OF w [symmetric] assms(2)])
  show "cursors_ok t" using cursors_tally [of t s] re(3) assms(3) by (auto simp: t_def pick_state_def)
  show "sequential opts \<or> rarest_first opts \<or> \<not> m_dirty s \<Longrightarrow> list_ok t" using re(1) assms(1) by (auto simp: t_def pick_state_def list_good_def)
  show "i < num_pieces s \<Longrightarrow> is_piece_free t i f = is_piece_free s i f"
    using re(5) [of i f] by (cases "m_dirty s") (simp_all add: t_def pick_state_def)
  have same: "same_pieces (s\<lparr>m_dirty := False\<rparr>) (update_pieces s)"
    using assms(1) by (intro conjunct2 [OF update_pieces_ok]) (auto simp: list_good_def)
  then show "m_recent_extents t = m_recent_extents s" by (auto simp: t_def pick_state_def same_pieces_def)
  have at: "(piece_at t i)\<lparr>pindex := 0\<rparr> = (piece_at s i)\<lparr>pindex := 0\<rparr>" if "i < num_pieces s"
    using same_pieces_at(3) [OF same, of i] that by (simp add: t_def pick_state_def)
  show "i < num_pieces s \<Longrightarrow> piece_priority (piece_at t i) = piece_priority (piece_at s i)"
    using arg_cong [OF at, of piece_priority] by simp
  show "i < num_pieces s \<Longrightarrow> prio_of t i = prio_of s i"
    using same_pieces_prio [OF same, of i] by (simp add: t_def pick_state_def prio_of_def)
qed

lemma piece_order_range:
  assumes "cursors_ok t" and "set (m_pieces t) \<subseteq> {..<num_pieces t}" and "0 < num_pieces t" and "i \<in> set (piece_order opts t)"
  shows "i < num_pieces t"
proof -
  have tw: "i < num_pieces t" if "i \<in> set (takeWhile P (m_pieces t))" for P using that assms(2) set_takeWhileD by fastforce
  have "start < num_pieces t" if "start = fst (random (num_pieces t - 1) (rng t))" for start using that assms(3) by (simp add: random_def)
  then have c: "i < num_pieces t" if "i \<in> set (circle (num_pieces t) start start)" "start = fst (random (num_pieces t - 1) (rng t))" for start
    using that by (auto simp: circle_def split: if_splits)
  have r: "set (rev (m_pieces t)) \<subseteq> {..<num_pieces t}" using assms(2) by simp
  show ?thesis using assms(4) tw c r cursor_range [OF assms(1)] extent_pieces_range
    by (auto simp: piece_order_def Let_def id_def split: if_splits)
qed

lemma piece_order_distinct:
  assumes "distinct (m_pieces t)" and "sequential opts \<or> \<not> rarest_first opts \<or> \<not> piece_extent_affinity opts"
  shows "distinct (piece_order opts t)"
proof -
  show ?thesis using assms circle_distinct distinct_takeWhile [OF assms(1)]
    by (auto simp: piece_order_def Let_def id_def dest!: set_takeWhileD)
qed

text \<open>
  The candidates in three parts: the blocks of downloading pieces that are put first, those of suggested pieces and those of
  the other pieces in the order of the options.
\<close>

definition partial_part :: "bool list \<Rightarrow> nat option \<Rightarrow> picker_options \<Rightarrow> piece_picker \<Rightarrow> piece_block list" where
  "partial_part have peer opts s =
     (if prioritize_partials opts then concat (map (partial_blocks have peer opts s) (ordered_partials have opts s)) else [])"

definition suggested_part :: "bool list \<Rightarrow> nat option \<Rightarrow> picker_options \<Rightarrow> nat list \<Rightarrow> piece_picker \<Rightarrow> piece_block list" where
  "suggested_part have peer opts suggested s =
     concat (map (piece_blocks have peer opts s []) (filter (\<lambda>i. critical opts s i \<and> is_piece_free s i ((!) have)) suggested))"

definition ordered_part :: "bool list \<Rightarrow> nat option \<Rightarrow> picker_options \<Rightarrow> nat list \<Rightarrow> piece_picker \<Rightarrow> piece_block list" where
  "ordered_part have peer opts suggested t =
     concat (map (piece_blocks have peer opts t suggested) (filter (\<lambda>i. is_piece_free t i ((!) have)) (piece_order opts t)))"

lemma candidates_parts:
  "candidates have peer opts suggested s
     = partial_part have peer opts s @ suggested_part have peer opts suggested s @ ordered_part have peer opts suggested (pick_state opts s)"
  by (simp add: candidates_def partial_part_def suggested_part_def ordered_part_def Let_def)

text \<open>A block that is neither put first as part of a downloading piece nor suggested.\<close>

definition ordinary :: "picker_options \<Rightarrow> nat list \<Rightarrow> piece_picker \<Rightarrow> piece_block \<Rightarrow> bool" where
  "ordinary opts suggested s b \<longleftrightarrow>
     fst b \<notin> set suggested \<and> (prioritize_partials opts \<longrightarrow> download_queue (piece_at s (fst b)) = piece_open)"

lemma pick_state_listed:
  assumes "list_good s" and "downloads_ok s" and "cursors_ok s" and "m_dirty s \<Longrightarrow> set (m_pieces s) \<subseteq> {..<num_pieces s}"
  shows "set (m_pieces (pick_state opts s)) \<subseteq> {..<num_pieces s}"
proof -
  note t = pick_state_facts [OF assms(1-3), where opts = opts]
  show ?thesis
  proof (cases "sequential opts \<or> rarest_first opts \<or> \<not> m_dirty s")
    case True
    then show ?thesis using list_ok_range [OF t(5)] t(2) by auto
  next
    case False
    then show ?thesis using assms(4) by (simp add: pick_state_def)
  qed
qed

lemma in_partial_part:
  assumes "queues_ok s" and "b \<in> set (partial_part have peer opts s)"
  shows "prioritize_partials opts \<and> download_queue (piece_at s (fst b)) = piece_downloading"
  using assms ordered_partials_in queues_okD(2) [OF assms(1)]
  by (fastforce simp: partial_part_def dest: partial_blocks_fst split: if_splits)

lemma in_suggested_part:
  "b \<in> set (suggested_part have peer opts suggested s) \<Longrightarrow>
     fst b \<in> set suggested \<and> (prioritize_partials opts \<longrightarrow> download_queue (piece_at s (fst b)) = piece_open)"
  by (auto simp: suggested_part_def dest: piece_blocks_fst)

lemma in_ordered_part:
  assumes "list_good s" and "downloads_ok s" and "cursors_ok s" and "0 < num_pieces s"
    and "m_dirty s \<Longrightarrow> set (m_pieces s) \<subseteq> {..<num_pieces s}"
    and "b \<in> set (ordered_part have peer opts suggested (pick_state opts s))"
  shows "ordinary opts suggested s b"
proof -
  define t where "t = pick_state opts s"
  note t = pick_state_facts [OF assms(1-3), where opts = opts, folded t_def]
  obtain i where i: "i \<in> set (piece_order opts t)" "b \<in> set (piece_blocks have peer opts t suggested i)"
    using assms(6) by (auto simp: ordered_part_def t_def)
  have "set (m_pieces t) \<subseteq> {..<num_pieces t}" using pick_state_listed [OF assms(1-3,5), of opts] t(2) by (simp add: t_def)
  then have "i < num_pieces t" using piece_order_range [OF t(4) _ _ i(1)] assms(4) t(2) by simp
  then have "download_queue (piece_at t i) = download_queue (piece_at s i)" using works_eqD(7) [OF t(1), of i] by (intro same_queue)
  then show ?thesis using piece_blocks_fst [OF i(2)] by (simp add: ordinary_def)
qed

text \<open>How often a block is a candidate: as often as its piece is suggested, and else once.\<close>

lemma distinct_iff_count: "distinct xs \<longleftrightarrow> (\<forall>b. count_list xs b \<le> 1)"
proof (induction xs)
  case (Cons x xs)
  have "(\<forall>b. count_list (x # xs) b \<le> 1) \<longleftrightarrow> count_list xs x = 0 \<and> (\<forall>b. count_list xs b \<le> 1)"
  proof (intro iffI conjI allI)
    fix b
    assume all: "\<forall>b. count_list (x # xs) b \<le> 1"
    show "count_list xs x = 0" using spec [OF all, of x] by simp
    show "count_list xs b \<le> 1" using spec [OF all, of b] by (simp split: if_splits)
  next
    fix b
    assume "count_list xs x = 0 \<and> (\<forall>b. count_list xs b \<le> 1)"
    then show "count_list (x # xs) b \<le> 1" by auto
  qed
  then show ?case using Cons by (simp add: count_list_0_iff)
qed simp

lemma count_distinct_le: "distinct xs \<Longrightarrow> count_list xs b \<le> 1"
  by (simp only: distinct_iff_count)

lemma count_concat_keys:
  assumes "\<And>x. x \<in> set xs \<Longrightarrow> count_list (f x) b \<le> (if x = k then 1 else 0)"
  shows "count_list (concat (map f xs)) b \<le> count_list xs k"
  using assms
proof (induction xs)
  case (Cons x xs)
  then have "count_list (concat (map f xs)) b \<le> count_list xs k" by simp
  then show ?case using Cons.prems [of x] by (simp split: if_splits)
qed simp

lemma count_pos: "b \<in> set xs \<Longrightarrow> 1 \<le> count_list xs b"
  by (simp add: Suc_le_eq count_list_0_iff flip: neq0_conv)

lemma count_take_le: "count_list (take n xs) b \<le> count_list xs b"
  by (metis append_take_drop_id count_list_append le_add1)

lemma count_filter_le: "count_list (filter P xs) b \<le> count_list xs b"
  by (induction xs) auto

lemma suggested_part_count:
  assumes "queues_ok s"
  shows "count_list (suggested_part have peer opts suggested s) b \<le> count_list suggested (fst b)"
proof -
  have "count_list (piece_blocks have peer opts s [] i) b \<le> (if i = fst b then 1 else 0)" for i
    using count_distinct_le [OF piece_blocks_distinct [OF assms, of "have" peer opts "[]" i], of b] piece_blocks_fst [of b "have" peer opts s "[]" i]
    by (cases "i = fst b") (simp_all add: count_list_0_iff, blast)
  then show ?thesis unfolding suggested_part_def by (intro order.trans [OF count_concat_keys count_filter_le])
qed

lemma candidates_count:
  assumes "list_good s" and "downloads_ok s" and "cursors_ok s" and "0 < num_pieces s"
    and "m_dirty s \<Longrightarrow> distinct (m_pieces s) \<and> set (m_pieces s) \<subseteq> {..<num_pieces s}"
    and "sequential opts \<or> \<not> rarest_first opts \<or> \<not> piece_extent_affinity opts"
  shows "count_list (candidates have peer opts suggested s) b \<le> max 1 (count_list suggested (fst b))"
proof -
  define t where "t = pick_state opts s"
  note t = pick_state_facts [OF assms(1-3), where opts = opts, folded t_def]
  note qs = dl_invD(2) [OF assms(2)] and qt = dl_invD(2) [OF t(3)]
  have mp: "distinct (m_pieces t)"
    using list_ok_distinct [OF t(5)] assms(5) by (cases "sequential opts \<or> rarest_first opts \<or> \<not> m_dirty s") (auto simp: t_def pick_state_def)
  let ?A = "partial_part have peer opts s" and ?B = "suggested_part have peer opts suggested s" and ?C = "ordered_part have peer opts suggested t"
  have "distinct (concat (map (partial_blocks have peer opts s) (ordered_partials have opts s)))"
    by (rule distinct_concat_keys [OF ordered_partials_distinct [OF qs]]) (auto simp: partial_blocks_distinct dest: partial_blocks_fst)
  then have A: "count_list ?A b \<le> 1" by (intro count_distinct_le) (simp add: partial_part_def)
  have "distinct ?C" unfolding ordered_part_def
    by (rule distinct_concat_keys [where k = id])
      (use piece_order_distinct [OF mp assms(6)] piece_blocks_distinct [OF qt] piece_blocks_fst in \<open>auto simp: id_def\<close>)
  then have C: "count_list ?C b \<le> 1" by (rule count_distinct_le)
  note inC = in_ordered_part [OF assms(1-4) conjunct2 [OF assms(5)], of b "have" peer opts suggested, folded t_def]
  have B: "count_list ?B b \<le> count_list suggested (fst b)" by (rule suggested_part_count [OF qs])
  have zero: "count_list xs b = 0" if "b \<notin> set xs" for xs using that by (simp add: count_list_0_iff)
  note inA = in_partial_part [OF qs, of b "have" peer opts] and inB = in_suggested_part [of b "have" peer opts suggested s]
  have nA: "b \<notin> set ?B \<and> b \<notin> set ?C" if "b \<in> set ?A" using inA [OF that] inB inC by (auto simp: ordinary_def)
  have nB: "b \<notin> set ?C" if "b \<in> set ?B" using inB [OF that] inC by (auto simp: ordinary_def)
  have split: "count_list (candidates have peer opts suggested s) b = count_list ?A b + count_list ?B b + count_list ?C b"
    by (simp add: candidates_parts t_def)
  show ?thesis
  proof (cases "b \<in> set ?A")
    case True
    then show ?thesis using A zero [OF conjunct1 [OF nA]] zero [OF conjunct2 [OF nA]] by (simp add: split)
  next
    case False
    then show ?thesis using B C zero [of ?A] zero [of ?B] zero [OF nB] by (cases "b \<in> set ?B") (simp_all add: split)
  qed
qed

lemma candidates_free:
  assumes "list_good s" and "downloads_ok s" and "cursors_ok s" and "0 < num_pieces s" and "set suggested \<subseteq> {..<num_pieces s}"
    and "m_dirty s \<Longrightarrow> set (m_pieces s) \<subseteq> {..<num_pieces s}" and "b \<in> set (candidates have peer opts suggested s)"
  shows "download_queue (piece_at s (fst b)) \<in> {piece_open, piece_downloading}"
proof -
  define t where "t = pick_state opts s"
  note t = pick_state_facts [OF assms(1-3), where opts = opts, folded t_def]
  have part: "download_queue (piece_at s (fst b)) = piece_downloading"
    if "b \<in> set (partial_blocks have peer opts s d)" "d \<in> set (m_downloads s piece_downloading)" for d
    using that queues_okD(2) [OF dl_invD(2) [OF assms(2)]] by (fastforce dest: partial_blocks_fst)
  have pb: "download_queue (piece_at s (fst b)) \<in> {piece_open, piece_downloading}" if "b \<in> set (piece_blocks have peer opts s ign i)" for ign i
    using that part by (auto simp: piece_blocks_def split: if_splits dest: partial_blocks_fst)
  have "set (m_pieces t) \<subseteq> {..<num_pieces t}"
    using list_ok_range [OF t(5)] assms(6) t(2) by (cases "sequential opts \<or> rarest_first opts \<or> \<not> m_dirty s") (auto simp: t_def pick_state_def)
  then have "piece_blocks have peer opts t suggested i = piece_blocks have peer opts s suggested i" if "i \<in> set (piece_order opts t)" for i
    using piece_blocks_works [OF t(1)] piece_order_range [OF t(4) _ _ that] assms(4) t(2) by simp
  then show ?thesis using assms(7) part pb ordered_partials_in by (fastforce simp: candidates_def t_def Let_def split: if_splits)
qed

text \<open>
  C17: Without a preference for contiguous blocks (or with too many partial pieces, which turns it off) and without the
  extents, \<open>pick_pieces\<close> picks a block at most once, or at most as often as its piece is in the list of suggested pieces, which can
  hold a piece more than once. So no block is picked twice when no piece is suggested twice.
\<close>

theorem pick_pieces_distinct:
  assumes "picker_reachable s" and "length have = num_pieces s" and "0 < num_pieces s" and "0 < n"
    and "m_dirty s \<Longrightarrow> distinct (m_pieces s) \<and> set (m_pieces s) \<subseteq> {..<num_pieces s}"
    and "set suggested \<subseteq> {..<num_pieces s}"
    and "prefer = 0 \<or> too_many_partials known s"
    and "sequential options \<or> \<not> rarest_first options \<or> \<not> piece_extent_affinity options"
  shows "\<exists>q t. pick_pieces have n prefer peer options suggested known s = Some (q, t)
    \<and> (\<forall>b. count_list (interesting_blocks q) b \<le> max 1 (count_list suggested (fst b)))
    \<and> (distinct suggested \<longrightarrow> distinct (interesting_blocks q))"
proof -
  have inv: "list_good s" "tallied s" "downloads_ok s" using picker_invD [OF picker_machine.inv_reach [OF assms(1)]] by simp_all
  then have cur: "cursors_ok s" by (simp add: tallied_def)
  let ?c = "candidates have peer (options_used known options s) suggested s"
  let ?bound = "\<lambda>xs. \<forall>b. count_list xs b \<le> max 1 (count_list suggested (fst b))"
  have c: "?bound ?c"
    by (intro allI candidates_count [OF inv(1,3) cur assms(3,5)]) (use assms(8) in \<open>auto simp: options_used_def\<close>)
  have busy: "b \<notin> set ?c" if "busy_block have peer s b" for b
    using that candidates_free [OF inv(1,3) cur assms(3,6), of b] assms(5) queues_okD(2) [OF dl_invD(2) [OF inv(3)]]
    by (fastforce simp: busy_block_def)
  have c1: "?bound (?c @ [b])" if "busy_block have peer s b" for b
    using c busy [OF that] by (auto simp: count_list_0_iff)
  have ct: "?bound (take k ?c)" for k by (intro allI order.trans [OF count_take_le spec [OF c]])
  have dist: "distinct xs" if "?bound xs" "distinct suggested" for xs :: "piece_block list"
  proof -
    have "count_list xs b \<le> 1" for b using spec [OF that(1), of b] count_distinct_le [OF that(2), of "fst b"] by simp
    then show ?thesis by (simp add: distinct_iff_count)
  qed
  obtain q t where "pick_pieces have n prefer peer options suggested known s = Some (q, t)"
      "if n \<le> int (length ?c) then interesting_blocks q = take (nat n) ?c
       else interesting_blocks q = ?c \<or> (\<exists>b. interesting_blocks q = ?c @ [b] \<and> busy_block have peer s b)"
    using pick_pieces_gathers [OF inv(3) assms(2) inv(1) cur assms(3,4) _ assms(6,7), of peer options] assms(5) by (auto simp: Let_def)
  moreover from this(2) have "?bound (interesting_blocks q)"
  proof (cases "n \<le> int (length ?c)")
    case True
    then have "interesting_blocks q = take (nat n) ?c" using \<open>if n \<le> int (length ?c) then _ else _\<close> by simp
    then show ?thesis using ct by simp
  next
    case False
    then consider "interesting_blocks q = ?c" | b where "interesting_blocks q = ?c @ [b]" "busy_block have peer s b"
      using \<open>if n \<le> int (length ?c) then _ else _\<close> by auto
    then show ?thesis using c c1 by cases simp_all
  qed
  ultimately show ?thesis using dist by blast
qed

text \<open>A free open piece that is suggested several times is a candidate as often.\<close>

lemma suggested_again:
  assumes "download_queue (piece_at s i) = piece_open" and "is_piece_free s i ((!) have)" and "critical opts s i" and "j < blocks_in_piece s i"
  shows "count_list suggested i \<le> count_list (candidates have peer opts suggested s) (i, j)"
proof -
  have "(i, j) \<in> set (piece_blocks have peer opts s [] i)" using assms(1,4) by (auto simp: piece_blocks_def)
  then have "1 \<le> count_list (piece_blocks have peer opts s [] i) (i, j)" by (rule count_pos)
  then have "count_list suggested i \<le> count_list (suggested_part have peer opts suggested s) (i, j)"
    using assms(2,3) unfolding suggested_part_def by (induction suggested) auto
  then show ?thesis by (simp add: candidates_parts)
qed

section \<open>Rarest first\<close>

text \<open>A pickable block of a listed piece is a candidate.\<close>

lemma candidates_complete:
  assumes "list_good s" and "downloads_ok s" and "cursors_ok s" and "rarest_first opts" and "\<not> sequential opts"
    and "\<not> time_critical_mode opts" and "\<not> on_parole opts" and "pickable have s b" and "0 \<le> prio_of s (fst b)"
  shows "b \<in> set (candidates have peer opts suggested s)"
proof -
  define t where "t = pick_state opts s"
  note t = pick_state_facts [OF assms(1-3), where opts = opts, folded t_def]
  let ?i = "fst b"
  have i: "?i < num_pieces s" "is_piece_free s ?i ((!) have)" "snd b < blocks_in_piece s ?i" "free_block s b"
    using assms(8) by (simp_all add: pickable_def)
  have crit: "critical opts s ?i" "critical opts t = (\<lambda>_. True)" using assms(6) by (simp_all add: critical_def fun_eq_iff)
  have "list_ok t" using t(5) assms(4) by blast
  then have "?i \<in> set (m_pieces t)" using list_ok_listed i(1) t(2,7) assms(9) by simp
  then have order: "?i \<in> set (piece_order opts t)" using assms(4-6) crit(2) by (auto simp: piece_order_def takeWhile_eq_all_conv [THEN iffD2])
  consider (piece) "b \<in> set (piece_blocks have peer opts s [] ?i)"
    | (partial) d where "prioritize_partials opts" "d \<in> set (m_downloads s piece_downloading)" "dindex d = ?i" "b \<in> set (partial_blocks have peer opts s d)"
  proof (cases "download_queue (piece_at s ?i) = piece_open")
    case True
    then have "b \<in> set (piece_blocks have peer opts s [] ?i)" using i(3) by (auto simp: piece_blocks_def intro: image_eqI [where x = "snd b"])
    then show ?thesis by (rule piece)
  next
    case False
    then obtain d where d: "d \<in> set (m_downloads s piece_downloading)" "dindex d = ?i" "\<not> locked d" "bstate (block_at s d (snd b)) = state_none"
      using i(4) by (auto simp: free_block_def)
    have pb: "b \<in> set (partial_blocks have peer opts s d)"
      using d i assms(7) by (auto simp: partial_blocks_def is_piece_free_def intro: image_eqI [where x = "snd b"])
    show ?thesis
    proof (cases "prioritize_partials opts")
      case True
      then show ?thesis using partial d pb by blast
    next
      case np: False
      then have "b \<in> set (piece_blocks have peer opts s [] ?i)" using False d pb by (auto simp: piece_blocks_def)
      then show ?thesis by (rule piece)
    qed
  qed
  then show ?thesis
  proof cases
    case piece
    show ?thesis
    proof (cases "?i \<in> set suggested")
      case True
      then show ?thesis using piece crit(1) i(2) by (auto simp: candidates_def Let_def)
    next
      case False
      have "piece_blocks have peer opts t suggested ?i = piece_blocks have peer opts s suggested ?i" by (rule piece_blocks_works [OF t(1) i(1)])
      also have "\<dots> = piece_blocks have peer opts s [] ?i" using False by (simp add: piece_blocks_def)
      finally have "b \<in> set (piece_blocks have peer opts t suggested ?i)" using piece by simp
      then show ?thesis using order i(1,2) t(6) by (auto simp: candidates_def t_def [symmetric] Let_def)
    qed
  next
    case partial
    have "set (sort_by lt xs) = set xs" for lt and xs :: "downloading_piece list"
      using sort_by_permutes [of lt xs] by (metis set_mset_mset)
    then have "d \<in> set (ordered_partials have opts s)" using partial crit(1) i(2) by (simp add: ordered_partials_def Let_def)
    then show ?thesis using partial by (auto simp: candidates_def Let_def)
  qed
qed

text \<open>
  C9: In the rarest first order (not sequential, not time critical, the peer not on parole, and no contiguous
  blocks preferred or too many partial pieces) nothing is missed: if fewer blocks are picked than were asked for, every pickable
  block of every piece with a priority (a piece that some connected peer has, and that is not full) was picked. A peer on
  parole is kept off the downloading pieces of others, and in time critical mode only pieces of top priority count, so there
  the picker does leave pickable blocks out.
\<close>

theorem pick_pieces_complete:
  assumes "picker_reachable s" and "length have = num_pieces s" and "0 < num_pieces s" and "0 < n"
    and "m_dirty s \<Longrightarrow> set (m_pieces s) \<subseteq> {..<num_pieces s}" and "set suggested \<subseteq> {..<num_pieces s}"
    and "prefer = 0 \<or> too_many_partials known s"
    and "rarest_first options" and "\<not> sequential options" and "\<not> time_critical_mode options" and "\<not> on_parole options"
    and "pickable have s b" and "0 \<le> prio_of s (fst b)"
  shows "\<exists>q t. pick_pieces have n prefer peer options suggested known s = Some (q, t)
    \<and> (n \<le> int (length (interesting_blocks q)) \<or> b \<in> set (interesting_blocks q))"
proof -
  have inv: "list_good s" "tallied s" "downloads_ok s" using picker_invD [OF picker_machine.inv_reach [OF assms(1)]] by simp_all
  then have cur: "cursors_ok s" by (simp add: tallied_def)
  let ?c = "candidates have peer (options_used known options s) suggested s"
  have "b \<in> set ?c" by (rule candidates_complete [OF inv(1,3) cur]) (use assms(8-13) in \<open>auto simp: options_used_def\<close>)
  moreover obtain q t where "pick_pieces have n prefer peer options suggested known s = Some (q, t)"
      "if n \<le> int (length ?c) then interesting_blocks q = take (nat n) ?c
       else interesting_blocks q = ?c \<or> (\<exists>b. interesting_blocks q = ?c @ [b] \<and> busy_block have peer s b)"
    using pick_pieces_gathers [OF inv(3) assms(2) inv(1) cur assms(3-7), of peer options] by (auto simp: Let_def)
  ultimately show ?thesis by (cases "n \<le> int (length ?c)") auto
qed

text \<open>The candidates of one piece after the other have the order of the pieces.\<close>

lemma sorted_concat_keys:
  assumes "sorted (map (pr \<circ> k) xs)" and "\<And>x b. x \<in> set xs \<Longrightarrow> b \<in> set (f x) \<Longrightarrow> fst b = k x"
  shows "sorted (map (pr \<circ> fst) (concat (map f xs)))"
  using assms
proof (induction xs)
  case (Cons x xs)
  have same: "sorted (map (pr \<circ> fst) ys)" if "\<And>b. b \<in> set ys \<Longrightarrow> fst b = z" for ys z
    using that by (induction ys) auto
  have "sorted (map (pr \<circ> fst) (concat (map f xs)))" by (rule Cons.IH) (use Cons.prems in auto)
  moreover have "sorted (map (pr \<circ> fst) (f x))" by (rule same [of _ "k x"]) (use Cons.prems(2) [of x] in simp)
  moreover have "(pr \<circ> fst) b \<le> (pr \<circ> fst) c" if bc: "b \<in> set (f x)" "c \<in> set (concat (map f xs))" for b c
  proof -
    obtain y where y: "y \<in> set xs" "c \<in> set (f y)" using bc(2) by auto
    then have "fst b = k x" "fst c = k y" using Cons.prems(2) bc(1) by auto
    then show ?thesis using Cons.prems(1) y(1) by auto
  qed
  ultimately have "sorted (map (pr \<circ> fst) (f x) @ map (pr \<circ> fst) (concat (map f xs)))"
    unfolding sorted_append set_map by blast
  then show ?case by (simp add: comp_def)
qed simp

lemma rarest_candidates:
  assumes "list_good s" and "downloads_ok s" and "cursors_ok s" and "0 < num_pieces s"
    and "m_dirty s \<Longrightarrow> set (m_pieces s) \<subseteq> {..<num_pieces s}"
    and "rarest_first opts" and "\<not> sequential opts" and "\<not> piece_extent_affinity opts"
  shows "\<exists>first others. candidates have peer opts suggested s = first @ others
    \<and> (\<forall>b\<in>set first. \<not> ordinary opts suggested s b) \<and> (\<forall>b\<in>set others. ordinary opts suggested s b)
    \<and> sorted (map (\<lambda>b. if reverse opts \<and> \<not> time_critical_mode opts then - prio_of s (fst b) else prio_of s (fst b)) others)"
proof -
  define t where "t = pick_state opts s"
  note t = pick_state_facts [OF assms(1-3), where opts = opts, folded t_def]
  have lo: "list_ok t" using t(5) assms(6) by blast
  define pr where "pr i = (if reverse opts \<and> \<not> time_critical_mode opts then - prio_of s i else prio_of s i)" for i
  have "map (prio_of t) (m_pieces t) = map (prio_of s) (m_pieces t)" using list_ok_range [OF lo] t(2,7) by simp
  then have so: "sorted (map (prio_of s) (m_pieces t))" using list_ok_sorted [OF lo] by (simp only:)
  then have re: "sorted (map (\<lambda>i. - prio_of s i) (rev (m_pieces t)))" by (simp add: sorted_wrt_map sorted_wrt_rev)
  have tw: "sorted (map (prio_of s) (takeWhile P (m_pieces t)))" for P using so by (metis takeWhile_eq_take sorted_wrt_take take_map)
  have "sorted (map pr (piece_order opts t))"
  proof (cases "reverse opts \<and> \<not> time_critical_mode opts")
    case True
    then have "pr = (\<lambda>i. - prio_of s i)" by (simp add: pr_def fun_eq_iff)
    then show ?thesis using True re assms(6,7) by (simp add: piece_order_def)
  next
    case False
    then have "pr = prio_of s" by (auto simp: pr_def fun_eq_iff)
    then show ?thesis using False tw assms(6-8) by (auto simp: piece_order_def)
  qed
  then have "sorted (map (pr \<circ> id) (filter (\<lambda>i. is_piece_free t i ((!) have)) (piece_order opts t)))" by (simp add: sorted_filter)
  then have "sorted (map (pr \<circ> fst) (ordered_part have peer opts suggested t))"
    unfolding ordered_part_def by (rule sorted_concat_keys) (auto dest: piece_blocks_fst)
  moreover have "ordinary opts suggested s b" if "b \<in> set (ordered_part have peer opts suggested t)" for b
    using in_ordered_part [OF assms(1-5)] that by (simp add: t_def)
  moreover have "\<not> ordinary opts suggested s b" if "b \<in> set (partial_part have peer opts s @ suggested_part have peer opts suggested s)" for b
    using in_partial_part [OF dl_invD(2) [OF assms(2)], of b "have" peer opts] in_suggested_part [of b "have" peer opts suggested s] that
    by (auto simp: ordinary_def)
  ultimately show ?thesis
    by (intro exI [of _ "partial_part have peer opts s @ suggested_part have peer opts suggested s"] exI [of _ "ordered_part have peer opts suggested t"])
      (simp add: candidates_parts t_def pr_def comp_def)
qed

text \<open>
  C16: Rarest first (not sequential, without the extents, and no contiguous blocks preferred or too many partial pieces):
  the blocks of downloading pieces that the options put first and of suggested pieces come before all others, and the others come
  in the order of the priorities of their pieces, ascending, or descending if the options reverse the order. Only a busy block
  of the end game can follow.
\<close>

theorem pick_pieces_rarest_first:
  assumes "picker_reachable s" and "length have = num_pieces s" and "0 < num_pieces s" and "0 < n"
    and "m_dirty s \<Longrightarrow> set (m_pieces s) \<subseteq> {..<num_pieces s}" and "set suggested \<subseteq> {..<num_pieces s}"
    and "prefer = 0 \<or> too_many_partials known s"
    and "rarest_first options" and "\<not> sequential options" and "\<not> piece_extent_affinity options"
  shows "\<exists>q t bs. pick_pieces have n prefer peer options suggested known s = Some (q, t)
    \<and> (let others = filter (ordinary (options_used known options s) suggested s) bs;
           first = filter (\<lambda>b. \<not> ordinary (options_used known options s) suggested s b) bs in
       bs = first @ others
       \<and> sorted (map (\<lambda>b. if reverse options \<and> \<not> time_critical_mode options then - prio_of s (fst b) else prio_of s (fst b)) others))
    \<and> (interesting_blocks q = bs \<or> (\<exists>b. interesting_blocks q = bs @ [b] \<and> busy_block have peer s b))"
proof -
  have inv: "list_good s" "tallied s" "downloads_ok s" using picker_invD [OF picker_machine.inv_reach [OF assms(1)]] by simp_all
  then have cur: "cursors_ok s" by (simp add: tallied_def)
  let ?o = "options_used known options s"
  have o: "rarest_first ?o" "\<not> sequential ?o" "\<not> piece_extent_affinity ?o" "reverse ?o = reverse options"
    "time_critical_mode ?o = time_critical_mode options" using assms(8-10) by (simp_all add: options_used_def)
  let ?c = "candidates have peer ?o suggested s"
  define pr where "pr i = (if reverse options \<and> \<not> time_critical_mode options then - prio_of s i else prio_of s i)" for i
  obtain first others where c: "?c = first @ others" and f: "\<And>b. b \<in> set first \<Longrightarrow> \<not> ordinary ?o suggested s b"
    and l: "\<And>b. b \<in> set others \<Longrightarrow> ordinary ?o suggested s b" and srt: "sorted (map (pr \<circ> fst) others)"
    using rarest_candidates [OF inv(1,3) cur assms(3,5) o(1-3), of "have" peer suggested] unfolding o(4,5) pr_def [abs_def] comp_def by blast
  have part: "filter (ordinary ?o suggested s) (take k ?c) = take (k - length first) others
      \<and> filter (\<lambda>b. \<not> ordinary ?o suggested s b) (take k ?c) = take k first" for k
  proof -
    have "ordinary ?o suggested s b" if "b \<in> set (take (k - length first) others)" for b using l in_set_takeD [OF that] by blast
    moreover have "\<not> ordinary ?o suggested s b" if "b \<in> set (take k first)" for b using f in_set_takeD [OF that] by blast
    ultimately show ?thesis by (simp add: c filter_empty_conv)
  qed
  have "sorted (map (pr \<circ> fst) (take k others))" for k using srt by (metis sorted_wrt_take take_map)
  then have good: "let others = filter (ordinary ?o suggested s) bs; first = filter (\<lambda>b. \<not> ordinary ?o suggested s b) bs in
      bs = first @ others \<and> sorted (map (\<lambda>b. pr (fst b)) others)" if "bs = take k ?c" for bs k
    unfolding that Let_def part [THEN conjunct1] part [THEN conjunct2] by (simp add: c comp_def)
  obtain q t where p: "pick_pieces have n prefer peer options suggested known s = Some (q, t)"
      "if n \<le> int (length ?c) then interesting_blocks q = take (nat n) ?c
       else interesting_blocks q = ?c \<or> (\<exists>b. interesting_blocks q = ?c @ [b] \<and> busy_block have peer s b)"
    using pick_pieces_gathers [OF inv(3) assms(2) inv(1) cur assms(3-7), of peer options] by (auto simp: Let_def)
  then obtain bs k where bs: "bs = take k ?c" "interesting_blocks q = bs \<or> (\<exists>b. interesting_blocks q = bs @ [b] \<and> busy_block have peer s b)"
    by (cases "n \<le> int (length ?c)") (simp, simp, metis take_all order_refl)
  show ?thesis using p(1) bs(2) good [OF bs(1)] unfolding pr_def by blast
qed

section \<open>Top priority in the sequential order\<close>

text \<open>In a sorted list a prefix of top pieces ends before every piece behind one that is not top.\<close>

lemma behind_takeWhile:
  assumes "sorted (map pr xs)" and "j \<in> set xs" and "\<not> P j" and "pr j < pr i"
  shows "i \<notin> set (takeWhile P xs)"
  using assms
proof (induction xs)
  case (Cons x xs)
  then show ?case by (cases "x = j") (auto simp: not_le)
qed simp

text \<open>
  C35: The sequential order is meant to start with all pieces of top priority, and to skip them later
  because ``we've already added high priority pieces''. The start is the longest prefix of the list with top
  priority, but the list is sorted by availability times priority, so a top piece that many peers have comes behind
  an ordinary piece that few have. Such a piece is in neither part: as long as it is behind, no block of it is picked,
  however many are asked for, if it is open (no block of it was asked for yet), the peer does not suggest it, and
  no contiguous blocks are preferred or there are too many partial pieces. Only a suggestion, a first block of it asked for
  elsewhere, or the growth of a request into neighbouring pieces gets it picked.
\<close>

theorem sequential_starves_top:
  assumes "picker_reachable s" and "length have = num_pieces s" and "0 < n"
    and "set suggested \<subseteq> {..<num_pieces s}" and "prefer = 0 \<or> too_many_partials known s" and "sequential options"
    and "i < num_pieces s" and "piece_priority (piece_at s i) = top_priority" and "download_queue (piece_at s i) = piece_open" and "i \<notin> set suggested"
    and "j < num_pieces s" and "piece_priority (piece_at s j) \<noteq> top_priority" and "0 \<le> prio_of s j" and "prio_of s j < prio_of s i"
    and "m_dirty s \<Longrightarrow> set (m_pieces s) \<subseteq> {..<num_pieces s}"
  shows "\<exists>q t. pick_pieces have n prefer peer options suggested known s = Some (q, t) \<and> i \<notin> fst ` set (interesting_blocks q)"
proof -
  have inv: "list_good s" "tallied s" "downloads_ok s" using picker_invD [OF picker_machine.inv_reach [OF assms(1)]] by simp_all
  then have cur: "cursors_ok s" by (simp add: tallied_def)
  let ?o = "options_used known options s"
  have seq: "sequential ?o" using assms(6) by (simp add: options_used_def)
  define t where "t = pick_state ?o s"
  note t = pick_state_facts [OF inv(1,3) cur, where opts = ?o, folded t_def]
  have lo: "list_ok t" using t(5) seq by blast
  let ?c = "candidates have peer ?o suggested s"
  let ?top = "\<lambda>i. piece_priority (piece_at t i) = top_priority"
  have "i \<notin> set (takeWhile ?top (m_pieces t))"
  proof (rule behind_takeWhile [OF list_ok_sorted [OF lo]])
    show "j \<in> set (m_pieces t)" using list_ok_listed [OF lo] t(2,7) assms(11,13) by simp
    show "\<not> ?top j" "prio_of t j < prio_of t i" using t(7,8) assms(7,11,12,14) by simp_all
  qed
  then have io: "i \<notin> set (piece_order ?o t)" using seq t(8) [OF assms(7)] assms(8) by (auto simp: piece_order_def Let_def id_def)
  have nd: "dindex d \<noteq> i" if "d \<in> set (m_downloads s piece_downloading)" for d
    using queues_okD(2) [OF dl_invD(2) [OF inv(3)] that] assms(9) by auto
  have "fst b \<noteq> i" if b: "b \<in> set ?c" for b
    using b io nd assms(10) ordered_partials_in
    by (fastforce simp: candidates_def t_def [symmetric] Let_def dest: piece_blocks_fst partial_blocks_fst split: if_splits)
  moreover have "fst b \<noteq> i" if "busy_block have peer s b" for b
    using that queues_okD(2) [OF dl_invD(2) [OF inv(3)]] assms(9) by (fastforce simp: busy_block_def)
  moreover have "0 < num_pieces s" using assms(7) by (rule le_less_trans [OF le0])
  ultimately show ?thesis
    using pick_pieces_gathers [OF inv(3) assms(2) inv(1) cur _ assms(3,15,4,5), of peer options]
    by (fastforce simp: Let_def dest: in_set_takeD split: if_splits)
qed

section \<open>Extents and the list\<close>

text \<open>
  C36: In the rarest first order (not sequential, not reversed, not time critical, and no contiguous blocks preferred or too many
  partial pieces) with the affinity to extents, an open free piece of a recent extent that has a priority and is not suggested is picked
  with its extent and again from the list: when enough blocks are asked for (as many as there are candidates), each of its
  blocks is picked at least twice.
\<close>

theorem extent_affinity_repeats:
  assumes "picker_reachable s" and "length have = num_pieces s" and "set suggested \<subseteq> {..<num_pieces s}"
    and "prefer = 0 \<or> too_many_partials known s" and "rarest_first options" and "\<not> sequential options" and "\<not> time_critical_mode options"
    and "\<not> reverse options" and "piece_extent_affinity options" and "e \<in> set (m_recent_extents s)" and "i \<in> set (extent_pieces s e)"
    and "i \<notin> set suggested" and "is_piece_free s i ((!) have)" and "download_queue (piece_at s i) = piece_open" and "0 \<le> prio_of s i"
    and "int (length (candidates have peer (options_used known options s) suggested s)) \<le> n"
    and "m_dirty s \<Longrightarrow> set (m_pieces s) \<subseteq> {..<num_pieces s}"
  shows "\<exists>q t. pick_pieces have n prefer peer options suggested known s = Some (q, t)
    \<and> (\<forall>j<blocks_in_piece s i. 2 \<le> count_list (interesting_blocks q) (i, j))"
proof -
  have inv: "list_good s" "tallied s" "downloads_ok s" using picker_invD [OF picker_machine.inv_reach [OF assms(1)]] by simp_all
  then have cur: "cursors_ok s" by (simp add: tallied_def)
  let ?o = "options_used known options s"
  have o: "rarest_first ?o" "\<not> sequential ?o" "\<not> time_critical_mode ?o" "\<not> reverse ?o" "piece_extent_affinity ?o"
    using assms(5-9) by (simp_all add: options_used_def)
  have i: "i < num_pieces s" by (rule extent_pieces_range [OF assms(11)])
  define t where "t = pick_state ?o s"
  note t = pick_state_facts [OF inv(1,3) cur, where opts = ?o, folded t_def]
  have lo: "list_ok t" using t(5) o(1) by blast
  have crit: "critical ?o t = (\<lambda>_. True)" using o(3) by (simp add: critical_def fun_eq_iff)
  let ?c = "candidates have peer ?o suggested s"
  let ?B = "piece_blocks have peer ?o t suggested" and ?free = "\<lambda>i. is_piece_free t i ((!) have)"
  have ext: "extent_pieces t = extent_pieces s" using works_eqD(4) [OF t(1)] t(2) by (simp add: extent_pieces_def fun_eq_iff Let_def)
  have order: "piece_order ?o t = concat (map (extent_pieces s) (m_recent_extents s)) @ m_pieces t"
    using o crit t(9) ext by (simp add: piece_order_def takeWhile_eq_all_conv [THEN iffD2] Let_def)
  have "?B i = piece_blocks have peer ?o s suggested i" by (rule piece_blocks_works [OF t(1) i])
  then have b: "(i, j) \<in> set (?B i)" if "j < blocks_in_piece s i" for j using assms(12,14) that by (simp add: piece_blocks_def image_iff)
  have bl: "0 < blocks_in_piece s i" by (rule blocks_fit [OF dl_invD(1) [OF inv(3)]])
  have "?free i" using assms(13) t(6) i by simp
  moreover have "i \<in> set (concat (map (extent_pieces s) (m_recent_extents s)))" using assms(10,11) by auto
  moreover have "i \<in> set (m_pieces t)" using list_ok_listed [OF lo] i t(2,7) assms(15) by simp
  ultimately have once: "b \<in> set (concat (map ?B (filter ?free (concat (map (extent_pieces s) (m_recent_extents s))))))"
      "b \<in> set (concat (map ?B (filter ?free (m_pieces t))))" if "b \<in> set (?B i)" for b using that by auto
  have twice: "1 \<le> count_list (concat (map ?B (filter ?free (concat (map (extent_pieces s) (m_recent_extents s)))))) (i, j)"
      "1 \<le> count_list (concat (map ?B (filter ?free (m_pieces t)))) (i, j)" if "j < blocks_in_piece s i" for j
    by (rule count_pos [OF once(1) [OF b [OF that]]], rule count_pos [OF once(2) [OF b [OF that]]])
  obtain xs where xs: "?c = xs @ concat (map ?B (filter ?free (concat (map (extent_pieces s) (m_recent_extents s)))))
      @ concat (map ?B (filter ?free (m_pieces t)))"
    by (simp add: candidates_def t_def [symmetric] order Let_def)
  have rep: "2 \<le> count_list ?c (i, j)" if "j < blocks_in_piece s i" for j using twice [OF that] unfolding xs count_list_append by linarith
  have "?c \<noteq> []" using rep [OF bl] by auto
  then have "0 < length ?c" by simp
  then have n: "0 < n" using assms(16) by linarith
  have np: "0 < num_pieces s" using i by (rule le_less_trans [OF le0])
  obtain q r zs where "pick_pieces have n prefer peer options suggested known s = Some (q, r)" "interesting_blocks q = ?c @ zs"
    using pick_pieces_gathers [OF inv(3) assms(2) inv(1) cur np n assms(17,3,4), of peer options] assms(16)
    by (auto simp: Let_def split: if_splits)
  then show ?thesis using rep by (auto intro: trans_le_add1)
qed

section \<open>Pickers to try it on\<close>

definition demo_options :: picker_options where
  "demo_options = \<lparr>rarest_first = True, reverse = False, on_parole = False, prioritize_partials = False, sequential = False,
     time_critical_mode = False, align_expanded_pieces = False, piece_extent_affinity = False\<rparr>"

abbreviation everything :: "bool list" where
  "everything \<equiv> [True, True, True, True]"

lemma demo_seeded_clean: "\<not> m_dirty demo_seeded"
  by (simp add: demo_seeded_def update_pieces_def Let_def case_prod_beta)

lemma demo_seeded_piece:
  assumes "j < 4"
  shows "pickable everything demo_seeded (j, 0)" and "prio_of demo_seeded j = 10"
proof -
  let ?t = "inc_refcount_all demo_new"
  have pm: "m_piece_map ?t = replicate 4 (new_piece_pos 0 0\<lparr>peer_count := 0, pstate := piece_open, pindex := 0\<rparr>)" "m_seeds ?t = 1"
    by (simp_all add: inc_refcount_all_def demo_new_view Let_def) (simp add: demo_new_def new_picker_def resize_def Let_def)
  have w: "works demo_seeded = works ?t" by (simp add: demo_seeded_def)
  have n: "j < num_pieces demo_seeded" using assms demo_seeded_size by simp
  have "pstate (piece_at demo_seeded j) = piece_open" using works_eqD(7) [OF w n] assms by (simp add: pm)
  then have q: "download_queue (piece_at demo_seeded j) = piece_open" by (simp add: download_queue_def)
  have "sizes_ok demo_seeded" using picker_invD(5) [OF picker_machine.inv_reach [OF demo_seeded_reach]] dl_invD(1) by blast
  then have "0 < blocks_in_piece demo_seeded j" by (rule blocks_fit)
  then show "pickable everything demo_seeded (j, 0)"
    using q n demo_fresh [OF assms] assms by (simp add: pickable_def free_block_def is_piece_free_def nth_Cons' )
  have r: "picker_reachable ?t"
    by (rule picker_reachI [OF reach_start [of picker_start, OF demo_new_start]], rule step_inc_all)
      (simp add: demo_new_def new_picker_def resize_def get_availability_def new_piece_pos_def Let_def)
  have "same_pieces (?t\<lparr>m_dirty := False\<rparr>) demo_seeded"
    unfolding demo_seeded_def using reachable_good [OF r] by (intro conjunct2 [OF update_pieces_ok]) (auto simp: list_good_def)
  from same_pieces_prio [OF this, of j] show "prio_of demo_seeded j = 10"
    using assms by (simp add: prio_of_def pm) (simp add: new_piece_pos_def priority_def filtered_def is_have_def is_reverse_def Let_def)
qed

text \<open>A block of a downloading piece may be preferred together with its neighbours: eight blocks are asked for in one go.\<close>

theorem pick_pieces_safe_witness:
  "\<exists>q t. pick_pieces everything 3 8 (Some 1) demo_options [2] 0 demo_seeded = Some (q, t) \<and> works t = works demo_seeded
     \<and> tally t = tally demo_seeded"
  using pick_pieces_safe [OF demo_seeded_reach, of everything 3 "[2]" demo_options 8 "Some 1" 0] demo_seeded_size demo_seeded_clean
  by (auto simp: demo_options_def)

theorem random_order_terminates_witness:
  "\<exists>q. random_loop everything (Some 1) [2] demo_options demo_seeded 3 (random_fuel demo_seeded (picks.make [] [] [] 5 {})) 3 4 (picks.make [] [] [] 5 {}) = Some q"
proof -
  have "safe_picks everything demo_seeded (picks.make [] [] [] 5 {})" by (simp add: safe_picks_def picks.make_def)
  from random_order_terminates [OF demo_seeded_reach _ _ _ this, of demo_options 3 "Some 1" "[2]" 4] demo_seeded_size
  obtain q where "\<forall>k. random_loop everything (Some 1) [2] demo_options demo_seeded 3
      (random_fuel demo_seeded (picks.make [] [] [] 5 {}) + k) 3 4 (picks.make [] [] [] 5 {}) = Some q"
    by (auto simp: demo_options_def)
  from spec [OF this, of 0] show ?thesis by simp
qed

theorem pick_pieces_candidates_witness:
  "\<exists>q t. pick_pieces everything 3 0 (Some 1) demo_options [2] 0 demo_seeded = Some (q, t)
     \<and> (let c = candidates everything (Some 1) (options_used 0 demo_options demo_seeded) [2] demo_seeded in
        if 3 \<le> int (length c) then interesting_blocks q = take (nat 3) c
        else interesting_blocks q = c \<or> (\<exists>b. interesting_blocks q = c @ [b] \<and> busy_block everything (Some 1) demo_seeded b))"
  using pick_pieces_candidates [OF demo_seeded_reach, of everything 3 "[2]" 0 0 "Some 1" demo_options] demo_seeded_size demo_seeded_clean
  by simp

theorem pick_pieces_distinct_witness:
  "\<exists>q t. pick_pieces everything 100 0 (Some 1) demo_options [2, 0, 2] 0 demo_seeded = Some (q, t)
     \<and> (\<forall>b. count_list (interesting_blocks q) b \<le> max 1 (count_list [2, 0, 2] (fst b)))
     \<and> (distinct [2, 0, 2::nat] \<longrightarrow> distinct (interesting_blocks q))"
  by (rule pick_pieces_distinct [OF demo_seeded_reach]) (use demo_seeded_size demo_seeded_clean in \<open>simp_all add: demo_options_def\<close>)

theorem pick_pieces_complete_witness:
  "\<exists>q t. pick_pieces everything 100 0 (Some 1) demo_options [2] 0 demo_seeded = Some (q, t)
     \<and> (100 \<le> int (length (interesting_blocks q)) \<or> (3, 0) \<in> set (interesting_blocks q))"
  using pick_pieces_complete [OF demo_seeded_reach, of everything 100 "[2]" 0 0 demo_options "(3, 0)" "Some 1"] demo_seeded_size
    demo_seeded_clean demo_seeded_piece [of 3] by (simp add: demo_options_def)

text \<open>One seed has everything, \<open>k\<close> more peers have piece 1; with four of them it is given top priority.\<close>

lemma demo_all_view:
  defines "p \<equiv> new_piece_pos 0 0\<lparr>peer_count := 0, pstate := piece_open, pindex := 0\<rparr>"
  shows "m_piece_map (inc_refcount_all demo_new) = [p, p, p, p]" and "m_seeds (inc_refcount_all demo_new) = 1"
    and "m_dirty (inc_refcount_all demo_new)" and "m_pieces (inc_refcount_all demo_new) = []"
    and "m_recent_extents (inc_refcount_all demo_new) = []" and "picker_reachable (inc_refcount_all demo_new)"
proof -
  have new: "m_seeds demo_new = 0" "m_pieces demo_new = []" "m_recent_extents demo_new = []"
    by (simp_all add: demo_new_def new_picker_def resize_def Let_def)
  have pm: "m_piece_map demo_new = [p, p, p, p]" unfolding demo_new_view p_def by (simp add: numeral_eq_Suc)
  show "m_piece_map (inc_refcount_all demo_new) = [p, p, p, p]" "m_seeds (inc_refcount_all demo_new) = 1"
    "m_dirty (inc_refcount_all demo_new)" "m_pieces (inc_refcount_all demo_new) = []"
    "m_recent_extents (inc_refcount_all demo_new) = []"
    by (simp_all add: inc_refcount_all_def new pm demo_new_view(5) Let_def)
  show "picker_reachable (inc_refcount_all demo_new)"
    by (rule picker_reachI [OF reach_start [of picker_start, OF demo_new_start]], rule step_inc_all)
      (simp add: demo_new_def new_picker_def resize_def get_availability_def new_piece_pos_def Let_def)
qed

lemma inc_dirty: "m_dirty s \<Longrightarrow> inc_refcount i s = set_piece i inc_peer_count s"
  by (simp add: inc_refcount_def set_piece_def Let_def)

definition demo_counted :: "nat \<Rightarrow> piece_picker" where
  "demo_counted k = (inc_refcount 1 ^^ k) (inc_refcount_all demo_new)"

lemma demo_counted_view:
  defines "p \<equiv> new_piece_pos 0 0\<lparr>peer_count := 0, pstate := piece_open, pindex := 0\<rparr>"
  assumes "k < 10"
  shows "m_piece_map (demo_counted k) = [p, p\<lparr>peer_count := k\<rparr>, p, p]" and "m_seeds (demo_counted k) = 1"
    and "m_dirty (demo_counted k)" and "m_pieces (demo_counted k) = []" and "picker_reachable (demo_counted k)"
proof -
  note all = demo_all_view [folded p_def]
  have "m_piece_map (demo_counted k) = [p, p\<lparr>peer_count := k\<rparr>, p, p] \<and> m_seeds (demo_counted k) = 1 \<and> m_dirty (demo_counted k)
    \<and> m_pieces (demo_counted k) = [] \<and> picker_reachable (demo_counted k)"
    using assms(2)
  proof (induction k)
    case 0
    have "p\<lparr>peer_count := 0\<rparr> = p" by (simp add: p_def)
    then show ?case using all by (simp add: demo_counted_def)
  next
    case (Suc k)
    then have IH: "m_piece_map (demo_counted k) = [p, p\<lparr>peer_count := k\<rparr>, p, p]" "m_seeds (demo_counted k) = 1" "m_dirty (demo_counted k)"
      "m_pieces (demo_counted k) = []" "picker_reachable (demo_counted k)" by simp_all
    have step: "demo_counted (Suc k) = inc_refcount 1 (demo_counted k)" by (simp add: demo_counted_def)
    have "get_availability (demo_counted k) ! 1 + 1 < peer_limit" using Suc.prems by (simp add: get_availability_def IH)
    then have "picker_reachable (demo_counted (Suc k))"
      unfolding step by (intro picker_reachI [OF IH(5)] step_inc) (simp_all add: IH)
    moreover have "demo_counted (Suc k) = set_piece 1 inc_peer_count (demo_counted k)" unfolding step by (rule inc_dirty) (rule IH)
    ultimately show ?case using Suc.prems IH by (simp add: set_piece_def inc_peer_count_def bits_inc_def)
  qed
  then show "m_piece_map (demo_counted k) = [p, p\<lparr>peer_count := k\<rparr>, p, p]" "m_seeds (demo_counted k) = 1"
    "m_dirty (demo_counted k)" "m_pieces (demo_counted k) = []" "picker_reachable (demo_counted k)" by simp_all
qed

text \<open>Piece 1 is more common than piece 0; piece 2 is suggested and comes first.\<close>

theorem pick_pieces_rarest_first_witness:
  "prio_of (demo_counted 4) 0 < prio_of (demo_counted 4) 1
   \<and> (\<exists>q t bs. pick_pieces everything 100 0 (Some 1) demo_options [2] 0 (demo_counted 4) = Some (q, t)
     \<and> (let others = filter (ordinary (options_used 0 demo_options (demo_counted 4)) [2] (demo_counted 4)) bs;
            first = filter (\<lambda>b. \<not> ordinary (options_used 0 demo_options (demo_counted 4)) [2] (demo_counted 4) b) bs in
        bs = first @ others
        \<and> sorted (map (\<lambda>b. if reverse demo_options \<and> \<not> time_critical_mode demo_options then - prio_of (demo_counted 4) (fst b)
             else prio_of (demo_counted 4) (fst b)) others))
     \<and> (interesting_blocks q = bs \<or> (\<exists>b. interesting_blocks q = bs @ [b] \<and> busy_block everything (Some 1) (demo_counted 4) b)))"
proof
  note c = demo_counted_view [of 4]
  show "prio_of (demo_counted 4) 0 < prio_of (demo_counted 4) 1"
    using c(1,2) by (simp add: prio_of_def) (simp add: new_piece_pos_def priority_def filtered_def is_have_def is_reverse_def Let_def)
qed (rule pick_pieces_rarest_first, use demo_counted_view [of 4] in \<open>simp_all add: demo_options_def\<close>)

definition demo_top :: piece_picker where
  "demo_top = snd (set_piece_priority 1 7 (demo_counted 4))"

lemma demo_top_view:
  defines "p \<equiv> new_piece_pos 0 0\<lparr>peer_count := 0, pstate := piece_open, pindex := 0\<rparr>"
  shows "m_piece_map demo_top = [p, p\<lparr>peer_count := 4, piece_priority := 7\<rparr>, p, p]" and "m_seeds demo_top = 1"
    and "m_pieces demo_top = []" and "picker_reachable demo_top"
proof -
  have c: "m_piece_map (demo_counted 4) = [p, p\<lparr>peer_count := 4\<rparr>, p, p]" "m_seeds (demo_counted 4) = 1" "m_dirty (demo_counted 4)"
    "m_pieces (demo_counted 4) = []" "picker_reachable (demo_counted 4)" using demo_counted_view [of 4] by (simp_all add: p_def)
  have p: "pstate p = piece_open" "piece_priority p = 4" "\<not> filtered p" by (simp_all add: p_def new_piece_pos_def filtered_def)
  show "m_piece_map demo_top = [p, p\<lparr>peer_count := 4, piece_priority := 7\<rparr>, p, p]" "m_seeds demo_top = 1" "m_pieces demo_top = []"
    by (simp_all add: demo_top_def set_piece_priority_def filter_count_def set_piece_def relist_def c p downloading_def filtered_def Let_def)
  show "picker_reachable demo_top" unfolding demo_top_def by (rule picker_reachI [OF c(5)], rule step_set_piece_priority) (simp_all add: c)
qed

theorem sequential_starves_top_witness:
  "\<exists>q t. pick_pieces everything 100 0 (Some 1) (demo_options\<lparr>rarest_first := False, sequential := True\<rparr>) [] 0 demo_top = Some (q, t)
     \<and> 1 \<notin> fst ` set (interesting_blocks q)"
  using sequential_starves_top [OF demo_top_view(4), of everything 100 "[]" 0 0 "demo_options\<lparr>rarest_first := False, sequential := True\<rparr>" 1 0 "Some 1"]
  by (simp add: demo_top_view prio_of_def) (simp add: new_piece_pos_def priority_def filtered_def is_have_def is_reverse_def download_queue_def Let_def)

text \<open>The first block of piece 0 is requested by a peer with affinity to extents; all four pieces are in one extent.\<close>

definition demo_extent :: piece_picker where
  "demo_extent = snd (mark_as_downloading (0, 0) (Some 7) False True (inc_refcount_all demo_new))"

lemma kept_by_blocks [simp]:
  "m_recent_extents (set_block d j f s) = m_recent_extents s" "m_recent_extents (dl_modify it g s) = m_recent_extents s"
  "m_recent_extents (dl_erase it s) = m_recent_extents s" "m_recent_extents (dl_insert it d s) = m_recent_extents s"
  "m_recent_extents (set_piece i h s) = m_recent_extents s"
  by (simp_all add: set_block_def dl_modify_def dl_erase_def dl_insert_def set_piece_def Let_def)

text \<open>Requesting a block of a dirty picker leaves the other pieces, the empty list and the extents recorded for it alone.\<close>

lemma update_state_dirty:
  assumes "m_dirty s" and "dindex (dl_at s it) = i"
  shows "m_dirty (snd (update_piece_state it s))" and "m_pieces (snd (update_piece_state it s)) = m_pieces s"
    and "j \<noteq> i \<Longrightarrow> piece_at (snd (update_piece_state it s)) j = piece_at s j"
    and "m_recent_extents (snd (update_piece_state it s)) = m_recent_extents s" and "m_seeds (snd (update_piece_state it s)) = m_seeds s"
    and "m_blocks_per_piece (snd (update_piece_state it s)) = m_blocks_per_piece s"
  using assms by (simp_all add: update_piece_state_def dl_erase_def dl_insert_def set_piece_def relist_def dl_at_def Let_def)

lemma add_download_dirty:
  assumes "m_dirty s" and "add_download_piece i s = (dp, t)"
  shows "m_dirty t" and "m_pieces t = m_pieces s" and "j \<noteq> i \<Longrightarrow> piece_at t j = piece_at s j" and "m_recent_extents t = m_recent_extents s"
    and "m_seeds t = m_seeds s" and "m_blocks_per_piece t = m_blocks_per_piece s"
proof -
  obtain s2 k where s2: "add_download_piece i s = update_piece_state (piece_downloading, k) s2" "dindex (dl_at s2 (piece_downloading, k)) = i"
    "m_dirty s2" "m_pieces s2 = m_pieces s" "m_piece_map s2 = m_piece_map s" "m_recent_extents s2 = m_recent_extents s" "m_seeds s2 = m_seeds s"
    "m_blocks_per_piece s2 = m_blocks_per_piece s"
  proof -
    obtain b s1 where b: "(if m_free_block_infos s = []
         then (length (m_block_info s) div m_blocks_per_piece s,
               s\<lparr>m_block_info := m_block_info s @ replicate (m_blocks_per_piece s) new_block_info\<rparr>)
         else (last (m_free_block_infos s), s\<lparr>m_free_block_infos := butlast (m_free_block_infos s)\<rparr>)) = (b, s1)" by (rule prod.exhaust)
    define r where "r = new_downloading_piece\<lparr>dindex := i, info_idx := b mod 2 ^ 16\<rparr>"
    define k where "k = dl_lower_bound (m_downloads s1 piece_downloading) i"
    obtain infos fin where f: "init_blocks (m_pad_blocks s1) (blocks_begin s1 r) (i * m_blocks_per_piece s1) (blocks_in_piece s1 i) (m_block_info s1) 0
        = (infos, fin)" by (rule prod.exhaust)
    let ?s2 = "dl_insert (piece_downloading, k) (r\<lparr>finished := fin\<rparr>) (s1\<lparr>m_block_info := infos\<rparr>)"
    have "add_download_piece i s = update_piece_state (piece_downloading, k) ?s2"
      using b f unfolding add_download_piece_def Let_def r_def k_def by simp
    moreover have "k \<le> length (m_downloads s1 piece_downloading)" unfolding k_def by (rule dl_lower_bound_le)
    then have "dindex (dl_at ?s2 (piece_downloading, k)) = i" by (simp add: dl_at_def dl_insert_def nth_append r_def Let_def)
    ultimately show ?thesis using b assms(1) by (intro that [of k ?s2]) (auto simp: dl_insert_def Let_def split: if_splits)
  qed
  have t: "t = snd (update_piece_state (piece_downloading, k) s2)" using assms(2) s2(1) by simp
  note u = update_state_dirty [OF s2(3,2)]
  show "m_dirty t" "m_pieces t = m_pieces s" "j \<noteq> i \<Longrightarrow> piece_at t j = piece_at s j" "m_recent_extents t = m_recent_extents s" "m_seeds t = m_seeds s"
    "m_blocks_per_piece t = m_blocks_per_piece s" using u s2 by (simp_all add: t)
qed

lemma demo_extent_view:
  shows "m_pieces demo_extent = []" and "m_recent_extents demo_extent = [0]" and "m_seeds demo_extent = 1"
    and "piece_at demo_extent 1 = new_piece_pos 0 0\<lparr>peer_count := 0, pstate := piece_open, pindex := 0\<rparr>"
    and "picker_reachable demo_extent" and "num_pieces demo_extent = 4" and "m_blocks_per_piece demo_extent = 2"
proof -
  define p where "p = new_piece_pos 0 0\<lparr>peer_count := 0, pstate := piece_open, pindex := 0\<rparr>"
  let ?s = "inc_refcount_all demo_new"
  note all = demo_all_view [folded p_def]
  have p: "pstate p = piece_open" "\<not> is_have p" by (simp_all add: p_def new_piece_pos_def is_have_def)
  have sz: "m_blocks_per_piece ?s = 2" "m_blocks_in_last_piece ?s = 2" "m_free_block_infos ?s = []" "m_block_info ?s = []"
    using works_eqD [of ?s demo_new] by (simp_all add: demo_new_view)
  have bl: "block_exists (0, 0) ?s" "can_open (0, 0) ?s"
    by (simp_all add: block_exists_def blocks_in_piece_def can_open_def slot_free_def all sz)
  show r: "picker_reachable demo_extent" unfolding demo_extent_def
    by (rule picker_reachI [OF all(6)], rule step_downloading [OF bl]) (simp add: all p)
  have "list_good ?s" using reachable_good [OF all(6)] .
  have "tally demo_extent = tally ?s" unfolding demo_extent_def
    by (rule conjunct2 [OF conjunct2 [OF mark_as_downloading_good]]) (use \<open>list_good ?s\<close> all(1) p in \<open>auto simp: dl_iter_of_def\<close>)
  then show "num_pieces demo_extent = 4" using tally_eqD(1) all(1) by fastforce
  define s1 where "s1 = record_downloading_piece 0 (open_piece 0 piece_downloading ?s)"
  have o: "open_piece 0 piece_downloading ?s = ?s\<lparr>m_piece_map := [p\<lparr>pstate := piece_downloading\<rparr>, p, p, p]\<rparr>"
    by (simp add: open_piece_def set_piece_def all Let_def)
  have ext: "extent_pieces (open_piece 0 piece_downloading ?s) 0 = [0, 1, 2, 3]"
    by (simp add: o extent_pieces_def sz upt_rec Let_def)
  have s1: "s1 = (open_piece 0 piece_downloading ?s)\<lparr>m_recent_extents := [0]\<rparr>"
    unfolding s1_def record_downloading_piece_def using p by (simp add: extent_for_def ext) (simp add: o sz all is_have_def)
  obtain dp s3 where ad: "add_download_piece 0 s1 = (dp, s3)" by (rule prod.exhaust)
  have "m_dirty s1" by (simp add: s1 o all)
  note a = add_download_dirty [OF this ad]
  have "piece_priority p < priority_levels" by (simp add: p_def new_piece_pos_def)
  then have "list_good s1" by (auto simp: list_good_def s1 o all nth_Cons split: nat.split)
  then have g: "dindex (dl_at s3 dp) = 0" using add_download_piece_good [of s1 0, OF _ _ ad] by (simp add: s1 o)
  have f: "m_pieces s3 = []" "m_recent_extents s3 = [0]" "m_seeds s3 = 1" "piece_at s3 1 = p" "m_blocks_per_piece s3 = 2" "m_dirty s3"
    using a a(3) [of 1] by (simp_all add: s1 o all sz)
  let ?s5 = "dl_modify dp (\<lambda>d. d\<lparr>requested := bits_inc 15 (requested d)\<rparr>)
    (set_block (dl_at s3 dp) 0 (\<lambda>_. \<lparr>bpeer = Some 7, num_peers_of = 1, bstate = state_requested\<rparr>) s3)"
  have ix: "dindex (dl_at ?s5 dp) = 0" using g by (simp add: dindex_dl_modify)
  have "m_dirty ?s5" using f(6) by (simp add: dl_modify_def set_block_def)
  note u = update_state_dirty [OF this ix]
  have u5: "m_pieces ?s5 = []" "m_recent_extents ?s5 = [0]" "m_seeds ?s5 = 1" "piece_at ?s5 1 = p" "m_blocks_per_piece ?s5 = 2"
    using f by (simp_all add: dl_modify_def set_block_def)
  have q: "download_queue (piece_at ?s 0) = piece_open" by (simp add: all p download_queue_def)
  consider "demo_extent = s3" | "demo_extent = snd (update_piece_state dp ?s5)"
    unfolding demo_extent_def mark_as_downloading_def using q ad
    by (cases "bstate (block_at s3 (dl_at s3 dp) 0) = state_finished") (simp_all add: s1_def [symmetric] Let_def)
  then show "m_pieces demo_extent = []" "m_recent_extents demo_extent = [0]" "m_seeds demo_extent = 1" "piece_at demo_extent 1 = p"
    "m_blocks_per_piece demo_extent = 2"
    using f u(2,4,5,6) u(3) [of 1] u5 by (cases; simp)+
qed

theorem extent_affinity_repeats_witness:
  "\<exists>n q t. pick_pieces everything n 0 (Some 1) (demo_options\<lparr>piece_extent_affinity := True\<rparr>) [] 9 demo_extent = Some (q, t)
     \<and> 0 < blocks_in_piece demo_extent 1 \<and> (\<forall>j<blocks_in_piece demo_extent 1. 2 \<le> count_list (interesting_blocks q) (1, j))"
proof -
  let ?o = "demo_options\<lparr>piece_extent_affinity := True\<rparr>"
  have "1 \<in> set (extent_pieces demo_extent 0)" by (simp add: extent_pieces_def demo_extent_view Let_def)
  moreover have "is_piece_free demo_extent 1 ((!) everything)" "download_queue (piece_at demo_extent 1) = piece_open" "0 \<le> prio_of demo_extent 1"
    unfolding prio_of_def is_piece_free_def demo_extent_view
    by (simp_all add: new_piece_pos_def is_have_def filtered_def download_queue_def priority_def is_reverse_def Let_def)
  moreover have "blocks_in_piece demo_extent 1 = 2" by (simp add: blocks_in_piece_def demo_extent_view)
  ultimately show ?thesis
    using extent_affinity_repeats [OF demo_extent_view(5), of everything "[]" 0 9 ?o 0 1 "Some 1"
        "int (length (candidates everything (Some 1) (options_used 9 ?o demo_extent) [] demo_extent))"]
    by (simp add: demo_extent_view demo_options_def) blast
qed

end
