(* ===== verification/Ip_Filter.thy ===== *)
theory Ip_Filter
  imports Prelude "HOL-Library.List_Lexorder"
begin

text \<open>
  The filters of IP addresses and ports (\<open>ip_filter.hpp\<close>, \<open>ip_filter.cpp\<close>). A filter is a set of entries, each
  the start of a range and its flags; a range ends where the next entry starts. \<open>add_rule\<close> is written with
  the code's iterators as indices into the sorted list of entries. The template parameter \<open>Addr\<close> becomes a
  record of the four operations the template needs of it, and the locale \<open>address_space\<close> their laws; it is
  interpreted for ports, for the four bytes of an IPv4 address and for the sixteen of an IPv6 address.

  Shown: the rules added to a new filter are answered as ``the last rule that covers the address wins''; the
  entries stay sorted and minimal, so an exported filter has no more ranges than any other description of it, and
  adding the exported ranges to a new filter gives the filter back.
\<close>

section \<open>Addresses\<close>

text \<open>What \<open>filter_impl\<close> uses of its address type.\<close>

record 'a addr_ops =
  zero_addr :: 'a
  plus_one :: "'a \<Rightarrow> 'a"
  minus_one :: "'a \<Rightarrow> 'a"
  max_addr :: 'a

text \<open>
  The byte arrays: both loops go from the last byte to the first and stop at the first byte that does not
  wrap, so they are recursions on the reversed array.
\<close>

primrec carry_up :: "u8 list \<Rightarrow> u8 list" where
  "carry_up [] = []"
| "carry_up (t # ts) = (if t < 255 then (t + 1) # ts else 0 # carry_up ts)"

primrec carry_down :: "u8 list \<Rightarrow> u8 list" where
  "carry_down [] = []"
| "carry_down (t # ts) = (if 0 < t then (t - 1) # ts else 255 # carry_down ts)"

definition bytes_plus_one :: "u8 list \<Rightarrow> u8 list" where
  "bytes_plus_one a = rev (carry_up (rev a))"

definition bytes_minus_one :: "u8 list \<Rightarrow> u8 list" where
  "bytes_minus_one a = rev (carry_down (rev a))"

definition bytes_ops :: "nat \<Rightarrow> u8 list addr_ops" where
  "bytes_ops n = \<lparr>zero_addr = replicate n 0, plus_one = bytes_plus_one, minus_one = bytes_minus_one,
     max_addr = replicate n 255\<rparr>"

text \<open>The overloads for ports wrap around.\<close>

definition port_ops :: "u16 addr_ops" where
  "port_ops = \<lparr>zero_addr = 0, plus_one = (\<lambda>v. v + 1), minus_one = (\<lambda>v. v - 1), max_addr = 65535\<rparr>"

section \<open>The filter\<close>

record 'a addr_range =
  start :: 'a
  access :: u32

record 'a ip_range =
  r_first :: 'a
  r_last :: 'a
  r_flags :: u32

definition mk_range :: "'a \<Rightarrow> u32 \<Rightarrow> 'a addr_range" where
  "mk_range a fl = \<lparr>start = a, access = fl\<rparr>"

text \<open>\<open>std::set\<close> of entries, ordered by their start: a sorted list, an iterator its index.\<close>

definition upper_bound :: "'a::linorder addr_range list \<Rightarrow> 'a \<Rightarrow> nat" where
  "upper_bound m a = length (takeWhile (\<lambda>r. start r \<le> a) m)"

text \<open>
  \<open>insert\<close> puts the entry in its place, unless one with this start is there, and gives the iterator to it. An iterator
  at or behind the place of a new element then has an index one higher.
\<close>

definition set_insert :: "'a::linorder addr_range \<Rightarrow> 'a addr_range list \<Rightarrow> 'a addr_range list \<times> nat" where
  "set_insert r m = (let k = length (takeWhile (\<lambda>q. start q < start r) m) in
     if k < length m \<and> start (m ! k) = start r then (m, k) else (take k m @ r # drop k m, k))"

definition moved :: "'a list \<Rightarrow> 'a list \<Rightarrow> nat \<Rightarrow> nat \<Rightarrow> nat" where
  "moved m m' k j = (if length m' \<noteq> length m \<and> k \<le> j then j + 1 else j)"

definition new_filter :: "'a addr_ops \<Rightarrow> 'a addr_range list" where
  "new_filter ops = [mk_range (zero_addr ops) 0]"

text \<open>
  \<open>add_rule\<close> in three steps: find the entry \<open>i\<close> the new range begins in and make sure it can carry the new flags
  (the first \<open>if\<close> of the code); erase everything up to \<open>j\<close>, the first entry behind the range, and set the
  flags; restore the old flags behind the range or merge with the entry there.
\<close>

definition add_begin :: "'a::linorder \<Rightarrow> 'a \<Rightarrow> u32 \<Rightarrow> 'a addr_range list
    \<Rightarrow> 'a addr_range list \<times> nat \<times> nat \<times> u32" where
  "add_begin first last' flags m = (let
     i = upper_bound m first;
     j = upper_bound m last';
     i = (if i \<noteq> 0 then i - 1 else i);
     first_access = access (m ! i)
   in if start (m ! i) \<noteq> first \<and> first_access \<noteq> flags then
        (let (m', k) = set_insert (mk_range first flags) m in (m', k, moved m m' k j, first_access))
      else if i \<noteq> 0 \<and> access (m ! (i - 1)) = flags then (m, i - 1, j, access (m ! (i - 1)))
      else (m, i, j, first_access))"

definition add_cover :: "'a::linorder \<Rightarrow> u32 \<Rightarrow> 'a addr_range list \<times> nat \<times> nat \<times> u32
    \<Rightarrow> 'a addr_range list \<times> nat" where
  "add_cover first flags = (\<lambda>(m, i, j, first_access). let
     (m, j) = (if i \<noteq> j then (take (i + 1) m @ drop j m, i + 1) else (m, j))
   in if start (m ! i) = first then (m[i := mk_range first flags], j)
      else if first_access \<noteq> flags then
        (let (m', k) = set_insert (mk_range first flags) m in (m', moved m m' k j))
      else (m, j))"

definition add_end :: "'a::linorder addr_ops \<Rightarrow> 'a \<Rightarrow> u32 \<Rightarrow> u32 \<Rightarrow> 'a addr_range list \<times> nat
    \<Rightarrow> 'a addr_range list" where
  "add_end ops last' last_access flags = (\<lambda>(m, j). let
     (m, j) = (if (j \<noteq> length m \<and> minus_one ops (start (m ! j)) \<noteq> last' \<or> j = length m \<and> last' \<noteq> max_addr ops)
                   \<and> last_access \<noteq> flags
               then set_insert (mk_range (plus_one ops last') last_access) m else (m, j))
   in if j \<noteq> length m \<and> access (m ! j) = flags then take j m @ drop (j + 1) m else m)"

definition add_rule :: "'a::linorder addr_ops \<Rightarrow> 'a \<Rightarrow> 'a \<Rightarrow> u32 \<Rightarrow> 'a addr_range list \<Rightarrow> 'a addr_range list" where
  "add_rule ops first last' flags m = (let
     last_access = access (m ! (upper_bound m last' - 1))
   in add_end ops last' last_access flags (add_cover first flags (add_begin first last' flags m)))"

definition filter_access :: "'a::linorder addr_range list \<Rightarrow> 'a \<Rightarrow> u32" where
  "filter_access m a = (let i = upper_bound m a; i = (if i \<noteq> 0 then i - 1 else i) in access (m ! i))"

fun export_filter :: "'a addr_ops \<Rightarrow> 'a addr_range list \<Rightarrow> 'a ip_range list" where
  "export_filter ops [] = []"
| "export_filter ops [q] = [\<lparr>r_first = start q, r_last = max_addr ops, r_flags = access q\<rparr>]"
| "export_filter ops (q # q' # m) =
     \<lparr>r_first = start q, r_last = minus_one ops (start q'), r_flags = access q\<rparr> # export_filter ops (q' # m)"

section \<open>The IP filter and the port filter\<close>

datatype address = V4 "u8 list" | V6 "u8 list"

record ip_filter =
  m_filter4 :: "u8 list addr_range list"
  m_filter6 :: "u8 list addr_range list"

definition ip_filter_new :: ip_filter where
  "ip_filter_new = \<lparr>m_filter4 = new_filter (bytes_ops 4), m_filter6 = new_filter (bytes_ops 16)\<rparr>"

text \<open>The conversions \<open>to_v4\<close> and \<open>to_v6\<close> throw when the two addresses are not of one family: \<open>None\<close>.\<close>

fun ip_add_rule :: "address \<Rightarrow> address \<Rightarrow> u32 \<Rightarrow> ip_filter \<Rightarrow> ip_filter option" where
  "ip_add_rule (V4 a) (V4 b) flags f = Some (f\<lparr>m_filter4 := add_rule (bytes_ops 4) a b flags (m_filter4 f)\<rparr>)"
| "ip_add_rule (V6 a) (V6 b) flags f = Some (f\<lparr>m_filter6 := add_rule (bytes_ops 16) a b flags (m_filter6 f)\<rparr>)"
| "ip_add_rule _ _ flags f = None"

fun ip_access :: "ip_filter \<Rightarrow> address \<Rightarrow> u32" where
  "ip_access f (V4 a) = filter_access (m_filter4 f) a"
| "ip_access f (V6 a) = filter_access (m_filter6 f) a"

definition ip_export_filter :: "ip_filter \<Rightarrow> u8 list ip_range list \<times> u8 list ip_range list" where
  "ip_export_filter f = (export_filter (bytes_ops 4) (m_filter4 f), export_filter (bytes_ops 16) (m_filter6 f))"

definition port_add_rule :: "u16 \<Rightarrow> u16 \<Rightarrow> u32 \<Rightarrow> u16 addr_range list \<Rightarrow> u16 addr_range list" where
  "port_add_rule = add_rule port_ops"

definition port_access :: "u16 addr_range list \<Rightarrow> u16 \<Rightarrow> u32" where
  "port_access = filter_access"

section \<open>What a filter promises\<close>

text \<open>A rule, and what a list of rules says of an address: the last one that covers it wins.\<close>

definition covers :: "'a::ord ip_range \<Rightarrow> 'a \<Rightarrow> bool" where
  "covers r a \<longleftrightarrow> r_first r \<le> a \<and> a \<le> r_last r"

definition add_rules :: "'a::linorder addr_ops \<Rightarrow> 'a ip_range list \<Rightarrow> 'a addr_range list \<Rightarrow> 'a addr_range list" where
  "add_rules ops rs m = foldl (\<lambda>m r. add_rule ops (r_first r) (r_last r) (r_flags r) m) m rs"

definition last_rule :: "'a::ord ip_range list \<Rightarrow> 'a \<Rightarrow> u32" where
  "last_rule rs a = foldl (\<lambda>fl r. if covers r a then r_flags r else fl) 0 rs"

text \<open>
  The entries of a filter: the first one starts at zero, the starts grow, neighbours have different flags.
\<close>

definition entries_sorted :: "'a::linorder addr_range list \<Rightarrow> bool" where
  "entries_sorted m \<longleftrightarrow> sorted_wrt (\<lambda>q r. start q < start r) m"

definition entries_minimal :: "'a addr_range list \<Rightarrow> bool" where
  "entries_minimal m \<longleftrightarrow> successively (\<lambda>q r. access q \<noteq> access r) m"

lemma mk_range_sel [simp]: "start (mk_range a fl) = a" "access (mk_range a fl) = fl"
  by (simp_all add: mk_range_def)

lemma takeWhile_sorted_filter:
  "entries_sorted m \<Longrightarrow> takeWhile (\<lambda>r. start r \<le> a) m = filter (\<lambda>r. start r \<le> a) m"
  by (induction m) (fastforce simp: entries_sorted_def empty_filter_conv)+

lemma upper_bound_append:
  assumes "\<And>r. r \<in> set A \<Longrightarrow> start r \<le> a" and "\<And>r. r \<in> set B \<Longrightarrow> a < start r"
  shows "upper_bound (A @ B) a = length A"
proof -
  have "takeWhile (\<lambda>r. start r \<le> a) B = []"
    using assms(2) by (cases B) (auto simp: not_le)
  with assms(1) show ?thesis
    by (simp add: upper_bound_def takeWhile_append2)
qed

lemma filter_access_last:
  assumes "entries_sorted m" and "m \<noteq> []" and "start (hd m) \<le> a"
  shows "filter_access m a = access (last (filter (\<lambda>r. start r \<le> a) m))"
proof -
  let ?t = "takeWhile (\<lambda>r. start r \<le> a) m"
  have ne: "?t \<noteq> []" using assms(2,3) by (cases m) auto
  have "m ! (length ?t - 1) = ?t ! (length ?t - 1)"
    using ne by (simp add: takeWhile_nth)
  with ne show ?thesis
    by (simp add: filter_access_def upper_bound_def last_conv_nth
        flip: takeWhile_sorted_filter [OF assms(1)])
qed

section \<open>\<open>add_rule\<close> on the parts of the list\<close>

lemma set_insert_new:
  assumes "\<And>q. q \<in> set A \<Longrightarrow> start q < start r" and "\<And>q. q \<in> set B \<Longrightarrow> start r < start q"
  shows "set_insert r (A @ B) = (A @ r # B, length A)"
proof -
  have "takeWhile (\<lambda>q. start q < start r) B = []"
    using assms(2) by (cases B) (auto simp: not_less less_imp_le)
  then have "length (takeWhile (\<lambda>q. start q < start r) (A @ B)) = length A"
    using assms(1) by (simp add: takeWhile_append2)
  moreover have "\<not> (length A < length (A @ B) \<and> start ((A @ B) ! length A) = start r)"
    using assms(2) [of "hd B"] by (cases B) auto
  ultimately show ?thesis
    by (simp only: set_insert_def Let_def if_False) simp
qed

text \<open>
  The list is cut at the two ends of the new range: \<open>p\<close> is the entry the range begins in, \<open>M\<close> the entries that
  start within it, \<open>S\<close> those behind it.
\<close>

definition cut_at :: "'a::linorder \<Rightarrow> 'a \<Rightarrow> 'a addr_range list \<Rightarrow> 'a addr_range \<Rightarrow> 'a addr_range list
    \<Rightarrow> 'a addr_range list \<Rightarrow> bool" where
  "cut_at f l P p M S \<longleftrightarrow> f \<le> l \<and> entries_sorted (P @ p # M @ S) \<and> start p \<le> f
     \<and> (\<forall>q\<in>set M. f < start q \<and> start q \<le> l) \<and> (\<forall>q\<in>set S. l < start q)"

lemma cut_atD:
  assumes "cut_at f l P p M S"
  shows "f \<le> l" and "start p \<le> f" and "q \<in> set P \<Longrightarrow> start q < start p" and "q \<in> set M \<Longrightarrow> f < start q"
    and "q \<in> set M \<Longrightarrow> start q \<le> l" and "q \<in> set S \<Longrightarrow> l < start q"
    and "entries_sorted (P @ [p])" and "entries_sorted S" and "entries_sorted (P @ p # M @ S)"
  using assms by (auto simp: cut_at_def entries_sorted_def sorted_wrt_append)

lemma cut_exists:
  assumes sorted: "entries_sorted m" and ne: "m \<noteq> []" and hd: "start (hd m) \<le> f" and fl: "f \<le> l"
  obtains P p M S where "m = P @ p # M @ S" and "cut_at f l P p M S"
proof -
  define A where "A = takeWhile (\<lambda>r. start r \<le> f) m"
  define B where "B = dropWhile (\<lambda>r. start r \<le> f) m"
  define M where "M = takeWhile (\<lambda>r. start r \<le> l) B"
  define S where "S = dropWhile (\<lambda>r. start r \<le> l) B"
  have m: "m = A @ M @ S" by (simp add: A_def B_def M_def S_def)
  have A: "A \<noteq> []" using ne hd by (cases m) (auto simp: A_def)
  have sortedB: "entries_sorted B"
    using sorted by (metis A_def B_def entries_sorted_def sorted_wrt_append takeWhile_dropWhile_id)
  then have sortedS: "entries_sorted S"
    by (metis M_def S_def entries_sorted_def sorted_wrt_append takeWhile_dropWhile_id)
  have later: "x < start q"
    if rest: "entries_sorted (dropWhile (\<lambda>r. start r \<le> x) m')" "q \<in> set (dropWhile (\<lambda>r. start r \<le> x) m')"
    for x :: 'a and q m'
  proof -
    obtain h t where ht: "dropWhile (\<lambda>r. start r \<le> x) m' = h # t"
      using rest(2) by (cases "dropWhile (\<lambda>r. start r \<le> x) m'") auto
    then have "\<not> start h \<le> x" by (metis dropWhile_eq_Cons_conv)
    with rest ht show ?thesis by (auto simp: entries_sorted_def)
  qed
  have B: "f < start q" if "q \<in> set B" for q
    using later [of f m] sortedB that by (simp add: B_def)
  have S: "l < start q" if "q \<in> set S" for q
    using later [of l B] sortedS that by (simp add: S_def)
  have "q \<in> set B" if "q \<in> set M" for q using that by (auto simp: M_def dest: set_takeWhileD)
  then have M: "f < start q \<and> start q \<le> l" if "q \<in> set M" for q
    using B that by (auto simp: M_def dest: set_takeWhileD)
  have lastA: "last A \<in> set A" using A by simp
  show ?thesis
  proof
    show "m = butlast A @ last A # M @ S" using m A by simp
    then show "cut_at f l (butlast A) (last A) M S"
      using sorted fl M S lastA by (auto simp: cut_at_def A_def dest: set_takeWhileD)
  qed
qed

lemma upper_bound_cut:
  assumes "cut_at f l P p M S"
  shows "upper_bound (P @ p # M @ S) f = length P + 1"
    and "upper_bound (P @ p # M @ S) l = length P + 1 + length M"
proof -
  note c = cut_atD [OF assms]
  have P: "start q \<le> f" if "q \<in> set (P @ [p])" for q
    using that c(2) c(3) [of q] by (auto intro: order_trans less_imp_le)
  have "upper_bound ((P @ [p]) @ (M @ S)) f = length (P @ [p])"
    using P c(1,4,6) by (intro upper_bound_append) (auto intro: le_less_trans)
  then show "upper_bound (P @ p # M @ S) f = length P + 1" by simp
  have "upper_bound ((P @ p # M) @ S) l = length (P @ p # M)"
    using P c(1,5,6) by (intro upper_bound_append) (auto intro: order_trans)
  then show "upper_bound (P @ p # M @ S) l = length P + 1 + length M" by simp
qed

text \<open>The entries up to the new range when it has been written, and those behind it.\<close>

definition front :: "'a \<Rightarrow> u32 \<Rightarrow> 'a addr_range list \<Rightarrow> 'a addr_range \<Rightarrow> 'a addr_range list" where
  "front f flags P p = (if start p \<noteq> f \<and> access p \<noteq> flags then P @ [p, mk_range f flags]
     else if P \<noteq> [] \<and> access (last P) = flags then P
     else if start p = f then P @ [mk_range f flags] else P @ [p])"

definition back_part :: "'a addr_ops \<Rightarrow> 'a \<Rightarrow> u32 \<Rightarrow> u32 \<Rightarrow> 'a addr_range list \<Rightarrow> 'a addr_range list" where
  "back_part ops l la flags S = (let
     S' = (if (case S of [] \<Rightarrow> l \<noteq> max_addr ops | q # _ \<Rightarrow> minus_one ops (start q) \<noteq> l) \<and> la \<noteq> flags
           then mk_range (plus_one ops l) la # S else S)
   in case S' of q # T \<Rightarrow> (if access q = flags then T else S') | [] \<Rightarrow> S')"

lemma add_cover_cut:
  assumes cut: "cut_at f l P p M S"
  shows "add_cover f flags (add_begin f l flags (P @ p # M @ S)) = (front f flags P p @ S, length (front f flags P p))"
proof -
  note c = cut_atD [OF cut]
  consider (split) "start p \<noteq> f" "access p \<noteq> flags"
    | (merge) "start p = f \<or> access p = flags" "P \<noteq> []" "access (last P) = flags"
    | (keep) "start p = f \<or> access p = flags" "P = [] \<or> access (last P) \<noteq> flags"
    by blast
  then show ?thesis
  proof cases
    case split
    then have "start p < f" using c(2) by simp
    then have "set_insert (mk_range f flags) ((P @ [p]) @ (M @ S)) = ((P @ [p]) @ mk_range f flags # (M @ S), length (P @ [p]))"
      using c by (intro set_insert_new) (fastforce dest: less_trans le_less_trans)+
    then have "add_begin f l flags (P @ p # M @ S)
        = (P @ p # mk_range f flags # M @ S, length P + 1, length P + 2 + length M, access p)"
      using split by (simp add: add_begin_def upper_bound_cut [OF cut] moved_def Let_def)
    with split show ?thesis
      by (simp add: add_cover_def front_def nth_append list_update_append)
  next
    case merge
    then obtain P' p' where P: "P = P' @ [p']" by (metis rev_exhaust)
    then have p': "start p' < start p" using c(3) by simp
    then have ne: "start p' \<noteq> f" using c(2) by auto
    have "add_begin f l flags (P @ p # M @ S) = (P @ p # M @ S, length P', length P + 1 + length M, flags)"
      using merge P by (auto simp: add_begin_def upper_bound_cut [OF cut, unfolded P append.assoc append_Cons append_Nil]
          nth_append)
    with merge P ne show ?thesis
      by (auto simp: add_cover_def front_def nth_append)
  next
    case keep
    then have "add_begin f l flags (P @ p # M @ S) = (P @ p # M @ S, length P, length P + 1 + length M, access p)"
      by (auto simp: add_begin_def upper_bound_cut [OF cut] nth_append last_conv_nth Let_def)
    with keep show ?thesis
      by (auto simp: add_cover_def front_def nth_append list_update_append)
  qed
qed

section \<open>The laws of an address type\<close>

locale address_space =
  fixes ops :: "'a::linorder addr_ops"
    and valid :: "'a \<Rightarrow> bool"
  assumes zero_valid: "valid (zero_addr ops)"
    and max_valid: "valid (max_addr ops)"
    and zero_le: "valid a \<Longrightarrow> zero_addr ops \<le> a"
    and le_max: "valid a \<Longrightarrow> a \<le> max_addr ops"
    and plus_valid: "valid a \<Longrightarrow> valid (plus_one ops a)"
    and minus_valid: "valid a \<Longrightarrow> valid (minus_one ops a)"
    and plus_le_iff: "valid a \<Longrightarrow> valid b \<Longrightarrow> a \<noteq> max_addr ops \<Longrightarrow> plus_one ops a \<le> b \<longleftrightarrow> a < b"
    and le_minus_iff: "valid a \<Longrightarrow> valid b \<Longrightarrow> b \<noteq> zero_addr ops \<Longrightarrow> a \<le> minus_one ops b \<longleftrightarrow> a < b"
begin

text \<open>What every operation keeps of the entries, and the rules a filter accepts.\<close>

definition filter_ok :: "'a addr_range list \<Rightarrow> bool" where
  "filter_ok m \<longleftrightarrow> m \<noteq> [] \<and> start (hd m) = zero_addr ops \<and> (\<forall>q\<in>set m. valid (start q))
     \<and> entries_sorted m \<and> entries_minimal m"

definition rule_fits :: "'a ip_range \<Rightarrow> bool" where
  "rule_fits r \<longleftrightarrow> valid (r_first r) \<and> valid (r_last r) \<and> r_first r \<le> r_last r"

lemma filter_okD:
  assumes "filter_ok m"
  shows "m \<noteq> []" and "start (hd m) = zero_addr ops" and "q \<in> set m \<Longrightarrow> valid (start q)"
    and "entries_sorted m" and "entries_minimal m" and "valid a \<Longrightarrow> start (hd m) \<le> a"
  using assms zero_le by (auto simp: filter_ok_def)

lemma filter_ok_new: "filter_ok (new_filter ops)"
  by (simp add: filter_ok_def new_filter_def zero_valid entries_sorted_def entries_minimal_def)

lemma less_plus: "valid a \<Longrightarrow> a \<noteq> max_addr ops \<Longrightarrow> a < plus_one ops a"
  using plus_le_iff [of a "plus_one ops a"] plus_valid by blast

lemma minus_eq_iff:
  assumes "valid a" and "valid b" and "a < b"
  shows "minus_one ops b = a \<longleftrightarrow> plus_one ops a = b"
proof -
  have a: "a \<noteq> max_addr ops" and b: "b \<noteq> zero_addr ops"
    using assms le_max [of b] zero_le [of a] by auto
  have "a \<le> minus_one ops b" using le_minus_iff assms b by blast
  moreover have "plus_one ops a \<le> b" using plus_le_iff assms a by blast
  moreover have "minus_one ops b \<le> a \<longleftrightarrow> \<not> a < minus_one ops b" by auto
  moreover have "a < minus_one ops b \<longleftrightarrow> plus_one ops a < b"
    using plus_le_iff [of a "minus_one ops b"] le_minus_iff [of "plus_one ops a" b] assms a b
    by (simp add: plus_valid minus_valid)
  ultimately show ?thesis by auto
qed

end

section \<open>\<open>add_rule\<close> keeps the entries sorted and minimal, and sets the range\<close>

lemma front_props:
  assumes cut: "cut_at f l P p M S" and minimal: "entries_minimal (P @ [p])"
  shows "front f flags P p \<noteq> []" and "access (last (front f flags P p)) = flags"
    and "q \<in> set (front f flags P p) \<Longrightarrow> start q \<le> f"
    and "entries_sorted (front f flags P p)" and "entries_minimal (front f flags P p)"
    and "start (hd (front f flags P p)) = start (hd (P @ [p]))"
    and "q \<in> set (front f flags P p) \<Longrightarrow> start q \<in> start ` set (P @ [p]) \<or> start q = f"
proof -
  note c = cut_atD [OF cut]
  have P: "start q \<le> f" if "q \<in> set P" for q using that c(2) c(3) by (auto intro: order_trans less_imp_le)
  have P': "start q < f" if "q \<in> set P" for q using that c(2) c(3) by (auto intro: less_le_trans)
  show "front f flags P p \<noteq> []" "access (last (front f flags P p)) = flags"
    by (auto simp: front_def)
  show "start q \<le> f" if "q \<in> set (front f flags P p)"
    using that P c(2) by (auto simp: front_def split: if_splits)
  show "start (hd (front f flags P p)) = start (hd (P @ [p]))"
    by (auto simp: front_def hd_append)
  show "start q \<in> start ` set (P @ [p]) \<or> start q = f" if "q \<in> set (front f flags P p)"
    using that by (auto simp: front_def split: if_splits)
  show "entries_sorted (front f flags P p)"
    using c(2,7) P' by (auto simp: front_def entries_sorted_def sorted_wrt_append)
  show "entries_minimal (front f flags P p)"
    using minimal by (auto simp: front_def entries_minimal_def successively_append_iff)
qed

lemma front_below:
  assumes cut: "cut_at f l P p M S" and minimal: "entries_minimal (P @ [p])"
    and a: "a < f" and hd: "start (hd (P @ [p])) \<le> a"
  shows "access (last (filter (\<lambda>r. start r \<le> a) (front f flags P p)))
    = access (last (filter (\<lambda>r. start r \<le> a) (P @ [p])))"
proof -
  have "access (last P) \<noteq> access p" if "P \<noteq> []"
    using minimal that by (auto simp: entries_minimal_def successively_append_iff)
  with a hd show ?thesis
    by (auto simp: front_def)
qed

context address_space
begin

lemma add_end_cut:
  assumes H: "\<And>q. q \<in> set H \<Longrightarrow> start q \<le> l" and S: "\<And>q. q \<in> set S \<Longrightarrow> l < start q \<and> valid (start q)"
    and sorted: "entries_sorted S" and l: "valid l"
  shows "add_end ops l la flags (H @ S, length H) = H @ back_part ops l la flags S"
proof (cases S)
  case Nil
  have "set_insert (mk_range (plus_one ops l) la) (H @ []) = (H @ mk_range (plus_one ops l) la # [], length H)"
    if "l \<noteq> max_addr ops"
    using H less_plus [OF l that] by (intro set_insert_new) (auto intro: le_less_trans)
  with Nil show ?thesis by (auto simp: add_end_def back_part_def)
next
  case (Cons s T)
  have s: "l < start s" "valid (start s)" using S Cons by auto
  then have l_max: "l \<noteq> max_addr ops" using le_max [of "start s"] by auto
  have "set_insert (mk_range (plus_one ops l) la) (H @ S) = (H @ mk_range (plus_one ops l) la # S, length H)"
    if gap: "minus_one ops (start s) \<noteq> l"
  proof (rule set_insert_new)
    show "start q < start (mk_range (plus_one ops l) la)" if "q \<in> set H" for q
      using H [OF that] less_plus [OF l l_max] by simp
    have "plus_one ops l < start s"
      using plus_le_iff [OF l s(2) l_max] s minus_eq_iff [OF l s(2,1)] gap by auto
    then show "start (mk_range (plus_one ops l) la) < start q" if "q \<in> set S" for q
      using that sorted Cons by (auto simp: entries_sorted_def intro: less_trans)
  qed
  then show ?thesis
    unfolding Cons by (auto simp: add_end_def back_part_def nth_append)
qed

lemma back_props:
  fixes flags :: u32
  assumes S: "\<And>q. q \<in> set S \<Longrightarrow> l < start q \<and> valid (start q)" and l: "valid l"
    and sorted: "entries_sorted S" and minimal: "entries_minimal S"
    and la: "S \<noteq> [] \<Longrightarrow> la \<noteq> access (hd S)"
  defines "T \<equiv> back_part ops l la flags S"
  shows "entries_sorted T" and "entries_minimal T" and "T \<noteq> [] \<Longrightarrow> access (hd T) \<noteq> flags"
    and "q \<in> set T \<Longrightarrow> l < start q \<and> valid (start q)"
    and "valid a \<Longrightarrow> l < a \<Longrightarrow> access e = la \<Longrightarrow> access e' = flags \<Longrightarrow>
      access (last (e # filter (\<lambda>r. start r \<le> a) S)) = access (last (e' # filter (\<lambda>r. start r \<le> a) T))"
proof -
  have gap: "plus_one ops l < start s \<or> plus_one ops l = start s" and l_max: "l \<noteq> max_addr ops"
    and adj: "minus_one ops (start s) = l \<longleftrightarrow> plus_one ops l = start s"
    if "S = s # S'" for s S'
  proof -
    have s: "l < start s" "valid (start s)" using S that by auto
    then show "l \<noteq> max_addr ops" using le_max [of "start s"] by auto
    then show "plus_one ops l < start s \<or> plus_one ops l = start s"
      using plus_le_iff [OF l s(2)] s(1) by auto
    show "minus_one ops (start s) = l \<longleftrightarrow> plus_one ops l = start s"
      using minus_eq_iff [OF l s(2,1)] .
  qed
  show "entries_sorted T"
    using sorted gap adj by (auto simp: T_def back_part_def entries_sorted_def split: list.splits intro: less_trans)
  show "entries_minimal T"
    using minimal la by (cases S) (auto simp: T_def back_part_def entries_minimal_def successively_Cons split: list.splits)
  show "access (hd T) \<noteq> flags" if "T \<noteq> []"
    using that minimal la
    by (cases S) (auto simp: T_def back_part_def entries_minimal_def successively_Cons split: list.splits if_splits)
  show "l < start q \<and> valid (start q)" if "q \<in> set T"
    using that S less_plus [OF l] plus_valid [OF l] l_max
    by (cases S) (auto simp: T_def back_part_def split: list.splits if_splits)
  show "access (last (e # filter (\<lambda>r. start r \<le> a) S)) = access (last (e' # filter (\<lambda>r. start r \<le> a) T))"
    if "valid a" "l < a" "access e = la" "access e' = flags"
  proof (cases S)
    case Nil
    have "l \<noteq> max_addr ops" using that(1,2) le_max [of a] by auto
    moreover have "plus_one ops l \<le> a" using plus_le_iff [OF l that(1)] that(2) calculation by blast
    ultimately show ?thesis using Nil that(3,4) by (auto simp: T_def back_part_def)
  next
    case (Cons s S')
    have "plus_one ops l \<le> a" using plus_le_iff [OF l that(1) l_max [OF Cons]] that(2) by blast
    then show ?thesis
      using gap [OF Cons] adj [OF Cons] la Cons that(3,4) by (auto simp: T_def back_part_def)
  qed
qed

end

context address_space
begin

lemma add_rule_parts:
  assumes ok: "filter_ok m" and f: "valid f" and l: "valid l" and fl: "f \<le> l"
  obtains P p M S la where "m = P @ p # M @ S" and "cut_at f l P p M S" and "entries_minimal (P @ [p])"
    and "entries_minimal S" and "S \<noteq> [] \<Longrightarrow> la \<noteq> access (hd S)" and "la = access (last (p # M))"
    and "\<And>q. q \<in> set S \<Longrightarrow> l < start q \<and> valid (start q)"
    and "add_rule ops f l flags m = front f flags P p @ back_part ops l la flags S"
proof -
  note m = filter_okD [OF ok]
  obtain P p M S where split: "m = P @ p # M @ S" and cut: "cut_at f l P p M S"
    using cut_exists [OF m(4,1) m(6) [OF f] fl] by blast
  let ?la = "access (last (p # M))"
  have minimal: "entries_minimal ((P @ [p]) @ (M @ S))" "entries_minimal ((P @ (p # M)) @ S)"
    using m(5) split by simp_all
  have pm: "entries_minimal (P @ [p])" "entries_minimal S"
    using minimal unfolding entries_minimal_def successively_append_iff by blast+
  have la: "?la \<noteq> access (hd S)" if "S \<noteq> []"
    using minimal(2) that unfolding entries_minimal_def successively_append_iff by (auto simp: last_append)
  have S: "l < start q \<and> valid (start q)" if "q \<in> set S" for q
    using cut_atD(6) [OF cut that] m(3) [of q] that split by simp
  have "m ! (upper_bound m l - 1) = last (p # M)"
    unfolding split upper_bound_cut(2) [OF cut] by (simp add: nth_append last_conv_nth nth_Cons')
  then have "add_rule ops f l flags m
      = add_end ops l ?la flags (front f flags P p @ S, length (front f flags P p))"
    by (simp add: add_rule_def split add_cover_cut [OF cut])
  also have "\<dots> = front f flags P p @ back_part ops l ?la flags S"
    using front_props(3) [OF cut pm(1)] fl S cut_atD(8) [OF cut] l
    by (intro add_end_cut) (auto intro: order_trans)
  finally show ?thesis
    using split cut pm la S by (rule_tac that) auto
qed

lemma filter_ok_add_rule:
  assumes ok: "filter_ok m" and f: "valid f" and l: "valid l" and fl: "f \<le> l"
  shows "filter_ok (add_rule ops f l flags m)"
proof (rule add_rule_parts [OF ok f l fl, where flags = flags])
  fix P p M S la
  assume split: "m = P @ p # M @ S" and cut: "cut_at f l P p M S" and pm: "entries_minimal (P @ [p])"
    and Sm: "entries_minimal S" and la: "S \<noteq> [] \<Longrightarrow> la \<noteq> access (hd S)"
    and S: "\<And>q. q \<in> set S \<Longrightarrow> l < start q \<and> valid (start q)"
    and eq: "add_rule ops f l flags m = front f flags P p @ back_part ops l la flags S"
  note front = front_props [OF cut pm, where flags = flags]
  note behind = back_props [OF S l cut_atD(8) [OF cut] Sm la, where flags = flags]
  have "start (hd (front f flags P p)) = zero_addr ops"
    using front(6) filter_okD(2) [OF ok] split by (simp add: hd_append split: if_splits)
  moreover have "valid (start q)" if "q \<in> set (front f flags P p)" for q
    using front(7) [OF that] f filter_okD(3) [OF ok] split by auto
  moreover have "start q < start r"
    if "q \<in> set (front f flags P p)" "r \<in> set (back_part ops l la flags S)" for q r
    using front(3) [OF that(1)] behind(4) [OF _ _ that(2)] fl by auto
  ultimately show ?thesis
    unfolding eq using front(1,2,4,5) behind(1-4)
    by (auto simp: filter_ok_def entries_sorted_def sorted_wrt_append entries_minimal_def successively_append_iff)
qed

lemma filter_access_add_rule:
  assumes ok: "filter_ok m" and f: "valid f" and l: "valid l" and fl: "f \<le> l" and a: "valid a"
  shows "filter_access (add_rule ops f l flags m) a = (if f \<le> a \<and> a \<le> l then flags else filter_access m a)"
proof (rule add_rule_parts [OF ok f l fl, where flags = flags])
  fix P p M S la
  assume split: "m = P @ p # M @ S" and cut: "cut_at f l P p M S" and pm: "entries_minimal (P @ [p])"
    and Sm: "entries_minimal S" and la: "S \<noteq> [] \<Longrightarrow> la \<noteq> access (hd S)" and la_eq: "la = access (last (p # M))"
    and S: "\<And>q. q \<in> set S \<Longrightarrow> l < start q \<and> valid (start q)"
    and eq: "add_rule ops f l flags m = front f flags P p @ back_part ops l la flags S"
  let ?new = "add_rule ops f l flags m" and ?F = "front f flags P p" and ?B = "back_part ops l la flags S"
  note c = cut_atD [OF cut]
  note front = front_props [OF cut pm, where flags = flags]
  note behind = back_props [OF S l cut_atD(8) [OF cut] Sm la, where flags = flags]
  note ok' = filter_ok_add_rule [OF ok f l fl, of flags]
  have new: "filter_access ?new a = access (last (filter (\<lambda>r. start r \<le> a) (?F @ ?B)))"
    using filter_access_last [of ?new a] filter_okD(1,4) [OF ok'] filter_okD(6) [OF ok' a] eq by simp
  have old: "filter_access m a = access (last (filter (\<lambda>r. start r \<le> a) (P @ p # M @ S)))"
    using filter_access_last [of m a] filter_okD(1,4) [OF ok] filter_okD(6) [OF ok a] split by simp
  have none: "filter (\<lambda>r. start r \<le> a) ?B = []" "filter (\<lambda>r. start r \<le> a) S = []" if "a \<le> l"
    using behind(4) S that by (fastforce simp: filter_empty_conv not_le intro: le_less_trans)+
  have all: "filter (\<lambda>r. start r \<le> a) ?F = ?F" if "f \<le> a"
    using front(3) that by (auto intro!: filter_True intro: order_trans)
  consider (below) "a < f" | (within) "f \<le> a" "a \<le> l" | (above) "l < a" by fastforce
  then show ?thesis
  proof cases
    case below
    have al: "a \<le> l" "\<not> f \<le> a" using below fl by auto
    have "filter (\<lambda>r. start r \<le> a) M = []"
      using c(4) below by (fastforce simp: filter_empty_conv)
    moreover have "start (hd (P @ [p])) \<le> a"
      using filter_okD(6) [OF ok a] split by (simp add: hd_append split: if_splits)
    ultimately show ?thesis
      using new old none [OF al(1)] al front_below [OF cut pm below, of flags] by simp
  next
    case within
    then show ?thesis using new none all front(1,2) by simp
  next
    case above
    have old_all: "filter (\<lambda>r. start r \<le> a) (P @ p # M) = P @ p # M"
      using c(1-5) above fl by (fastforce intro!: filter_True)
    have "filter_access m a = access (last ((last (p # M)) # filter (\<lambda>r. start r \<le> a) S))"
      using old old_all by (simp add: last_append flip: append_Cons append_assoc)
    moreover have "filter_access ?new a = access (last (last ?F # filter (\<lambda>r. start r \<le> a) ?B))"
      using new all above fl front(1) by (auto simp: last_append)
    moreover have "\<not> a \<le> l" using above by simp
    ultimately show ?thesis
      using behind(5) [OF _ _ a above, of "last (p # M)" "last ?F"] la_eq front(2) by simp
  qed
qed

end

section \<open>Rules, exports and the entries\<close>

context address_space
begin

lemma add_rules_Nil [simp]: "add_rules ops [] m = m"
  by (simp add: add_rules_def)

lemma add_rules_snoc:
  "add_rules ops (rs @ [r]) m = add_rule ops (r_first r) (r_last r) (r_flags r) (add_rules ops rs m)"
  by (simp add: add_rules_def)

lemma last_rule_snoc: "last_rule (rs @ [r]) a = (if covers r a then r_flags r else last_rule rs a)"
  by (simp add: last_rule_def)

lemma filter_ok_add_rules:
  "(\<And>r. r \<in> set rs \<Longrightarrow> rule_fits r) \<Longrightarrow> filter_ok (add_rules ops rs (new_filter ops))"
  by (induction rs rule: rev_induct) (auto simp: filter_ok_new add_rules_snoc rule_fits_def intro!: filter_ok_add_rule)

lemma access_new: "valid a \<Longrightarrow> filter_access (new_filter ops) a = 0"
  by (simp add: filter_access_def upper_bound_def new_filter_def zero_le)

lemma access_add_rules:
  assumes "\<And>r. r \<in> set rs \<Longrightarrow> rule_fits r" and a: "valid a"
  shows "filter_access (add_rules ops rs (new_filter ops)) a = last_rule rs a"
  using assms(1)
proof (induction rs rule: rev_induct)
  case Nil
  show ?case by (simp add: access_new a last_rule_def)
next
  case (snoc r rs)
  then have r: "rule_fits r" and ok: "filter_ok (add_rules ops rs (new_filter ops))"
    by (auto intro!: filter_ok_add_rules)
  with a snoc show ?case
    by (simp add: add_rules_snoc last_rule_snoc rule_fits_def covers_def filter_access_add_rule)
qed

text \<open>The entry that answers for an address.\<close>

lemma access_nth:
  assumes ok: "filter_ok m" and k: "k < length m" and lo: "start (m ! k) \<le> a"
    and hi: "Suc k < length m \<Longrightarrow> a < start (m ! Suc k)"
  shows "filter_access m a = access (m ! k)"
proof -
  note m = filter_okD [OF ok]
  have sorted: "start (m ! i) < start (m ! j)" if "i < j" "j < length m" for i j
    using m(4) that by (simp add: entries_sorted_def sorted_wrt_iff_nth_less)
  have "upper_bound (take (Suc k) m @ drop (Suc k) m) a = length (take (Suc k) m)"
  proof (rule upper_bound_append)
    fix r assume "r \<in> set (take (Suc k) m)"
    then obtain i where "i \<le> k" "r = m ! i" using k by (auto simp: in_set_conv_nth less_Suc_eq_le)
    then show "start r \<le> a" using lo sorted [of i k] k by (cases "i = k") auto
  next
    fix r assume "r \<in> set (drop (Suc k) m)"
    then obtain i where i: "i < length (drop (Suc k) m)" "drop (Suc k) m ! i = r"
      by (metis in_set_conv_nth)
    then have "Suc k + i < length m" "r = m ! (Suc k + i)" by auto
    then show "a < start r" using hi sorted [of "Suc k" "Suc k + i"] by (cases "i = 0") auto
  qed
  then show ?thesis using k by (simp add: filter_access_def)
qed

lemma entry_of:
  assumes ok: "filter_ok m" and a: "valid a"
  obtains k where "k < length m" and "start (m ! k) \<le> a" and "Suc k < length m \<Longrightarrow> a < start (m ! Suc k)"
proof -
  define n where "n = length (takeWhile (\<lambda>r. start r \<le> a) m)"
  have n0: "0 < n" using filter_okD(1) [OF ok] filter_okD(6) [OF ok a] by (cases m) (auto simp: n_def)
  have n: "n \<le> length m" by (simp add: n_def length_takeWhile_le)
  show ?thesis
  proof (rule that [of "n - 1"])
    show "n - 1 < length m" using n0 n by simp
    have "takeWhile (\<lambda>r. start r \<le> a) m ! (n - 1) \<in> set (takeWhile (\<lambda>r. start r \<le> a) m)"
      using n0 by (intro nth_mem) (simp add: n_def)
    moreover have "takeWhile (\<lambda>r. start r \<le> a) m ! (n - 1) = m ! (n - 1)"
      using n0 by (intro takeWhile_nth) (simp add: n_def)
    ultimately show "start (m ! (n - 1)) \<le> a" by (auto dest: set_takeWhileD)
    show "a < start (m ! Suc (n - 1))" if "Suc (n - 1) < length m"
      using nth_length_takeWhile [of "\<lambda>r. start r \<le> a" m] n0 that by (simp add: n_def not_le)
  qed
qed

lemma access_start: "filter_ok m \<Longrightarrow> k < length m \<Longrightarrow> filter_access m (start (m ! k)) = access (m ! k)"
  by (rule access_nth) (auto dest!: filter_okD(4) simp: entries_sorted_def sorted_wrt_iff_nth_less)

lemma access_neighbours:
  "filter_ok m \<Longrightarrow> Suc k < length m \<Longrightarrow> access (m ! k) \<noteq> access (m ! Suc k)"
  by (auto dest!: filter_okD(5) simp: entries_minimal_def successively_conv_nth)

section \<open>Exports\<close>

text \<open>A list of ranges describes a filter when it says of every address what the filter says.\<close>

definition describes :: "'a ip_range list \<Rightarrow> 'a addr_range list \<Rightarrow> bool" where
  "describes rs m \<longleftrightarrow> (\<forall>a. valid a \<longrightarrow> (\<exists>r\<in>set rs. covers r a) \<and>
     (\<forall>r\<in>set rs. covers r a \<longrightarrow> r_flags r = filter_access m a))"

lemma length_export [simp]: "length (export_filter ops m) = length m"
  by (induction ops m rule: export_filter.induct) auto

lemma export_minimal:
  assumes ok: "filter_ok m" and rs: "describes rs m"
  shows "length (export_filter ops m) \<le> length rs"
proof -
  have valid: "valid (start (m ! k))" if "k < length m" for k
    using filter_okD(3) [OF ok] that by simp
  have "\<exists>r. r \<in> set rs \<and> covers r (start (m ! k))" if "k < length m" for k
    using rs valid [OF that] unfolding describes_def by blast
  then obtain g where g: "g k \<in> set rs \<and> covers (g k) (start (m ! k))" if "k < length m" for k
    by metis
  have sorted: "start (m ! i) < start (m ! j)" if "i < j" "j < length m" for i j
    using filter_okD(4) [OF ok] that by (simp add: entries_sorted_def sorted_wrt_iff_nth_less)
  have flags: "r_flags r = access (m ! k)" if "r \<in> set rs" "covers r (start (m ! k))" "k < length m" for r k
    using rs that valid [of k] access_start [OF ok that(3)] by (auto simp: describes_def)
  have less: "g i \<noteq> g j" if ij: "i < j" "j < length m" for i j
  proof
    assume eq: "g i = g j"
    have "start (m ! i) < start (m ! Suc i)" "start (m ! Suc i) \<le> start (m ! j)"
      using sorted [of i "Suc i"] sorted [of "Suc i" j] ij by (cases "Suc i = j"; auto)+
    then have "covers (g i) (start (m ! Suc i))"
      using g [of i] g [of j] ij eq by (auto simp: covers_def)
    then show False
      using flags [of "g i" i] flags [of "g i" "Suc i"] g [of i] access_neighbours [OF ok, of i] ij by auto
  qed
  have "inj_on g {..<length m}"
  proof (rule inj_onI)
    fix i j assume "i \<in> {..<length m}" "j \<in> {..<length m}" "g i = g j"
    then show "i = j" using less [of i j] less [of j i] by (metis lessThan_iff linorder_neqE_nat)
  qed
  then have "card {..<length m} \<le> card (set rs)"
    using g by (intro card_inj_on_le [where f = g]) auto
  also have "\<dots> \<le> length rs" by (rule card_length)
  finally show ?thesis by simp
qed

end

context address_space
begin

text \<open>A filter has only one list of entries: its starts are the addresses where the flags change.\<close>

lemma starts_eq:
  assumes ok: "filter_ok m"
  shows "start ` set m = {a. valid a \<and> (a = zero_addr ops \<or> filter_access m (minus_one ops a) \<noteq> filter_access m a)}"
proof (intro equalityI subsetI CollectI)
  fix a assume "a \<in> start ` set m"
  then obtain k where k: "k < length m" "a = start (m ! k)" by (auto simp: in_set_conv_nth)
  then have a: "valid a" using filter_okD(3) [OF ok] by simp
  have "filter_access m (minus_one ops a) \<noteq> filter_access m a" if a0: "a \<noteq> zero_addr ops"
  proof -
    obtain j where j: "k = Suc j"
      using k a0 filter_okD(1,2) [OF ok] by (cases k) (auto simp: hd_conv_nth)
    have "start (m ! j) < a"
      using filter_okD(4) [OF ok] k j by (simp add: entries_sorted_def sorted_wrt_iff_nth_less)
    moreover have "valid (start (m ! j))" using filter_okD(3) [OF ok] k j by simp
    moreover have "minus_one ops a < a" using le_minus_iff [of "minus_one ops a" a] a a0 minus_valid by auto
    ultimately have "filter_access m (minus_one ops a) = access (m ! j)"
      using k j le_minus_iff a a0 by (intro access_nth [OF ok]) auto
    then show ?thesis using access_neighbours [OF ok, of j] access_start [OF ok] k j by simp
  qed
  with a show "valid a \<and> (a = zero_addr ops \<or> filter_access m (minus_one ops a) \<noteq> filter_access m a)" by blast
next
  fix a assume "a \<in> {a. valid a \<and> (a = zero_addr ops \<or> filter_access m (minus_one ops a) \<noteq> filter_access m a)}"
  then have a: "valid a" "a = zero_addr ops \<or> filter_access m (minus_one ops a) \<noteq> filter_access m a" by auto
  obtain k where k: "k < length m" "start (m ! k) \<le> a" "Suc k < length m \<Longrightarrow> a < start (m ! Suc k)"
    using entry_of [OF ok a(1)] by blast
  have "start (m ! k) = a"
  proof (rule ccontr)
    assume "start (m ! k) \<noteq> a"
    with k(2) have less: "start (m ! k) < a" by simp
    have v: "valid (start (m ! k))" using filter_okD(3) [OF ok] k by simp
    then have a0: "a \<noteq> zero_addr ops" using less zero_le [OF v] by auto
    then have "start (m ! k) \<le> minus_one ops a" "minus_one ops a < a"
      using le_minus_iff [OF v a(1)] le_minus_iff [of "minus_one ops a" a] a less minus_valid by auto
    then have "filter_access m (minus_one ops a) = access (m ! k)"
      using k by (intro access_nth [OF ok]) (auto intro: less_trans)
    moreover have "filter_access m a = access (m ! k)" using k by (intro access_nth [OF ok]) auto
    ultimately show False using a(2) a0 by simp
  qed
  then show "a \<in> start ` set m" using k(1) by force
qed

lemma filter_unique:
  assumes ok: "filter_ok m" "filter_ok m'" and eq: "\<And>a. valid a \<Longrightarrow> filter_access m a = filter_access m' a"
  shows "m = m'"
proof -
  have "start ` set m = start ` set m'"
    unfolding starts_eq [OF ok(1)] starts_eq [OF ok(2)] using eq minus_valid by auto
  then have starts: "map start m = map start m'"
    using filter_okD(4) [OF ok(1)] filter_okD(4) [OF ok(2)]
    by (intro strict_sorted_equal) (auto simp: entries_sorted_def sorted_wrt_map)
  then have len: "length m = length m'" by (rule map_eq_imp_length_eq)
  show ?thesis
  proof (rule nth_equalityI [OF len])
    fix k assume k: "k < length m"
    have s: "start (m ! k) = start (m' ! k)" using starts k len by (metis nth_map)
    have "valid (start (m ! k))" using filter_okD(3) [OF ok(1)] k by simp
    then have "access (m ! k) = access (m' ! k)"
      using eq access_start [OF ok(1) k] access_start [OF ok(2), of k] k len s by simp
    with s show "m ! k = m' ! k" by (simp add: addr_range.equality)
  qed
qed

lemma export_nth:
  "k < length m \<Longrightarrow> export_filter ops m ! k = \<lparr>r_first = start (m ! k),
     r_last = (if Suc k < length m then minus_one ops (start (m ! Suc k)) else max_addr ops), r_flags = access (m ! k)\<rparr>"
  by (induction ops m arbitrary: k rule: export_filter.induct) (auto simp: nth_Cons split: nat.splits)

lemma export_cover_iff:
  assumes ok: "filter_ok m" and k: "k < length m" and a: "valid a"
  shows "covers (export_filter ops m ! k) a \<longleftrightarrow> start (m ! k) \<le> a \<and> (Suc k < length m \<longrightarrow> a < start (m ! Suc k))"
proof (cases "Suc k < length m")
  case True
  have v: "valid (start (m ! k))" "valid (start (m ! Suc k))" using filter_okD(3) [OF ok] k True by auto
  have "start (m ! k) < start (m ! Suc k)"
    using filter_okD(4) [OF ok] True by (simp add: entries_sorted_def sorted_wrt_iff_nth_less)
  then have "start (m ! Suc k) \<noteq> zero_addr ops" using zero_le [OF v(1)] by auto
  then show ?thesis using True k le_minus_iff [OF a v(2)] by (simp add: export_nth covers_def)
next
  case False
  then show ?thesis using k le_max [OF a] by (simp add: export_nth covers_def)
qed

lemma export_describes: "filter_ok m \<Longrightarrow> describes (export_filter ops m) m"
  unfolding describes_def
proof (intro allI impI conjI ballI)
  fix a assume ok: "filter_ok m" and a: "valid a"
  obtain k where "k < length m" "start (m ! k) \<le> a" "Suc k < length m \<Longrightarrow> a < start (m ! Suc k)"
    using entry_of [OF ok a] by blast
  then show "\<exists>r\<in>set (export_filter ops m). covers r a"
    using export_cover_iff [OF ok _ a, of k] by (intro bexI [of _ "export_filter ops m ! k"]) auto
next
  fix a r assume ok: "filter_ok m" and a: "valid a" and r: "r \<in> set (export_filter ops m)" "covers r a"
  then obtain k where k: "k < length m" "r = export_filter ops m ! k" by (auto simp: in_set_conv_nth)
  then have "filter_access m a = access (m ! k)"
    using r(2) export_cover_iff [OF ok k(1) a] by (intro access_nth [OF ok]) auto
  then show "r_flags r = filter_access m a" using k by (simp add: export_nth)
qed

lemma last_rule_describes: "describes rs m \<Longrightarrow> valid a \<Longrightarrow> last_rule rs a = filter_access m a"
proof -
  assume rs: "describes rs m" and a: "valid a"
  have "last_rule qs a = v" if "\<exists>r\<in>set qs. covers r a" "\<forall>r\<in>set qs. covers r a \<longrightarrow> r_flags r = v" for qs v
    using that by (induction qs rule: rev_induct) (auto simp: last_rule_snoc)
  with rs a show ?thesis unfolding describes_def by blast
qed

lemma export_fits:
  assumes ok: "filter_ok m" and r: "r \<in> set (export_filter ops m)"
  shows "rule_fits r"
proof -
  obtain k where k: "k < length m" "r = export_filter ops m ! k" using r by (auto simp: in_set_conv_nth)
  have v: "valid (start (m ! k))" using filter_okD(3) [OF ok] k by simp
  have "covers r (start (m ! k))"
    using filter_okD(4) [OF ok] export_cover_iff [OF ok k(1) v] k
    by (auto simp: entries_sorted_def sorted_wrt_iff_nth_less)
  moreover have "valid (r_last r)" using k filter_okD(3) [OF ok] by (simp add: export_nth max_valid minus_valid)
  ultimately show ?thesis using v k by (simp add: rule_fits_def covers_def export_nth)
qed

lemma export_roundtrip:
  assumes ok: "filter_ok m"
  shows "add_rules ops (export_filter ops m) (new_filter ops) = m"
proof (rule filter_unique [OF _ ok])
  show "filter_ok (add_rules ops (export_filter ops m) (new_filter ops))"
    by (rule filter_ok_add_rules [OF export_fits [OF ok]])
  show "filter_access (add_rules ops (export_filter ops m) (new_filter ops)) a = filter_access m a"
    if "valid a" for a
    using access_add_rules [OF export_fits [OF ok] that] last_rule_describes [OF export_describes [OF ok] that] by simp
qed

end

section \<open>Ports and byte arrays are address types\<close>

lemma word_plus_one_le:
  fixes s t :: "'a::len word"
  assumes "s \<noteq> - 1"
  shows "s + 1 \<le> t \<longleftrightarrow> s < t"
proof -
  have "unat (1 + s) = Suc (unat s)"
    using assms by (intro unatSuc) (metis add.commute add_eq_0_iff)
  then show ?thesis by (simp add: word_le_nat_alt word_less_nat_alt add.commute Suc_le_eq)
qed

lemma word_le_minus_one:
  fixes s t :: "'a::len word"
  assumes "t \<noteq> 0"
  shows "s \<le> t - 1 \<longleftrightarrow> s < t"
proof -
  have "unat (t - 1) = unat t - 1" "0 < unat t"
    using assms unat_minus_one [of t] by (auto simp: unat_gt_0)
  then show ?thesis by (simp add: word_le_nat_alt word_less_nat_alt) linarith
qed

lemma u16_max: "(65535 :: u16) = - 1" and u8_max: "(255 :: u8) = - 1"
  by simp_all

interpretation ports: address_space port_ops "\<lambda>_. True"
proof unfold_locales
  fix a b :: u16
  show "zero_addr port_ops \<le> a" by (simp add: port_ops_def)
  show "a \<le> max_addr port_ops" by (simp only: port_ops_def addr_ops.simps u16_max word_order.extremum)
  show "(plus_one port_ops a \<le> b) = (a < b)" if "a \<noteq> max_addr port_ops"
    using word_plus_one_le [of a b] that by (simp add: port_ops_def flip: u16_max)
  show "(a \<le> minus_one port_ops b) = (a < b)" if "b \<noteq> zero_addr port_ops"
    using word_le_minus_one [of b a] that by (simp add: port_ops_def)
qed simp_all

lemma snoc_less_snoc:
  fixes xs ys :: "'a::linorder list"
  shows "length xs = length ys \<Longrightarrow> xs @ [s] < ys @ [t] \<longleftrightarrow> xs < ys \<or> xs = ys \<and> s < t"
  by (induction xs ys rule: list_induct2) auto

lemma snoc_le_snoc:
  fixes xs ys :: "'a::linorder list"
  shows "length xs = length ys \<Longrightarrow> xs @ [s] \<le> ys @ [t] \<longleftrightarrow> xs < ys \<or> xs = ys \<and> s \<le> t"
  by (induction xs ys rule: list_induct2) auto

lemma bytes_plus_one_simps [simp]:
  "bytes_plus_one [] = []"
  "bytes_plus_one (xs @ [t]) = (if t < 255 then xs @ [t + 1] else bytes_plus_one xs @ [0])"
  by (simp_all add: bytes_plus_one_def)

lemma bytes_minus_one_simps [simp]:
  "bytes_minus_one [] = []"
  "bytes_minus_one (xs @ [t]) = (if 0 < t then xs @ [t - 1] else bytes_minus_one xs @ [255])"
  by (simp_all add: bytes_minus_one_def)

lemma length_bytes_one [simp]:
  "length (bytes_plus_one a) = length a" "length (bytes_minus_one a) = length a"
  by (induction a rule: rev_induct) auto

lemma u8_le_max: "(t :: u8) \<le> 255"
  by (simp only: u8_max word_order.extremum)

lemma u8_eq_max: "\<not> (t :: u8) < 255 \<Longrightarrow> t = 255"
  using u8_le_max [of t] by simp

lemma zero_bytes_le: "length a = n \<Longrightarrow> replicate n (0 :: u8) \<le> a"
  by (induction a arbitrary: n) (auto simp: word_neq_0_conv)

lemma bytes_le_max: "length a = n \<Longrightarrow> a \<le> replicate n (255 :: u8)"
proof (induction a arbitrary: n)
  case (Cons t a)
  then show ?case using u8_le_max [of t] by (auto simp: order_le_less)
qed simp

lemma bytes_plus_le:
  "length a = length b \<Longrightarrow> a \<noteq> replicate (length a) 255 \<Longrightarrow> bytes_plus_one a \<le> b \<longleftrightarrow> a < b"
proof (induction a arbitrary: b rule: rev_induct)
  case (snoc s xs)
  then obtain ys t where b: "b = ys @ [t]" "length xs = length ys"
    by (cases b rule: rev_exhaust) auto
  show ?case
  proof (cases "s < 255")
    case True
    then have "s + 1 \<le> t \<longleftrightarrow> s < t" by (intro word_plus_one_le) auto
    with True b show ?thesis by (simp add: snoc_less_snoc snoc_le_snoc)
  next
    case False
    then have s: "s = 255" by (rule u8_eq_max)
    with snoc.prems have "xs \<noteq> replicate (length xs) 255"
      by (metis length_append_singleton replicate_Suc replicate_append_same)
    with snoc.IH [OF b(2)] s b show ?thesis
      using u8_le_max [of t] by (auto simp: snoc_less_snoc snoc_le_snoc order_le_less not_less word_gt_0)
  qed
qed simp

lemma bytes_le_minus:
  "length a = length b \<Longrightarrow> b \<noteq> replicate (length b) 0 \<Longrightarrow> a \<le> bytes_minus_one b \<longleftrightarrow> a < b"
proof (induction b arbitrary: a rule: rev_induct)
  case (snoc t ys)
  then obtain xs s where a: "a = xs @ [s]" "length xs = length ys"
    by (cases a rule: rev_exhaust) auto
  show ?case
  proof (cases "0 < t")
    case True
    then have "s \<le> t - 1 \<longleftrightarrow> s < t" by (intro word_le_minus_one) auto
    with True a show ?thesis by (simp add: snoc_less_snoc snoc_le_snoc)
  next
    case False
    then have t: "t = 0" by (simp add: word_neq_0_conv [symmetric] del: word_neq_0_conv)
    with snoc.prems have "ys \<noteq> replicate (length ys) 0"
      by (metis length_append_singleton replicate_Suc replicate_append_same)
    with snoc.IH [OF a(2)] t a show ?thesis
      using u8_le_max [of s] by (auto simp: snoc_less_snoc snoc_le_snoc order_le_less)
  qed
qed simp

lemma bytes_space: "address_space (bytes_ops n) (\<lambda>a. length a = n)"
  by unfold_locales (auto simp: bytes_ops_def zero_bytes_le bytes_le_max bytes_plus_le bytes_le_minus)

interpretation ipv4: address_space "bytes_ops 4" "\<lambda>a. length a = 4"
  by (rule bytes_space)

interpretation ipv6: address_space "bytes_ops 16" "\<lambda>a. length a = 16"
  by (rule bytes_space)

section \<open>The two filters\<close>

text \<open>Rules of the IP filter: two addresses of one family, in order, with the flags of the range.\<close>

type_synonym ip_rule = "address \<times> address \<times> u32"

fun address_ok :: "address \<Rightarrow> bool" where
  "address_ok (V4 a) \<longleftrightarrow> length a = 4"
| "address_ok (V6 a) \<longleftrightarrow> length a = 16"

fun in_rule :: "ip_rule \<Rightarrow> address \<Rightarrow> bool" where
  "in_rule (V4 a, V4 b, _) (V4 x) \<longleftrightarrow> a \<le> x \<and> x \<le> b"
| "in_rule (V6 a, V6 b, _) (V6 x) \<longleftrightarrow> a \<le> x \<and> x \<le> b"
| "in_rule _ _ \<longleftrightarrow> False"

definition rule_ok :: "ip_rule \<Rightarrow> bool" where
  "rule_ok = (\<lambda>(a, b, fl). address_ok a \<and> address_ok b \<and> in_rule (a, b, fl) a)"

primrec ip_add_rules :: "ip_rule list \<Rightarrow> ip_filter \<Rightarrow> ip_filter option" where
  "ip_add_rules [] f = Some f"
| "ip_add_rules (r # rs) f = (case r of (a, b, fl) \<Rightarrow> Option.bind (ip_add_rule a b fl f) (ip_add_rules rs))"

text \<open>The reference answer: the flags of the last rule that covers the address, 0 if there is none.\<close>

primrec last_match :: "u32 \<Rightarrow> ip_rule list \<Rightarrow> address \<Rightarrow> u32" where
  "last_match fl [] x = fl"
| "last_match fl (r # rs) x = last_match (if in_rule r x then snd (snd r) else fl) rs x"

fun rules4 :: "ip_rule list \<Rightarrow> u8 list ip_range list" where
  "rules4 [] = []"
| "rules4 ((V4 a, V4 b, fl) # rs) = \<lparr>r_first = a, r_last = b, r_flags = fl\<rparr> # rules4 rs"
| "rules4 (_ # rs) = rules4 rs"

fun rules6 :: "ip_rule list \<Rightarrow> u8 list ip_range list" where
  "rules6 [] = []"
| "rules6 ((V6 a, V6 b, fl) # rs) = \<lparr>r_first = a, r_last = b, r_flags = fl\<rparr> # rules6 rs"
| "rules6 (_ # rs) = rules6 rs"

lemma rule_ok_cases:
  assumes "rule_ok r"
  obtains (v4) a b fl where "r = (V4 a, V4 b, fl)" "length a = 4" "length b = 4" "a \<le> b"
    | (v6) a b fl where "r = (V6 a, V6 b, fl)" "length a = 16" "length b = 16" "a \<le> b"
proof -
  obtain a b fl where "r = (a, b, fl)" by (cases r)
  with assms that show thesis by (cases a; cases b) (auto simp: rule_ok_def)
qed

lemma ip_add_rules_parts:
  "list_all rule_ok rs \<Longrightarrow> ip_add_rules rs f
    = Some (f\<lparr>m_filter4 := add_rules (bytes_ops 4) (rules4 rs) (m_filter4 f),
              m_filter6 := add_rules (bytes_ops 16) (rules6 rs) (m_filter6 f)\<rparr>)"
proof (induction rs arbitrary: f)
  case Nil
  show ?case by (simp add: add_rules_def)
next
  case (Cons r rs)
  then have "rule_ok r" by simp
  then show ?case
    by (cases rule: rule_ok_cases) (use Cons in \<open>auto simp: add_rules_def\<close>)
qed

lemma rules4_fit: "list_all rule_ok rs \<Longrightarrow> r \<in> set (rules4 rs) \<Longrightarrow> ipv4.rule_fits r"
proof (induction rs)
  case (Cons x xs)
  from Cons.prems have "rule_ok x" by simp
  then show ?case
    by (cases rule: rule_ok_cases) (use Cons in \<open>auto simp: ipv4.rule_fits_def\<close>)
qed simp

lemma rules6_fit: "list_all rule_ok rs \<Longrightarrow> r \<in> set (rules6 rs) \<Longrightarrow> ipv6.rule_fits r"
proof (induction rs)
  case (Cons x xs)
  from Cons.prems have "rule_ok x" by simp
  then show ?case
    by (cases rule: rule_ok_cases) (use Cons in \<open>auto simp: ipv6.rule_fits_def\<close>)
qed simp

lemma last_match_rules4:
  "list_all rule_ok rs \<Longrightarrow>
    last_match fl rs (V4 a) = foldl (\<lambda>fl r. if covers r a then r_flags r else fl) fl (rules4 rs)"
proof (induction rs arbitrary: fl)
  case (Cons x xs)
  from Cons.prems have "rule_ok x" by simp
  then show ?case
    by (cases rule: rule_ok_cases) (use Cons in \<open>auto simp: covers_def\<close>)
qed simp

lemma last_match_rules6:
  "list_all rule_ok rs \<Longrightarrow>
    last_match fl rs (V6 a) = foldl (\<lambda>fl r. if covers r a then r_flags r else fl) fl (rules6 rs)"
proof (induction rs arbitrary: fl)
  case (Cons x xs)
  from Cons.prems have "rule_ok x" by simp
  then show ?case
    by (cases rule: rule_ok_cases) (use Cons in \<open>auto simp: covers_def\<close>)
qed simp

lemmas rules_fit = rules4_fit rules6_fit

lemmas last_match_rules = last_match_rules4 last_match_rules6

text \<open>The filter a list of rules builds from nothing, and what holds of it.\<close>

definition built :: "ip_rule list \<Rightarrow> ip_filter" where
  "built rs = \<lparr>m_filter4 = add_rules (bytes_ops 4) (rules4 rs) (new_filter (bytes_ops 4)),
     m_filter6 = add_rules (bytes_ops 16) (rules6 rs) (new_filter (bytes_ops 16))\<rparr>"

lemma ip_add_rules_new: "list_all rule_ok rs \<Longrightarrow> ip_add_rules rs ip_filter_new = Some (built rs)"
  by (simp add: ip_add_rules_parts built_def ip_filter_new_def)

lemma built_ok:
  assumes "list_all rule_ok rs"
  shows "ipv4.filter_ok (m_filter4 (built rs))" and "ipv6.filter_ok (m_filter6 (built rs))"
  using ipv4.filter_ok_add_rules ipv6.filter_ok_add_rules rules_fit [OF assms] by (auto simp: built_def)

lemma ip_access_built:
  assumes "list_all rule_ok rs" and "address_ok x"
  shows "ip_access (built rs) x = last_match 0 rs x"
  using ipv4.access_add_rules ipv6.access_add_rules rules_fit [OF assms(1)] last_match_rules [OF assms(1)] assms(2)
  by (cases x) (auto simp: built_def last_rule_def)

text \<open>
  A description of both halves of a filter by lists of ranges: each address is in some range, and a range has the flags
  the filter answers for all its addresses.
\<close>

definition ip_described :: "u8 list ip_range list \<times> u8 list ip_range list \<Rightarrow> ip_filter \<Rightarrow> bool" where
  "ip_described d f \<longleftrightarrow>
     (\<forall>a. length a = 4 \<longrightarrow> (\<exists>r\<in>set (fst d). covers r a)
        \<and> (\<forall>r\<in>set (fst d). covers r a \<longrightarrow> r_flags r = ip_access f (V4 a)))
   \<and> (\<forall>a. length a = 16 \<longrightarrow> (\<exists>r\<in>set (snd d). covers r a)
        \<and> (\<forall>r\<in>set (snd d). covers r a \<longrightarrow> r_flags r = ip_access f (V6 a)))"

text \<open>The ranges of an export, as rules.\<close>

definition export_rules :: "u8 list ip_range list \<times> u8 list ip_range list \<Rightarrow> ip_rule list" where
  "export_rules d = map (\<lambda>r. (V4 (r_first r), V4 (r_last r), r_flags r)) (fst d)
     @ map (\<lambda>r. (V6 (r_first r), V6 (r_last r), r_flags r)) (snd d)"

lemma rules_export_rules [simp]:
  "rules4 (export_rules (as, bs)) = as" "rules6 (export_rules (as, bs)) = bs"
proof -
  have app4: "rules4 (rs @ qs) = rules4 rs @ rules4 qs" for rs qs
    by (induction rs rule: rules4.induct) auto
  have app6: "rules6 (rs @ qs) = rules6 rs @ rules6 qs" for rs qs
    by (induction rs rule: rules6.induct) auto
  have "rules4 (map (\<lambda>r. (V4 (r_first r), V4 (r_last r), r_flags r)) as) = as"
    "rules6 (map (\<lambda>r. (V4 (r_first r), V4 (r_last r), r_flags r)) as) = []" for as
    by (induction as) auto
  moreover have "rules6 (map (\<lambda>r. (V6 (r_first r), V6 (r_last r), r_flags r)) bs) = bs"
    "rules4 (map (\<lambda>r. (V6 (r_first r), V6 (r_last r), r_flags r)) bs) = []" for bs
    by (induction bs) auto
  ultimately show "rules4 (export_rules (as, bs)) = as" "rules6 (export_rules (as, bs)) = bs"
    by (simp_all add: export_rules_def app4 app6)
qed

text \<open>
  C13: whatever rules are added to a new IP filter, each of one family and with its addresses in order, no call
  throws, and the filter answers for every address with the flags of the last rule that covers it, or 0.
\<close>

theorem ip_filter_last_rule_wins:
  assumes "list_all rule_ok rs" and "address_ok x"
  shows "map_option (\<lambda>f. ip_access f x) (ip_add_rules rs ip_filter_new) = Some (last_match 0 rs x)"
  using assms by (simp add: ip_add_rules_new ip_access_built)

text \<open>
  C18: the export of an IP filter has the minimum number of ranges, for IPv4 and for IPv6: no list of ranges that says of
  every address what the filter says is shorter.
\<close>

theorem ip_export_minimal:
  assumes rules: "list_all rule_ok rs" and f: "ip_add_rules rs ip_filter_new = Some f" and d: "ip_described d f"
  shows "length (fst (ip_export_filter f)) \<le> length (fst d) \<and> length (snd (ip_export_filter f)) \<le> length (snd d)"
proof -
  have f: "f = built rs" using f ip_add_rules_new [OF rules] by simp
  have "ipv4.describes (fst d) (m_filter4 f)" "ipv6.describes (snd d) (m_filter6 f)"
    using d by (auto simp: ip_described_def ipv4.describes_def ipv6.describes_def)
  then show ?thesis
    using ipv4.export_minimal ipv6.export_minimal built_ok [OF rules] f unfolding ip_export_filter_def by simp
qed

text \<open>
  C19: adding the ranges of an exported IP filter to a new filter, as rules, gives the same filter, entry by entry.
\<close>

theorem ip_export_roundtrip:
  assumes rules: "list_all rule_ok rs" and f: "ip_add_rules rs ip_filter_new = Some f"
  shows "ip_add_rules (export_rules (ip_export_filter f)) ip_filter_new = Some f"
proof -
  have f: "f = built rs" using f ip_add_rules_new [OF rules] by simp
  note ok = built_ok [OF rules]
  let ?e = "export_rules (ip_export_filter f)"
  have "rule_ok (V4 (r_first r), V4 (r_last r), r_flags r)" if "ipv4.rule_fits r" for r
    using that by (simp add: rule_ok_def ipv4.rule_fits_def)
  moreover have "rule_ok (V6 (r_first r), V6 (r_last r), r_flags r)" if "ipv6.rule_fits r" for r
    using that by (simp add: rule_ok_def ipv6.rule_fits_def)
  ultimately have "list_all rule_ok ?e"
    using ipv4.export_fits [OF ok(1)] ipv6.export_fits [OF ok(2)] f
    by (auto simp: export_rules_def ip_export_filter_def list_all_iff)
  moreover have "built ?e = f"
    using ipv4.export_roundtrip [OF ok(1)] ipv6.export_roundtrip [OF ok(2)] f
    unfolding built_def [of ?e] by (simp add: ip_export_filter_def)
  ultimately show ?thesis by (simp add: ip_add_rules_new)
qed

text \<open>
  C34: the port filter answers for every port with the flags of the last rule that covers it, or 0, for all rules whose
  ports are in order.
\<close>

theorem port_filter_last_rule_wins:
  assumes "list_all (\<lambda>r. r_first r \<le> r_last r) rs"
  shows "port_access (foldl (\<lambda>m r. port_add_rule (r_first r) (r_last r) (r_flags r) m) (new_filter port_ops) rs) p
    = last_rule rs p"
  using ports.access_add_rules [of rs p] assms
  by (simp add: port_access_def port_add_rule_def add_rules_def ports.rule_fits_def list_all_iff)

section \<open>Examples\<close>

text \<open>Ten to the eighth bytes blocked but for one network, and an IPv6 rule.\<close>

definition demo_rules :: "ip_rule list" where
  "demo_rules = [(V4 [10, 0, 0, 0], V4 [10, 255, 255, 255], 1), (V4 [10, 1, 0, 0], V4 [10, 1, 255, 255], 0),
     (V6 (replicate 16 0), V6 (0 # replicate 15 255), 1)]"

lemma demo_rules_ok: "list_all rule_ok demo_rules"
  by (simp add: demo_rules_def rule_ok_def numeral_eq_Suc)

theorem ip_filter_last_rule_wins_witness:
  "map_option (\<lambda>f. ip_access f (V4 [10, 2, 3, 4])) (ip_add_rules demo_rules ip_filter_new) = Some 1"
  using ip_filter_last_rule_wins [OF demo_rules_ok, of "V4 [10, 2, 3, 4]"] by (simp add: demo_rules_def)

theorem ip_export_roundtrip_witness:
  "ip_add_rules (export_rules (ip_export_filter (built demo_rules))) ip_filter_new = Some (built demo_rules)"
  by (rule ip_export_roundtrip [OF demo_rules_ok ip_add_rules_new [OF demo_rules_ok]])

definition demo_ports :: "u16 ip_range list" where
  "demo_ports = [\<lparr>r_first = 0, r_last = 1023, r_flags = 1\<rparr>, \<lparr>r_first = 80, r_last = 80, r_flags = 0\<rparr>]"

theorem port_filter_last_rule_wins_witness:
  "port_access (foldl (\<lambda>m r. port_add_rule (r_first r) (r_last r) (r_flags r) m) (new_filter port_ops) demo_ports) 443 = 1"
  using port_filter_last_rule_wins [of demo_ports 443] by (simp add: demo_ports_def last_rule_def covers_def)

text \<open>The upper half of IPv4 blocked, described with one range more than needed.\<close>

definition half_rules :: "ip_rule list" where
  "half_rules = [(V4 [128, 0, 0, 0], V4 [255, 255, 255, 255], 1)]"

definition half_ranges :: "u8 list ip_range list \<times> u8 list ip_range list" where
  "half_ranges = ([\<lparr>r_first = [0, 0, 0, 0], r_last = [63, 255, 255, 255], r_flags = 0\<rparr>,
      \<lparr>r_first = [64, 0, 0, 0], r_last = [127, 255, 255, 255], r_flags = 0\<rparr>,
      \<lparr>r_first = [128, 0, 0, 0], r_last = [255, 255, 255, 255], r_flags = 1\<rparr>],
    [\<lparr>r_first = replicate 16 0, r_last = replicate 16 255, r_flags = 0\<rparr>])"

lemma half_rules_ok: "list_all rule_ok half_rules"
  by (simp add: half_rules_def rule_ok_def)

lemma half_described: "ip_described half_ranges (built half_rules)"
proof -
  have v4: "(\<exists>r\<in>set (fst half_ranges). covers r a)
      \<and> (\<forall>r\<in>set (fst half_ranges). covers r a \<longrightarrow> r_flags r = ip_access (built half_rules) (V4 a))"
    if a: "length a = 4" for a
  proof -
    obtain w x y z where a_eq: "a = [w, x, y, z]"
      using a by (auto simp: length_Suc_conv numeral_eq_Suc)
    have le: "x \<le> 255" "y \<le> 255" "z \<le> 255" by (rule u8_le_max)+
    have bounds: "[n, 0, 0, 0] \<le> a \<longleftrightarrow> n \<le> w" "a \<le> [n, 255, 255, 255] \<longleftrightarrow> w \<le> n" for n
      using le by (auto simp: a_eq order_le_less word_gt_0)
    have answer: "ip_access (built half_rules) (V4 a) = (if 128 \<le> w then 1 else 0)"
      using u8_le_max [of w] ip_access_built [OF half_rules_ok, of "V4 a"] a by (simp add: half_rules_def bounds)
    have "w \<le> 63 \<or> 64 \<le> w \<and> w \<le> 127 \<or> 128 \<le> w" by uint_arith
    moreover have "w \<le> 63 \<Longrightarrow> \<not> 128 \<le> w" "w \<le> 127 \<Longrightarrow> \<not> 128 \<le> w" by uint_arith+
    ultimately show ?thesis
      using u8_le_max [of w]
      by (auto simp: half_ranges_def covers_def bounds answer simp del: ip_access.simps)
  qed
  have v6: "(\<exists>r\<in>set (snd half_ranges). covers r a)
      \<and> (\<forall>r\<in>set (snd half_ranges). covers r a \<longrightarrow> r_flags r = ip_access (built half_rules) (V6 a))"
    if a: "length a = 16" for a
    using zero_bytes_le [OF a] bytes_le_max [OF a] ip_access_built [OF half_rules_ok, of "V6 a"] a
    by (simp add: half_ranges_def covers_def half_rules_def del: ip_access.simps)
  show ?thesis unfolding ip_described_def using v4 v6 by blast
qed

theorem ip_export_minimal_witness:
  "length (fst (ip_export_filter (built half_rules))) \<le> 3 \<and> length (snd (ip_export_filter (built half_rules))) \<le> 1"
  using ip_export_minimal [OF half_rules_ok ip_add_rules_new [OF half_rules_ok] half_described]
  by (simp add: half_ranges_def)

end
