(* ===== verification/Packet_Buffer.thy ===== *)
theory Packet_Buffer
  imports Prelude
begin

text \<open>
  The packet buffer of the uTP streams (\<open>packet_buffer.cpp\<close>, \<open>packet_buffer.hpp\<close>): packets under 16 bit sequence
  numbers in a circular array whose size is a power of two, with the lowest and one past the highest number in use.
  Numbers and array positions are 32 bit words as in the code; sequence numbers wrap at \<open>2 ^ 16\<close>.

  Shown: while the packets lie within half of the sequence numbers, \<open>insert\<close>, \<open>remove\<close> and \<open>at\<close> implement a map from sequence
  numbers to packets, with growing and wrap-around; and exactly for which numbers \<open>at\<close> answers with the packet
  of another one, because its upper bound does not wrap.
\<close>

section \<open>The buffer\<close>

definition compare_less_wrap :: "u32 \<Rightarrow> u32 \<Rightarrow> u32 \<Rightarrow> bool" where
  "compare_less_wrap lhs rhs msk = (let
     dist_down = (lhs - rhs) AND msk;
     dist_up = (rhs - lhs) AND msk
   in dist_up < dist_down)"

text \<open>A packet pointer is \<open>None\<close> when it is null.\<close>

record 'p packet_buffer =
  m_storage :: "'p option list"
  m_capacity :: u32
  m_size :: int
  m_first :: u32
  m_last :: u32

definition new_buffer :: "'p packet_buffer" where
  "new_buffer = \<lparr>m_storage = [], m_capacity = 0, m_size = 0, m_first = 0, m_last = 0\<rparr>"

definition slot :: "'p packet_buffer \<Rightarrow> u32 \<Rightarrow> 'p option" where
  "slot b i = m_storage b ! unat (i AND (m_capacity b - 1))"

definition set_slot :: "u32 \<Rightarrow> 'p option \<Rightarrow> 'p packet_buffer \<Rightarrow> 'p packet_buffer" where
  "set_slot i p b = b\<lparr>m_storage := (m_storage b)[unat (i AND (m_capacity b - 1)) := p]\<rparr>"

definition pb_empty :: "'p packet_buffer \<Rightarrow> bool" where
  "pb_empty b \<longleftrightarrow> m_size b = 0"

definition span :: "'p packet_buffer \<Rightarrow> u32" where
  "span b = (m_last b - m_first b) AND 0xffff"

definition at :: "u32 \<Rightarrow> 'p packet_buffer \<Rightarrow> 'p option" where
  "at idx b = (if m_first b + m_capacity b \<le> idx then None
     else if compare_less_wrap idx (m_first b) 0xffff then None
     else slot b idx)"

text \<open>
  The doubling loop of \<open>reserve\<close> does not end for sizes above \<open>2 ^ 31\<close>, where the shift ends in zero. Its fuel of 33 rounds is
  more than all others take, since each shift doubles the size; \<open>None\<close> stands for not returning.
\<close>

primrec grow :: "nat \<Rightarrow> u32 \<Rightarrow> u32 \<Rightarrow> u32 option" where
  "grow 0 new_size wanted = None"
| "grow (Suc n) new_size wanted = (if new_size < wanted then grow n (push_bit 1 new_size) wanted else Some new_size)"

definition reserve :: "u32 \<Rightarrow> 'p packet_buffer \<Rightarrow> 'p packet_buffer option" where
  "reserve wanted b = (case grow 33 (if m_capacity b = 0 then 16 else m_capacity b) wanted of
     None \<Rightarrow> None
   | Some new_size \<Rightarrow> Some (b\<lparr>
       m_storage := foldl (\<lambda>st j. let i = m_first b + of_nat j in st[unat (i AND (new_size - 1)) := slot b i])
         (replicate (unat new_size) None) [0..<unat (m_first b + m_capacity b) - unat (m_first b)],
       m_capacity := new_size\<rparr>))"

text \<open>The loop that counts the free positions before \<open>m_first\<close> goes around the array at most once.\<close>

primrec free_loop :: "nat \<Rightarrow> 'p packet_buffer \<Rightarrow> u32 \<Rightarrow> u32" where
  "free_loop 0 b i = 0"
| "free_loop (Suc n) b i = (if i = m_first b AND (m_capacity b - 1) \<or> slot b i \<noteq> None then 0
     else 1 + free_loop n b ((i - 1) AND (m_capacity b - 1)))"

definition free_space :: "'p packet_buffer \<Rightarrow> u32" where
  "free_space b = free_loop (unat (m_capacity b)) b ((m_first b - 1) AND (m_capacity b - 1))"

text \<open>The part of \<open>insert\<close> that makes the window cover \<open>idx\<close>.\<close>

definition cover_index :: "u32 \<Rightarrow> 'p packet_buffer \<Rightarrow> 'p packet_buffer option" where
  "cover_index idx b = (
     if compare_less_wrap idx (m_first b) 0xffff then
       map_option (\<lambda>b. b\<lparr>m_first := idx\<rparr>)
        (if free_space b < (m_first b - idx) AND 0xffff
         then reserve (((m_first b - idx) AND 0xffff) + m_capacity b - free_space b) b else Some b)
     else if m_first b + m_capacity b \<le> idx then reserve (idx - m_first b + 1) b
     else if idx < m_first b then
       (if (m_first b + m_capacity b) AND 0xffff \<le> idx \<and> m_capacity b < 0xffff
        then reserve (m_capacity b + (idx + 1 - ((m_first b + m_capacity b) AND 0xffff))) b else Some b)
     else Some b)"

definition extend_last :: "u32 \<Rightarrow> 'p packet_buffer \<Rightarrow> 'p packet_buffer" where
  "extend_last idx b = (if compare_less_wrap (m_last b) ((idx + 1) AND 0xffff) 0xffff
     then b\<lparr>m_last := (idx + 1) AND 0xffff\<rparr> else b)"

text \<open>The two loops of \<open>remove\<close> that look for the next packet in use.\<close>

primrec skip_up :: "nat \<Rightarrow> u32 \<Rightarrow> 'p packet_buffer \<Rightarrow> u32" where
  "skip_up 0 i b = i"
| "skip_up (Suc n) i b = (if slot b i \<noteq> None then i else skip_up n (i + 1) b)"

primrec skip_down :: "nat \<Rightarrow> u32 \<Rightarrow> 'p packet_buffer \<Rightarrow> u32" where
  "skip_down 0 i b = i"
| "skip_down (Suc n) i b = (if slot b i \<noteq> None then i else skip_down n (i - 1) b)"

definition bump_first :: "u32 \<Rightarrow> 'p packet_buffer \<Rightarrow> 'p packet_buffer" where
  "bump_first idx b = (if idx = m_first b \<and> m_size b \<noteq> 0
     then b\<lparr>m_first := skip_up (unat (m_capacity b)) (m_first b + 1) b AND 0xffff\<rparr> else b)"

definition lower_last :: "u32 \<Rightarrow> 'p packet_buffer \<Rightarrow> 'p packet_buffer" where
  "lower_last idx b = (if (idx + 1) AND 0xffff = m_last b \<and> m_size b \<noteq> 0
     then b\<lparr>m_last := (skip_down (unat (m_capacity b)) (m_last b - 1) b + 1) AND 0xffff\<rparr> else b)"

definition pb_remove :: "u32 \<Rightarrow> 'p packet_buffer \<Rightarrow> 'p option \<times> 'p packet_buffer" where
  "pb_remove idx b = (
     if m_first b + m_capacity b \<le> idx then (None, b)
     else if compare_less_wrap idx (m_first b) 0xffff then (None, b)
     else let
       old_value = slot b idx;
       b = set_slot idx None b;
       b = (if old_value \<noteq> None
            then (let b = b\<lparr>m_size := m_size b - 1\<rparr> in if m_size b = 0 then b\<lparr>m_last := m_first b\<rparr> else b)
            else b)
     in (old_value, lower_last idx (bump_first idx b)))"

definition put :: "u32 \<Rightarrow> 'p option \<Rightarrow> 'p packet_buffer \<Rightarrow> 'p option \<times> 'p packet_buffer" where
  "put idx value b = (let
     old_value = slot b idx;
     b = set_slot idx value b;
     b = (if m_size b = 0 then b\<lparr>m_first := idx\<rparr> else b)
   in (old_value, if old_value = None then b\<lparr>m_size := m_size b + 1\<rparr> else b))"

definition pb_insert :: "u32 \<Rightarrow> 'p option \<Rightarrow> 'p packet_buffer \<Rightarrow> ('p option \<times> 'p packet_buffer) option" where
  "pb_insert idx value b = (
     if value = None then Some (pb_remove idx b)
     else Option.bind
       (if m_size b \<noteq> 0 then map_option (extend_last idx) (cover_index idx b)
        else Some (b\<lparr>m_first := idx, m_last := (idx + 1) AND 0xffff\<rparr>))
       (\<lambda>b. map_option (put idx value) (if m_capacity b = 0 then reserve 16 b else Some b)))"

section \<open>Words as numbers\<close>

lemma low_bits: "unat (x AND 2 ^ n - 1) = unat x mod 2 ^ n" for x :: u32
proof -
  have "x AND 2 ^ n - 1 = take_bit n x"
    by (simp only: mask_eq_exp_minus_1 take_bit_eq_mask)
  then show ?thesis
    by (simp only: unsigned_take_bit_eq) (simp add: take_bit_eq_mod)
qed

lemma low16: "unat (x AND 65535) = unat x mod 65536" for x :: u32
  using low_bits [of x 16] by simp

lemma unat_diff16:
  fixes x y :: u32
  assumes x: "unat x < 65536" and y: "unat y < 65536"
  shows "unat ((x - y) AND 65535) = (unat x + 65536 - unat y) mod 65536"
proof (cases "unat y \<le> unat x")
  case True
  then have "unat (x - y) = unat x - unat y" by (simp add: unat_sub_if')
  moreover have "unat x + 65536 - unat y = (unat x - unat y) + 65536" using True by simp
  ultimately show ?thesis by (simp only: low16 mod_add_self2)
next
  case False
  then have "unat (x - y) = unat x + 2 ^ 32 - unat y" by (simp add: unat_sub_if')
  moreover have "unat x + 2 ^ 32 - unat y = (unat x + 65536 - unat y) + 65536 * 65535" using y False by simp
  ultimately show ?thesis by (simp only: low16 mod_mult_self2)
qed

section \<open>The buffer as a map\<close>

text \<open>
  The distance from one sequence number up to another, the positions of the array by any number that has the right
  remainder, and the packets by their sequence number: those at a distance from \<open>m_first\<close> below the capacity.
\<close>

definition dist :: "nat \<Rightarrow> nat \<Rightarrow> nat" where
  "dist f k = (k + 65536 - f) mod 65536"

abbreviation pb_cap :: "'p packet_buffer \<Rightarrow> nat" where
  "pb_cap b \<equiv> unat (m_capacity b)"

abbreviation pb_lo :: "'p packet_buffer \<Rightarrow> nat" where
  "pb_lo b \<equiv> unat (m_first b)"

abbreviation pb_hi :: "'p packet_buffer \<Rightarrow> nat" where
  "pb_hi b \<equiv> unat (m_last b)"

definition cell :: "'p packet_buffer \<Rightarrow> nat \<Rightarrow> 'p option" where
  "cell b i = m_storage b ! (i mod pb_cap b)"

definition pkts :: "'p packet_buffer \<Rightarrow> nat \<Rightarrow> 'p option" where
  "pkts b k = (if k < 65536 \<and> dist (pb_lo b) k < pb_cap b then cell b k else None)"

definition count_packets :: "'p option list \<Rightarrow> int" where
  "count_packets ps = sum_list (map (\<lambda>p. if p = None then 0 else 1) ps)"

text \<open>The array is allocated: its capacity is a power of two from 16 to \<open>2 ^ 15\<close>.\<close>

definition allocated :: "'p packet_buffer \<Rightarrow> bool" where
  "allocated b \<longleftrightarrow> (\<exists>n. 4 \<le> n \<and> n \<le> 15 \<and> pb_cap b = 2 ^ n) \<and> length (m_storage b) = pb_cap b
     \<and> pb_lo b < 65536 \<and> pb_hi b < 65536"

text \<open>All packets lie between \<open>m_first\<close> and \<open>m_last\<close>.\<close>

definition bounded :: "'p packet_buffer \<Rightarrow> bool" where
  "bounded b \<longleftrightarrow> 0 < dist (pb_lo b) (pb_hi b) \<and> dist (pb_lo b) (pb_hi b) \<le> pb_cap b
     \<and> (\<forall>o'. dist (pb_lo b) (pb_hi b) \<le> o' \<and> o' < pb_cap b \<longrightarrow> cell b (pb_lo b + o') = None)"

definition pb_inv :: "'p packet_buffer \<Rightarrow> bool" where
  "pb_inv b \<longleftrightarrow> (if m_capacity b = 0 then b = new_buffer
     else allocated b \<and> m_size b = count_packets (m_storage b)
       \<and> (m_size b \<noteq> 0 \<longrightarrow> bounded b \<and> cell b (pb_lo b) \<noteq> None \<and> cell b (pb_lo b + dist (pb_lo b) (pb_hi b) - 1) \<noteq> None))"

lemma dist_less [simp]: "dist f k < 65536"
  by (simp add: dist_def)

lemma dist_self [simp]: "f < 65536 \<Longrightarrow> dist f f = 0"
  by (simp add: dist_def)

lemma dist_cases:
  assumes "f < 65536" and "k < 65536"
  shows "dist f k = (if f \<le> k then k - f else k + 65536 - f)"
proof (cases "f \<le> k")
  case True
  then have "k + 65536 - f = (k - f) + 65536" by simp
  then have "dist f k = (k - f) mod 65536" by (simp only: dist_def mod_add_self2)
  with True assms show ?thesis by simp
next
  case False
  with assms show ?thesis by (simp add: dist_def)
qed

lemma add_dist: "f < 65536 \<Longrightarrow> k < 65536 \<Longrightarrow> (f + dist f k) mod 65536 = k"
  by (auto simp: dist_cases)

lemma dist_add: "f < 65536 \<Longrightarrow> d < 65536 \<Longrightarrow> dist f ((f + d) mod 65536) = d"
  by (cases "f + d < 65536") (auto simp: dist_cases mod_if)

lemma dist_inject: "f < 65536 \<Longrightarrow> k < 65536 \<Longrightarrow> q < 65536 \<Longrightarrow> dist f k = dist f q \<longleftrightarrow> k = q"
  by (metis add_dist)

lemma dist_sum: "f < 65536 \<Longrightarrow> k < 65536 \<Longrightarrow> f \<noteq> k \<Longrightarrow> dist f k + dist k f = 65536"
  by (auto simp: dist_cases)

lemma less_wrap_iff:
  assumes "unat k < 65536" and "unat f < 65536"
  shows "compare_less_wrap k f 65535 \<longleftrightarrow> dist (unat k) (unat f) < dist (unat f) (unat k)"
  using assms by (simp add: compare_less_wrap_def word_less_nat_alt unat_diff16 dist_def)

lemma unat_exp2: "n < 32 \<Longrightarrow> unat (2 ^ n :: u32) = 2 ^ n"
proof -
  assume "n < 32"
  then have "(2 :: nat) ^ n < 2 ^ 32" by (intro power_strict_increasing) auto
  then have "unat (of_nat (2 ^ n) :: u32) = 2 ^ n" by (subst unat_of_nat) simp
  then show ?thesis by simp
qed

lemma allocatedE:
  assumes "allocated b"
  obtains n where "4 \<le> n" "n \<le> 15" "pb_cap b = 2 ^ n" "m_capacity b = 2 ^ n" "length (m_storage b) = 2 ^ n"
proof -
  obtain n where n: "4 \<le> n" "n \<le> 15" "pb_cap b = 2 ^ n" using assms by (auto simp: allocated_def)
  then have "unat (2 ^ n :: u32) = 2 ^ n" by (intro unat_exp2) simp
  then have "m_capacity b = 2 ^ n" using n(3) by (simp add: word_unat_eq_iff)
  with n assms show thesis by (intro that [of n]) (auto simp: allocated_def)
qed

lemma allocatedD:
  assumes "allocated b"
  shows "16 \<le> pb_cap b" and "pb_cap b \<le> 32768" and "pb_cap b dvd 65536" and "length (m_storage b) = pb_cap b"
    and "pb_lo b < 65536" and "pb_hi b < 65536" and "m_capacity b \<noteq> 0"
proof -
  obtain n where n: "4 \<le> n" "n \<le> 15" "pb_cap b = 2 ^ n" using assms by (auto simp: allocated_def)
  have "(2 :: nat) ^ 4 \<le> 2 ^ n" "(2 :: nat) ^ n \<le> 2 ^ 15" by (rule power_increasing; use n in simp)+
  moreover have "(2 :: nat) ^ 4 = 16" "(2 :: nat) ^ 15 = 32768" by simp_all
  ultimately show "16 \<le> pb_cap b" "pb_cap b \<le> 32768" using n(3) by linarith+
  then show "m_capacity b \<noteq> 0" by auto
  have "(2 :: nat) ^ n dvd 2 ^ 16" using n by (intro le_imp_power_dvd) simp
  with n show "pb_cap b dvd 65536" by simp
  show "length (m_storage b) = pb_cap b" "pb_lo b < 65536" "pb_hi b < 65536"
    using assms by (auto simp: allocated_def)
qed

lemma slot_cell: "allocated b \<Longrightarrow> slot b i = cell b (unat i)"
  by (erule allocatedE) (simp add: slot_def cell_def low_bits unat_exp2)

lemma unat_low_cap: "allocated b \<Longrightarrow> unat (i AND m_capacity b - 1) = unat i mod pb_cap b"
  by (erule allocatedE) (simp add: low_bits unat_exp2)

lemma cell_wrap: "allocated b \<Longrightarrow> cell b (i mod 65536) = cell b i"
  by (simp add: cell_def mod_mod_cancel allocatedD)

lemma cell_cong: "i mod pb_cap b = j mod pb_cap b \<Longrightarrow> cell b i = cell b j"
  by (simp add: cell_def)

lemma cell_add_cap: "cell b (i + pb_cap b) = cell b i"
  by (simp add: cell_def)

lemma pkts_alt:
  "allocated b \<Longrightarrow> pkts b k = (if k < 65536 \<and> dist (pb_lo b) k < pb_cap b then cell b (pb_lo b + dist (pb_lo b) k) else None)"
  using cell_wrap [of b "pb_lo b + dist (pb_lo b) k"] add_dist [of "pb_lo b" k] allocatedD(5) [of b]
  by (auto simp: pkts_def)

lemma mod_shift_inject:
  fixes f :: nat
  assumes "x < c" and "y < c"
  shows "(f + x) mod c = (f + y) mod c \<longleftrightarrow> x = y"
proof
  assume eq: "(f + x) mod c = (f + y) mod c"
  have "x = y" if "x \<le> y" "(f + x) mod c = (f + y) mod c" "y < c" for x y
  proof -
    have "c dvd y - x" using that(1,2) mod_eq_dvd_iff_nat [of "f + x" "f + y" c] by simp
    with that show ?thesis by (metis dvd_imp_le less_imp_diff_less linorder_not_less zero_less_diff le_neq_implies_less)
  qed
  from this [of x y] this [of y x] eq assms show "x = y" by (metis nat_le_linear)
qed simp

section \<open>Growing\<close>

lemma grow_pow2:
  "15 < n + fuel \<Longrightarrow> n \<le> 15 \<Longrightarrow> unat w \<le> 32768 \<Longrightarrow>
    \<exists>n'. n \<le> n' \<and> n' \<le> 15 \<and> grow fuel (2 ^ n) w = Some (2 ^ n') \<and> unat w \<le> 2 ^ n'"
proof (induction fuel arbitrary: n)
  case (Suc fuel)
  show ?case
  proof (cases "(2 ^ n :: u32) < w")
    case True
    then have "2 ^ n < unat w" using Suc.prems by (simp add: word_less_nat_alt unat_exp2)
    then have "(2 :: nat) ^ n < 2 ^ 15" using Suc.prems(3) by simp
    then have "n < 15" by (simp only: power_strict_increasing_iff)
    then obtain n' where "Suc n \<le> n'" "n' \<le> 15" "grow fuel (2 ^ Suc n) w = Some (2 ^ n')" "unat w \<le> 2 ^ n'"
      using Suc.IH [of "Suc n"] Suc.prems by auto
    moreover have "grow (Suc fuel) (2 ^ n) w = grow fuel (2 ^ Suc n) w"
      using True by (simp add: push_bit_eq_mult mult.commute)
    ultimately show ?thesis by (metis Suc_leD)
  next
    case False
    then have "unat w \<le> 2 ^ n" using Suc.prems by (simp add: word_less_nat_alt unat_exp2)
    with False Suc.prems show ?thesis by auto
  qed
qed simp

text \<open>The loop that moves the packets: position \<open>f + o'\<close> of the old array goes to position \<open>f + o'\<close> of the new one.\<close>

lemma move_cells:
  fixes g :: "nat \<Rightarrow> 'p option" and f :: nat
  assumes "m \<le> c"
  defines "st \<equiv> foldl (\<lambda>st j. st[(f + j) mod c := g j]) (replicate c None) [0..<m]"
  shows "length st = c" and "o' < c \<Longrightarrow> st ! ((f + o') mod c) = (if o' < m then g o' else None)"
proof -
  have "length st = c \<and> (\<forall>o'<c. st ! ((f + o') mod c) = (if o' < m then g o' else None))"
    using assms(1) unfolding st_def
  proof (induction m)
    case 0
    show ?case by auto
  next
    case (Suc m)
    let ?st = "foldl (\<lambda>st j. st[(f + j) mod c := g j]) (replicate c None) [0..<m]"
    have "length ?st = c" and IH: "\<And>o'. o' < c \<Longrightarrow> ?st ! ((f + o') mod c) = (if o' < m then g o' else None)"
      using Suc by auto
    moreover have "(f + m) mod c = (f + o') mod c \<longleftrightarrow> m = o'" if "o' < c" for o'
      using mod_shift_inject [of m c o' f] Suc.prems that by simp
    ultimately show ?case
      using Suc.prems by (auto simp: nth_list_update less_Suc_eq)
  qed
  then show "length st = c" "o' < c \<Longrightarrow> st ! ((f + o') mod c) = (if o' < m then g o' else None)" by auto
qed

lemma count_packets_cells:
  assumes "0 < length ps"
  shows "count_packets ps = (\<Sum>o'<length ps. if ps ! ((f + o') mod length ps) = None then 0 else 1)"
proof -
  let ?n = "length ps"
  have inj: "inj_on (\<lambda>o'. (f + o') mod ?n) {..<?n}"
    by (rule inj_onI) (simp add: mod_shift_inject)
  moreover have "(\<lambda>o'. (f + o') mod ?n) ` {..<?n} \<subseteq> {..<?n}" using assms by auto
  ultimately have img: "(\<lambda>o'. (f + o') mod ?n) ` {..<?n} = {..<?n}"
    by (intro endo_inj_surj) auto
  have "count_packets ps = (\<Sum>i<?n. if ps ! i = None then 0 else 1)"
    by (simp add: count_packets_def sum_list_sum_nth atLeast0LessThan)
  also have "\<dots> = (\<Sum>o'<?n. if ps ! ((f + o') mod ?n) = None then 0 else 1)"
    using sum.reindex [OF inj, of "\<lambda>i. if ps ! i = None then 0 else 1"] img by (simp add: o_def)
  finally show ?thesis .
qed

lemma count_cells:
  "allocated b \<Longrightarrow> count_packets (m_storage b) = (\<Sum>o'<pb_cap b. if cell b (pb_lo b + o') = None then 0 else 1)"
  using count_packets_cells [of "m_storage b" "pb_lo b"] allocatedD(1,4) [of b] by (simp add: cell_def)

lemma reserve_ok:
  assumes b: "allocated b" and w: "unat w \<le> 32768"
  obtains b' where "reserve w b = Some b'" and "allocated b'" and "unat w \<le> pb_cap b'" and "pb_cap b \<le> pb_cap b'"
    and "m_first b' = m_first b" and "m_last b' = m_last b" and "m_size b' = m_size b"
    and "\<And>o'. o' < pb_cap b' \<Longrightarrow> cell b' (pb_lo b + o') = (if o' < pb_cap b then cell b (pb_lo b + o') else None)"
proof -
  note a = allocatedD [OF b]
  obtain n where n: "4 \<le> n" "n \<le> 15" "pb_cap b = 2 ^ n" "m_capacity b = 2 ^ n" using b by (rule allocatedE)
  obtain n' where n': "n \<le> n'" "n' \<le> 15" "grow 33 (2 ^ n) w = Some (2 ^ n')" "unat w \<le> 2 ^ n'"
    using grow_pow2 [of n 33 w] n w by auto
  have len: "unat (m_first b + m_capacity b) - pb_lo b = pb_cap b"
    using a(2,5) by (simp add: unat_word_ariths)
  have cap': "unat (2 ^ n' :: u32) = 2 ^ n'" using n' by (intro unat_exp2) simp
  have idx: "unat (m_first b + of_nat j) = pb_lo b + j" if "j < pb_cap b" for j
    using a(2,5) that by (simp add: unat_word_ariths unat_of_nat)
  define b' where "b' = b\<lparr>m_storage := foldl (\<lambda>st j. st[(pb_lo b + j) mod 2 ^ n' := cell b (pb_lo b + j)])
      (replicate (2 ^ n') None) [0..<pb_cap b], m_capacity := 2 ^ n'\<rparr>"
  have "foldl (\<lambda>st j. let i = m_first b + of_nat j in st[unat (i AND 2 ^ n' - 1) := slot b i])
       (replicate (2 ^ n') None) [0..<pb_cap b]
     = foldl (\<lambda>st j. st[(pb_lo b + j) mod 2 ^ n' := cell b (pb_lo b + j)]) (replicate (2 ^ n') None) [0..<pb_cap b]"
    by (rule foldl_cong) (simp_all add: Let_def low_bits slot_cell [OF b] idx)
  then have "reserve w b = Some b'"
    using n'(3) a(7) unfolding n(4) [symmetric] by (simp add: reserve_def b'_def len cap')
  moreover have le: "pb_cap b \<le> 2 ^ n'" using n n' by (simp add: power_increasing)
  note mv = move_cells [OF le, where f = "pb_lo b" and g = "\<lambda>j. cell b (pb_lo b + j)"]
  moreover have "allocated b'"
    using mv(1) n n' a(5,6) by (auto simp: allocated_def b'_def cap' intro!: exI [of _ n'])
  moreover have "cell b' (pb_lo b + o') = (if o' < pb_cap b then cell b (pb_lo b + o') else None)"
    if "o' < pb_cap b'" for o'
    using mv(2) [of o'] that unfolding cell_def [of b'] by (simp add: b'_def cap')
  ultimately show thesis
    using that [of b'] n'(4) le by (simp add: b'_def cap')
qed

lemma reserve_keeps:
  assumes b: "allocated b" and b': "allocated b'" "pb_cap b \<le> pb_cap b'" "m_first b' = m_first b"
    and cells: "\<And>o'. o' < pb_cap b' \<Longrightarrow> cell b' (pb_lo b + o') = (if o' < pb_cap b then cell b (pb_lo b + o') else None)"
  shows "pkts b' = pkts b" and "count_packets (m_storage b') = count_packets (m_storage b)"
proof -
  show "pkts b' = pkts b"
    using b b' cells by (auto simp: fun_eq_iff pkts_alt)
  have split: "{..<pb_cap b'} = {..<pb_cap b} \<union> {pb_cap b..<pb_cap b'}" using b'(2) by auto
  have "(\<Sum>o'<pb_cap b'. if cell b' (pb_lo b + o') = None then 0 else 1)
      = (\<Sum>o'<pb_cap b. if cell b (pb_lo b + o') = None then 0 else (1 :: int))"
    unfolding split using b'(2) cells by (subst sum.union_disjoint) (auto intro!: sum.cong)
  then show "count_packets (m_storage b') = count_packets (m_storage b)"
    using b b' by (simp add: count_cells)
qed

section \<open>Moving the window\<close>

text \<open>
  \<open>m_first\<close> may go up over free positions, and down over positions that are free at the other end: the
  packets keep their sequence numbers.
\<close>

lemma move_first_up:
  assumes b: "allocated b" and b': "allocated b'" "m_storage b' = m_storage b" "m_capacity b' = m_capacity b"
    and lo: "pb_lo b' = (pb_lo b + d) mod 65536" and d: "d \<le> pb_cap b"
    and free: "\<And>o'. o' < d \<Longrightarrow> cell b (pb_lo b + o') = None"
  shows "pkts b' = pkts b"
proof
  fix k
  note a = allocatedD [OF b]
  have cells: "cell b' i = cell b i" for i using b' by (simp add: cell_def)
  show "pkts b' k = pkts b k"
  proof (cases "k < 65536")
    case True
    have k: "cell b k = cell b (pb_lo b + dist (pb_lo b) k)"
      using cell_wrap [OF b, of "pb_lo b + dist (pb_lo b) k"] add_dist [of "pb_lo b" k] a(5) True by simp
    have lo': "pb_lo b' = (if pb_lo b + d < 65536 then pb_lo b + d else pb_lo b + d - 65536)"
      using lo a(2,5) d by (simp add: mod_if)
    have dist': "dist (pb_lo b') k = (if d \<le> dist (pb_lo b) k then dist (pb_lo b) k - d else dist (pb_lo b) k + 65536 - d)"
      using a(2,5) d True lo' by (auto simp: dist_cases split: if_splits)
    consider "dist (pb_lo b) k < d" | "d \<le> dist (pb_lo b) k" "dist (pb_lo b) k < pb_cap b"
      | "pb_cap b \<le> dist (pb_lo b) k" "dist (pb_lo b) k < pb_cap b + d" | "pb_cap b + d \<le> dist (pb_lo b) k"
      by linarith
    then show ?thesis
    proof cases
      case 1
      then show ?thesis using True dist' free a(2) d b'(3) k cells by (simp add: pkts_def)
    next
      case 2
      then show ?thesis using True dist' b'(3) cells by (auto simp: pkts_def)
    next
      case 3
      then have "cell b k = cell b (pb_lo b + (dist (pb_lo b) k - pb_cap b))"
        using k cell_add_cap [of b "pb_lo b + (dist (pb_lo b) k - pb_cap b)"] by simp
      with 3 free [of "dist (pb_lo b) k - pb_cap b"] have "cell b k = None" by simp
      with 3 show ?thesis using True cells by (simp add: pkts_def)
    next
      case 4
      then show ?thesis using True dist' b'(3) by (auto simp: pkts_def)
    qed
  qed (simp add: pkts_def)
qed

lemma cell_down:
  assumes b: "allocated b" and d: "d \<le> pb_cap b" and f': "f' < 65536" "pb_lo b = (f' + d) mod 65536" and o': "o' < d"
  shows "cell b (f' + o') = cell b (pb_lo b + (pb_cap b - d + o'))"
proof -
  note a = allocatedD [OF b]
  have "cell b (pb_lo b + (pb_cap b - d + o')) = cell b ((f' + d) mod 65536 + (pb_cap b - d + o'))"
    using f'(2) by simp
  also have "\<dots> = cell b (((f' + d) mod 65536 + (pb_cap b - d + o')) mod 65536)"
    using cell_wrap [OF b] by simp
  also have "\<dots> = cell b ((f' + o' + pb_cap b) mod 65536)"
    using d by (simp only: mod_add_left_eq) (simp add: ac_simps)
  also have "\<dots> = cell b (f' + o')"
    using cell_wrap [OF b] cell_add_cap by simp
  finally show ?thesis by simp
qed

lemma mod_Suc_inject: "Suc x mod c = Suc y mod c \<Longrightarrow> x mod c = y mod c"
  by (auto simp: mod_Suc split: if_splits)

lemma Suc_unat_pred: "c dvd 65536 \<Longrightarrow> Suc (unat (i - 1)) mod c = unat i mod c" for i :: u32
proof (cases "i = 0")
  case True
  assume "c dvd 65536"
  then have "c dvd 65536 * 65536" by (rule dvd_mult2)
  moreover have "Suc (unat (- 1 :: u32)) = 65536 * 65536" by (simp add: unsigned_minus_1_eq_mask mask_eq_exp_minus_1)
  ultimately show ?thesis using True by (simp only: dvd_eq_mod_eq_0) simp
next
  case False
  then have "0 < unat i" "unat (i - 1) = unat i - 1" by (auto simp: unat_gt_0 unat_minus_one)
  then show ?thesis by simp
qed

lemma unat_pred_mod: "c dvd 65536 \<Longrightarrow> unat i mod c = Suc x mod c \<Longrightarrow> unat (i - 1) mod c = x mod c" for i :: u32
  by (rule mod_Suc_inject) (simp add: Suc_unat_pred)

lemma free_loop_count:
  assumes b: "allocated b" and used: "cell b (pb_lo b + s - 1) \<noteq> None"
    and free: "\<And>o'. s \<le> o' \<Longrightarrow> o' < pb_cap b \<Longrightarrow> cell b (pb_lo b + o') = None"
  shows "0 < s \<Longrightarrow> s \<le> o' + 1 \<Longrightarrow> o' < pb_cap b \<Longrightarrow> unat i = (pb_lo b + o') mod pb_cap b \<Longrightarrow> o' + 1 - s < n
    \<Longrightarrow> free_loop n b i = of_nat (o' + 1 - s)"
proof (induction n arbitrary: o' i)
  case (Suc n)
  note a = allocatedD [OF b]
  have slot: "slot b i = cell b (pb_lo b + o')"
    using Suc.prems(4) by (simp add: slot_cell [OF b] cell_def)
  show ?case
  proof (cases "s = o' + 1")
    case True
    then show ?thesis using used slot by simp
  next
    case False
    then have o': "s \<le> o'" "0 < o'" using Suc.prems by auto
    have "unat i \<noteq> pb_lo b mod pb_cap b"
      using mod_shift_inject [of o' "pb_cap b" 0 "pb_lo b"] Suc.prems(3,4) o'(2) by simp
    then have ne: "i \<noteq> m_first b AND m_capacity b - 1"
      by (auto simp: unat_low_cap [OF b])
    have "unat i mod pb_cap b = Suc (pb_lo b + (o' - 1)) mod pb_cap b" using Suc.prems(4) o'(2) by simp
    then have "unat ((i - 1) AND m_capacity b - 1) = (pb_lo b + (o' - 1)) mod pb_cap b"
      by (simp add: unat_low_cap [OF b] unat_pred_mod [OF a(3)])
    then have "free_loop n b ((i - 1) AND m_capacity b - 1) = of_nat (o' - 1 + 1 - s)"
      using Suc.prems o' by (intro Suc.IH) auto
    then show ?thesis using ne slot free [OF o'(1) Suc.prems(3)] o' by (simp add: Suc_diff_le)
  qed
qed simp

lemma free_space_eq:
  assumes b: "allocated b" and bd: "bounded b" and used: "cell b (pb_lo b + dist (pb_lo b) (pb_hi b) - 1) \<noteq> None"
  shows "unat (free_space b) = pb_cap b - dist (pb_lo b) (pb_hi b)"
proof -
  note a = allocatedD [OF b]
  let ?s = "dist (pb_lo b) (pb_hi b)"
  have s: "0 < ?s" "?s \<le> pb_cap b" using bd by (auto simp: bounded_def)
  have "pb_lo b mod pb_cap b = Suc (pb_lo b + (pb_cap b - 1)) mod pb_cap b" using a(1) by simp
  then have "unat ((m_first b - 1) AND m_capacity b - 1) = (pb_lo b + (pb_cap b - 1)) mod pb_cap b"
    by (simp add: unat_low_cap [OF b] unat_pred_mod [OF a(3)])
  then have "free_loop (pb_cap b) b ((m_first b - 1) AND m_capacity b - 1) = of_nat (pb_cap b - 1 + 1 - ?s)"
    using bd s a(1) by (intro free_loop_count [OF b used]) (auto simp: bounded_def)
  then show ?thesis
    using a(1,2) by (simp add: free_space_def unat_of_nat)
qed

lemma dist_trans: "x < 65536 \<Longrightarrow> y < 65536 \<Longrightarrow> z < 65536 \<Longrightarrow> dist x y + dist y z < 65536 \<Longrightarrow>
    dist x z = dist x y + dist y z"
  by (auto simp: dist_cases split: if_splits)

lemma cell_shift: "allocated b \<Longrightarrow> (f + d) mod 65536 = g mod 65536 \<Longrightarrow> cell b (f + d + x) = cell b (g + x)"
  by (metis cell_wrap mod_add_left_eq)

lemma bounded_free:
  "bounded b \<Longrightarrow> dist (pb_lo b) (pb_hi b) \<le> o' \<Longrightarrow> o' < pb_cap b \<Longrightarrow> cell b (pb_lo b + o') = None"
  by (simp add: bounded_def)

text \<open>The window of a buffer with packets: as the invariant has it, but the position \<open>m_first\<close> may be free.\<close>

definition window :: "'p packet_buffer \<Rightarrow> bool" where
  "window b \<longleftrightarrow> allocated b \<and> bounded b \<and> cell b (pb_lo b + dist (pb_lo b) (pb_hi b) - 1) \<noteq> None"

lemma window_pos: "window b \<Longrightarrow> cell b (pb_lo b + (dist (pb_lo b) (pb_hi b) - 1)) \<noteq> None"
  by (auto simp: window_def bounded_def)

lemma reserve_window:
  assumes b: "window b" and w: "unat w \<le> 32768"
  obtains b' where "reserve w b = Some b'" and "window b'" and "unat w \<le> pb_cap b'" and "m_first b' = m_first b"
    and "m_last b' = m_last b" and "m_size b' = m_size b" and "pkts b' = pkts b"
    and "count_packets (m_storage b') = count_packets (m_storage b)" and "cell b' (pb_lo b) = cell b (pb_lo b)"
proof -
  have al: "allocated b" using b by (simp add: window_def)
  obtain b' where b': "reserve w b = Some b'" "allocated b'" "unat w \<le> pb_cap b'" "pb_cap b \<le> pb_cap b'"
      "m_first b' = m_first b" "m_last b' = m_last b" "m_size b' = m_size b"
    and cells: "\<And>o'. o' < pb_cap b' \<Longrightarrow> cell b' (pb_lo b + o') = (if o' < pb_cap b then cell b (pb_lo b + o') else None)"
    using reserve_ok [OF al w] by metis
  have "cell b' (pb_lo b) = cell b (pb_lo b)" using cells [of 0] b'(4) allocatedD(1) [OF al] by simp
  moreover have "bounded b'"
    using b b'(4-6) cells by (auto simp: bounded_def window_def)
  moreover have "cell b' (pb_lo b + (dist (pb_lo b) (pb_hi b) - 1)) \<noteq> None"
    using window_pos [OF b] cells [of "dist (pb_lo b) (pb_hi b) - 1"] b b'(4)
    by (auto simp: window_def bounded_def)
  ultimately show thesis
    using that [of b'] b' reserve_keeps [OF al b'(2,4,5) cells] by (auto simp: window_def bounded_def)
qed

text \<open>
  The sequence numbers \<open>insert\<close> can take: fewer than \<open>2 ^ 15\<close> above \<open>m_first\<close>, unless the number wraps and the end of the
  array does not; or below \<open>m_first\<close> with all packets fewer than \<open>2 ^ 15\<close> above it.
\<close>

definition reaches :: "'p packet_buffer \<Rightarrow> nat \<Rightarrow> bool" where
  "reaches b k \<longleftrightarrow> m_size b = 0
     \<or> dist (pb_lo b) k < 32768 \<and> (pb_lo b \<le> k \<or> 65536 \<le> pb_lo b + pb_cap b)
     \<or> dist k (pb_lo b) + dist (pb_lo b) (pb_hi b) \<le> 32768"

lemma lower_first:
  assumes b: "window b" and k: "k < 65536" and room: "dist k (pb_lo b) + dist (pb_lo b) (pb_hi b) \<le> pb_cap b"
    and lo: "unat idx = k"
  shows "window (b\<lparr>m_first := idx\<rparr>)" and "pkts (b\<lparr>m_first := idx\<rparr>) = pkts b"
proof -
  let ?b = "b\<lparr>m_first := idx\<rparr>" and ?d = "dist k (pb_lo b)" and ?s = "dist (pb_lo b) (pb_hi b)"
  have al: "allocated b" and bd: "bounded b" using b by (auto simp: window_def)
  note a = allocatedD [OF al]
  have al': "allocated ?b" using al k lo by (auto simp: allocated_def)
  have cells: "cell ?b i = cell b i" for i by (simp add: cell_def)
  have d: "pb_lo b = (k + ?d) mod 65536" using add_dist [of k "pb_lo b"] k a(5) by simp
  have below: "cell b (k + o') = None" if "o' < ?d" for o'
  proof -
    have "cell b (k + o') = cell b (pb_lo b + (pb_cap b - ?d + o'))"
      using room by (intro cell_down [OF al _ k d that]) simp
    moreover have "cell b (pb_lo b + (pb_cap b - ?d + o')) = None"
      using that room by (intro bounded_free [OF bd]) auto
    ultimately show ?thesis by simp
  qed
  have above: "cell b (k + (?d + x)) = cell b (pb_lo b + x)" for x
    using cell_shift [OF al, of k ?d "pb_lo b" x] d by (simp add: add.assoc)
  have s': "dist k (pb_hi b) = ?d + ?s"
    using dist_trans [of k "pb_lo b" "pb_hi b"] k a room by simp
  have "bounded ?b"
    unfolding bounded_def
  proof (intro conjI allI impI)
    show "0 < dist (pb_lo ?b) (pb_hi ?b)" "dist (pb_lo ?b) (pb_hi ?b) \<le> pb_cap ?b"
      using bd room by (auto simp: lo s' bounded_def)
    show "cell ?b (pb_lo ?b + o') = None" if o': "dist (pb_lo ?b) (pb_hi ?b) \<le> o' \<and> o' < pb_cap ?b" for o'
    proof -
      obtain x where "o' = ?d + x" using o' by (auto simp: lo s' dest: le_Suc_ex)
      with o' above [of x] bounded_free [OF bd, of x] show ?thesis by (simp add: lo s' cells)
    qed
  qed
  moreover have "cell b (k + (?d + (?s - 1))) \<noteq> None" using window_pos [OF b] above by simp
  then have "cell b (k + (?d + ?s) - 1) \<noteq> None" using bd by (auto simp: bounded_def)
  ultimately show "window ?b" using al' by (simp add: window_def lo s' cells)
  show "pkts ?b = pkts b"
    using move_first_up [OF al' al, of ?d] d below room by (simp add: lo cells)
qed

lemma unat_sum_small: "unat x + unat y < 2 ^ 32 \<Longrightarrow> unat (x + y) = unat x + unat y" for x y :: u32
  by (simp add: unat_word_ariths)

lemma cover_index_ok:
  assumes b: "window b" and used: "cell b (pb_lo b) \<noteq> None" and size: "m_size b \<noteq> 0"
    and k: "unat idx = k" "k < 65536" and r: "reaches b k"
  obtains b' where "cover_index idx b = Some b'" and "window b'" and "pkts b' = pkts b"
    and "count_packets (m_storage b') = count_packets (m_storage b)" and "m_size b' = m_size b"
    and "dist (pb_lo b') k < pb_cap b'" and "pb_lo b' = k \<or> cell b' (pb_lo b') \<noteq> None"
proof -
  have al: "allocated b" and bd: "bounded b" using b by (auto simp: window_def)
  note a = allocatedD [OF al]
  let ?d = "dist k (pb_lo b)" and ?o = "dist (pb_lo b) k" and ?s = "dist (pb_lo b) (pb_hi b)"
  have s: "0 < ?s" "?s \<le> pb_cap b" using bd by (auto simp: bounded_def)
  have less: "compare_less_wrap idx (m_first b) 65535 \<longleftrightarrow> ?d < ?o"
    using less_wrap_iff [of idx "m_first b"] k a(5) by simp
  have sum: "unat (m_first b + m_capacity b) = pb_lo b + pb_cap b"
    using a(2,5) by (intro unat_sum_small) simp
  have oc: "?o = (if pb_lo b \<le> k then k - pb_lo b else k + 65536 - pb_lo b)"
    using a(5) k by (simp add: dist_cases)
  show thesis
  proof (cases "?d < ?o")
    case True
    then have "k \<noteq> pb_lo b" using k by auto
    then have "?d + ?o = 65536" using dist_sum [of k "pb_lo b"] a(5) k by simp
    with True have room: "?d + ?s \<le> 32768" using r size by (auto simp: reaches_def)
    have d: "unat ((m_first b - idx) AND 65535) = ?d"
      using unat_diff16 [of "m_first b" idx] a(5) k by (simp add: dist_def)
    have free: "unat (free_space b) = pb_cap b - ?s"
      using free_space_eq [OF al bd] b by (simp add: window_def)
    show thesis
    proof (cases "pb_cap b - ?s < ?d")
      case grow: True
      have "unat (((m_first b - idx) AND 65535) + m_capacity b) = ?d + pb_cap b"
        using d room a(2) by (subst unat_sum_small) auto
      then have "unat (((m_first b - idx) AND 65535) + m_capacity b - free_space b) = ?d + ?s"
        using free s by (simp add: unat_sub_if')
      then obtain b1 where b1: "reserve (((m_first b - idx) AND 65535) + m_capacity b - free_space b) b = Some b1"
          "window b1" "?d + ?s \<le> pb_cap b1" "m_first b1 = m_first b" "m_last b1 = m_last b" "m_size b1 = m_size b"
          "pkts b1 = pkts b" "count_packets (m_storage b1) = count_packets (m_storage b)"
        using reserve_window [OF b] room by metis
      note low = lower_first [OF b1(2) k(2) _ k(1)]
      show thesis
      proof (rule that [of "b1\<lparr>m_first := idx\<rparr>"])
        show "cover_index idx b = Some (b1\<lparr>m_first := idx\<rparr>)"
          using True less grow d free b1(1) by (simp add: cover_index_def word_less_nat_alt)
      qed (use low b1 k allocatedD(1) [of b1] in \<open>auto simp: window_def\<close>)
    next
      case False
      then have room': "?d + ?s \<le> pb_cap b" using s by simp
      note low = lower_first [OF b k(2) room' k(1)]
      show thesis
      proof (rule that [of "b\<lparr>m_first := idx\<rparr>"])
        show "cover_index idx b = Some (b\<lparr>m_first := idx\<rparr>)"
          using True less False d free by (simp add: cover_index_def word_less_nat_alt)
      qed (use low k a(1) in auto)
    qed
  next
    case False
    have o_less: "?o < 32768" and wrap: "pb_lo b \<le> k \<or> 65536 \<le> pb_lo b + pb_cap b"
      using r size False dist_sum [of k "pb_lo b"] a(5) k s by (cases "k = pb_lo b"; auto simp: reaches_def)+
    define w where "w = (if m_first b + m_capacity b \<le> idx then idx - m_first b + 1
      else m_capacity b + (idx + 1 - ((m_first b + m_capacity b) AND 65535)))"
    have ends: "m_first b + m_capacity b \<le> idx \<longleftrightarrow> pb_lo b + pb_cap b \<le> k"
      using sum k by (simp add: word_le_nat_alt)
    have wrapped: "unat ((m_first b + m_capacity b) AND 65535) = pb_lo b + pb_cap b - 65536" if "k < pb_lo b"
      using wrap that a(2,5) sum by (simp add: low16 mod_if)
    have small: "m_capacity b < 65535" using a(2) by (simp add: word_less_nat_alt)
    have cover: "cover_index idx b = (if pb_cap b \<le> ?o then reserve w b else Some b)"
    proof (cases "k < pb_lo b")
      case True
      then have "(m_first b + m_capacity b) AND 65535 \<le> idx \<longleftrightarrow> pb_cap b \<le> ?o"
        using wrapped wrap oc k a(5) by (auto simp: word_le_nat_alt)
      with True False show ?thesis
        using less ends k small by (simp add: cover_index_def w_def word_less_nat_alt)
    next
      case le: False
      then have "pb_cap b \<le> ?o \<longleftrightarrow> pb_lo b + pb_cap b \<le> k" using oc by auto
      with False le show ?thesis
        using less ends k by (simp add: cover_index_def w_def word_less_nat_alt)
    qed
    have w: "unat w = ?o + 1" if big: "pb_cap b \<le> ?o"
    proof (cases "k < pb_lo b")
      case True
      have le: "pb_lo b + pb_cap b - 65536 \<le> k + 1" using big oc True a(5) by (simp split: if_splits)
      have "unat (idx + 1) = k + 1" using k by (subst unat_sum_small) auto
      then have "unat (idx + 1 - ((m_first b + m_capacity b) AND 65535)) = k + 1 - (pb_lo b + pb_cap b - 65536)"
        using wrapped [OF True] le by (simp add: unat_sub_if')
      then show ?thesis
        using True ends oc big wrap a(2,5) k unfolding w_def by (subst if_not_P) (auto simp: unat_sum_small)
    next
      case le: False
      then have "unat (idx - m_first b) = k - pb_lo b" using k by (simp add: unat_sub_if')
      then show ?thesis
        using le big oc ends k a(5) unfolding w_def by (subst if_P) (auto simp: unat_sum_small)
    qed
    show thesis
    proof (cases "pb_cap b \<le> ?o")
      case True
      then obtain b1 where b1: "reserve w b = Some b1" "window b1" "?o + 1 \<le> pb_cap b1" "m_first b1 = m_first b"
          "m_size b1 = m_size b" "pkts b1 = pkts b" "count_packets (m_storage b1) = count_packets (m_storage b)"
          "cell b1 (pb_lo b) = cell b (pb_lo b)"
        using reserve_window [OF b, of w] o_less w by (metis Suc_eq_plus1 Suc_leI)
      then show thesis using that [of b1] True cover used by simp
    next
      case False
      then show thesis using that [of b] cover used b by simp
    qed
  qed
qed

section \<open>Insert\<close>

lemma dist_offsets:
  assumes "x \<le> y" "y - x < 65536"
  shows "dist ((f + x) mod 65536) ((f + y) mod 65536) = y - x"
proof -
  have "(f + y) mod 65536 = ((f + x) mod 65536 + (y - x)) mod 65536"
    using assms(1) by (simp only: mod_add_left_eq) simp
  then show ?thesis using dist_add [of "(f + x) mod 65536" "y - x"] assms(2) by simp
qed

lemma less_wrap_offsets:
  assumes "x \<le> 32768" "y \<le> 32768" "0 < x" "0 < y"
    and "unat u = (f + x) mod 65536" and "unat v = (f + y) mod 65536"
  shows "compare_less_wrap u v 65535 \<longleftrightarrow> x < y"
proof -
  have "compare_less_wrap u v 65535 \<longleftrightarrow> dist (unat u) (unat v) < dist (unat v) (unat u)"
    using assms(5,6) by (intro less_wrap_iff) auto
  also have "\<dots> \<longleftrightarrow> x < y"
  proof -
    have *: "dist p q < dist q p" if "x < y" "y \<le> 32768" "0 < x" "p = (f + x) mod 65536" "q = (f + y) mod 65536" for x y p q
    proof -
      have d: "dist p q = y - x" unfolding that(4,5) using that(1-3) by (intro dist_offsets) auto
      then have "p \<noteq> q" using that by auto
      then have "dist p q + dist q p = 65536" using that by (intro dist_sum) auto
      with d that(1-3) show ?thesis by linarith
    qed
    show ?thesis
      using * [of x y "unat u" "unat v"] * [of y x "unat v" "unat u"] assms by (cases x y rule: linorder_cases) auto
  qed
  finally show ?thesis .
qed

lemma extend_last_ok:
  assumes b: "window b" and k: "unat idx = k" "k < 65536" and o': "dist (pb_lo b) k < pb_cap b"
  defines "b' \<equiv> extend_last idx b"
  shows "allocated b'" and "bounded b'" and "dist (pb_lo b') k < dist (pb_lo b') (pb_hi b')"
    and "pb_hi b' = (k + 1) mod 65536 \<or> cell b' (pb_lo b' + dist (pb_lo b') (pb_hi b') - 1) \<noteq> None"
proof -
  let ?o = "dist (pb_lo b) k" and ?s = "dist (pb_lo b) (pb_hi b)"
  have al: "allocated b" and bd: "bounded b" using b by (auto simp: window_def)
  note a = allocatedD [OF al]
  have s: "0 < ?s" "?s \<le> pb_cap b" using bd by (auto simp: bounded_def)
  have k1: "unat ((idx + 1) AND 65535) = (k + 1) mod 65536"
    using k by (simp add: low16 unat_sum_small)
  have k': "(k + 1) mod 65536 = (pb_lo b + (?o + 1)) mod 65536"
    using add_dist [of "pb_lo b" k] a(5) k(2) by (metis add.assoc mod_add_left_eq)
  have hi: "pb_hi b = (pb_lo b + ?s) mod 65536" using add_dist a(5,6) by simp
  have cmp: "compare_less_wrap (m_last b) ((idx + 1) AND 65535) 65535 \<longleftrightarrow> ?s < ?o + 1"
    using hi k1 k' a(2,5) s o' by (intro less_wrap_offsets [where f = "pb_lo b"]) auto
  have new: "dist (pb_lo b) ((k + 1) mod 65536) = ?o + 1"
    unfolding k' using a(2,5) o' by (intro dist_add) auto
  have cells: "cell b' i = cell b i" for i by (simp add: b'_def extend_last_def cell_def)
  show "allocated b'" using al k1 by (auto simp: b'_def extend_last_def allocated_def)
  show "bounded b'"
    using bd new k1 cmp o' cells unfolding bounded_def
    by (auto simp: b'_def extend_last_def)
  show "dist (pb_lo b') k < dist (pb_lo b') (pb_hi b')"
    using new k1 cmp by (auto simp: b'_def extend_last_def)
  show "pb_hi b' = (k + 1) mod 65536 \<or> cell b' (pb_lo b' + dist (pb_lo b') (pb_hi b') - 1) \<noteq> None"
    using b k1 cells by (auto simp: b'_def extend_last_def window_def)
qed

lemma same_cell:
  assumes b: "allocated b" and "k < 65536" "q < 65536" "dist (pb_lo b) k < pb_cap b" "dist (pb_lo b) q < pb_cap b"
  shows "q mod pb_cap b = k mod pb_cap b \<longleftrightarrow> q = k"
proof -
  note a = allocatedD [OF b]
  have "(pb_lo b + dist (pb_lo b) x) mod pb_cap b = x mod pb_cap b" if "x < 65536" for x
    using add_dist [OF a(5) that] mod_mod_cancel [OF a(3)] by metis
  then show ?thesis
    using mod_shift_inject [of "dist (pb_lo b) q" "pb_cap b" "dist (pb_lo b) k" "pb_lo b"] assms a(5)
    by (auto simp: dist_inject)
qed

lemma count_packets_update:
  "i < length ps \<Longrightarrow> count_packets (ps[i := p]) = count_packets ps - (if ps ! i = None then 0 else 1) + (if p = None then 0 else 1)"
  unfolding count_packets_def by (subst sum_list_map_update) auto

text \<open>Writing one position of the array, whatever \<open>m_first\<close>, \<open>m_last\<close> and \<open>m_size\<close> are.\<close>

lemma set_slot_ok:
  assumes b: "allocated b" and k: "unat idx = k" "k < 65536" "dist (pb_lo b) k < pb_cap b"
  shows "allocated (set_slot idx p b)" and "pkts (set_slot idx p b) = (pkts b)(k := p)"
    and "slot b idx = pkts b k"
    and "cell (set_slot idx p b) i = (if i mod pb_cap b = k mod pb_cap b then p else cell b i)"
    and "count_packets (m_storage (set_slot idx p b))
      = count_packets (m_storage b) - (if pkts b k = None then 0 else 1) + (if p = None then 0 else 1)"
proof -
  note a = allocatedD [OF b]
  have st: "m_storage (set_slot idx p b) = (m_storage b)[k mod pb_cap b := p]"
    using k by (simp add: set_slot_def unat_low_cap [OF b])
  have flds: "m_capacity (set_slot idx p b) = m_capacity b" "m_first (set_slot idx p b) = m_first b"
    "m_last (set_slot idx p b) = m_last b"
    by (simp_all add: set_slot_def)
  have pos: "k mod pb_cap b < length (m_storage b)" using a(1,4) by simp
  show "allocated (set_slot idx p b)" using b flds st by (simp add: allocated_def)
  show slot: "slot b idx = pkts b k" using k by (simp add: slot_cell [OF b] pkts_def)
  show cells: "cell (set_slot idx p b) i = (if i mod pb_cap b = k mod pb_cap b then p else cell b i)" for i
    using pos by (simp add: cell_def st flds nth_list_update)
  show "pkts (set_slot idx p b) = (pkts b)(k := p)"
  proof
    fix q
    show "pkts (set_slot idx p b) q = ((pkts b)(k := p)) q"
      using same_cell [OF b k(2) _ k(3), of q] k cells [of q] by (auto simp: pkts_def flds)
  qed
  have "m_storage b ! (k mod pb_cap b) = pkts b k" using k by (simp add: pkts_def cell_def)
  then show "count_packets (m_storage (set_slot idx p b))
      = count_packets (m_storage b) - (if pkts b k = None then 0 else 1) + (if p = None then 0 else 1)"
    using count_packets_update [OF pos, of p] st by simp
qed

lemma put_ok:
  assumes b: "allocated b" "bounded b" and k: "unat idx = k" "k < 65536" "dist (pb_lo b) k < dist (pb_lo b) (pb_hi b)"
    and high: "pb_hi b = (k + 1) mod 65536 \<or> cell b (pb_lo b + dist (pb_lo b) (pb_hi b) - 1) \<noteq> None"
    and low: "pb_lo b = k \<or> cell b (pb_lo b) \<noteq> None"
    and size: "m_size b = count_packets (m_storage b)" "m_size b = 0 \<Longrightarrow> m_first b = idx"
  shows "\<exists>b'. put idx (Some v) b = (pkts b k, b') \<and> pb_inv b' \<and> pkts b' = (pkts b)(k \<mapsto> v)"
proof -
  note a = allocatedD [OF b(1)]
  let ?o = "dist (pb_lo b) k" and ?s = "dist (pb_lo b) (pb_hi b)"
  have s: "0 < ?s" "?s \<le> pb_cap b" using b(2) by (auto simp: bounded_def)
  then have o': "?o < pb_cap b" using k(3) by simp
  note set = set_slot_ok(1,2,4,5) [OF b(1) k(1,2) o', where p = "Some v"]
    and slot = set_slot_ok(3) [OF b(1) k(1,2) o']
  have k': "k mod pb_cap b = (pb_lo b + ?o) mod pb_cap b"
    using add_dist [OF a(5) k(2)] mod_mod_cancel [OF a(3)] by metis
  let ?b = "set_slot idx (Some v) b"
  define b' where "b' = ?b\<lparr>m_size := m_size b + (if pkts b k = None then 1 else 0)\<rparr>"
  have flds: "m_storage b' = m_storage ?b" "m_capacity b' = m_capacity b" "m_first b' = m_first b" "m_last b' = m_last b"
    by (simp_all add: b'_def set_slot_def)
  have cells: "cell b' i = (if i mod pb_cap b = k mod pb_cap b then Some v else cell b i)" for i
    using set(3) [of i] by (simp add: cell_def b'_def)
  have pkts': "pkts b' = pkts ?b" by (rule ext) (simp add: pkts_def cell_def b'_def)
  have msz: "m_size ?b = m_size b" by (simp add: set_slot_def)
  have keep: "(if m_size b = 0 then ?b\<lparr>m_first := idx\<rparr> else ?b) = ?b"
    using size(2) by (cases b) (auto simp: set_slot_def)
  have "put idx (Some v) b = (pkts b k, b')"
    by (simp add: put_def Let_def msz keep slot b'_def)
  moreover have "bounded b'"
    unfolding bounded_def
  proof (intro conjI allI impI)
    fix o' assume o'': "dist (pb_lo b') (pb_hi b') \<le> o' \<and> o' < pb_cap b'"
    then have "(pb_lo b + o') mod pb_cap b \<noteq> k mod pb_cap b"
      using mod_shift_inject [of o' "pb_cap b" ?o "pb_lo b"] k(3) k' o' by (simp add: flds)
    then show "cell b' (pb_lo b' + o') = None"
      using o'' bounded_free [OF b(2), of o'] by (simp add: flds cells)
  qed (use s in \<open>simp_all add: flds\<close>)
  moreover have "cell b' (pb_lo b + ?s - 1) \<noteq> None"
  proof (cases "pb_hi b = (k + 1) mod 65536")
    case True
    have "(k + 1) mod 65536 = (pb_lo b + (?o + 1)) mod 65536"
      using add_dist [OF a(5) k(2)] by (metis add.assoc mod_add_left_eq)
    then have "?s = ?o + 1" using True dist_add [OF a(5), of "?o + 1"] a(2) o' by simp
    then show ?thesis using k' by (simp add: cells)
  qed (use high in \<open>auto simp: cells\<close>)
  moreover have "cell b' (pb_lo b) \<noteq> None" using low by (auto simp: cells)
  ultimately show ?thesis
    using set(1,2,4) size(1) flds pkts' a(7) by (auto simp: pb_inv_def allocated_def b'_def)
qed

lemma count_packets_zero: "count_packets ps = 0 \<longleftrightarrow> (\<forall>p\<in>set ps. p = None)"
proof (induction ps)
  case (Cons p ps)
  have "0 \<le> count_packets ps" unfolding count_packets_def by (rule sum_list_nonneg) auto
  with Cons show ?case by (auto simp: count_packets_def)
qed (simp add: count_packets_def)

lemma same_packets:
  assumes "m_storage b' = m_storage b" and "m_capacity b' = m_capacity b"
  shows "cell b' i = cell b i" and "m_first b' = m_first b \<Longrightarrow> pkts b' = pkts b"
  using assms by (auto simp: cell_def pkts_def fun_eq_iff)

lemma no_packets:
  assumes "allocated b" and "count_packets (m_storage b) = 0"
  shows "cell b i = None" and "pkts b = (\<lambda>_. None)"
proof -
  note a = allocatedD [OF assms(1)]
  have "\<forall>p\<in>set (m_storage b). p = None"
    using assms(2) by (simp add: count_packets_zero)
  moreover have "i mod pb_cap b < length (m_storage b)" for i using a(1,4) by simp
  ultimately show all: "cell b i = None" for i by (auto simp: cell_def)
  show "pkts b = (\<lambda>_. None)" by (rule ext) (simp add: pkts_def all)
qed

lemma pb_invD:
  assumes "pb_inv b" and "m_capacity b \<noteq> 0"
  shows "allocated b" and "m_size b = count_packets (m_storage b)" and "m_size b \<noteq> 0 \<Longrightarrow> window b"
    and "m_size b \<noteq> 0 \<Longrightarrow> cell b (pb_lo b) \<noteq> None"
  using assms by (auto simp: pb_inv_def window_def)

lemma pb_inv_new: "pb_inv b \<Longrightarrow> m_capacity b = 0 \<Longrightarrow> b = new_buffer"
  by (simp add: pb_inv_def)

text \<open>The first packet of an empty buffer.\<close>

lemma insert_first:
  assumes inv: "pb_inv b" and size: "m_size b = 0" and k: "unat idx = k" "k < 65536"
  shows "\<exists>b'. pb_insert idx (Some v) b = Some (pkts b k, b') \<and> pb_inv b' \<and> pkts b' = (pkts b)(k \<mapsto> v)"
proof -
  let ?b = "b\<lparr>m_first := idx, m_last := (idx + 1) AND 65535\<rparr>"
  define b1 where "b1 = (if m_capacity b = 0 then ?b\<lparr>m_storage := replicate 16 None, m_capacity := 16\<rparr> else ?b)"
  have k1: "unat ((idx + 1) AND 65535) = (k + 1) mod 65536"
    using k by (simp add: low16 unat_sum_small)
  have "(if m_capacity ?b = 0 then reserve 16 ?b else Some ?b) = Some b1"
    using pb_inv_new [OF inv] grow.simps(2) [of 32 16 16] by (auto simp: b1_def reserve_def new_buffer_def)
  then have ins: "pb_insert idx (Some v) b = Some (put idx (Some v) b1)"
    using size by (simp add: pb_insert_def)
  have b1: "allocated b1" "count_packets (m_storage b1) = 0" "m_size b1 = 0" "m_first b1 = idx"
    "m_last b1 = (idx + 1) AND 65535"
    using pb_invD(1,2) [OF inv] k k1 size
    by (auto simp: b1_def allocated_def count_packets_def sum_list_replicate intro: exI [of _ 4])
  note none = no_packets [OF b1(1,2)]
  have old: "pkts b = (\<lambda>_. None)"
  proof (cases "m_capacity b = 0")
    case True
    then show ?thesis by (simp add: pkts_def fun_eq_iff)
  next
    case False
    then show ?thesis using no_packets(2) [of b] pb_invD(1,2) [OF inv] size by simp
  qed
  have "dist k ((k + 1) mod 65536) = 1" using dist_add [OF k(2), of 1] by simp
  then have "bounded b1" "dist (pb_lo b1) k < dist (pb_lo b1) (pb_hi b1)"
    using b1 k k1 none(1) allocatedD(1) [OF b1(1)] by (auto simp: bounded_def)
  from put_ok [OF b1(1) this(1) k this(2), of v] b1 k k1 none(2) show ?thesis
    by (auto simp: ins old)
qed

lemma insert_ok:
  assumes inv: "pb_inv b" and k: "unat idx = k" "k < 65536" and r: "reaches b k"
  shows "\<exists>b'. pb_insert idx (Some v) b = Some (pkts b k, b') \<and> pb_inv b' \<and> pkts b' = (pkts b)(k \<mapsto> v)"
proof (cases "m_size b = 0")
  case True
  then show ?thesis by (rule insert_first [OF inv _ k])
next
  case False
  then have "m_capacity b \<noteq> 0" using pb_inv_new [OF inv] by (auto simp: new_buffer_def)
  note i = pb_invD [OF inv this]
  obtain b1 where b1: "cover_index idx b = Some b1" "window b1" "pkts b1 = pkts b"
      "count_packets (m_storage b1) = count_packets (m_storage b)" "m_size b1 = m_size b"
      "dist (pb_lo b1) k < pb_cap b1" "pb_lo b1 = k \<or> cell b1 (pb_lo b1) \<noteq> None"
    using cover_index_ok [OF i(3,4) [OF False] False k r] by metis
  let ?b = "extend_last idx b1"
  note e = extend_last_ok [OF b1(2) k b1(6)]
  have same: "m_storage ?b = m_storage b1" "m_capacity ?b = m_capacity b1" "m_first ?b = m_first b1" "m_size ?b = m_size b1"
    by (simp_all add: extend_last_def)
  have "pkts ?b = pkts b" using b1(3) same_packets(2) [OF same(1-3)] by simp
  moreover have "pb_insert idx (Some v) b = Some (put idx (Some v) ?b)"
    using False b1(1) allocatedD(7) [OF e(1)] by (simp add: pb_insert_def)
  moreover have "pb_lo ?b = k \<or> cell ?b (pb_lo ?b) \<noteq> None" using b1(7) same by (simp add: cell_def)
  ultimately show ?thesis
    using put_ok [OF e(1,2) k e(3,4), of v] i(2) b1(4,5) same False by auto
qed

section \<open>Lookup and removal\<close>

text \<open>
  The numbers \<open>at\<close> and \<open>remove\<close> mistake for others: they wrap, and they are beyond the array but not half way
  around the sequence numbers.
\<close>

definition aliased :: "'p packet_buffer \<Rightarrow> nat \<Rightarrow> bool" where
  "aliased b k \<longleftrightarrow> k < pb_lo b \<and> pb_cap b \<le> dist (pb_lo b) k \<and> dist (pb_lo b) k \<le> 32768"

lemma out_of_window:
  assumes b: "allocated b" and k: "unat idx = k" "k < 65536"
  shows "m_first b + m_capacity b \<le> idx \<or> compare_less_wrap idx (m_first b) 65535
    \<longleftrightarrow> pb_cap b \<le> dist (pb_lo b) k \<and> \<not> aliased b k"
proof -
  note a = allocatedD [OF b]
  have sum: "unat (m_first b + m_capacity b) = pb_lo b + pb_cap b"
    using a(2,5) by (intro unat_sum_small) simp
  have "compare_less_wrap idx (m_first b) 65535 \<longleftrightarrow> dist k (pb_lo b) < dist (pb_lo b) k"
    using less_wrap_iff [of idx "m_first b"] k a(5) by simp
  also have "\<dots> \<longleftrightarrow> 32768 < dist (pb_lo b) k"
    using dist_sum [of k "pb_lo b"] a(5) k by (cases "k = pb_lo b") auto
  finally show ?thesis
    using sum k a dist_cases [of "pb_lo b" k] by (auto simp: word_le_nat_alt aliased_def)
qed

lemma at_exact:
  assumes inv: "pb_inv b" and k: "unat idx = k" "k < 65536"
  shows "at idx b = (if aliased b k then cell b k else pkts b k)"
proof (cases "m_capacity b = 0")
  case True
  then show ?thesis using pb_inv_new [OF inv] by (simp add: at_def new_buffer_def pkts_def aliased_def)
next
  case False
  note al = pb_invD(1) [OF inv False]
  have "at idx b = (if pb_cap b \<le> dist (pb_lo b) k \<and> \<not> aliased b k then None else cell b k)"
    using out_of_window [OF al k] k by (auto simp: at_def slot_cell [OF al])
  then show ?thesis using k(2) by (auto simp: pkts_def)
qed

lemma skip_up_ok:
  assumes b: "allocated b" and used: "cell b (pb_lo b + o1) \<noteq> None" and o1: "o1 < pb_cap b"
  shows "unat i = pb_lo b + o' \<Longrightarrow> o' \<le> o1 \<Longrightarrow> o1 - o' < n \<Longrightarrow>
    (\<And>x. o' \<le> x \<Longrightarrow> x < o1 \<Longrightarrow> cell b (pb_lo b + x) = None) \<Longrightarrow> unat (skip_up n i b) = pb_lo b + o1"
proof (induction n arbitrary: i o')
  case (Suc n)
  have slot: "slot b i = cell b (pb_lo b + o')" using Suc.prems(1) by (simp add: slot_cell [OF b])
  show ?case
  proof (cases "o' = o1")
    case True
    then show ?thesis using used slot Suc.prems(1) by simp
  next
    case False
    then have "unat (i + 1) = pb_lo b + Suc o'"
      using Suc.prems(1,2) allocatedD(2,5) [OF b] o1 by (subst unat_sum_small) auto
    then have "unat (skip_up n (i + 1) b) = pb_lo b + o1"
      using Suc.prems False by (intro Suc.IH [of _ "Suc o'"]) auto
    moreover have "slot b i = None" using Suc.prems(2) Suc.prems(4) [of o'] False slot by simp
    ultimately show ?thesis by simp
  qed
qed simp

lemma skip_down_ok:
  assumes b: "allocated b" and used: "cell b (pb_lo b + o1) \<noteq> None"
  shows "unat i mod 65536 = (pb_lo b + o') mod 65536 \<Longrightarrow> o1 \<le> o' \<Longrightarrow> o' - o1 < n \<Longrightarrow>
    (\<And>x. o1 < x \<Longrightarrow> x \<le> o' \<Longrightarrow> cell b (pb_lo b + x) = None) \<Longrightarrow>
    unat (skip_down n i b) mod 65536 = (pb_lo b + o1) mod 65536"
proof (induction n arbitrary: i o')
  case (Suc n)
  have slot: "slot b i = cell b (pb_lo b + o')"
    using Suc.prems(1) cell_wrap [OF b, of "unat i"] cell_wrap [OF b, of "pb_lo b + o'"] by (simp add: slot_cell [OF b])
  show ?case
  proof (cases "o' = o1")
    case True
    then show ?thesis using used slot Suc.prems(1) by simp
  next
    case False
    then have "unat i mod 65536 = Suc (pb_lo b + (o' - 1)) mod 65536" using Suc.prems(1,2) by simp
    then have "unat (i - 1) mod 65536 = (pb_lo b + (o' - 1)) mod 65536" by (rule unat_pred_mod [OF dvd_refl])
    then have "unat (skip_down n (i - 1) b) mod 65536 = (pb_lo b + o1) mod 65536"
      using Suc.prems False by (intro Suc.IH [of _ "o' - 1"]) auto
    moreover have "slot b i = None" using Suc.prems(2) Suc.prems(4) [of o'] False slot by simp
    ultimately show ?thesis by simp
  qed
qed simp

lemma some_packet:
  assumes b: "allocated b" and "count_packets (m_storage b) \<noteq> 0"
  shows "\<exists>o'<pb_cap b. cell b (pb_lo b + o') \<noteq> None"
proof (rule ccontr)
  assume "\<not> ?thesis"
  then have "count_packets (m_storage b) = 0" by (simp add: count_cells [OF b])
  with assms(2) show False by simp
qed

lemma bump_first_ok:
  assumes b: "allocated b" "bounded b" and size: "m_size b = count_packets (m_storage b)" "m_size b \<noteq> 0"
    and low: "cell b (pb_lo b) \<noteq> None \<longleftrightarrow> idx \<noteq> m_first b"
  defines "b' \<equiv> bump_first idx b"
  shows "allocated b'" and "bounded b'" and "cell b' (pb_lo b') \<noteq> None" and "pkts b' = pkts b"
    and "cell b' (pb_lo b' + dist (pb_lo b') (pb_hi b') - 1) = cell b (pb_lo b + dist (pb_lo b) (pb_hi b) - 1)"
proof -
  note a = allocatedD [OF b(1)]
  let ?s = "dist (pb_lo b) (pb_hi b)"
  have s: "0 < ?s" "?s \<le> pb_cap b" using b(2) by (auto simp: bounded_def)
  define o1 where "o1 = (if idx = m_first b then LEAST o'. cell b (pb_lo b + o') \<noteq> None else 0)"
  obtain o' where o': "o' < pb_cap b" "cell b (pb_lo b + o') \<noteq> None"
    using some_packet [OF b(1)] size by auto
  have used: "cell b (pb_lo b + o1) \<noteq> None"
    unfolding o1_def using low LeastI [of "\<lambda>o'. cell b (pb_lo b + o') \<noteq> None", OF o'(2)] by auto
  have "o1 \<le> o'" using Least_le [of "\<lambda>o'. cell b (pb_lo b + o') \<noteq> None", OF o'(2)] by (simp add: o1_def)
  then have o1: "o1 < pb_cap b" using o'(1) by simp
  have free: "cell b (pb_lo b + x) = None" if "x < o1" for x
    using that not_less_Least [of x "\<lambda>o'. cell b (pb_lo b + o') \<noteq> None"] by (auto simp: o1_def split: if_splits)
  have o1s: "o1 < ?s" using used bounded_free [OF b(2) _ o1] by (meson not_le_imp_less)
  have same: "m_storage b' = m_storage b" "m_capacity b' = m_capacity b" "m_last b' = m_last b"
    by (simp_all add: b'_def bump_first_def)
  note cells = same_packets(1) [OF same(1,2)]
  have lo': "pb_lo b' = (pb_lo b + o1) mod 65536"
  proof (cases "idx = m_first b")
    case True
    then have "o1 \<noteq> 0" using low used by (cases "o1 = 0") auto
    moreover have "unat (m_first b + 1) = pb_lo b + 1" using a(5) by (subst unat_sum_small) auto
    ultimately have "unat (skip_up (pb_cap b) (m_first b + 1) b) = pb_lo b + o1"
      using o1 free by (intro skip_up_ok [OF b(1) used o1, of _ 1]) auto
    with True size(2) show ?thesis by (simp add: b'_def bump_first_def low16)
  next
    case False
    then show ?thesis using a(5) by (simp add: b'_def bump_first_def o1_def)
  qed
  show al': "allocated b'" using b(1) lo' same by (simp add: allocated_def)
  show "pkts b' = pkts b"
    using move_first_up [OF b(1) al' same(1,2) lo'] o1 free by simp
  have at_lo': "cell b (pb_lo b' + x) = cell b (pb_lo b + (o1 + x))" for x
    using cell_shift [OF b(1), of "pb_lo b" o1 "pb_lo b'" x] lo' by (simp add: add.assoc)
  show "cell b' (pb_lo b') \<noteq> None" using at_lo' [of 0] used by (simp add: cells)
  have "pb_hi b = (pb_lo b + ?s) mod 65536" using add_dist a(5,6) by simp
  then have s': "dist (pb_lo b') (pb_hi b') = ?s - o1"
    using dist_offsets [of o1 ?s "pb_lo b"] lo' same(3) o1s s(2) a(2) by simp
  have "pb_lo b' + dist (pb_lo b') (pb_hi b') - 1 = pb_lo b' + (?s - o1 - 1)" using s' o1s by simp
  moreover have "o1 + (?s - o1 - 1) = ?s - 1" using o1s by simp
  ultimately show "cell b' (pb_lo b' + dist (pb_lo b') (pb_hi b') - 1) = cell b (pb_lo b + ?s - 1)"
    using at_lo' [of "?s - o1 - 1"] s(1) by (simp only: cells) simp
  have "cell b (pb_lo b + (o1 + x)) = None" if "?s - o1 \<le> x" "x < pb_cap b" for x
  proof (cases "o1 + x < pb_cap b")
    case True
    then show ?thesis using that bounded_free [OF b(2), of "o1 + x"] by simp
  next
    case False
    then show ?thesis
      using that free [of "o1 + x - pb_cap b"] cell_add_cap [of b "pb_lo b + (o1 + x - pb_cap b)"] by simp
  qed
  then show "bounded b'"
    unfolding bounded_def cells s' using at_lo' same(2) o1s s(2) by auto
qed

lemma lower_last_ok:
  assumes b: "allocated b" "bounded b" and low: "cell b (pb_lo b) \<noteq> None" and size: "m_size b \<noteq> 0"
    and k: "unat idx = k" "k < 65536"
    and high: "pb_hi b \<noteq> (k + 1) mod 65536 \<Longrightarrow> cell b (pb_lo b + dist (pb_lo b) (pb_hi b) - 1) \<noteq> None"
  defines "b' \<equiv> lower_last idx b"
  shows "window b'"
proof -
  note a = allocatedD [OF b(1)]
  let ?s = "dist (pb_lo b) (pb_hi b)"
  have s: "0 < ?s" "?s \<le> pb_cap b" using b(2) by (auto simp: bounded_def)
  have same: "m_storage b' = m_storage b" "m_capacity b' = m_capacity b" "m_first b' = m_first b"
    by (simp_all add: b'_def lower_last_def)
  note cells = same_packets(1) [OF same(1,2)]
  have k1: "unat ((idx + 1) AND 65535) = (k + 1) mod 65536"
    using k by (simp add: low16 unat_sum_small)
  show ?thesis
  proof (cases "(idx + 1) AND 65535 = m_last b")
    case False
    then have "pb_hi b \<noteq> (k + 1) mod 65536" using k1 by (metis word_unat_eq_iff)
    with False high b show ?thesis by (simp add: b'_def lower_last_def window_def)
  next
    case True
    define o1 where "o1 = (GREATEST o'. o' < ?s \<and> cell b (pb_lo b + o') \<noteq> None)"
    have ex: "0 < ?s \<and> cell b (pb_lo b + 0) \<noteq> None" using low s by simp
    have o1: "o1 < ?s \<and> cell b (pb_lo b + o1) \<noteq> None"
      unfolding o1_def using ex
      by (intro GreatestI_nat [where P = "\<lambda>o'. o' < ?s \<and> cell b (pb_lo b + o') \<noteq> None" and k = 0 and b = ?s]) auto
    have free: "cell b (pb_lo b + x) = None" if "o1 < x" "x < pb_cap b" for x
    proof (cases "x < ?s")
      case lt: True
      then show ?thesis
        using that Greatest_le_nat [of "\<lambda>o'. o' < ?s \<and> cell b (pb_lo b + o') \<noteq> None" x ?s] by (force simp: o1_def)
    next
      case False
      then show ?thesis using that bounded_free [OF b(2)] by simp
    qed
    have "unat (m_last b) mod 65536 = Suc (pb_lo b + (?s - 1)) mod 65536"
      using add_dist [OF a(5,6)] a(6) s(1) by simp
    then have "unat (m_last b - 1) mod 65536 = (pb_lo b + (?s - 1)) mod 65536" by (rule unat_pred_mod [OF dvd_refl])
    then have last: "unat (skip_down (pb_cap b) (m_last b - 1) b) mod 65536 = (pb_lo b + o1) mod 65536"
      using o1 s free by (intro skip_down_ok [OF b(1), of o1 _ "?s - 1"]) auto
    have "unat ((x + 1) AND 65535) = Suc (unat x mod 65536) mod 65536" for x :: u32
      by (simp add: low16 unat_word_ariths mod_simps mod_mod_cancel)
    then have "pb_hi b' = Suc ((pb_lo b + o1) mod 65536) mod 65536"
      using True size last by (simp add: b'_def lower_last_def)
    then have hi': "pb_hi b' = (pb_lo b + (o1 + 1)) mod 65536" by (simp add: mod_Suc_eq)
    then have s': "dist (pb_lo b') (pb_hi b') = o1 + 1"
      using dist_add [OF a(5), of "o1 + 1"] o1 s a(2) same by simp
    have "bounded b'" unfolding bounded_def cells s' using free same o1 s by auto
    moreover have "allocated b'" using b(1) same hi' by (simp add: allocated_def)
    ultimately show ?thesis using o1 s' same by (simp add: window_def cells)
  qed
qed

text \<open>What \<open>remove\<close> does to a number within the array, by the packet found there.\<close>

lemma hi_after:
  assumes b: "allocated b" and k: "k < 65536" and o': "dist (pb_lo b) k < pb_cap b"
  shows "pb_hi b = (k + 1) mod 65536 \<longleftrightarrow> dist (pb_lo b) (pb_hi b) = dist (pb_lo b) k + 1"
proof -
  note a = allocatedD [OF b]
  have k': "(k + 1) mod 65536 = (pb_lo b + (dist (pb_lo b) k + 1)) mod 65536"
    using add_dist [OF a(5) k] by (metis add.assoc mod_add_left_eq)
  show ?thesis
    using dist_add [OF a(5), of "dist (pb_lo b) k + 1"] add_dist [OF a(5,6)] k' a(2) o' by auto
qed

lemma remove_missing:
  assumes inv: "pb_inv b" and k: "unat idx = k" "k < 65536" and cap: "m_capacity b \<noteq> 0"
    and o': "dist (pb_lo b) k < pb_cap b" and none: "pkts b k = None"
  shows "lower_last idx (bump_first idx (set_slot idx None b)) = b"
proof -
  note i = pb_invD [OF inv cap]
  note a = allocatedD [OF i(1)]
  have at_k: "cell b k = None" using none k o' by (simp add: pkts_def)
  have "m_storage b ! unat (idx AND m_capacity b - 1) = None"
    using set_slot_ok(3) [OF i(1) k o'] none by (simp add: slot_def)
  then have same: "set_slot idx None b = b"
    by (metis list_update_id packet_buffer.surjective packet_buffer.update_convs(1) set_slot_def)
  have "bump_first idx b = b" using i(4) at_k k by (auto simp: bump_first_def)
  moreover have "m_size b = 0" if "pb_hi b = (k + 1) mod 65536"
  proof (rule ccontr)
    assume "m_size b \<noteq> 0"
    then have "cell b (pb_lo b + dist (pb_lo b) k) \<noteq> None"
      using window_pos [OF i(3)] hi_after [OF i(1) k(2) o'] that by simp
    moreover have "cell b (pb_lo b + dist (pb_lo b) k) = cell b k"
      using cell_wrap [OF i(1), of "pb_lo b + dist (pb_lo b) k"] add_dist [OF a(5) k(2)] by simp
    ultimately show False using at_k by simp
  qed
  then have "lower_last idx b = b"
    using k by (auto simp: lower_last_def low16 unat_sum_small word_unat_eq_iff)
  ultimately show ?thesis using same by simp
qed

lemma remove_present:
  assumes b: "window b" and used: "cell b (pb_lo b) \<noteq> None" and k: "unat idx = k" "k < 65536"
    and o': "dist (pb_lo b) k < pb_cap b"
    and b1: "m_storage b1 = m_storage (set_slot idx None b)" "m_capacity b1 = m_capacity b" "m_first b1 = m_first b"
      "m_last b1 = m_last b" "m_size b1 = count_packets (m_storage b1)" "m_size b1 \<noteq> 0"
  defines "b' \<equiv> lower_last idx (bump_first idx b1)"
  shows "pb_inv b'" and "pkts b' = (pkts b)(k := None)"
proof -
  have al: "allocated b" and bd: "bounded b" using b by (auto simp: window_def)
  note a = allocatedD [OF al]
  let ?s = "dist (pb_lo b) (pb_hi b)"
  note set = set_slot_ok(1,2,4) [OF al k o', where p = None]
  have cells: "cell b1 i = (if i mod pb_cap b = k mod pb_cap b then None else cell b i)" for i
    using set(3) [of i] b1 by (simp add: cell_def set_slot_def)
  have s: "0 < ?s" "?s \<le> pb_cap b" using bd by (auto simp: bounded_def)
  have k': "k mod pb_cap b = (pb_lo b + dist (pb_lo b) k) mod pb_cap b"
    using add_dist [OF a(5) k(2)] mod_mod_cancel [OF a(3)] by metis
  have al1: "allocated b1" using set(1) b1 by (simp add: allocated_def set_slot_def)
  have bd1: "bounded b1" using bd b1 cells by (auto simp: bounded_def)
  have low: "cell b1 (pb_lo b1) \<noteq> None \<longleftrightarrow> idx \<noteq> m_first b1"
    using used same_cell [OF al k(2) _ o', of "pb_lo b"] a(1,5) b1(3) k(1) by (auto simp: cells word_unat_eq_iff)
  have high: "cell b1 (pb_lo b1 + dist (pb_lo b1) (pb_hi b1) - 1) \<noteq> None" if "pb_hi b \<noteq> (k + 1) mod 65536"
  proof -
    have "?s - 1 \<noteq> dist (pb_lo b) k" using that hi_after [OF al k(2) o'] s by auto
    then have "(pb_lo b + (?s - 1)) mod pb_cap b \<noteq> k mod pb_cap b"
      using mod_shift_inject [of "?s - 1" "pb_cap b" "dist (pb_lo b) k" "pb_lo b"] s o' k' by simp
    then show ?thesis using window_pos [OF b] s b1(3,4) by (simp add: cells)
  qed
  let ?b2 = "bump_first idx b1"
  note bump = bump_first_ok [OF al1 bd1 b1(5,6) low]
  have keep2: "m_storage ?b2 = m_storage b1" "m_capacity ?b2 = m_capacity b1" "m_last ?b2 = m_last b1" "m_size ?b2 = m_size b1"
    by (simp_all add: bump_first_def)
  have win: "window b'"
    unfolding b'_def using b1(4,6) keep2 bump(5) high
    by (intro lower_last_ok [OF bump(1-3) _ k]) auto
  have keep: "m_storage b' = m_storage ?b2" "m_capacity b' = m_capacity ?b2" "m_first b' = m_first ?b2" "m_size b' = m_size ?b2"
    by (simp_all add: b'_def lower_last_def)
  then show "pb_inv b'"
    using win bump(3) keep2 b1(5) same_packets(1) [OF keep(1,2)] allocatedD(7) [of b']
    by (auto simp: pb_inv_def window_def)
  have "pkts b1 = pkts (set_slot idx None b)" using b1 by (intro same_packets(2)) (simp_all add: set_slot_def)
  then show "pkts b' = (pkts b)(k := None)"
    using same_packets(2) [OF keep(1-3)] bump(4) set(2) by simp
qed

lemma remove_ok:
  assumes inv: "pb_inv b" and k: "unat idx = k" "k < 65536" and sees: "\<not> aliased b k"
  shows "\<exists>b'. pb_remove idx b = (pkts b k, b') \<and> pb_inv b' \<and> pkts b' = (pkts b)(k := None)"
proof (cases "m_capacity b = 0 \<or> pb_cap b \<le> dist (pb_lo b) k")
  case True
  have "pb_remove idx b = (None, b)"
  proof (cases "m_capacity b = 0")
    case True
    then show ?thesis using pb_inv_new [OF inv] by (simp add: pb_remove_def new_buffer_def)
  next
    case False
    with True show ?thesis using out_of_window [OF pb_invD(1) [OF inv False] k] sees by (auto simp: pb_remove_def)
  qed
  moreover have "pkts b k = None" using True by (auto simp: pkts_def)
  ultimately show ?thesis using inv by (auto simp: fun_eq_iff)
next
  case False
  then have o': "dist (pb_lo b) k < pb_cap b" and cap: "m_capacity b \<noteq> 0" by auto
  note i = pb_invD [OF inv cap]
  let ?b = "set_slot idx None b"
  note set = set_slot_ok(1,2,5) [OF i(1) k o', where p = None]
    and slot = set_slot_ok(3) [OF i(1) k o']
  have guard: "\<not> m_first b + m_capacity b \<le> idx" "\<not> compare_less_wrap idx (m_first b) 65535"
    using out_of_window [OF i(1) k] o' by auto
  have msz: "m_size ?b = m_size b" by (simp add: set_slot_def)
  show ?thesis
  proof (cases "pkts b k")
    case None
    then have "pb_remove idx b = (pkts b k, b)"
      using guard slot remove_missing [OF inv k cap o' None] by (simp add: pb_remove_def Let_def)
    then show ?thesis using inv None by (auto simp: fun_eq_iff)
  next
    case (Some v)
    define b1 where "b1 = ?b\<lparr>m_size := m_size b - 1\<rparr>"
    have count: "m_size b1 = count_packets (m_storage b1)" using set(3) i(2) Some by (simp add: b1_def)
    have pk1: "pkts b1 = (pkts b)(k := None)" using set(2) same_packets(2) [of b1 ?b] by (simp add: b1_def)
    show ?thesis
    proof (cases "m_size b1 = 0")
      case True
      let ?b' = "b1\<lparr>m_last := m_first b1\<rparr>"
      have "pb_remove idx b = (pkts b k, ?b')"
        using guard slot Some True msz
        by (simp add: pb_remove_def Let_def b1_def bump_first_def lower_last_def)
      moreover have "pb_inv ?b'"
        using set(1) count True allocatedD(7) [OF set(1)] by (simp add: pb_inv_def b1_def allocated_def)
      moreover have "pkts ?b' = pkts b1" by (rule same_packets(2)) simp_all
      ultimately show ?thesis using pk1 by auto
    next
      case False
      have "m_size b \<noteq> 0" using i(2) Some no_packets(2) [OF i(1)] by auto
      note win = i(3,4) [OF this]
      have "pb_remove idx b = (pkts b k, lower_last idx (bump_first idx b1))"
        using guard slot Some False msz by (simp add: pb_remove_def Let_def b1_def)
      moreover have "pb_inv (lower_last idx (bump_first idx b1))"
        "pkts (lower_last idx (bump_first idx b1)) = (pkts b)(k := None)"
        using remove_present [OF win k o', of b1] count False by (simp_all add: b1_def set_slot_def)
      ultimately show ?thesis by auto
    qed
  qed
qed

section \<open>The buffer in use\<close>

text \<open>
  A stream inserts packets, removes them and looks them up. Each operation answers with a packet or null. The guard
  \<open>op_ok\<close> says for which numbers the operation does what it should: within reach for an insert, not mistaken
  for another one for the others. The code does not assert it, so it is an assumption on
  the streams; without it the operations still do what \<open>pb_do\<close> says, but not always to the packet that was meant.
\<close>

datatype 'p pb_op = Ins u32 'p | Rem u32 | Look u32

primrec pb_do :: "'p pb_op \<Rightarrow> 'p packet_buffer \<Rightarrow> ('p option \<times> 'p packet_buffer) option" where
  "pb_do (Ins idx v) b = pb_insert idx (Some v) b"
| "pb_do (Rem idx) b = Some (pb_remove idx b)"
| "pb_do (Look idx) b = Some (at idx b, b)"

primrec op_ok :: "'p pb_op \<Rightarrow> 'p packet_buffer \<Rightarrow> bool" where
  "op_ok (Ins idx v) b \<longleftrightarrow> unat idx < 65536 \<and> reaches b (unat idx)"
| "op_ok (Rem idx) b \<longleftrightarrow> unat idx < 65536 \<and> \<not> aliased b (unat idx)"
| "op_ok (Look idx) b \<longleftrightarrow> unat idx < 65536 \<and> \<not> aliased b (unat idx)"

primrec pb_trace :: "'p pb_op list \<Rightarrow> 'p packet_buffer \<Rightarrow> 'p option list option" where
  "pb_trace [] b = Some []"
| "pb_trace (x # xs) b = Option.bind (pb_do x b) (\<lambda>(p, b). map_option ((#) p) (pb_trace xs b))"

primrec trace_ok :: "'p pb_op list \<Rightarrow> 'p packet_buffer \<Rightarrow> bool" where
  "trace_ok [] b \<longleftrightarrow> True"
| "trace_ok (x # xs) b \<longleftrightarrow> op_ok x b \<and> (case pb_do x b of None \<Rightarrow> True | Some (_, b) \<Rightarrow> trace_ok xs b)"

text \<open>The same operations on a map from sequence numbers to packets.\<close>

primrec map_do :: "'p pb_op \<Rightarrow> (nat \<rightharpoonup> 'p) \<Rightarrow> 'p option \<times> (nat \<rightharpoonup> 'p)" where
  "map_do (Ins idx v) m = (m (unat idx), m(unat idx \<mapsto> v))"
| "map_do (Rem idx) m = (m (unat idx), m(unat idx := None))"
| "map_do (Look idx) m = (m (unat idx), m)"

primrec map_trace :: "'p pb_op list \<Rightarrow> (nat \<rightharpoonup> 'p) \<Rightarrow> 'p option list" where
  "map_trace [] m = []"
| "map_trace (x # xs) m = (case map_do x m of (p, m) \<Rightarrow> p # map_trace xs m)"

text \<open>The states of a buffer all of whose operations satisfied \<open>op_ok\<close>, which is an assumption on the caller.\<close>

definition pb_start :: "'p packet_buffer \<Rightarrow> bool" where
  "pb_start b \<longleftrightarrow> b = new_buffer"

inductive pb_step :: "'p packet_buffer \<Rightarrow> 'p packet_buffer \<Rightarrow> bool" where
  pb_step: "op_ok x b \<Longrightarrow> pb_do x b = Some (p, b') \<Longrightarrow> pb_step b b'"

lemma pb_inv_new_buffer: "pb_inv new_buffer"
  by (simp add: pb_inv_def new_buffer_def)

text \<open>One operation: it returns, keeps the invariant and does to the packets what the map does.\<close>

lemma pb_do_simulates:
  assumes inv: "pb_inv b" and ok: "op_ok x b"
  obtains b' where "pb_do x b = Some (fst (map_do x (pkts b)), b')" and "pb_inv b'" and "pkts b' = snd (map_do x (pkts b))"
proof (cases x)
  case (Ins idx v)
  then show thesis using insert_ok [OF inv refl, of idx v] ok that by auto
next
  case (Rem idx)
  then show thesis using remove_ok [OF inv refl, of idx] ok that by auto
next
  case (Look idx)
  then show thesis using at_exact [OF inv refl, of idx] ok inv that by auto
qed

lemma pb_trace_simulates:
  "pb_inv b \<Longrightarrow> trace_ok xs b \<Longrightarrow> pb_trace xs b = Some (map_trace xs (pkts b))"
proof (induction xs arbitrary: b)
  case (Cons x xs)
  then obtain b' where "pb_do x b = Some (fst (map_do x (pkts b)), b')" "pb_inv b'" "pkts b' = snd (map_do x (pkts b))"
    using pb_do_simulates [of b x] by auto
  with Cons show ?case by (simp add: split_beta)
qed simp

lemma pb_step_inv:
  assumes "pb_inv b" and "pb_step b b'"
  shows "pb_inv b'"
  using assms(2)
proof cases
  case (pb_step x p)
  then show ?thesis by (metis pb_do_simulates [OF assms(1) pb_step(1)] option.inject prod.inject)
qed

interpretation packets: invariant_system pb_start pb_step pb_inv
proof
  show "pb_inv b" if "pb_start b" for b using that by (simp add: pb_start_def pb_inv_new_buffer)
  show "pb_inv b'" if "pb_inv b" "pb_step b b'" for b b'
    using that by (rule pb_step_inv)
qed

lemma pkts_new_buffer: "pkts new_buffer = Map.empty"
  by (auto simp: pkts_def new_buffer_def fun_eq_iff)

text \<open>
  C15: every sequence of inserts, removals and lookups on a new packet buffer returns, with the answers a map from
  sequence numbers to packets gives, through all growth and wrap-around, as long as the numbers stay within reach.
\<close>

theorem packet_buffer_refines:
  "trace_ok xs new_buffer \<Longrightarrow> pb_trace xs new_buffer = Some (map_trace xs Map.empty)"
  using pb_trace_simulates [OF pb_inv_new_buffer] by (simp add: pkts_new_buffer)

text \<open>
  C22: as long as every insert is within reach and no removal or lookup is for a number that is mistaken for another one (the
  guard \<open>op_ok\<close>, which the code does not assert and without which the packets can come to lie outside of the array's range),
  in every state of a packet buffer \<open>m_size\<close> counts the packets in the array, the capacity is zero or a
  power of two from 16 to \<open>2 ^ 15\<close>, the packets lie between \<open>m_first\<close> and \<open>m_last\<close>, and the positions at both ends are in use.
\<close>

theorem packet_buffer_sound: "reach pb_start pb_step b \<Longrightarrow> pb_inv b"
  by (rule packets.inv_reach)

text \<open>
  C37: inserting a number that wraps while the end of the array does not puts the packet into the place of another number:
  the array does not grow, and the number with the same remainder within the array is answered with the new packet.
\<close>

theorem wrapped_insert_aliases:
  assumes reach: "reach pb_start pb_step b" and size: "m_size b \<noteq> 0" and k: "unat idx < pb_lo b"
    and far: "dist (pb_lo b) (unat idx) < 32768" and gap: "pb_lo b + pb_cap b < 65536"
    and q: "unat q = pb_lo b + dist (pb_lo b) (unat idx) mod pb_cap b"
  shows "map_option (\<lambda>(_, b'). at q b') (pb_insert idx (Some v) b) = Some (Some v)"
proof -
  have inv: "pb_inv b" by (rule packets.inv_reach [OF reach])
  have cap: "m_capacity b \<noteq> 0" using size pb_inv_new [OF inv] by (auto simp: new_buffer_def)
  note i = pb_invD [OF inv cap]
  note a = allocatedD [OF i(1)]
  let ?k = "unat idx" and ?o = "dist (pb_lo b) (unat idx)"
  have k16: "?k < 65536" using k a(5) by simp
  have sum: "unat (m_first b + m_capacity b) = pb_lo b + pb_cap b" using gap by (intro unat_sum_small) simp
  have "\<not> compare_less_wrap idx (m_first b) 65535"
    using less_wrap_iff [of idx "m_first b"] dist_sum [of ?k "pb_lo b"] k16 a(5) far k by simp
  moreover have "\<not> m_first b + m_capacity b \<le> idx" using sum k by (simp add: word_le_nat_alt)
  moreover have "\<not> (m_first b + m_capacity b) AND 65535 \<le> idx" using sum gap k by (simp add: word_le_nat_alt low16)
  ultimately have "cover_index idx b = Some b" by (simp add: cover_index_def)
  then have ins: "pb_insert idx (Some v) b = Some (put idx (Some v) (extend_last idx b))"
    using size cap by (simp add: pb_insert_def extend_last_def)
  obtain b' where b': "snd (put idx (Some v) (extend_last idx b)) = b'" by blast
  have flds: "m_storage b' = m_storage (set_slot idx (Some v) b)" "m_capacity b' = m_capacity b" "m_first b' = m_first b"
    using size b' by (auto simp: put_def extend_last_def set_slot_def Let_def split: if_splits)
  have k1: "unat ((idx + 1) AND 65535) < 65536" by (simp add: low16)
  have al': "allocated b'"
    using i(1) flds k1 b' size
    by (auto simp: allocated_def put_def extend_last_def set_slot_def Let_def split: if_splits)
  have om: "?o mod pb_cap b < pb_cap b" using a(1) by simp
  then have q16: "unat q < 65536" using q gap by linarith
  then have dq: "dist (pb_lo b) (unat q) = ?o mod pb_cap b"
    using q a(5) dist_cases [of "pb_lo b" "unat q"] by simp
  have "\<not> (m_first b' + m_capacity b' \<le> q \<or> compare_less_wrap q (m_first b') 65535)"
    using out_of_window [OF al' refl q16] flds dq om by simp
  then have "at q b' = cell b' (unat q)" by (simp add: at_def slot_cell [OF al'])
  also have "\<dots> = Some v"
  proof -
    have "unat q mod pb_cap b = (pb_lo b + ?o) mod pb_cap b" using q by (simp add: mod_add_right_eq)
    also have "\<dots> = ?k mod pb_cap b" using add_dist [OF a(5) k16] mod_mod_cancel [OF a(3)] by metis
    finally have "unat q mod pb_cap b = ?k mod pb_cap b" .
    moreover have "?k mod pb_cap b < length (m_storage b)" using a(1,4) by simp
    ultimately show ?thesis
      by (simp add: cell_def flds set_slot_def unat_low_cap [OF i(1)])
  qed
  finally show ?thesis using ins b' by (auto simp: split_beta)
qed

section \<open>Examples\<close>

text \<open>Evaluation rules for concrete buffers.\<close>

lemmas pb_eval = pb_insert_def pb_remove_def at_def put_def cover_index_def extend_last_def bump_first_def lower_last_def
  reserve_def slot_def set_slot_def compare_less_wrap_def reaches_def aliased_def dist_def new_buffer_def Let_def

lemma skip_up_numeral: "skip_up (numeral n) i b = (if slot b i \<noteq> None then i else skip_up (pred_numeral n) (i + 1) b)"
  by (simp add: numeral_eq_Suc)

lemma skip_down_numeral: "skip_down (numeral n) i b = (if slot b i \<noteq> None then i else skip_down (pred_numeral n) (i - 1) b)"
  by (simp add: numeral_eq_Suc)

lemma grow_numeral: "grow (numeral n) a w = (if a < w then grow (pred_numeral n) (push_bit 1 a) w else Some a)"
  by (simp add: numeral_eq_Suc)

lemma free_loop_numeral: "free_loop (numeral n) b i = (if i = m_first b AND (m_capacity b - 1) \<or> slot b i \<noteq> None then 0
     else 1 + free_loop (pred_numeral n) b ((i - 1) AND (m_capacity b - 1)))"
  by (simp add: numeral_eq_Suc)

definition demo_ops :: "nat pb_op list" where
  "demo_ops = [Ins 65530 1, Ins 65533 2, Ins 5 3, Rem 65530, Look 5, Ins 65531 4, Look 65533, Look 65531]"

theorem packet_buffer_refines_witness:
  "pb_trace demo_ops new_buffer = Some [None, None, None, Some 1, Some 3, None, Some 2, Some 4]"
proof -
  have "trace_ok demo_ops new_buffer"
    by (simp add: demo_ops_def pb_eval free_space_def free_loop_numeral skip_up_numeral skip_down_numeral grow_numeral)
  from packet_buffer_refines [OF this] show ?thesis by (simp add: demo_ops_def)
qed

text \<open>One packet near the end of the sequence numbers, then one that wraps although the array does not.\<close>

definition demo_buffer :: "nat packet_buffer" where
  "demo_buffer = \<lparr>m_storage = (replicate 16 None)[14 := Some 7], m_capacity = 16, m_size = 1, m_first = 65102, m_last = 65103\<rparr>"

lemma demo_buffer_reach: "reach pb_start pb_step demo_buffer"
proof (rule reach_step)
  show "reach pb_start pb_step new_buffer" by (rule reach_start) (simp add: pb_start_def)
  have "pb_do (Ins 65102 7) new_buffer = Some (None, demo_buffer)"
    by (simp add: pb_eval grow_numeral demo_buffer_def)
  then show "pb_step new_buffer demo_buffer"
    by (rule pb_step [rotated]) (simp add: reaches_def new_buffer_def)
qed

theorem packet_buffer_sound_witness: "pb_inv demo_buffer"
  by (rule packet_buffer_sound [OF demo_buffer_reach])

theorem wrapped_insert_aliases_witness:
  "map_option (\<lambda>(_, b'). at 65109 b') (pb_insert 5 (Some 8) demo_buffer) = Some (Some 8)"
  by (rule wrapped_insert_aliases [OF demo_buffer_reach]) (simp_all add: demo_buffer_def dist_def)

end
