(* ===== verification/Bit_Tricks.thy ===== *)
theory Bit_Tricks
  imports Prelude
begin

text \<open>
  Two word tricks of the bit field: the parallel count of set bits (\<open>bitfield.cpp\<close>) and the logarithm by a de Bruijn
  multiplication (\<open>ffs.cpp\<close>), on 32 bit words with their wrap-around. Shown: the first is the number of set bits, the
  second the position of the highest.
\<close>

section \<open>The routines\<close>

text \<open>The parallel bit count of \<open>bitfield::count\<close>.\<close>

definition popcount :: "u32 \<Rightarrow> u32" where
  "popcount v = (let
     c = v - (drop_bit 1 v AND 0x55555555);
     c = (drop_bit 2 c AND 0x33333333) + (c AND 0x33333333);
     c = (drop_bit 4 c + c) AND 0x0f0f0f0f;
     c = (drop_bit 8 c + c) AND 0x00ff00ff;
     c = (drop_bit 16 c + c) AND 0x0000ffff
   in c)"

definition deBruijn :: "nat list" where
  "deBruijn = [0, 9, 1, 10, 13, 21, 2, 29, 11, 14, 16, 18, 22, 25, 3, 30,
     8, 12, 20, 28, 15, 17, 24, 7, 19, 27, 23, 6, 26, 5, 4, 31]"

definition deBruijn_at :: "u32 \<Rightarrow> nat" where
  "deBruijn_at v = deBruijn ! unat (drop_bit 27 (v * 0x07C4ACDD))"

definition log2p1 :: "u32 \<Rightarrow> nat" where
  "log2p1 v = (let
     v = v OR drop_bit 1 v;
     v = v OR drop_bit 2 v;
     v = v OR drop_bit 4 v;
     v = v OR drop_bit 8 v;
     v = v OR drop_bit 16 v
   in deBruijn_at v)"

section \<open>The highest bit\<close>

lemma deBruijn_all: "list_all (\<lambda>m. deBruijn_at (mask (m + 1)) = m) [0..<32]"
  by code_simp

text \<open>One step of the smearing: if \<open>u\<close> has the bits of \<open>v\<close> shifted by less than \<open>d\<close>, then it gets those by less than \<open>2 * d\<close>.\<close>

lemma smear:
  fixes u v :: u32
  assumes "\<And>n. bit u n \<longleftrightarrow> (\<exists>j<d. bit v (n + j))" and e: "e = d + d"
  shows "bit (u OR drop_bit d u) n \<longleftrightarrow> (\<exists>j<e. bit v (n + j))"
proof -
  have "bit (u OR drop_bit d u) n \<longleftrightarrow> (\<exists>j<d. bit v (n + j)) \<or> (\<exists>j<d. bit v (d + n + j))"
    by (simp only: bit_or_iff bit_drop_bit_eq o_def assms)
  also have "(\<exists>j<d. bit v (d + n + j)) \<longleftrightarrow> (\<exists>j. d \<le> j \<and> j < e \<and> bit v (n + j))"
  proof
    assume "\<exists>j<d. bit v (d + n + j)"
    then obtain j where "j < d" "bit v (d + n + j)" by blast
    then show "\<exists>j. d \<le> j \<and> j < e \<and> bit v (n + j)" using e by (intro exI [of _ "d + j"]) (simp add: ac_simps)
  next
    assume "\<exists>j. d \<le> j \<and> j < e \<and> bit v (n + j)"
    then obtain j where "d \<le> j" "j < e" "bit v (n + j)" by blast
    then show "\<exists>j<d. bit v (d + n + j)" using e by (intro exI [of _ "j - d"]) auto
  qed
  finally show ?thesis using e by (meson less_add_same_cancel1 linorder_not_le order.strict_trans2 trans_less_add1)
qed

lemma log2p1_top:
  assumes m: "bit v m" "\<And>k. m < k \<Longrightarrow> \<not> bit v k"
  shows "log2p1 v = m"
proof -
  have m32: "m < 32" using bit_imp_le_length [OF m(1)] by simp
  define v1 where "v1 = v OR drop_bit 1 v"
  define v2 where "v2 = v1 OR drop_bit 2 v1"
  define v3 where "v3 = v2 OR drop_bit 4 v2"
  define v4 where "v4 = v3 OR drop_bit 8 v3"
  define v5 where "v5 = v4 OR drop_bit 16 v4"
  have 1: "bit v1 n \<longleftrightarrow> (\<exists>j<2. bit v (n + j))" for n unfolding v1_def by (rule smear) auto
  have 2: "bit v2 n \<longleftrightarrow> (\<exists>j<4. bit v (n + j))" for n unfolding v2_def by (rule smear [OF 1]) simp
  have 3: "bit v3 n \<longleftrightarrow> (\<exists>j<8. bit v (n + j))" for n unfolding v3_def by (rule smear [OF 2]) simp
  have 4: "bit v4 n \<longleftrightarrow> (\<exists>j<16. bit v (n + j))" for n unfolding v4_def by (rule smear [OF 3]) simp
  have 5: "bit v5 n \<longleftrightarrow> (\<exists>j<32. bit v (n + j))" for n unfolding v5_def by (rule smear [OF 4]) simp
  have "bit v5 n \<longleftrightarrow> n < m + 1" for n
  proof
    assume "bit v5 n"
    then obtain j where "bit v (n + j)" using 5 by blast
    then show "n < m + 1" using m(2) [of "n + j"] by (cases "m < n + j") auto
  next
    assume "n < m + 1"
    then show "bit v5 n" unfolding 5 using m(1) m32 by (intro exI [of _ "m - n"]) auto
  qed
  then have "v5 = mask (m + 1)" by (intro bit_word_eqI) (auto simp: bit_mask_iff)
  moreover have "deBruijn_at (mask (m + 1)) = m" using deBruijn_all m32 by (simp add: list_all_iff)
  ultimately show ?thesis by (simp add: log2p1_def Let_def v1_def v2_def v3_def v4_def v5_def)
qed

lemma top_bit_exists:
  fixes v :: u32
  assumes "v \<noteq> 0"
  obtains m where "m < 32" and "bit v m" and "\<And>k. m < k \<Longrightarrow> \<not> bit v k"
proof -
  obtain k where k: "bit v k" using assms bit_eq_iff [of v 0] by auto
  have bound: "\<And>n. bit v n \<Longrightarrow> n \<le> 31" using bit_imp_le_length [of v] by fastforce
  define m where "m = (GREATEST n. bit v n)"
  have "bit v m" unfolding m_def using k bound by (rule GreatestI_nat)
  moreover have "\<not> bit v j" if "m < j" for j
    using Greatest_le_nat [of "bit v" j 31] bound that by (auto simp: m_def)
  ultimately show thesis using that [of m] bound [of m] by auto
qed

section \<open>Counting bits\<close>

text \<open>The stages of the parallel count work on the digits of a word, from the lowest on.\<close>

primrec lanes :: "nat \<Rightarrow> nat list \<Rightarrow> nat" where
  "lanes w [] = 0"
| "lanes w (d # ds) = d + 2 ^ w * lanes w ds"

fun pair_sum :: "nat list \<Rightarrow> nat list" where
  "pair_sum (a # b # ds) = (a + b) # pair_sum ds"
| "pair_sum ds = ds"

primrec lane_mask :: "nat \<Rightarrow> nat \<Rightarrow> nat" where
  "lane_mask w 0 = 0"
| "lane_mask w (Suc n) = mask w + 2 ^ w * (2 ^ w * lane_mask w n)"

lemma high_bits_clear: "x < 2 ^ k \<Longrightarrow> k \<le> j \<Longrightarrow> \<not> bit x j" for x :: nat
  by (metis bit_take_bit_iff linorder_not_less take_bit_nat_eq_self)

lemma glue_or: "x < 2 ^ k \<Longrightarrow> x + 2 ^ k * y = x OR push_bit k y" for x y :: nat
proof -
  assume x: "x < 2 ^ k"
  have "x + push_bit k y = x OR push_bit k y"
    by (rule disjunctive_add_eq_or, rule bit_eqI) (use high_bits_clear [OF x] in \<open>auto simp: bit_simps\<close>)
  then show ?thesis by (simp add: push_bit_eq_mult ac_simps)
qed

lemma and_split:
  fixes a b m n :: nat
  assumes "a < 2 ^ k" and "m < 2 ^ k"
  shows "(a + 2 ^ k * b) AND (m + 2 ^ k * n) = (a AND m) + 2 ^ k * (b AND n)"
proof -
  have "a AND m < 2 ^ k" using assms by (metis take_bit_and take_bit_nat_eq_self take_bit_nat_less_exp)
  then show ?thesis
    unfolding glue_or [OF assms(1)] glue_or [OF assms(2)] glue_or [OF \<open>a AND m < 2 ^ k\<close>]
    by (intro bit_eqI) (use assms high_bits_clear in \<open>auto simp: bit_simps\<close>)
qed

lemma pair_induct [consumes 1, case_names Nil Pair]:
  fixes ds :: "nat list"
  assumes "even (length ds)" and "P []" and "\<And>a b ds. even (length ds) \<Longrightarrow> P ds \<Longrightarrow> P (a # b # ds)"
  shows "P ds"
  using assms(1) by (induction ds rule: pair_sum.induct) (use assms(2,3) in auto)

lemma mask_lane: "d < 2 ^ w \<Longrightarrow> d AND mask w = (d :: nat)"
  by (simp add: take_bit_eq_mask [symmetric] take_bit_nat_eq_self)

lemma mask_step:
  assumes "a < 2 ^ w" and "b < 2 ^ w"
  shows "(a + 2 ^ w * (b + 2 ^ w * c)) AND lane_mask w (Suc n) = a + 2 ^ w * (2 ^ w * (c AND lane_mask w n))"
proof -
  have "(b + 2 ^ w * c) AND (0 + 2 ^ w * lane_mask w n) = (b AND 0) + 2 ^ w * (c AND lane_mask w n)"
    by (rule and_split) (use assms in auto)
  moreover have "(a + 2 ^ w * (b + 2 ^ w * c)) AND (mask w + 2 ^ w * (2 ^ w * lane_mask w n))
      = (a AND mask w) + 2 ^ w * ((b + 2 ^ w * c) AND (2 ^ w * lane_mask w n))"
    by (rule and_split) (use assms in \<open>auto simp: mask_eq_exp_minus_1\<close>)
  ultimately show ?thesis using assms(1) by (simp add: mask_lane)
qed

text \<open>The three kinds of stage.\<close>

lemma lanes_div: "d < 2 ^ w \<Longrightarrow> lanes w (d # ds) div 2 ^ w = lanes w ds"
  by simp

lemma two_lanes: "2 ^ (w + w) * (x :: nat) = 2 ^ w * (2 ^ w * x)"
  by (simp add: power_add)

lemma stage_low:
  assumes "even (length ds)" and "\<forall>d\<in>set ds. d < 2 ^ w"
  shows "(lanes w ds AND lane_mask w (length ds div 2)) + (lanes w ds div 2 ^ w AND lane_mask w (length ds div 2))
    = lanes (w + w) (pair_sum ds)"
  using assms
proof (induction rule: pair_induct)
  case (Pair a b ds)
  let ?n = "length ds div 2" and ?c = "lanes w ds"
  have odd: "b + 2 ^ w * ?c = b + 2 ^ w * (?c mod 2 ^ w + 2 ^ w * (?c div 2 ^ w))" by simp
  have "(b + 2 ^ w * ?c) AND lane_mask w (Suc ?n) = b + 2 ^ w * (2 ^ w * (?c div 2 ^ w AND lane_mask w ?n))"
    unfolding odd by (rule mask_step) (use Pair.prems in auto)
  moreover have "(a + 2 ^ w * (b + 2 ^ w * ?c)) AND lane_mask w (Suc ?n) = a + 2 ^ w * (2 ^ w * (?c AND lane_mask w ?n))"
    by (rule mask_step) (use Pair.prems in auto)
  ultimately show ?case using Pair.IH Pair.prems
    by (simp add: two_lanes distrib_left [symmetric] del: lane_mask.simps)
qed simp

lemma stage_sum:
  assumes "even (length ds)" and "\<forall>d\<in>set ds. 2 * d < 2 ^ w"
  shows "(lanes w ds div 2 ^ w + lanes w ds) AND lane_mask w (length ds div 2) = lanes (w + w) (pair_sum ds)"
  using assms
proof (induction rule: pair_induct)
  case (Pair a b ds)
  let ?c = "lanes w ds"
  have small: "d < 2 ^ w" if "2 * d < 2 ^ w" for d :: nat using that by simp
  have first: "2 * (?c mod 2 ^ w) < 2 ^ w" using Pair.prems small by (cases ds) auto
  have "lanes w (a # b # ds) div 2 ^ w + lanes w (a # b # ds)
      = (b + 2 ^ w * (?c mod 2 ^ w + 2 ^ w * (?c div 2 ^ w))) + (a + 2 ^ w * (b + 2 ^ w * ?c))"
    using Pair.prems by simp
  also have "\<dots> = (a + b) + 2 ^ w * ((?c mod 2 ^ w + b) + 2 ^ w * (?c div 2 ^ w + ?c))"
    by (simp only: distrib_left ac_simps)
  finally have sum: "lanes w (a # b # ds) div 2 ^ w + lanes w (a # b # ds) = \<dots>" .
  have len: "length (a # b # ds) div 2 = Suc (length ds div 2)" by simp
  have "((a + b) + 2 ^ w * ((?c mod 2 ^ w + b) + 2 ^ w * (?c div 2 ^ w + ?c))) AND lane_mask w (Suc (length ds div 2))
      = (a + b) + 2 ^ w * (2 ^ w * ((?c div 2 ^ w + ?c) AND lane_mask w (length ds div 2)))"
    by (rule mask_step) (use Pair.prems first in auto)
  then show ?case unfolding sum len using Pair.IH Pair.prems by (simp add: two_lanes)
qed simp

lemma stage_bits:
  assumes "even (length ds)" and "\<forall>d\<in>set ds. d < 2"
  shows "lanes 1 ds = lanes 2 (pair_sum ds) + (lanes 1 ds div 2 AND lane_mask 1 (length ds div 2))"
  using assms
proof (induction rule: pair_induct)
  case (Pair a b ds)
  let ?n = "length ds div 2" and ?c = "lanes 1 ds"
  have odd: "b + 2 ^ 1 * ?c = b + 2 ^ 1 * (?c mod 2 ^ 1 + 2 ^ 1 * (?c div 2 ^ 1))" by simp
  have "(b + 2 ^ 1 * ?c) AND lane_mask 1 (Suc ?n) = b + 2 ^ 1 * (2 ^ 1 * (?c div 2 ^ 1 AND lane_mask 1 ?n))"
    unfolding odd by (rule mask_step) (use Pair.prems in auto)
  moreover have "lanes 1 (a # b # ds) div 2 = b + 2 ^ 1 * ?c" using lanes_div [of a 1 "b # ds"] Pair.prems by simp
  moreover have "length (a # b # ds) div 2 = Suc ?n" by simp
  ultimately show ?case using Pair.IH Pair.prems by (simp del: lane_mask.simps One_nat_def)
qed simp

lemma lanes_less: "\<forall>d\<in>set ds. d < 2 ^ w \<Longrightarrow> lanes w ds < 2 ^ (w * length ds)"
proof (induction ds)
  case (Cons d ds)
  then have "lanes w ds + 1 \<le> 2 ^ (w * length ds)" by simp
  then have "2 ^ w * (lanes w ds + 1) \<le> 2 ^ w * 2 ^ (w * length ds)" by (rule mult_le_mono2)
  then show ?case using Cons.prems by (simp add: power_add)
qed simp

lemma length_pair_sum: "even (length ds) \<Longrightarrow> length (pair_sum ds) = length ds div 2"
  by (induction ds rule: pair_induct) auto

lemma sum_pair_sum: "even (length ds) \<Longrightarrow> sum_list (pair_sum ds) = sum_list ds"
  by (induction ds rule: pair_induct) auto

lemma pair_sum_le: "even (length ds) \<Longrightarrow> \<forall>d\<in>set ds. d \<le> m \<Longrightarrow> \<forall>d\<in>set (pair_sum ds). d \<le> 2 * m"
  by (induction ds rule: pair_induct) auto


text \<open>The stages on words, with enough room for the digits.\<close>

lemma drop_bit_lanes:
  assumes "\<forall>d\<in>set ds. d < 2 ^ w" and "w * length ds = 32"
  shows "drop_bit w (word_of_nat (lanes w ds) :: u32) = of_nat (lanes w ds div 2 ^ w)"
proof (rule bit_word_eqI)
  fix n assume "n < LENGTH(32)"
  have "lanes w ds < 2 ^ 32" using lanes_less [OF assms(1)] assms(2) by simp
  then have "bit (lanes w ds) (w + n) \<Longrightarrow> w + n < 32" using high_bits_clear linorder_not_less by blast
  with \<open>n < LENGTH(32)\<close> show "bit (drop_bit w (word_of_nat (lanes w ds) :: u32)) n = bit (word_of_nat (lanes w ds div 2 ^ w) :: u32) n"
    by (auto simp: bit_simps drop_bit_eq_div [symmetric] add.commute)
qed

lemma lane_mask_numeral: "lane_mask w (numeral n) = mask w + 2 ^ w * (2 ^ w * lane_mask w (pred_numeral n))"
  by (simp add: numeral_eq_Suc)

lemma masks:
  "(0x55555555 :: u32) = of_nat (lane_mask 1 16)" "(0x33333333 :: u32) = of_nat (lane_mask 2 8)"
  "(0x0f0f0f0f :: u32) = of_nat (lane_mask 4 4)" "(0x00ff00ff :: u32) = of_nat (lane_mask 8 2)"
  "(0x0000ffff :: u32) = of_nat (lane_mask 16 1)"
  by (simp_all only: lane_mask_numeral) (simp_all add: lane_mask_numeral mask_eq_exp_minus_1)

lemma word_stage_bits:
  assumes "length ds = 32" and "\<forall>d\<in>set ds. d \<le> 1"
  shows "of_nat (lanes 1 ds) - (drop_bit 1 (of_nat (lanes 1 ds)) AND 0x55555555) = (of_nat (lanes 2 (pair_sum ds)) :: u32)"
proof -
  have drop: "drop_bit 1 (word_of_nat (lanes 1 ds) :: u32) = of_nat (lanes 1 ds div 2 ^ 1)"
    by (rule drop_bit_lanes) (use assms in auto)
  have "lanes 1 ds = lanes 2 (pair_sum ds) + (lanes 1 ds div 2 AND lane_mask 1 (length ds div 2))"
    by (rule stage_bits) (use assms in auto)
  then have "lanes 1 ds = lanes 2 (pair_sum ds) + (lanes 1 ds div 2 ^ 1 AND lane_mask 1 16)" using assms(1) by simp
  then have "(of_nat (lanes 1 ds) :: u32) = of_nat (lanes 2 (pair_sum ds)) + (of_nat (lanes 1 ds div 2 ^ 1) AND of_nat (lane_mask 1 16))"
    by (metis of_nat_add of_nat_and_eq)
  then show ?thesis unfolding drop masks by (simp only: diff_eq_eq)
qed

lemma word_stage_low:
  assumes "length ds = 16" and "\<forall>d\<in>set ds. d \<le> 2"
  shows "(drop_bit 2 (of_nat (lanes 2 ds)) AND 0x33333333) + (of_nat (lanes 2 ds) AND 0x33333333)
    = (of_nat (lanes 4 (pair_sum ds)) :: u32)"
proof -
  have drop: "drop_bit 2 (word_of_nat (lanes 2 ds) :: u32) = of_nat (lanes 2 ds div 2 ^ 2)"
    by (rule drop_bit_lanes) (use assms in auto)
  have "(lanes 2 ds AND lane_mask 2 (length ds div 2)) + (lanes 2 ds div 2 ^ 2 AND lane_mask 2 (length ds div 2))
      = lanes (2 + 2) (pair_sum ds)"
    by (rule stage_low) (use assms in auto)
  moreover have "length ds div 2 = 8" "2 + 2 = (4 :: nat)" using assms(1) by simp_all
  ultimately have "(lanes 2 ds div 2 ^ 2 AND lane_mask 2 8) + (lanes 2 ds AND lane_mask 2 8) = lanes 4 (pair_sum ds)"
    by (simp only: add.commute)
  then show ?thesis unfolding drop masks by (metis of_nat_add of_nat_and_eq)
qed

lemma word_stage_sum:
  assumes "even (length ds)" and "w * length ds = 32" and "\<forall>d\<in>set ds. 2 * d < 2 ^ w"
    and m: "m = of_nat (lane_mask w (length ds div 2))"
  shows "(drop_bit w (of_nat (lanes w ds)) + of_nat (lanes w ds)) AND m = (of_nat (lanes (w + w) (pair_sum ds)) :: u32)"
proof -
  have drop: "drop_bit w (word_of_nat (lanes w ds) :: u32) = of_nat (lanes w ds div 2 ^ w)"
    by (rule drop_bit_lanes) (use assms in auto)
  show ?thesis unfolding drop m stage_sum [OF assms(1,3), symmetric] by (simp only: of_nat_add of_nat_and_eq)
qed

lemma word_as_lanes: "v = of_nat (lanes 1 (map (\<lambda>n. of_bool (bit v n)) [0..<32]))" for v :: u32
proof -
  have "(of_nat (lanes 1 (map (\<lambda>n. of_bool (P n)) ns)) :: u32) = horner_sum of_bool 2 (map P ns)" for P :: "nat \<Rightarrow> bool" and ns
    by (induction ns) simp_all
  moreover have "horner_sum of_bool 2 (map (bit v) [0..<32]) = take_bit 32 v" by (rule horner_sum_bit_eq_take_bit)
  moreover have "take_bit 32 v = v" using take_bit_length_eq [of v] by simp
  ultimately show ?thesis by metis
qed

lemma halve:
  assumes "length ds = 2 * k" and "\<forall>d\<in>set ds. d \<le> m"
  shows "length (pair_sum ds) = k" "\<forall>d\<in>set (pair_sum ds). d \<le> 2 * m" "sum_list (pair_sum ds) = sum_list ds"
  using assms pair_sum_le [of ds m] by (simp_all add: length_pair_sum sum_pair_sum)

lemma popcount_lanes:
  assumes a: "length a = 32" "\<forall>x\<in>set a. x \<le> 1"
  shows "popcount (of_nat (lanes 1 a)) = of_nat (sum_list a)"
proof -
  define b where "b = pair_sum a"
  define c where "c = pair_sum b"
  define d where "d = pair_sum c"
  define e where "e = pair_sum d"
  define f where "f = pair_sum e"
  have b: "length b = 16" "\<forall>x\<in>set b. x \<le> 2" "sum_list b = sum_list a" using halve [of a 16 1] a by (simp_all add: b_def)
  have c: "length c = 8" "\<forall>x\<in>set c. x \<le> 4" "sum_list c = sum_list a" using halve [of b 8 2] b by (simp_all add: c_def)
  have d: "length d = 4" "\<forall>x\<in>set d. x \<le> 8" "sum_list d = sum_list a" using halve [of c 4 4] c by (simp_all add: d_def)
  have e: "length e = 2" "\<forall>x\<in>set e. x \<le> 16" "sum_list e = sum_list a" using halve [of d 2 8] d by (simp_all add: e_def)
  have f: "length f = 1" "sum_list f = sum_list a" using halve [of e 1 16] e by (simp_all add: f_def)
  have s4: "(drop_bit 4 (of_nat (lanes 4 c)) + of_nat (lanes 4 c)) AND 0x0f0f0f0f = (of_nat (lanes (4 + 4) d) :: u32)"
    unfolding d_def by (rule word_stage_sum) (use c in \<open>force simp: masks\<close>)+
  have s8: "(drop_bit 8 (of_nat (lanes 8 d)) + of_nat (lanes 8 d)) AND 0x00ff00ff = (of_nat (lanes (8 + 8) e) :: u32)"
    unfolding e_def by (rule word_stage_sum) (use d in \<open>force simp: masks\<close>)+
  have s16: "(drop_bit 16 (of_nat (lanes 16 e)) + of_nat (lanes 16 e)) AND 0x0000ffff = (of_nat (lanes (16 + 16) f) :: u32)"
    unfolding f_def by (rule word_stage_sum) (use e in \<open>force simp: masks\<close>)+
  have w: "4 + 4 = (8 :: nat)" "8 + 8 = (16 :: nat)" by simp_all
  have "lanes (16 + 16) f = sum_list a" using f by (cases f) auto
  then show ?thesis
    unfolding popcount_def Let_def word_stage_bits [OF a, folded b_def] word_stage_low [OF b(1,2), folded c_def]
      s4 [unfolded w] s8 [unfolded w] s16 by simp
qed

lemma popcount_eq: "popcount v = of_nat (card {n. n < 32 \<and> bit v n})"
proof -
  let ?a = "map (\<lambda>n. of_bool (bit v n) :: nat) [0..<32]"
  have "popcount v = of_nat (sum_list ?a)"
    using popcount_lanes [of ?a] word_as_lanes [of v] by (auto simp del: One_nat_def)
  also have "sum_list ?a = card {n. n < 32 \<and> bit v n}"
    by (simp add: interv_sum_list_conv_sum_set_nat sum_of_bool_eq Int_def)
  finally show ?thesis .
qed

end
