(* ===== verification/Bitfield.thy ===== *)
theory Bitfield
  imports Bit_Tricks
begin

text \<open>
  Bit fields (\<open>bitfield.hpp\<close>, \<open>bitfield.cpp\<close>, \<open>ffs.cpp\<close>): which pieces a peer has, on the wire and in memory. The first
  word of the buffer is the number of bits, the others hold the bits in network byte order, the first bit in the highest
  position. \<open>htonl\<close> is a parameter of the operations; the locale \<open>byte_order\<close> says that it permutes the bits of
  a word, and is interpreted for both byte orders.

  Shown: every sequence of operations does to the bits what it says, as a list of booleans, with nothing left behind the
  last bit; the bit counting routines agree with counting; and what \<open>find_last_clear\<close> returns.
\<close>

section \<open>Words\<close>

type_synonym order = "u32 \<Rightarrow> u32"

text \<open>The two byte orders: \<open>htonl\<close> reverses the bytes, or leaves the word alone.\<close>

definition byteswap :: order where
  "byteswap x = (push_bit 24 x OR push_bit 8 (x AND 0xff00)) OR (drop_bit 8 x AND 0xff00 OR drop_bit 24 x)"

definition is_order :: "order \<Rightarrow> bool" where
  "is_order hton \<longleftrightarrow> hton = byteswap \<or> hton = (\<lambda>x. x)"

text \<open>
  The loops of \<open>ffs.cpp\<close> over the words of a buffer. The inner loop of the second one is entered with a word that has a
  bit set, so that it never runs to its end.
\<close>

primrec count_leading_zeros :: "order \<Rightarrow> u32 list \<Rightarrow> nat" where
  "count_leading_zeros hton [] = 0"
| "count_leading_zeros hton (w # ws) = (if w = 0 then 32 + count_leading_zeros hton ws else 31 - log2p1 (hton w))"

primrec ones_loop :: "nat \<Rightarrow> nat \<Rightarrow> u32 \<Rightarrow> nat" where
  "ones_loop 0 k v = k"
| "ones_loop (Suc n) k v = (if v AND 1 = 0 then ones_loop n (k + 1) (drop_bit 1 v) else k)"

primrec trailing_ones_rev :: "order \<Rightarrow> u32 list \<Rightarrow> nat" where
  "trailing_ones_rev hton [] = 0"
| "trailing_ones_rev hton (w # ws) =
     (if w = 0xffffffff then 32 + trailing_ones_rev hton ws else ones_loop 32 0 (NOT (hton w)))"

definition count_trailing_ones :: "order \<Rightarrow> u32 list \<Rightarrow> nat" where
  "count_trailing_ones hton ws = trailing_ones_rev hton (rev ws)"

section \<open>The bit field\<close>

record bitfield =
  m_buf :: "u32 list option"

definition new_bitfield :: bitfield where
  "new_bitfield = \<lparr>m_buf = None\<rparr>"

definition bits :: "bitfield \<Rightarrow> nat" where
  "bits b = (case m_buf b of None \<Rightarrow> 0 | Some ws \<Rightarrow> unat (ws ! 0))"

definition num_words :: "bitfield \<Rightarrow> nat" where
  "num_words b = (bits b + 31) div 32"

definition buf :: "bitfield \<Rightarrow> u32 list" where
  "buf b = (case m_buf b of None \<Rightarrow> [] | Some ws \<Rightarrow> tl ws)"

definition set_buf :: "u32 list \<Rightarrow> bitfield \<Rightarrow> bitfield" where
  "set_buf ws b = b\<lparr>m_buf := map_option (\<lambda>old. hd old # ws) (m_buf b)\<rparr>"

definition get_bit :: "order \<Rightarrow> bitfield \<Rightarrow> nat \<Rightarrow> bool" where
  "get_bit hton b i \<longleftrightarrow> (buf b ! (i div 32)) AND hton (drop_bit (i mod 32) 0x80000000) \<noteq> 0"

definition set_bit :: "order \<Rightarrow> nat \<Rightarrow> bitfield \<Rightarrow> bitfield" where
  "set_bit hton i b = set_buf ((buf b)[i div 32 := (buf b ! (i div 32)) OR hton (drop_bit (i mod 32) 0x80000000)]) b"

definition clear_bit :: "order \<Rightarrow> nat \<Rightarrow> bitfield \<Rightarrow> bitfield" where
  "clear_bit hton i b = set_buf ((buf b)[i div 32 := (buf b ! (i div 32)) AND hton (NOT (drop_bit (i mod 32) 0x80000000))]) b"

definition all_set :: "order \<Rightarrow> bitfield \<Rightarrow> bool" where
  "all_set hton b = (
     if bits b = 0 then False
     else let words = bits b div 32; rest = bits b mod 32 in
       if list_ex (\<lambda>w. w \<noteq> 0xffffffff) (take words (buf b)) then False
       else if 0 < rest then
         (let msk = hton (push_bit (32 - rest) 0xffffffff) in (buf b ! words) AND msk = msk)
       else True)"

definition none_set :: "bitfield \<Rightarrow> bool" where
  "none_set b = (if bits b = 0 then True else \<not> list_ex (\<lambda>w. w \<noteq> 0) (take (num_words b) (buf b)))"

definition bf_count :: "bitfield \<Rightarrow> int" where
  "bf_count b = foldl (\<lambda>ret w. ret + uint (popcount w)) 0 (take (num_words b) (buf b))"

definition clear_trailing_bits :: "order \<Rightarrow> bitfield \<Rightarrow> bitfield" where
  "clear_trailing_bits hton b = (
     if bits b mod 32 \<noteq> 0
     then set_buf ((buf b)[num_words b - 1 :=
       (buf b ! (num_words b - 1)) AND hton (push_bit (32 - bits b mod 32) 0xffffffff)]) b
     else b)"

text \<open>
  The size is an \<open>int\<close> in the code, and \<open>size + 31\<close> in the number of words overflows (which is undefined) for the last 31
  sizes below \<open>2 ^ 31\<close>. Sizes are natural numbers here, and such a field is given the words the sum calls for.
\<close>

definition bf_resize :: "order \<Rightarrow> nat \<Rightarrow> bitfield \<Rightarrow> bitfield" where
  "bf_resize hton n b = (
     if n = bits b then b
     else if n = 0 then b\<lparr>m_buf := None\<rparr>
     else let
       new_words = (n + 31) div 32;
       cur_words = num_words b;
       b = (if cur_words \<noteq> new_words
            then b\<lparr>m_buf := Some (of_nat n # take (min new_words cur_words) (buf b) @ replicate (new_words - cur_words) 0)\<rparr>
            else b\<lparr>m_buf := map_option (\<lambda>ws. of_nat n # tl ws) (m_buf b)\<rparr>)
     in clear_trailing_bits hton b)"

definition fill_from :: "nat \<Rightarrow> u32 \<Rightarrow> u32 list \<Rightarrow> u32 list" where
  "fill_from k w ws = take k ws @ replicate (length ws - k) w"

definition resize_val :: "order \<Rightarrow> nat \<Rightarrow> bool \<Rightarrow> bitfield \<Rightarrow> bitfield" where
  "resize_val hton n val b = (
     if n = bits b then b
     else let
       s = bits b;
       k = bits b mod 32;
       b = bf_resize hton n b
     in if bits b \<le> s then b
        else let old_words = (s + 31) div 32 in
          if val then
            (let ws = (if old_words \<noteq> 0 \<and> k \<noteq> 0
                       then (buf b)[old_words - 1 := (buf b ! (old_words - 1)) OR hton (drop_bit k 0xffffffff)] else buf b);
                 ws = (if old_words < num_words b then fill_from old_words 0xffffffff ws else ws)
             in clear_trailing_bits hton (set_buf ws b))
          else if old_words < num_words b then set_buf (fill_from old_words 0 (buf b)) b else b)"

definition set_all :: "order \<Rightarrow> bitfield \<Rightarrow> bitfield" where
  "set_all hton b = (if bits b = 0 then b
     else clear_trailing_bits hton (set_buf (replicate (num_words b) 0xffffffff) b))"

definition clear_all :: "bitfield \<Rightarrow> bitfield" where
  "clear_all b = (if bits b = 0 then b else set_buf (replicate (num_words b) 0) b)"

definition clear :: "bitfield \<Rightarrow> bitfield" where
  "clear b = b\<lparr>m_buf := None\<rparr>"

definition find_first_set :: "order \<Rightarrow> bitfield \<Rightarrow> int" where
  "find_first_set hton b = (let num = num_words b in
     if num = 0 then -1
     else let cnt = count_leading_zeros hton (take num (buf b)) in if cnt \<noteq> num * 32 then int cnt else -1)"

text \<open>
  For a size that is a multiple of 32 the shift of \<open>find_last_clear\<close> is by the width of the word, which C++ leaves
  undefined: \<open>None\<close>.
\<close>

definition find_last_clear :: "order \<Rightarrow> bitfield \<Rightarrow> int option" where
  "find_last_clear hton b = (let num = num_words b in
     if num = 0 then Some (-1)
     else if bits b mod 32 = 0 then None
     else let
       msk = push_bit (32 - bits b mod 32) 0xffffffff;
       lst = (buf b ! (num - 1)) XOR hton msk;
       ext = int (count_trailing_ones hton [NOT lst]) - (31 - int (bits b mod 32))
     in Some (if lst \<noteq> 0 then (int num - 1) * 32 + ext
              else int (bits b) - (int (count_trailing_ones hton (take (num - 1) (buf b))) + ext)))"

text \<open>
  \<open>assign\<close> copies bytes over the start of the memory of the words. On either kind of host a word \<open>w\<close> lies in memory
  as the bytes of \<open>hton w\<close>, from the highest to the lowest.
\<close>

definition be_word :: "u8 list \<Rightarrow> u32" where
  "be_word bs = foldl (\<lambda>w c. push_bit 8 w OR ucast c) 0 bs"

definition be_bytes :: "u32 \<Rightarrow> u8 list" where
  "be_bytes w = [ucast (drop_bit 24 w), ucast (drop_bit 16 w), ucast (drop_bit 8 w), ucast w]"

primrec copy_bytes :: "order \<Rightarrow> u8 list \<Rightarrow> u32 list \<Rightarrow> u32 list" where
  "copy_bytes hton bs [] = []"
| "copy_bytes hton bs (w # ws) =
     hton (be_word (take 4 bs @ drop (length (take 4 bs)) (be_bytes (hton w)))) # copy_bytes hton (drop 4 bs) ws"

definition assign :: "order \<Rightarrow> u8 list \<Rightarrow> nat \<Rightarrow> bitfield \<Rightarrow> bitfield" where
  "assign hton bs n b = (let b = bf_resize hton n b in
     if 0 < n then clear_trailing_bits hton (set_buf (copy_bytes hton (take ((n + 7) div 8) bs) (buf b)) b) else b)"

text \<open>The bytes of the buffer in memory, which is what goes on the wire and what the copy constructor and assignment read.\<close>

definition data :: "order \<Rightarrow> bitfield \<Rightarrow> u8 list" where
  "data hton b = concat (map (\<lambda>w. be_bytes (hton w)) (buf b))"

definition copy_assign :: "order \<Rightarrow> bitfield \<Rightarrow> bitfield \<Rightarrow> bitfield" where
  "copy_assign hton rhs b = assign hton (data hton rhs) (bits rhs) b"

text \<open>The iterator: a word of the buffer, by its offset, and the mask of one bit.\<close>

record const_iterator =
  it_buf :: nat
  it_bit :: u32

definition begin_it :: const_iterator where
  "begin_it = \<lparr>it_buf = 0, it_bit = drop_bit 0 0x80000000\<rparr>"

definition end_it :: "bitfield \<Rightarrow> const_iterator" where
  "end_it b = (if m_buf b \<noteq> None
     then \<lparr>it_buf = num_words b - (if bits b mod 32 = 0 then 0 else 1), it_bit = drop_bit (bits b mod 32) 0x80000000\<rparr>
     else \<lparr>it_buf = 0, it_bit = drop_bit (bits b mod 32) 0x80000000\<rparr>)"

definition deref :: "order \<Rightarrow> bitfield \<Rightarrow> const_iterator \<Rightarrow> bool" where
  "deref hton b it \<longleftrightarrow> (buf b ! it_buf it) AND hton (it_bit it) \<noteq> 0"

definition it_inc :: "const_iterator \<Rightarrow> const_iterator" where
  "it_inc it = (if it_bit it = 1 then \<lparr>it_buf = it_buf it + 1, it_bit = 0x80000000\<rparr>
     else it\<lparr>it_bit := drop_bit 1 (it_bit it)\<rparr>)"

definition it_dec :: "const_iterator \<Rightarrow> const_iterator" where
  "it_dec it = (if it_bit it = 0x80000000 then \<lparr>it_buf = it_buf it - 1, it_bit = 1\<rparr>
     else it\<lparr>it_bit := push_bit 1 (it_bit it)\<rparr>)"

text \<open>The loop \<open>for (bool x : bits)\<close>, and the one that goes backwards, with a bound on the number of rounds.\<close>

primrec forward :: "order \<Rightarrow> bitfield \<Rightarrow> nat \<Rightarrow> const_iterator \<Rightarrow> bool list option" where
  "forward hton b 0 it = None"
| "forward hton b (Suc fuel) it = (if it = end_it b then Some []
     else map_option (Cons (deref hton b it)) (forward hton b fuel (it_inc it)))"

primrec backward :: "order \<Rightarrow> bitfield \<Rightarrow> nat \<Rightarrow> const_iterator \<Rightarrow> bool list option" where
  "backward hton b 0 it = None"
| "backward hton b (Suc fuel) it = (if it = begin_it then Some []
     else map_option (Cons (deref hton b (it_dec it))) (backward hton b fuel (it_dec it)))"

text \<open>Two bit fields and what is done to them; all but the last three operations are on the first of the two.\<close>

datatype bf_op =
    Resize nat
  | ResizeVal nat bool
  | Assign "u8 list" nat
  | SetBit nat
  | ClearBit nat
  | SetAll
  | ClearAll
  | Clear
  | Copy
  | Move
  | Swap

fun bf_step :: "order \<Rightarrow> bf_op \<Rightarrow> bitfield \<times> bitfield \<Rightarrow> bitfield \<times> bitfield" where
  "bf_step hton (Resize n) (a, b) = (bf_resize hton n a, b)"
| "bf_step hton (ResizeVal n v) (a, b) = (resize_val hton n v a, b)"
| "bf_step hton (Assign bs n) (a, b) = (assign hton bs n a, b)"
| "bf_step hton (SetBit i) (a, b) = (set_bit hton i a, b)"
| "bf_step hton (ClearBit i) (a, b) = (clear_bit hton i a, b)"
| "bf_step hton SetAll (a, b) = (set_all hton a, b)"
| "bf_step hton ClearAll (a, b) = (clear_all a, b)"
| "bf_step hton Clear (a, b) = (clear a, b)"
| "bf_step hton Copy (a, b) = (copy_assign hton b a, b)"
| "bf_step hton Move (a, b) = (a\<lparr>m_buf := m_buf b\<rparr>, b\<lparr>m_buf := None\<rparr>)"
| "bf_step hton Swap (a, b) = (a\<lparr>m_buf := m_buf b\<rparr>, b\<lparr>m_buf := m_buf a\<rparr>)"

definition bf_run :: "order \<Rightarrow> bf_op list \<Rightarrow> bitfield \<times> bitfield" where
  "bf_run hton ops = foldl (\<lambda>s op. bf_step hton op s) (new_bitfield, new_bitfield) ops"

section \<open>The laws of the byte order\<close>

locale byte_order =
  fixes hton :: order and perm :: "nat \<Rightarrow> nat"
  assumes perm_less: "n < 32 \<Longrightarrow> perm n < 32"
    and perm_perm: "n < 32 \<Longrightarrow> perm (perm n) = n"
    and bit_hton: "n < 32 \<Longrightarrow> bit (hton x) n \<longleftrightarrow> bit x (perm n)"
begin

lemma hton_eqI: "(\<And>n. n < 32 \<Longrightarrow> bit (x :: u32) n \<longleftrightarrow> bit y n) \<Longrightarrow> x = y"
  by (rule bit_word_eqI) simp

lemma hton_hton: "hton (hton x) = x"
  by (rule hton_eqI) (simp add: bit_hton perm_less perm_perm)

lemma hton_inject: "hton x = hton y \<longleftrightarrow> x = y"
  by (metis hton_hton)

lemma hton_distrib:
  "hton (x AND y) = hton x AND hton y" "hton (x OR y) = hton x OR hton y" "hton (x XOR y) = hton x XOR hton y"
  "hton (NOT x) = NOT (hton x)"
  by (rule hton_eqI; simp add: bit_hton perm_less bit_simps)+

lemma hton_const: "hton 0 = 0" "hton (- 1) = - 1"
  by (rule hton_eqI; simp add: bit_hton perm_less)+

lemmas hton_simps = hton_hton hton_const

end

lemma bit_ff00: "bit (65280 :: u32) n \<longleftrightarrow> 8 \<le> n \<and> n < 16"
proof -
  have eq: "(65280 :: u32) = push_bit 8 (mask 8)" by (simp add: mask_eq_exp_minus_1 push_bit_eq_mult)
  show ?thesis unfolding eq by (auto simp: bit_simps)
qed

lemma bit_byteswap: "n < 32 \<Longrightarrow> bit (byteswap x) n \<longleftrightarrow> bit x (8 * (3 - n div 8) + n mod 8)"
proof -
  assume n: "n < 32"
  have long: "\<not> bit x k" if "32 \<le> k" for k using bit_imp_le_length [of x k] that by auto
  have raw: "bit (byteswap x) n \<longleftrightarrow> 24 \<le> n \<and> bit x (n - 24) \<or> 16 \<le> n \<and> n < 24 \<and> bit x (n - 8)
      \<or> 8 \<le> n \<and> n < 16 \<and> bit x (n + 8) \<or> bit x (n + 24)"
    using n by (simp only: byteswap_def bit_or_iff bit_push_bit_iff bit_and_iff bit_drop_bit_eq bit_ff00 o_def possible_bit_word)
      (auto simp: add.commute)
  consider "n div 8 = 0" "n < 8" | "n div 8 = 1" "8 \<le> n" "n < 16" | "n div 8 = 2" "16 \<le> n" "n < 24"
    | "n div 8 = 3" "24 \<le> n"
    using n by (cases "n < 8"; cases "n < 16"; cases "n < 24") (auto simp: div_nat_eqI)
  then show ?thesis
    by cases (use n raw long in \<open>auto simp: modulo_nat_def add.commute\<close>)
qed

interpretation little: byte_order byteswap "\<lambda>n. 8 * (3 - n div 8) + n mod 8"
proof
  fix n :: nat assume n: "n < 32"
  have "n mod 8 < 8" by simp
  then show "8 * (3 - n div 8) + n mod 8 < 32" by linarith
  have "n div 8 < 4" using n by simp
  then show "8 * (3 - (8 * (3 - n div 8) + n mod 8) div 8) + (8 * (3 - n div 8) + n mod 8) mod 8 = n" by simp
  show "bit (byteswap x) n \<longleftrightarrow> bit x (8 * (3 - n div 8) + n mod 8)" for x using n by (rule bit_byteswap)
qed

interpretation big: byte_order "\<lambda>x. x" "\<lambda>n. n"
  by unfold_locales auto

section \<open>Words as lists of bits\<close>

text \<open>The bits of a word of the buffer, first bit first, and those of the whole buffer.\<close>

definition wbits :: "order \<Rightarrow> u32 \<Rightarrow> bool list" where
  "wbits hton w = map (\<lambda>k. bit (hton w) (31 - k)) [0..<32]"

definition raw :: "order \<Rightarrow> u32 list \<Rightarrow> bool list" where
  "raw hton ws = concat (map (wbits hton) ws)"

lemma length_wbits [simp]: "length (wbits hton w) = 32"
  by (simp add: wbits_def)

lemma nth_wbits [simp]: "k < 32 \<Longrightarrow> wbits hton w ! k \<longleftrightarrow> bit (hton w) (31 - k)"
  by (simp add: wbits_def)

lemma raw_simps [simp]:
  "raw hton [] = []" "raw hton (w # ws) = wbits hton w @ raw hton ws" "raw hton (ws @ vs) = raw hton ws @ raw hton vs"
  by (simp_all add: raw_def)

lemma length_raw [simp]: "length (raw hton ws) = 32 * length ws"
  by (induction ws) auto

lemma nth_raw:
  "i < 32 * length ws \<Longrightarrow> raw hton ws ! i \<longleftrightarrow> bit (hton (ws ! (i div 32))) (31 - i mod 32)"
proof (induction ws arbitrary: i)
  case (Cons w ws)
  show ?case
  proof (cases "i < 32")
    case False
    then have "(i - 32) div 32 = i div 32 - 1" "(i - 32) mod 32 = i mod 32" "0 < i div 32"
      by (auto simp: div_if mod_if le_div_geq le_mod_geq)
    with Cons.IH [of "i - 32"] Cons.prems False show ?thesis by (simp add: nth_append nth_Cons')
  qed (use Cons.prems in \<open>simp add: nth_append\<close>)
qed simp

lemma raw_eqI:
  assumes "length xs = 32 * length ws"
    and "\<And>i. i < 32 * length ws \<Longrightarrow> xs ! i \<longleftrightarrow> bit (hton (ws ! (i div 32))) (31 - i mod 32)"
  shows "raw hton ws = xs"
  using assms by (intro nth_equalityI) (auto simp: nth_raw)

lemma raw_take: "raw hton (take n ws) = take (32 * n) (raw hton ws)"
proof (induction ws arbitrary: n)
  case (Cons w ws)
  then show ?case by (cases n) auto
qed simp

lemma raw_replicate_const:
  assumes "\<And>k. k < 32 \<Longrightarrow> bit (hton w) k = v"
  shows "raw hton (replicate n w) = replicate (32 * n) v"
proof -
  have "wbits hton w = replicate 32 v" using assms by (intro nth_equalityI) auto
  then show ?thesis by (induction n) (simp_all add: replicate_add)
qed

text \<open>Writing one word changes its 32 bits.\<close>

lemma nth_raw_update:
  assumes "j < length ws" and "i < 32 * length ws"
  shows "raw hton (ws[j := w]) ! i \<longleftrightarrow> (if i div 32 = j then bit (hton w) (31 - i mod 32) else raw hton ws ! i)"
  using assms by (simp add: nth_raw nth_list_update)

text \<open>The masks of the code; the simplifier would evaluate them to numerals.\<close>

lemma top_bit: "(0x80000000 :: u32) = push_bit 31 1"
  by (simp add: push_bit_eq_mult)

lemma all_ones: "(0xffffffff :: u32) = - 1"
  by transfer (simp add: take_bit_eq_mod)

lemmas bit_masks = bit_drop_bit_eq o_def bit_push_bit_iff possible_bit_word bit_1_iff bit_minus_1_iff

lemma bit_top_shift: "k < 32 \<Longrightarrow> bit (drop_bit k 0x80000000 :: u32) n \<longleftrightarrow> n = 31 - k"
  unfolding top_bit by (simp only: bit_masks) auto

lemma top_shift: "k < 32 \<Longrightarrow> (drop_bit k 0x80000000 :: u32) = push_bit (31 - k) 1"
  by (rule bit_word_eqI) (subst bit_top_shift, assumption, simp only: bit_masks, auto)

lemma and_top_shift: "k < 32 \<Longrightarrow> x AND drop_bit k 0x80000000 \<noteq> 0 \<longleftrightarrow> bit x (31 - k)" for x :: u32
  by (simp only: top_shift bit_iff_and_push_bit_not_eq_0)

lemma bit_ones_left: "bit (push_bit (32 - r) 0xffffffff :: u32) n \<longleftrightarrow> 32 - r \<le> n \<and> n < 32"
  unfolding all_ones by (simp only: bit_masks) auto

lemma bit_ones_right: "bit (drop_bit k 0xffffffff :: u32) n \<longleftrightarrow> k + n < 32"
  unfolding all_ones by (simp only: bit_masks) auto

section \<open>The bit field as a list of bits\<close>

text \<open>
  A bit field represents a list of bits: it has no buffer when the list is empty, and otherwise just enough words, with
  zeros behind the last bit.
\<close>

definition mk_bitfield :: "nat \<Rightarrow> u32 list \<Rightarrow> bitfield" where
  "mk_bitfield n ws = \<lparr>m_buf = Some (of_nat n # ws)\<rparr>"

definition words_for :: "nat \<Rightarrow> nat" where
  "words_for n = (n + 31) div 32"

definition represents :: "order \<Rightarrow> bitfield \<Rightarrow> bool list \<Rightarrow> bool" where
  "represents hton b xs \<longleftrightarrow> (if xs = [] then b = new_bitfield
     else length xs < 2 ^ 31 \<and> (\<exists>ws. b = mk_bitfield (length xs) ws \<and> length ws = words_for (length xs)
       \<and> raw hton ws = xs @ replicate (32 * words_for (length xs) - length xs) False))"

lemma words_for_alt: "words_for n = n div 32 + (if n mod 32 = 0 then 0 else 1)"
proof -
  have "n + 31 = (n mod 32 + 31) + n div 32 * 32" by (simp add: div_mult_mod_eq [symmetric])
  then have "words_for n = n div 32 + (n mod 32 + 31) div 32" unfolding words_for_def by (metis div_mult_self1 zero_neq_numeral)
  moreover have "(n mod 32 + 31) div 32 = (if n mod 32 = 0 then 0 else 1)"
    using mod_less_divisor [of 32 n] by (auto intro!: div_nat_eqI)
  ultimately show ?thesis by simp
qed

lemma words_for_bounds: "n \<le> 32 * words_for n" "32 * words_for n < n + 32" "0 < words_for n \<longleftrightarrow> 0 < n"
proof -
  have n: "n = 32 * (n div 32) + n mod 32" "n mod 32 < 32" by simp_all
  have "words_for n = n div 32 \<and> n mod 32 = 0 \<or> words_for n = n div 32 + 1 \<and> 0 < n mod 32" by (simp add: words_for_alt)
  with n show "n \<le> 32 * words_for n" "32 * words_for n < n + 32" by linarith+
  then show "0 < words_for n \<longleftrightarrow> 0 < n" by (cases "n = 0") (auto simp: words_for_def)
qed

lemma mk_bitfield_sel [simp]:
  "n < 2 ^ 31 \<Longrightarrow> bits (mk_bitfield n ws) = n"
  "n < 2 ^ 31 \<Longrightarrow> num_words (mk_bitfield n ws) = words_for n"
  "buf (mk_bitfield n ws) = ws" "set_buf vs (mk_bitfield n ws) = mk_bitfield n vs"
  by (simp_all add: mk_bitfield_def bits_def num_words_def words_for_def buf_def set_buf_def unat_of_nat)

lemma mk_bitfield_inject [simp]: "mk_bitfield n ws = mk_bitfield n vs \<longleftrightarrow> ws = vs"
  by (simp add: mk_bitfield_def)

lemma new_bitfield_sel [simp]:
  "bits new_bitfield = 0" "num_words new_bitfield = 0" "buf new_bitfield = []" "set_buf vs new_bitfield = new_bitfield"
  by (simp_all add: new_bitfield_def bits_def num_words_def buf_def set_buf_def)

lemma represents_bits: "represents hton b xs \<Longrightarrow> bits b = length xs"
  by (auto simp: represents_def split: if_splits)

lemma represents_cases:
  assumes "represents hton b xs"
  obtains (empty) "xs = []" "b = new_bitfield"
    | (bits) ws where "b = mk_bitfield (length xs) ws" "0 < length xs" "length xs < 2 ^ 31"
      "length ws = words_for (length xs)" "raw hton ws = xs @ replicate (32 * words_for (length xs) - length xs) False"
  using assms by (cases "xs = []") (auto simp: represents_def)

lemma representsI:
  assumes "b = mk_bitfield (length xs) ws" and "0 < length xs" and "length xs < 2 ^ 31" and "length ws = words_for (length xs)"
    and "\<And>i. i < length xs \<Longrightarrow> raw hton ws ! i = xs ! i"
    and "\<And>i. length xs \<le> i \<Longrightarrow> i < 32 * words_for (length xs) \<Longrightarrow> \<not> raw hton ws ! i"
  shows "represents hton b xs"
proof -
  have "raw hton ws = xs @ replicate (32 * words_for (length xs) - length xs) False"
    using assms(4-6) words_for_bounds(1) [of "length xs"] by (intro nth_equalityI) (auto simp: nth_append)
  with assms(1-4) show ?thesis by (auto simp: represents_def)
qed

lemma raw_nth_represents:
  assumes "raw hton ws = xs @ replicate (32 * words_for (length xs) - length xs) False" and "i < 32 * words_for (length xs)"
  shows "raw hton ws ! i \<longleftrightarrow> i < length xs \<and> xs ! i"
  using assms by (auto simp: nth_append)

context byte_order
begin

lemma and_hton: "w AND hton m \<noteq> 0 \<longleftrightarrow> hton w AND m \<noteq> 0"
  by (metis hton_distrib(1) hton_hton hton_const(1))

lemma test_bit: "k < 32 \<Longrightarrow> w AND hton (drop_bit k 0x80000000) \<noteq> 0 \<longleftrightarrow> bit (hton w) (31 - k)"
  by (simp only: and_hton and_top_shift)

lemma get_bit_raw: "i < 32 * length (buf b) \<Longrightarrow> get_bit hton b i \<longleftrightarrow> raw hton (buf b) ! i"
  unfolding get_bit_def by (subst test_bit) (simp_all add: nth_raw)

lemma bit_hton_or:
  "k < 32 \<Longrightarrow> n < 32 \<Longrightarrow> bit (hton (w OR hton (drop_bit k 0x80000000))) (31 - n) \<longleftrightarrow> bit (hton w) (31 - n) \<or> n = k"
  unfolding hton_distrib hton_hton bit_or_iff by (subst bit_top_shift) auto

lemma bit_hton_and_not:
  "k < 32 \<Longrightarrow> n < 32 \<Longrightarrow>
    bit (hton (w AND hton (NOT (drop_bit k 0x80000000)))) (31 - n) \<longleftrightarrow> bit (hton w) (31 - n) \<and> n \<noteq> k"
  unfolding hton_distrib hton_hton bit_and_iff bit_not_iff possible_bit_word by (subst bit_top_shift) auto

lemma div_mod_eq: "i div 32 = j div 32 \<Longrightarrow> i mod 32 = j mod 32 \<longleftrightarrow> i = (j :: nat)"
  by (metis div_mult_mod_eq)

lemma raw_update_bit:
  assumes i: "i < 32 * length ws"
    and w: "\<And>n. n < 32 \<Longrightarrow> bit (hton w) (31 - n) \<longleftrightarrow> (if n = i mod 32 then v else bit (hton (ws ! (i div 32))) (31 - n))"
  shows "raw hton (ws[i div 32 := w]) = (raw hton ws)[i := v]"
proof (rule raw_eqI)
  fix j assume j: "j < 32 * length (ws[i div 32 := w])"
  have "i div 32 < length ws" using i by (simp add: less_mult_imp_div_less)
  then show "(raw hton ws)[i := v] ! j \<longleftrightarrow> bit (hton (ws[i div 32 := w] ! (j div 32))) (31 - j mod 32)"
    using i j div_mod_eq [of j i] w [of "j mod 32"]
    by (cases "j div 32 = i div 32") (auto simp: nth_list_update nth_raw)
qed simp

lemma raw_set_bit:
  "i < 32 * length ws \<Longrightarrow>
    raw hton (ws[i div 32 := (ws ! (i div 32)) OR hton (drop_bit (i mod 32) 0x80000000)]) = (raw hton ws)[i := True]"
  by (rule raw_update_bit) (simp_all only: bit_hton_or mod_less_divisor, auto)

lemma raw_clear_bit:
  "i < 32 * length ws \<Longrightarrow>
    raw hton (ws[i div 32 := (ws ! (i div 32)) AND hton (NOT (drop_bit (i mod 32) 0x80000000))]) = (raw hton ws)[i := False]"
  by (rule raw_update_bit) (simp_all only: bit_hton_and_not mod_less_divisor, auto)

lemma represents_update:
  assumes "represents hton b xs" and i: "i < length xs"
    and "raw hton ws' = (raw hton (buf b))[i := v]" and "length ws' = length (buf b)"
  shows "represents hton (set_buf ws' b) (xs[i := v])"
  using assms(1)
proof (cases rule: represents_cases)
  case (bits ws)
  with assms(2-4) show ?thesis by (auto simp: represents_def list_update_append)
qed (use i in simp)

lemma buf_length: "represents hton b xs \<Longrightarrow> length (buf b) = words_for (length xs)"
  by (erule represents_cases) (auto simp: words_for_def)

lemma index_in_buf: "represents hton b xs \<Longrightarrow> i < length xs \<Longrightarrow> i < 32 * length (buf b)"
  using buf_length [of b xs] words_for_bounds(1) [of "length xs"] by simp

lemma set_bit_ok: "represents hton b xs \<Longrightarrow> i < length xs \<Longrightarrow> represents hton (set_bit hton i b) (xs[i := True])"
  unfolding set_bit_def by (rule represents_update) (auto intro!: raw_set_bit index_in_buf)

lemma clear_bit_ok: "represents hton b xs \<Longrightarrow> i < length xs \<Longrightarrow> represents hton (clear_bit hton i b) (xs[i := False])"
  unfolding clear_bit_def by (rule represents_update) (auto intro!: raw_clear_bit index_in_buf)

lemma raw_represents: "represents hton b xs \<Longrightarrow> raw hton (buf b) = xs @ replicate (32 * words_for (length xs) - length xs) False"
  by (erule represents_cases) (auto simp: words_for_def)

lemma get_bit_ok: "represents hton b xs \<Longrightarrow> i < length xs \<Longrightarrow> get_bit hton b i = xs ! i"
  by (subst get_bit_raw) (auto intro: index_in_buf simp: raw_represents nth_append)

end

section \<open>Resizing and filling\<close>

context byte_order
begin

lemma clear_trailing_ok:
  assumes n: "0 < n" "n < 2 ^ 31" and ws: "length ws = words_for n"
  shows "represents hton (clear_trailing_bits hton (mk_bitfield n ws)) (take n (raw hton ws))"
proof (cases "n mod 32 = 0")
  case True
  then have "32 * words_for n = n" using div_mult_mod_eq [of n 32] by (simp add: words_for_alt)
  moreover have "clear_trailing_bits hton (mk_bitfield n ws) = mk_bitfield n ws"
    using True n(2) by (simp add: clear_trailing_bits_def)
  ultimately show ?thesis using n ws by (intro representsI [where ws = ws]) auto
next
  case False
  let ?j = "words_for n - 1" and ?r = "n mod 32"
  have j: "?j = n div 32" "?j < length ws" using False ws by (simp_all add: words_for_alt)
  define w where "w = (ws ! ?j) AND hton (push_bit (32 - ?r) 0xffffffff)"
  have w: "bit (hton w) (31 - k) \<longleftrightarrow> bit (hton (ws ! ?j)) (31 - k) \<and> k < ?r" if "k < 32" for k
    unfolding w_def hton_distrib hton_hton bit_and_iff bit_ones_left using that False by auto
  have len: "length (take n (raw hton ws)) = n" using ws words_for_bounds(1) [of n] by simp
  have upd: "raw hton (ws[?j := w]) ! i \<longleftrightarrow> raw hton ws ! i \<and> i < n" if i: "i < 32 * words_for n" for i
  proof (cases "i div 32 = ?j")
    case True
    have "i < n \<longleftrightarrow> i mod 32 < ?r"
      using True j(1) div_mult_mod_eq [of i 32] div_mult_mod_eq [of n 32] by linarith
    then show ?thesis using True i j ws w [of "i mod 32"] by (simp add: nth_raw nth_raw_update)
  next
    case ne: False
    have "i div 32 < words_for n" using i by (simp add: less_mult_imp_div_less)
    then have "i div 32 < n div 32" using ne j(1) False by (simp add: words_for_alt)
    then have "i < n" by (metis div_le_mono linorder_not_less)
    then show ?thesis using ne i j ws by (simp add: nth_raw nth_raw_update)
  qed
  have "clear_trailing_bits hton (mk_bitfield n ws) = mk_bitfield n (ws[?j := w])"
    using False n(2) by (simp only: clear_trailing_bits_def mk_bitfield_sel w_def) simp
  then show ?thesis
    using n ws len upd words_for_bounds(1) [of n] by (intro representsI [where ws = "ws[?j := w]"]) (auto simp only:, auto)
qed

end

context byte_order
begin

lemma raw_zeros: "raw hton (replicate n 0) = replicate (32 * n) False"
  by (rule raw_replicate_const) (simp add: hton_simps)

lemma raw_ones: "raw hton (replicate n 0xffffffff) = replicate (32 * n) True"
  by (rule raw_replicate_const) (simp only: all_ones hton_const bit_masks, simp)

lemma resize_shape:
  assumes rep: "represents hton b xs" and n: "n \<noteq> length xs" "0 < n" "n < 2 ^ 31"
  shows "bf_resize hton n b = clear_trailing_bits hton (mk_bitfield n
    (take (words_for n) (buf b) @ replicate (words_for n - words_for (length xs)) 0))"
  using rep
proof (cases rule: represents_cases)
  case empty
  then have "words_for n \<noteq> 0" using words_for_bounds(3) [of n] n by simp
  with empty n show ?thesis
    by (simp add: bf_resize_def new_bitfield_def bits_def num_words_def buf_def mk_bitfield_def words_for_def)
next
  case (bits ws)
  have "words_for n = words_for (length xs) \<Longrightarrow> take (words_for n) ws = ws" using bits(4) by simp
  moreover have "take (min (words_for n) (words_for (length xs))) ws = take (words_for n) ws"
    using bits(4) by (simp add: min_def)
  ultimately show ?thesis
    using n bits by (auto simp: bf_resize_def Let_def words_for_def [symmetric]) (simp_all add: mk_bitfield_def)
qed

lemma resized_words:
  fixes n :: nat
  assumes rep: "represents hton b xs"
  defines "ws \<equiv> take (words_for n) (buf b) @ replicate (words_for n - words_for (length xs)) 0"
  shows "length ws = words_for n" and "take n (raw hton ws) = take n xs @ replicate (n - length xs) False"
proof -
  let ?R = "raw hton (buf b)"
  have R: "length ?R = 32 * words_for (length xs)" using buf_length [OF rep] by simp
  have ws: "raw hton ws = take (32 * words_for n) ?R @ replicate (32 * (words_for n - words_for (length xs))) False"
    by (simp add: ws_def raw_take raw_zeros)
  show len: "length ws = words_for n" using buf_length [OF rep] by (simp add: ws_def)
  have nth: "raw hton ws ! i \<longleftrightarrow> i < length xs \<and> xs ! i" if "i < n" for i
  proof (cases "i < length ?R")
    case True
    then have "raw hton ws ! i = ?R ! i" unfolding ws using that words_for_bounds(1) [of n] by (simp add: nth_append)
    then show ?thesis using raw_nth_represents [OF raw_represents [OF rep]] True R by simp
  next
    case False
    then have "\<not> raw hton ws ! i"
      unfolding ws using that words_for_bounds(1) [of n] R by (simp add: nth_append min_absorb2 diff_mult_distrib2)
    then show ?thesis using False R words_for_bounds(1) [of "length xs"] by simp
  qed
  show "take n (raw hton ws) = take n xs @ replicate (n - length xs) False"
    using len nth words_for_bounds(1) [of n] by (intro nth_equalityI) (auto simp: nth_append)
qed

lemma resize_ok:
  assumes rep: "represents hton b xs" and n: "n < 2 ^ 31"
  shows "represents hton (bf_resize hton n b) (take n xs @ replicate (n - length xs) False)"
proof -
  consider "n = length xs" | "n = 0" "n \<noteq> length xs" | "0 < n" "n \<noteq> length xs" by (cases "n = 0") auto
  then show ?thesis
  proof cases
    case 1
    then show ?thesis using rep represents_bits [OF rep] by (simp add: bf_resize_def)
  next
    case 2
    then have "bf_resize hton n b = new_bitfield"
      using represents_bits [OF rep] by (simp add: bf_resize_def new_bitfield_def)
    with 2 show ?thesis by (simp add: represents_def)
  next
    case 3
    then show ?thesis
      using clear_trailing_ok [OF 3(1) n resized_words(1) [OF rep]] resize_shape [OF rep 3(2,1) n]
      by (simp add: resized_words(2) [OF rep] del: raw_simps)
  qed
qed

lemma set_all_ok: "represents hton b xs \<Longrightarrow> represents hton (set_all hton b) (replicate (length xs) True)"
proof (erule represents_cases)
  fix ws assume b: "b = mk_bitfield (length xs) ws" and n: "0 < length xs" "length xs < 2 ^ 31"
  let ?ws = "replicate (words_for (length xs)) (0xffffffff :: u32)"
  have "take (length xs) (raw hton ?ws) = replicate (length xs) True"
    using words_for_bounds(1) [of "length xs"] by (simp only: raw_ones take_replicate min_absorb1)
  with clear_trailing_ok [OF n, of ?ws] show ?thesis
    using n by (simp only: set_all_def b mk_bitfield_sel length_replicate) simp
qed (simp add: set_all_def represents_def)

lemma clear_all_ok: "represents hton b xs \<Longrightarrow> represents hton (clear_all b) (replicate (length xs) False)"
proof (erule represents_cases)
  fix ws assume b: "b = mk_bitfield (length xs) ws" and n: "0 < length xs" "length xs < 2 ^ 31"
  then show ?thesis
    using words_for_bounds(1) [of "length xs"]
    by (intro representsI [where ws = "replicate (words_for (length xs)) 0"]) (auto simp: clear_all_def raw_zeros)
qed (simp add: clear_all_def represents_def)

end

context byte_order
begin

lemma length_fill_from [simp]: "length (fill_from k w ws) = length ws"
  by (simp add: fill_from_def)

lemma raw_fill_from: "raw hton (fill_from k w ws) = take (32 * k) (raw hton ws) @ raw hton (replicate (length ws - k) w)"
  by (simp add: fill_from_def raw_take)

lemma nth_fill_ones:
  "i < 32 * length ws \<Longrightarrow> raw hton (fill_from k 0xffffffff ws) ! i \<longleftrightarrow> 32 * k \<le> i \<or> raw hton ws ! i"
  unfolding raw_fill_from raw_ones by (auto simp: nth_append min_def)

lemma raw_fill_zeros:
  assumes "\<And>i. 32 * k \<le> i \<Longrightarrow> i < 32 * length ws \<Longrightarrow> \<not> raw hton ws ! i"
  shows "raw hton (fill_from k 0 ws) = raw hton ws"
  using assms by (intro nth_equalityI) (auto simp: raw_fill_from raw_zeros nth_append min_def)

text \<open>The bits of the last old word behind the old size are set.\<close>

lemma nth_fill_rest:
  assumes s: "s mod 32 \<noteq> 0" "s div 32 < length ws" and i: "i < 32 * length ws"
  shows "raw hton (ws[s div 32 := (ws ! (s div 32)) OR hton (drop_bit (s mod 32) 0xffffffff)]) ! i
    \<longleftrightarrow> raw hton ws ! i \<or> i div 32 = s div 32 \<and> s \<le> i"
proof (cases "i div 32 = s div 32")
  case True
  have "s \<le> i \<longleftrightarrow> s mod 32 \<le> i mod 32"
    using True div_mult_mod_eq [of i 32] div_mult_mod_eq [of s 32] by linarith
  moreover have "i mod 32 < 32" by simp
  moreover have "bit (hton ((ws ! (s div 32)) OR hton (drop_bit (s mod 32) 0xffffffff))) (31 - i mod 32)
      \<longleftrightarrow> bit (hton (ws ! (s div 32))) (31 - i mod 32) \<or> s mod 32 + (31 - i mod 32) < 32"
    unfolding hton_distrib hton_hton bit_or_iff bit_ones_right by (rule refl)
  ultimately show ?thesis
    unfolding nth_raw_update [OF s(2) i] using True i by (auto simp: nth_raw)
qed (simp add: nth_raw_update [OF s(2) i])

lemma grown_ones:
  assumes rep: "represents hton (mk_bitfield n ws) (xs @ replicate (n - length xs) False)" and n: "length xs < n" "n < 2 ^ 31"
  defines "s \<equiv> length xs"
  defines "ws1 \<equiv> (if words_for s \<noteq> 0 \<and> s mod 32 \<noteq> 0
      then ws[words_for s - 1 := (ws ! (words_for s - 1)) OR hton (drop_bit (s mod 32) 0xffffffff)] else ws)"
  defines "ws2 \<equiv> (if words_for s < words_for n then fill_from (words_for s) 0xffffffff ws1 else ws1)"
  shows "length ws2 = words_for n" and "take n (raw hton ws2) = xs @ replicate (n - s) True"
proof -
  have ws: "length ws = words_for n" "\<And>i. i < 32 * words_for n \<Longrightarrow> raw hton ws ! i \<longleftrightarrow> i < s \<and> xs ! i"
    using buf_length [OF rep] raw_represents [OF rep] n by (auto simp: s_def nth_append)
  have le: "words_for s \<le> words_for n" using n(1) by (simp add: s_def words_for_def div_le_mono)
  have len1: "length ws1 = words_for n" using ws(1) by (simp add: ws1_def)
  then show len: "length ws2 = words_for n" by (simp add: ws2_def)
  have w1: "raw hton ws1 ! i \<longleftrightarrow> i < s \<and> xs ! i \<or> s mod 32 \<noteq> 0 \<and> i div 32 = s div 32 \<and> s \<le> i" if i: "i < 32 * words_for n" for i
  proof (cases "s mod 32 = 0")
    case True
    then show ?thesis using ws(2) [OF i] by (simp add: ws1_def)
  next
    case False
    then have w: "words_for s - 1 = s div 32" "words_for s \<noteq> 0" by (simp_all add: words_for_alt)
    then have "s div 32 < length ws" using ws(1) le by simp
    note fill = nth_fill_rest [OF False this i [folded ws(1)]]
    show ?thesis
      unfolding ws1_def w(1) using w(2) False fill ws(2) [OF i] by (simp only: if_P) auto
  qed
  have w2: "raw hton ws2 ! i \<longleftrightarrow> i < s \<and> xs ! i \<or> s \<le> i" if i: "i < n" for i
  proof -
    have i': "i < 32 * words_for n" using i words_for_bounds(1) [of n] by simp
    have "raw hton ws2 ! i \<longleftrightarrow> raw hton ws1 ! i \<or> 32 * words_for s \<le> i"
      using nth_fill_ones [of i ws1 "words_for s"] i' len1 le by (auto simp: ws2_def)
    moreover have "s mod 32 \<noteq> 0 \<and> i div 32 = s div 32 \<or> 32 * words_for s \<le> i" if "s \<le> i"
    proof (rule ccontr)
      assume c: "\<not> ?thesis"
      then have "i div 32 < words_for s" "s div 32 \<le> i div 32" using that by (auto simp: less_mult_imp_div_less div_le_mono)
      then show False using c by (auto simp: words_for_alt split: if_splits)
    qed
    ultimately show ?thesis using w1 [OF i'] words_for_bounds(1) [of s] by auto
  qed
  show "take n (raw hton ws2) = xs @ replicate (n - s) True"
    using len w2 words_for_bounds(1) [of n] n by (intro nth_equalityI) (auto simp: nth_append s_def)
qed

lemma resize_val_ok:
  assumes rep: "represents hton b xs" and n: "n < 2 ^ 31"
  shows "represents hton (resize_val hton n v b) (take n xs @ replicate (n - length xs) v)"
proof (cases "n \<le> length xs")
  case True
  then show ?thesis
    using rep resize_ok [OF rep n] represents_bits [OF rep] represents_bits [OF resize_ok [OF rep n]]
    by (auto simp: resize_val_def Let_def)
next
  case False
  then have n0: "0 < n" "length xs < n" by auto
  let ?b = "bf_resize hton n b"
  have rep1: "represents hton ?b (xs @ replicate (n - length xs) False)" using resize_ok [OF rep n] n0 by simp
  then obtain ws where b: "?b = mk_bitfield n ws" "length ws = words_for n"
    by (cases rule: represents_cases) (use n0 in auto)
  have raw: "\<not> raw hton ws ! i" if "length xs \<le> i" "i < 32 * words_for n" for i
    using raw_represents [OF rep1] b that n0 by (auto simp: nth_append)
  show ?thesis
  proof (cases v)
    case False
    have "raw hton (fill_from (words_for (length xs)) 0 ws) = raw hton ws"
      using raw b(2) words_for_bounds(1) [of "length xs"] by (intro raw_fill_zeros) auto
    then have "represents hton (mk_bitfield n (fill_from (words_for (length xs)) 0 ws)) (xs @ replicate (n - length xs) False)"
      using rep1 b n0 by (auto simp: represents_def)
    with rep1 b n n0 represents_bits [OF rep] False show ?thesis
      by (auto simp: resize_val_def Let_def words_for_def [symmetric])
  next
    case True
    note grown = grown_ones [OF rep1 [unfolded b(1)] n0(2) n]
    from clear_trailing_ok [OF n0(1) n grown(1)] show ?thesis
      unfolding grown(2)
      using b n n0 represents_bits [OF rep] True
      by (simp only: resize_val_def Let_def words_for_def [symmetric] mk_bitfield_sel) simp
  qed
qed

end

section \<open>Copying bytes\<close>

text \<open>The bits of bytes on the wire, first bit first.\<close>

definition byte_bits :: "u8 \<Rightarrow> bool list" where
  "byte_bits c = map (\<lambda>k. bit c (7 - k)) [0..<8]"

definition bytes_bits :: "u8 list \<Rightarrow> bool list" where
  "bytes_bits bs = concat (map byte_bits bs)"

lemma bytes_bits_simps [simp]:
  "bytes_bits [] = []" "bytes_bits (c # bs) = byte_bits c @ bytes_bits bs"
  "bytes_bits (as @ bs) = bytes_bits as @ bytes_bits bs" "length (byte_bits c) = 8"
  by (simp_all add: bytes_bits_def byte_bits_def)

lemma length_bytes_bits [simp]: "length (bytes_bits bs) = 8 * length bs"
  by (induction bs) auto

lemma bytes_bits_take: "bytes_bits (take n bs) = take (8 * n) (bytes_bits bs)"
proof (induction bs arbitrary: n)
  case (Cons c bs)
  then show ?case by (cases n) auto
qed simp

lemma bytes_bits_drop: "bytes_bits (drop n bs) = drop (8 * n) (bytes_bits bs)"
proof (induction bs arbitrary: n)
  case (Cons c bs)
  then show ?case by (cases n) auto
qed simp

lemma upt32: "[0..<32] = [0..<8] @ map (\<lambda>k. 8 + k) [0..<8] @ map (\<lambda>k. 16 + k) [0..<8] @ map (\<lambda>k. 24 + k) [0..<8]"
  by (simp add: upt_conv_Cons)

lemma bits_be_bytes: "bytes_bits (be_bytes w) = map (\<lambda>k. bit w (31 - k)) [0..<32]"
  unfolding upt32 by (auto simp: be_bytes_def byte_bits_def bit_simps)

lemma bits_be_word:
  assumes "length bs = 4"
  shows "map (\<lambda>k. bit (be_word bs) (31 - k)) [0..<32] = bytes_bits bs"
proof -
  obtain a b c d where bs: "bs = [a, b, c, d]" using assms by (auto simp: length_Suc_conv numeral_eq_Suc)
  have high: "\<not> bit x k" if "8 \<le> k" for x :: u8 and k using bit_imp_le_length [of x k] that by auto
  have word: "bit (be_word bs) n \<longleftrightarrow> n < 32 \<and> (if n < 8 then bit d n else if n < 16 then bit c (n - 8)
      else if n < 24 then bit b (n - 16) else bit a (n - 24))" for n
  proof -
    have raw: "bit (be_word bs) n \<longleftrightarrow> n < 32 \<and> (24 \<le> n \<and> bit a (n - 24) \<or> 16 \<le> n \<and> bit b (n - 16)
        \<or> 8 \<le> n \<and> bit c (n - 8) \<or> bit d n)"
      unfolding bs be_word_def
      by (simp only: foldl.simps push_bit_of_0 or.left_neutral bit_or_iff bit_push_bit_iff possible_bit_word bit_unsigned_iff
          diff_diff_left) auto
    consider "n < 8" | "8 \<le> n" "n < 16" | "16 \<le> n" "n < 24" | "24 \<le> n" by linarith
    then show ?thesis by cases (use high in \<open>simp_all add: raw\<close>)
  qed
  show ?thesis
    unfolding word by (simp add: upt_conv_Cons byte_bits_def bs)
qed

context byte_order
begin

lemma raw_copy_bytes:
  "length bs \<le> 4 * length ws \<Longrightarrow>
    raw hton (copy_bytes hton bs ws) = bytes_bits bs @ drop (8 * length bs) (raw hton ws)"
proof (induction ws arbitrary: bs)
  case (Cons w ws)
  let ?m = "take 4 bs @ drop (length (take 4 bs)) (be_bytes (hton w))"
  have "length ?m = 4" by (simp add: be_bytes_def)
  then have "wbits hton (hton (be_word ?m)) = bytes_bits ?m"
    using bits_be_word [of ?m] by (simp add: wbits_def hton_hton)
  also have "\<dots> = bytes_bits (take 4 bs) @ drop (8 * length (take 4 bs)) (wbits hton w)"
    by (simp add: bytes_bits_drop bits_be_bytes wbits_def)
  finally have first: "wbits hton (hton (be_word ?m)) = bytes_bits (take 4 bs) @ drop (8 * length (take 4 bs)) (wbits hton w)" .
  have rest: "raw hton (copy_bytes hton (drop 4 bs) ws) = bytes_bits (drop 4 bs) @ drop (8 * length (drop 4 bs)) (raw hton ws)"
    using Cons.prems by (intro Cons.IH) simp
  show ?case
  proof (cases "length bs \<le> 4")
    case True
    then show ?thesis using first rest by (simp del: length_take)
  next
    case False
    then have "bytes_bits bs = bytes_bits (take 4 bs) @ bytes_bits (drop 4 bs)"
      by (metis append_take_drop_id bytes_bits_simps(3))
    with False show ?thesis using first rest by (simp add: diff_mult_distrib2)
  qed
qed simp

lemma length_copy_bytes [simp]: "length (copy_bytes hton bs ws) = length ws"
  by (induction ws arbitrary: bs) auto

lemma assign_ok:
  assumes rep: "represents hton b xs" and n: "n < 2 ^ 31" "n \<le> 8 * length bs"
  shows "represents hton (assign hton bs n b) (take n (bytes_bits bs))"
proof (cases "n = 0")
  case True
  then show ?thesis using resize_ok [OF rep n(1)] by (simp add: assign_def)
next
  case False
  let ?xs = "take n xs @ replicate (n - length xs) False" and ?bs = "take ((n + 7) div 8) bs"
  have rep1: "represents hton (bf_resize hton n b) ?xs" by (rule resize_ok [OF rep n(1)])
  then obtain ws where b: "bf_resize hton n b = mk_bitfield n ws" "length ws = words_for n"
    by (cases rule: represents_cases) (use False in \<open>auto simp: min_def split: if_splits\<close>)
  have "(n + 7) div 8 \<le> 4 * words_for n" using words_for_bounds(1) [of n] by linarith
  then have raw: "raw hton (copy_bytes hton ?bs ws) = bytes_bits ?bs @ drop (8 * length ?bs) (raw hton ws)"
    using b(2) by (intro raw_copy_bytes) simp
  have "n \<le> 8 * ((n + 7) div 8)" by linarith
  then have "take n (raw hton (copy_bytes hton ?bs ws)) = take n (bytes_bits bs)"
    unfolding raw using n(2) by (simp add: bytes_bits_take min_def)
  with clear_trailing_ok [of n "copy_bytes hton ?bs ws"] b n(1) False show ?thesis
    by (simp add: assign_def)
qed

end

section \<open>The queries\<close>

context byte_order
begin

lemma wbits_first:
  assumes "w \<noteq> 0"
  shows "length (takeWhile Not (wbits hton w)) = 31 - log2p1 (hton w)" and "True \<in> set (wbits hton w)"
proof -
  have "hton w \<noteq> 0" using assms hton_inject [of w 0] hton_const by metis
  then obtain m where m: "m < 32" "bit (hton w) m" "\<And>k. m < k \<Longrightarrow> \<not> bit (hton w) k"
    by (rule top_bit_exists [of "hton w"]) blast
  have log: "log2p1 (hton w) = m" by (rule log2p1_top [OF m(2,3)])
  have "takeWhile Not (wbits hton w) = take (31 - m) (wbits hton w)"
    by (rule takeWhile_eq_take_P_nth) (use m in auto)
  then show "length (takeWhile Not (wbits hton w)) = 31 - log2p1 (hton w)" using log by simp
  have "wbits hton w ! (31 - m)" using m by simp
  moreover have "wbits hton w ! (31 - m) \<in> set (wbits hton w)" by (rule nth_mem) simp
  ultimately show "True \<in> set (wbits hton w)" by metis
qed

lemma wbits_zero: "True \<in> set (wbits hton w) \<longleftrightarrow> w \<noteq> 0"
  using wbits_first(2) [of w] by (cases "w = 0") (auto simp: wbits_def hton_simps)

lemma raw_zero: "True \<in> set (raw hton ws) \<longleftrightarrow> (\<exists>w\<in>set ws. w \<noteq> 0)"
  by (induction ws) (auto simp: wbits_zero)

lemma leading_zeros_raw: "count_leading_zeros hton ws = length (takeWhile Not (raw hton ws))"
proof (induction ws)
  case (Cons w ws)
  show ?case
  proof (cases "w = 0")
    case True
    then have "\<forall>x\<in>set (wbits hton w). \<not> x" using wbits_zero [of w] by auto
    then have "takeWhile Not (wbits hton w @ raw hton ws) = wbits hton w @ takeWhile Not (raw hton ws)"
      by (intro takeWhile_append2) auto
    with True Cons show ?thesis by simp
  next
    case False
    then have "\<exists>x\<in>set (wbits hton w). x" using wbits_first(2) by auto
    then have "takeWhile Not (raw hton (w # ws)) = takeWhile Not (wbits hton w)" by (auto intro: takeWhile_append1)
    with False show ?thesis using wbits_first(1) by simp
  qed
qed simp

end

context byte_order
begin

lemma popcount_wbits: "uint (popcount w) = int (length (filter (\<lambda>x. x) (wbits hton w)))"
proof -
  have small: "perm (31 - k) < 32" "31 - perm k < 32" for k by (simp_all add: perm_less)
  have "bij_betw (\<lambda>k. perm (31 - k)) {k. k < 32 \<and> bit (hton w) (31 - k)} {n. n < 32 \<and> bit w n}"
    by (rule bij_betw_byWitness [where f' = "\<lambda>n. 31 - perm n"])
      (use perm_less perm_perm small in \<open>auto simp: bit_hton less_Suc_eq_le [symmetric] diff_diff_cancel\<close>)
  then have "card {n. n < 32 \<and> bit w n} = card {k. k < 32 \<and> bit (hton w) (31 - k)}" by (rule bij_betw_same_card [symmetric])
  also have "\<dots> = length (filter (\<lambda>x. x) (wbits hton w))"
    by (simp add: length_filter_conv_card cong: conj_cong)
  finally have "popcount w = of_nat (length (filter (\<lambda>x. x) (wbits hton w)))" by (simp add: popcount_eq)
  moreover have "length (filter (\<lambda>x. x) (wbits hton w)) < 2 ^ 32"
    using length_filter_le [of "\<lambda>x. x" "wbits hton w"] by simp
  ultimately show ?thesis by (simp add: uint_nat unat_of_nat)
qed

lemma count_raw: "foldl (\<lambda>ret w. ret + uint (popcount w)) n ws = n + int (length (filter (\<lambda>x. x) (raw hton ws)))"
  by (induction ws arbitrary: n) (simp_all add: popcount_wbits)

text \<open>What the queries of the bit field answer.\<close>

lemma takeWhile_shorter: "length (takeWhile P xs) < length xs \<longleftrightarrow> (\<exists>x\<in>set xs. \<not> P x)"
  by (induction xs) auto

lemma words_represents: "represents hton b xs \<Longrightarrow> take (num_words b) (buf b) = buf b"
  using buf_length [of b xs] represents_bits [of hton b xs] by (simp add: num_words_def words_for_def)

lemma bf_count_ok: "represents hton b xs \<Longrightarrow> bf_count b = int (length (filter (\<lambda>x. x) xs))"
  unfolding bf_count_def by (simp add: words_represents count_raw raw_represents)

lemma none_set_ok: "represents hton b xs \<Longrightarrow> none_set b \<longleftrightarrow> True \<notin> set xs"
  using raw_zero [of "buf b"] represents_bits [of hton b xs]
  by (auto simp: none_set_def words_represents raw_represents list_ex_iff)

lemma find_first_set_ok:
  assumes rep: "represents hton b xs"
  shows "find_first_set hton b = (if True \<in> set xs then int (length (takeWhile Not xs)) else - 1)"
proof -
  let ?n = "words_for (length xs)" and ?z = "replicate (32 * words_for (length xs) - length xs) False"
  have n: "num_words b = ?n" "?n = 0 \<longleftrightarrow> xs = []"
    using represents_bits [OF rep] words_for_bounds(3) [of "length xs"] by (auto simp: num_words_def words_for_def)
  have cnt: "count_leading_zeros hton (take ?n (buf b)) = length (takeWhile Not (xs @ ?z))"
    using words_represents [OF rep] leading_zeros_raw [of "buf b"] raw_represents [OF rep] n by simp
  show ?thesis
  proof (cases "True \<in> set xs")
    case True
    then have tw: "takeWhile Not (xs @ ?z) = takeWhile Not xs" by (metis takeWhile_append1)
    have "length (takeWhile Not xs) < length xs" using True by (auto simp: takeWhile_shorter)
    then have "length (takeWhile Not xs) < 32 * ?n" using words_for_bounds(1) [of "length xs"] by linarith
    with True n cnt tw show ?thesis by (auto simp: find_first_set_def Let_def)
  next
    case False
    then have "takeWhile Not (xs @ ?z) = xs @ ?z" by (auto simp: takeWhile_eq_all_conv)
    then have "length (takeWhile Not (xs @ ?z)) = length (xs @ ?z)" by (rule arg_cong)
    then have "length (takeWhile Not (xs @ ?z)) = 32 * ?n" using words_for_bounds(1) [of "length xs"] by simp
    with False n cnt show ?thesis by (auto simp: find_first_set_def Let_def)
  qed
qed

lemma wbits_ones: "False \<notin> set (wbits hton w) \<longleftrightarrow> w = 0xffffffff"
proof
  assume "False \<notin> set (wbits hton w)"
  then have w: "wbits hton w ! k" if "k < 32" for k using that nth_mem [of k "wbits hton w"] by (metis (full_types) length_wbits)
  have "bit (hton w) n" if "n < 32" for n using w [of "31 - n"] that by simp
  then have "hton w = hton (- 1)" by (intro hton_eqI) (simp add: hton_const)
  then show "w = 0xffffffff" unfolding all_ones by (simp only: hton_inject)
next
  assume "w = 0xffffffff"
  then show "False \<notin> set (wbits hton w)" unfolding all_ones by (auto simp: wbits_def hton_const)
qed

lemma raw_all_ones: "False \<notin> set (raw hton ws) \<longleftrightarrow> \<not> list_ex (\<lambda>w. w \<noteq> 0xffffffff) ws"
proof (induction ws)
  case (Cons w ws)
  then show ?case using wbits_ones [of w] by auto
qed simp

lemma masked_ones: "(w AND hton m = hton m) \<longleftrightarrow> (\<forall>n<32. bit m n \<longrightarrow> bit (hton w) n)"
proof -
  have "(w AND hton m = hton m) \<longleftrightarrow> hton w AND m = m" by (metis hton_distrib(1) hton_hton)
  also have "\<dots> \<longleftrightarrow> (\<forall>n<32. bit m n \<longrightarrow> bit (hton w) n)"
    by (auto simp: bit_eq_iff [of "hton w AND m"] bit_simps dest: bit_imp_le_length)
  finally show ?thesis .
qed

lemma all_in_list: "False \<notin> set xs \<longleftrightarrow> (\<forall>k<length xs. xs ! k)"
  by (auto simp: in_set_conv_nth)

lemma last_word_ones:
  assumes rep: "represents hton b xs" and r: "0 < length xs mod 32"
    and m: "m = hton (push_bit (32 - length xs mod 32) 0xffffffff)"
  shows "(buf b ! (length xs div 32)) AND m = m \<longleftrightarrow> False \<notin> set (drop (32 * (length xs div 32)) xs)"
proof -
  let ?q = "length xs div 32" and ?r = "length xs mod 32"
  have n: "length xs = 32 * ?q + ?r" "?r < 32" by simp_all
  have len: "length (drop (32 * ?q) xs) = ?r" by (simp add: minus_mult_div_eq_mod)
  have bit: "bit (hton (buf b ! ?q)) (31 - k) \<longleftrightarrow> drop (32 * ?q) xs ! k" if k: "k < ?r" for k
  proof -
    have i: "32 * ?q + k < length xs" using n(1) k by linarith
    have "raw hton (buf b) ! (32 * ?q + k) \<longleftrightarrow> xs ! (32 * ?q + k)"
      using raw_represents [OF rep] i by (simp add: nth_append)
    moreover have "(32 * ?q + k) div 32 = ?q" "(32 * ?q + k) mod 32 = k" using k n(2) by simp_all
    ultimately show ?thesis using nth_raw [OF index_in_buf [OF rep i]] i by simp
  qed
  have "(buf b ! ?q) AND m = m \<longleftrightarrow> (\<forall>n<32. 32 - ?r \<le> n \<longrightarrow> bit (hton (buf b ! ?q)) n)"
    unfolding m masked_ones bit_ones_left by auto
  also have "\<dots> \<longleftrightarrow> (\<forall>k<?r. bit (hton (buf b ! ?q)) (31 - k))"
  proof
    assume *: "\<forall>k<?r. bit (hton (buf b ! ?q)) (31 - k)"
    show "\<forall>n<32. 32 - ?r \<le> n \<longrightarrow> bit (hton (buf b ! ?q)) n"
    proof (intro allI impI)
      fix n assume "n < 32" "32 - ?r \<le> n"
      then have "31 - n < ?r" "31 - (31 - n) = n" by auto
      then show "bit (hton (buf b ! ?q)) n" using * by metis
    qed
  qed (use n(2) in auto)
  also have "\<dots> \<longleftrightarrow> False \<notin> set (drop (32 * ?q) xs)" unfolding all_in_list len using bit by blast
  finally show ?thesis .
qed

lemma guarded: "(if p then False else if q then e else True) \<longleftrightarrow> \<not> p \<and> (q \<longrightarrow> e)"
  by simp

lemma all_set_ok:
  assumes rep: "represents hton b xs"
  shows "all_set hton b \<longleftrightarrow> xs \<noteq> [] \<and> False \<notin> set xs"
proof (cases "xs = []")
  case False
  let ?q = "length xs div 32"
  have "32 * ?q \<le> length xs" by simp
  then have "raw hton (take ?q (buf b)) = take (32 * ?q) xs" by (simp add: raw_take raw_represents [OF rep])
  then have "\<not> list_ex (\<lambda>w. w \<noteq> 0xffffffff) (take ?q (buf b)) \<longleftrightarrow> False \<notin> set (take (32 * ?q) xs)" by (metis raw_all_ones)
  moreover have "False \<notin> set xs \<longleftrightarrow> False \<notin> set (take (32 * ?q) xs) \<and> False \<notin> set (drop (32 * ?q) xs)"
    by (metis UnE UnI1 UnI2 append_take_drop_id set_append)
  moreover have "False \<notin> set (drop (32 * ?q) xs)" if "\<not> 0 < length xs mod 32" using that by auto
  moreover define m where "m = hton (push_bit (32 - length xs mod 32) 0xffffffff)"
  moreover have "all_set hton b \<longleftrightarrow> \<not> list_ex (\<lambda>w. w \<noteq> 0xffffffff) (take ?q (buf b))
      \<and> (0 < length xs mod 32 \<longrightarrow> (buf b ! ?q) AND m = m)"
    unfolding all_set_def Let_def represents_bits [OF rep] m_def using False by (simp only: length_0_conv if_False guarded)
  ultimately show ?thesis
    using False last_word_ones [OF rep _ m_def] by (cases "0 < length xs mod 32") blast+
qed (use represents_bits [OF rep] in \<open>simp add: all_set_def\<close>)

end

section \<open>The last clear bit\<close>

text \<open>The number of set bits at the end of a list.\<close>

definition tail_ones :: "bool list \<Rightarrow> nat" where
  "tail_ones xs = length (takeWhile (\<lambda>x. x) (rev xs))"

lemma tail_ones_le: "tail_ones xs \<le> length xs"
  using length_takeWhile_le [of "\<lambda>x. x" "rev xs"] by (simp add: tail_ones_def)

lemma tail_ones_append: "tail_ones (xs @ ys) = (if False \<in> set ys then tail_ones ys else length ys + tail_ones xs)"
proof (cases "False \<in> set ys")
  case True
  then have "takeWhile (\<lambda>x. x) (rev ys @ rev xs) = takeWhile (\<lambda>x. x) (rev ys)" by (metis set_rev takeWhile_append1)
  with True show ?thesis by (simp add: tail_ones_def)
next
  case False
  then have "\<forall>y\<in>set (rev ys). y" by (metis (full_types) set_rev)
  then have "takeWhile (\<lambda>x. x) (rev ys @ rev xs) = rev ys @ takeWhile (\<lambda>x. x) (rev xs)" by (intro takeWhile_append2) auto
  with False show ?thesis by (simp add: tail_ones_def)
qed

lemma ones_loop_eq: "ones_loop n k v = k + length (takeWhile Not (map (bit v) [0..<n]))"
proof (induction n arbitrary: k v)
  case (Suc n)
  have "map (bit v) [0..<Suc n] = bit v 0 # map (bit (drop_bit 1 v)) [0..<n]"
    by (simp only: upt_conv_Cons [OF zero_less_Suc] map_Suc_upt [symmetric] list.map map_map)
      (simp add: comp_def bit_drop_bit_eq del: upt_Suc)
  moreover have "v AND 1 = 0 \<longleftrightarrow> \<not> bit v 0" by (simp add: and_one_eq bit_0 mod2_eq_if)
  ultimately show ?case using Suc [of "k + 1" "drop_bit 1 v"] by (simp del: upt_Suc)
qed simp

context byte_order
begin

lemma rev_wbits: "rev (wbits hton w) = map (bit (hton w)) [0..<32]"
  by (rule nth_equalityI) (simp_all add: rev_nth)

lemma word_tail_ones: "ones_loop 32 0 (NOT (hton w)) = tail_ones (wbits hton w)"
proof -
  have "map (bit (NOT (hton w))) [0..<32] = map Not (map (bit (hton w)) [0..<32])" by (simp add: bit_not_iff)
  then have "ones_loop 32 0 (NOT (hton w)) = length (takeWhile Not (map Not (map (bit (hton w)) [0..<32])))"
    by (simp only: ones_loop_eq add_0)
  then show ?thesis unfolding tail_ones_def rev_wbits by (simp only: takeWhile_map comp_def length_map not_not)
qed

lemma trailing_ones_raw: "count_trailing_ones hton ws = tail_ones (raw hton ws)"
proof (induction ws rule: rev_induct)
  case (snoc w ws)
  have "raw hton (ws @ [w]) = raw hton ws @ wbits hton w" by (simp add: raw_def)
  with snoc show ?case
    using wbits_ones [of w] by (cases "w = 0xffffffff") (simp_all add: count_trailing_ones_def tail_ones_append word_tail_ones)
qed (simp add: count_trailing_ones_def raw_def tail_ones_def)

lemma last_word_clear:
  assumes rep: "represents hton b xs" and r: "length xs mod 32 \<noteq> 0"
    and lst: "lst = (buf b ! (length xs div 32)) XOR hton (push_bit (32 - length xs mod 32) 0xffffffff)"
  shows "wbits hton (NOT lst) = drop (32 * (length xs div 32)) xs @ replicate (32 - length xs mod 32) True"
proof (rule nth_equalityI)
  let ?q = "length xs div 32" and ?r = "length xs mod 32"
  have n: "length xs = 32 * ?q + ?r" "?r < 32" by simp_all
  have len: "length (drop (32 * ?q) xs) = ?r" by (simp add: minus_mult_div_eq_mod)
  then show "length (wbits hton (NOT lst)) = length (drop (32 * ?q) xs @ replicate (32 - ?r) True)" using n(2) by simp
  fix k assume "k < length (wbits hton (NOT lst))"
  then have k: "k < 32" by simp
  have inside: "32 * ?q + k < length xs \<longleftrightarrow> k < ?r" using n(1) by linarith
  have "32 * ?q + k < 32 * words_for (length xs)" using k r by (simp add: words_for_alt)
  then have "raw hton (buf b) ! (32 * ?q + k) \<longleftrightarrow> k < ?r \<and> drop (32 * ?q) xs ! k"
    using raw_nth_represents [OF raw_represents [OF rep]] inside by (auto simp: nth_drop)
  moreover have "(32 * ?q + k) div 32 = ?q" "(32 * ?q + k) mod 32 = k" using k by simp_all
  moreover have "32 * ?q + k < 32 * length (buf b)" using k r buf_length [OF rep] by (simp add: words_for_alt)
  ultimately have "bit (hton (buf b ! ?q)) (31 - k) \<longleftrightarrow> k < ?r \<and> drop (32 * ?q) xs ! k" using nth_raw by metis
  moreover have "hton (NOT lst) = NOT (hton (buf b ! ?q) XOR push_bit (32 - ?r) 0xffffffff)"
    unfolding lst by (simp only: hton_distrib hton_hton)
  ultimately have "wbits hton (NOT lst) ! k \<longleftrightarrow> \<not> (k < ?r \<and> drop (32 * ?q) xs ! k \<longleftrightarrow> \<not> k < ?r)"
    using k by (simp only: nth_wbits bit_not_iff bit_xor_iff bit_ones_left possible_bit_word) auto
  then show "wbits hton (NOT lst) ! k = (drop (32 * ?q) xs @ replicate (32 - ?r) True) ! k"
    using len k n(2) by (auto simp: nth_append)
qed

lemma find_last_clear_raw:
  assumes rep: "represents hton b xs" and r: "length xs mod 32 \<noteq> 0"
  shows "find_last_clear hton b = Some (if tail_ones xs < length xs mod 32
    then int (32 * (length xs div 32) + 1 + tail_ones xs) else int (length xs) - 1 - int (tail_ones xs))"
proof -
  let ?q = "length xs div 32" and ?r = "length xs mod 32" and ?ys = "drop (32 * (length xs div 32)) xs"
  define lst where "lst = (buf b ! ?q) XOR hton (push_bit (32 - ?r) 0xffffffff)"
  have len: "length ?ys = ?r" "?r < 32" by (simp_all add: minus_mult_div_eq_mod)
  have num: "num_words b = ?q + 1" using r represents_bits [OF rep] words_for_alt [of "length xs"] by (simp add: num_words_def words_for_def)
  have bits: "wbits hton (NOT lst) = ?ys @ replicate (32 - ?r) True" by (rule last_word_clear [OF rep r lst_def])
  have "lst = 0 \<longleftrightarrow> NOT lst = 0xffffffff" unfolding all_ones by (metis bit.double_compl bit.compl_zero)
  then have zero: "lst = 0 \<longleftrightarrow> False \<notin> set ?ys" using wbits_ones [of "NOT lst"] bits by auto
  have "raw hton [NOT lst] = ?ys @ replicate (32 - ?r) True" by (simp add: raw_def bits)
  then have ext: "int (count_trailing_ones hton [NOT lst]) - (31 - int ?r) = 1 + int (tail_ones ?ys)"
    using len(2) by (simp add: trailing_ones_raw tail_ones_append of_nat_diff)
  have "raw hton (take ?q (buf b)) = take (32 * ?q) xs" by (simp add: raw_take raw_represents [OF rep])
  then have rest: "count_trailing_ones hton (take ?q (buf b)) = tail_ones (take (32 * ?q) xs)" by (simp add: trailing_ones_raw)
  have tail: "tail_ones xs = (if False \<in> set ?ys then tail_ones ?ys else ?r + tail_ones (take (32 * ?q) xs))"
    using tail_ones_append [of "take (32 * ?q) xs" ?ys] len(1) by simp
  have less: "tail_ones ?ys < ?r \<longleftrightarrow> False \<in> set ?ys" using takeWhile_shorter [of "\<lambda>x. x" "rev ?ys"] len(1) by (auto simp: tail_ones_def)
  have "find_last_clear hton b = Some (if lst \<noteq> 0 then int ?q * 32 + (1 + int (tail_ones ?ys))
      else int (length xs) - (int (tail_ones (take (32 * ?q) xs)) + (1 + int (tail_ones ?ys))))"
    unfolding find_last_clear_def Let_def represents_bits [OF rep] num add_diff_cancel_right' lst_def [symmetric] ext rest
    using r by (simp only: if_False) simp
  then show ?thesis using zero less tail tail_ones_le [of ?ys] len(1) by (cases "False \<in> set ?ys") auto
qed

end

section \<open>Copies and iterators\<close>

context byte_order
begin

lemma data_bits: "bytes_bits (data hton b) = raw hton (buf b)"
proof -
  have "bytes_bits (concat (map (\<lambda>w. be_bytes (hton w)) ws)) = raw hton ws" for ws
    by (induction ws) (simp_all add: bits_be_bytes wbits_def)
  then show ?thesis by (simp add: data_def)
qed

lemma copy_assign_ok:
  assumes rhs: "represents hton rhs ys" and b: "represents hton b xs"
  shows "represents hton (copy_assign hton rhs b) ys"
proof -
  have bits: "bytes_bits (data hton rhs) = ys @ replicate (32 * words_for (length ys) - length ys) False"
    by (simp add: data_bits raw_represents [OF rhs])
  then have "length ys \<le> length (bytes_bits (data hton rhs))" by simp
  moreover have "length ys < 2 ^ 31" using rhs by (cases rule: represents_cases) auto
  ultimately have "represents hton (assign hton (data hton rhs) (length ys) b) (take (length ys) (bytes_bits (data hton rhs)))"
    using assign_ok [OF b] by simp
  then show ?thesis by (simp add: copy_assign_def represents_bits [OF rhs] bits)
qed

end

text \<open>The mask of the bit \<open>k\<close> of a word, and the iterator at the bit \<open>i\<close>.\<close>

definition probe :: "nat \<Rightarrow> u32" where
  "probe k = drop_bit k 0x80000000"

definition it_at :: "nat \<Rightarrow> const_iterator" where
  "it_at i = \<lparr>it_buf = i div 32, it_bit = probe (i mod 32)\<rparr>"

lemma bit_probe: "k < 32 \<Longrightarrow> bit (probe k) n \<longleftrightarrow> n = 31 - k"
  unfolding probe_def by (rule bit_top_shift)

lemma probe_inject: "j < 32 \<Longrightarrow> k < 32 \<Longrightarrow> probe j = probe k \<longleftrightarrow> j = k"
  using bit_probe [of j "31 - j"] bit_probe [of k "31 - j"] by auto

lemma probe_ends: "probe 31 = 1" "probe 0 = 0x80000000"
  by (simp_all add: probe_def)

lemma probe_shift: "drop_bit 1 (probe k) = probe (k + 1)" "k + 1 < 32 \<Longrightarrow> push_bit 1 (probe (k + 1)) = probe k"
proof -
  show "drop_bit 1 (probe k) = probe (k + 1)" by (simp only: probe_def drop_bit_drop_bit add.commute)
  assume "k + 1 < 32"
  then have "bit (push_bit 1 (probe (k + 1))) n \<longleftrightarrow> bit (probe k) n" if "n < 32" for n
    using that bit_probe [of "k + 1" "n - 1"] bit_probe [of k n] by (simp only: bit_push_bit_iff possible_bit_word) auto
  then show "push_bit 1 (probe (k + 1)) = probe k" by (intro bit_word_eqI) simp
qed

lemma it_at_inject: "it_at i = it_at j \<longleftrightarrow> i = j"
proof
  assume "it_at i = it_at j"
  then have "i div 32 = j div 32" "i mod 32 = j mod 32" by (simp_all add: it_at_def probe_inject)
  then show "i = j" by (metis div_mult_mod_eq)
qed simp

lemma begin_it_at: "begin_it = it_at 0"
  by (simp only: begin_it_def it_at_def div_0 mod_0 probe_def)

lemma next_index:
  "i mod 32 = 31 \<Longrightarrow> (i + 1) div 32 = i div 32 + 1 \<and> (i + 1) mod 32 = 0"
  "i mod 32 \<noteq> 31 \<Longrightarrow> (i + 1) div 32 = i div 32 \<and> (i + 1) mod 32 = i mod 32 + 1" for i :: nat
  by (auto simp: div_Suc mod_Suc)

lemma inc_it_at: "it_inc (it_at i) = it_at (i + 1)"
proof (cases "i mod 32 = 31")
  case True
  then show ?thesis using next_index(1) [OF True] by (simp add: it_inc_def it_at_def probe_ends del: add_2_eq_Suc' Suc_eq_plus1)
next
  case False
  then have "probe (i mod 32) \<noteq> 1" using probe_inject [of "i mod 32" 31] probe_ends by simp
  then show ?thesis using next_index(2) [OF False] by (simp add: it_inc_def it_at_def probe_shift(1) [unfolded One_nat_def])
qed

lemma dec_it_at: "it_dec (it_at (i + 1)) = it_at i"
proof (cases "i mod 32 = 31")
  case True
  then show ?thesis using next_index(1) [OF True] by (simp add: it_dec_def it_at_def probe_ends)
next
  case False
  then have k: "i mod 32 + 1 < 32" using mod_less_divisor [of 32 i] by linarith
  then have "probe (i mod 32 + 1) \<noteq> 0x80000000" using probe_inject [of "i mod 32 + 1" 0] probe_ends by simp
  then show ?thesis using next_index(2) [OF False] probe_shift(2) [OF k] by (simp add: it_dec_def it_at_def)
qed

lemma end_it_at:
  assumes "represents hton b xs"
  shows "end_it b = it_at (length xs)"
  using assms
proof (cases rule: represents_cases)
  case (bits ws)
  then show ?thesis
    by (simp add: end_it_def it_at_def probe_def words_for_alt) (simp add: mk_bitfield_def)
qed (simp add: end_it_def it_at_def probe_def new_bitfield_def bits_def)

context byte_order
begin

lemma deref_it_at:
  assumes "represents hton b xs" and "i < length xs"
  shows "deref hton b (it_at i) = xs ! i"
  using get_bit_ok [OF assms] by (simp only: deref_def get_bit_def it_at_def probe_def const_iterator.simps)

lemma forward_ok:
  assumes rep: "represents hton b xs"
  shows "i \<le> length xs \<Longrightarrow> length xs - i < fuel \<Longrightarrow> forward hton b fuel (it_at i) = Some (drop i xs)"
proof (induction fuel arbitrary: i)
  case (Suc fuel)
  show ?case
  proof (cases "i = length xs")
    case False
    with Suc.prems Suc.IH [of "i + 1"] show ?thesis
      by (simp add: end_it_at [OF rep] it_at_inject inc_it_at [unfolded Suc_eq_plus1 [symmetric]] deref_it_at [OF rep] Cons_nth_drop_Suc)
  qed (simp add: end_it_at [OF rep])
qed simp

lemma backward_ok:
  assumes rep: "represents hton b xs"
  shows "i \<le> length xs \<Longrightarrow> i < fuel \<Longrightarrow> backward hton b fuel (it_at i) = Some (rev (take i xs))"
proof (induction fuel arbitrary: i)
  case (Suc fuel)
  show ?case
  proof (cases i)
    case (Suc j)
    with Suc.prems Suc.IH [of j] show ?thesis
      by (simp add: begin_it_at it_at_inject dec_it_at [unfolded Suc_eq_plus1 [symmetric]] deref_it_at [OF rep] take_Suc_conv_app_nth)
  qed (simp add: begin_it_at)
qed simp

end

section \<open>The bit fields as two lists of bits\<close>

text \<open>What the operations do to the lists, when they are called as the assertions of the code demand.\<close>

fun spec_step :: "bf_op \<Rightarrow> bool list \<times> bool list \<Rightarrow> bool list \<times> bool list" where
  "spec_step (Resize n) (xs, ys) = (take n xs @ replicate (n - length xs) False, ys)"
| "spec_step (ResizeVal n v) (xs, ys) = (take n xs @ replicate (n - length xs) v, ys)"
| "spec_step (Assign bs n) (xs, ys) = (take n (bytes_bits bs), ys)"
| "spec_step (SetBit i) (xs, ys) = (xs[i := True], ys)"
| "spec_step (ClearBit i) (xs, ys) = (xs[i := False], ys)"
| "spec_step SetAll (xs, ys) = (replicate (length xs) True, ys)"
| "spec_step ClearAll (xs, ys) = (replicate (length xs) False, ys)"
| "spec_step Clear (xs, ys) = ([], ys)"
| "spec_step Copy (xs, ys) = (ys, ys)"
| "spec_step Move (xs, ys) = (ys, [])"
| "spec_step Swap (xs, ys) = (ys, xs)"

fun bf_op_ok :: "bf_op \<Rightarrow> bool list \<Rightarrow> bool" where
  "bf_op_ok (Resize n) xs \<longleftrightarrow> n < 2 ^ 31"
| "bf_op_ok (ResizeVal n v) xs \<longleftrightarrow> n < 2 ^ 31"
| "bf_op_ok (Assign bs n) xs \<longleftrightarrow> n < 2 ^ 31 \<and> n \<le> 8 * length bs"
| "bf_op_ok (SetBit i) xs \<longleftrightarrow> i < length xs"
| "bf_op_ok (ClearBit i) xs \<longleftrightarrow> i < length xs"
| "bf_op_ok op xs \<longleftrightarrow> True"

primrec ops_ok :: "bf_op list \<Rightarrow> bool list \<times> bool list \<Rightarrow> bool" where
  "ops_ok [] s \<longleftrightarrow> True"
| "ops_ok (op # ops) s \<longleftrightarrow> bf_op_ok op (fst s) \<and> ops_ok ops (spec_step op s)"

definition spec_run :: "bf_op list \<Rightarrow> bool list \<times> bool list" where
  "spec_run ops = foldl (\<lambda>s op. spec_step op s) ([], []) ops"

text \<open>All that can be asked of a bit field but \<open>find_last_clear\<close>, which is treated below: its size, its bits one by one, by
  iterating forwards and backwards, and on the wire; how many are set, whether all or none are, and the first one that is.\<close>

definition observe :: "order \<Rightarrow> bitfield \<Rightarrow>
    nat \<times> bool list \<times> bool list option \<times> bool list option \<times> bool list \<times> int \<times> bool \<times> bool \<times> int" where
  "observe hton b = (bits b, map (get_bit hton b) [0..<bits b],
     forward hton b (bits b + 1) begin_it, backward hton b (bits b + 1) (end_it b), bytes_bits (data hton b),
     bf_count b, all_set hton b, none_set b, find_first_set hton b)"

definition spec_observe :: "bool list \<Rightarrow>
    nat \<times> bool list \<times> bool list option \<times> bool list option \<times> bool list \<times> int \<times> bool \<times> bool \<times> int" where
  "spec_observe xs = (length xs, xs, Some xs, Some (rev xs),
     xs @ replicate (32 * ((length xs + 31) div 32) - length xs) False,
     int (length (filter (\<lambda>x. x) xs)), xs \<noteq> [] \<and> False \<notin> set xs, True \<notin> set xs,
     if True \<in> set xs then int (length (takeWhile Not xs)) else - 1)"

definition both :: "order \<Rightarrow> bitfield \<times> bitfield \<Rightarrow> bool list \<times> bool list \<Rightarrow> bool" where
  "both hton s t \<longleftrightarrow> represents hton (fst s) (fst t) \<and> represents hton (snd s) (snd t)"

lemma represents_new: "represents hton b [] \<longleftrightarrow> b = new_bitfield"
  by (simp add: represents_def)

lemma give_buf: "a\<lparr>m_buf := m_buf b\<rparr> = (b :: bitfield)" "b\<lparr>m_buf := None\<rparr> = new_bitfield" "clear b = new_bitfield"
  by (simp_all add: clear_def new_bitfield_def)

context byte_order
begin

lemmas op_oks = resize_ok resize_val_ok assign_ok set_bit_ok clear_bit_ok set_all_ok clear_all_ok copy_assign_ok

lemma step_ok: "both hton s t \<Longrightarrow> bf_op_ok op (fst t) \<Longrightarrow> both hton (bf_step hton op s) (spec_step op t)"
  by (cases s; cases t; cases op) (auto simp: both_def represents_new give_buf intro: op_oks)

lemma run_ok:
  "both hton s t \<Longrightarrow> ops_ok ops t \<Longrightarrow> both hton (foldl (\<lambda>s op. bf_step hton op s) s ops) (foldl (\<lambda>s op. spec_step op s) t ops)"
proof (induction ops arbitrary: s t)
  case (Cons op ops)
  then show ?case using Cons.IH [OF step_ok [of s t op]] by simp
qed simp

lemma observe_ok:
  assumes rep: "represents hton b xs"
  shows "observe hton b = spec_observe xs"
proof -
  have "map (get_bit hton b) [0..<length xs] = xs" by (rule nth_equalityI) (simp_all add: get_bit_ok [OF rep])
  moreover have "forward hton b (length xs + 1) begin_it = Some xs"
    using forward_ok [OF rep, of 0 "length xs + 1"] by (simp add: begin_it_at)
  moreover have "backward hton b (length xs + 1) (end_it b) = Some (rev xs)"
    using backward_ok [OF rep, of "length xs" "length xs + 1"] by (simp add: end_it_at [OF rep])
  ultimately show ?thesis
    by (simp only: observe_def spec_observe_def represents_bits [OF rep] data_bits raw_represents [OF rep] words_for_def
        bf_count_ok [OF rep] all_set_ok [OF rep] none_set_ok [OF rep] find_first_set_ok [OF rep])
qed

end

lemma both_new: "both hton (new_bitfield, new_bitfield) ([], [])"
  by (simp add: both_def represents_new)

lemma bf_run_represents:
  assumes "is_order hton" and ops: "ops_ok ops ([], [])"
  shows "represents hton (fst (bf_run hton ops)) (fst (spec_run ops))"
proof -
  have "both hton (bf_run hton ops) (spec_run ops)"
    using assms(1) little.run_ok [OF both_new ops] big.run_ok [OF both_new ops]
    by (auto simp: is_order_def bf_run_def spec_run_def)
  then show ?thesis by (simp add: both_def)
qed

text \<open>
  C14: bit fields are lists of bits. After any sequence of operations on two bit fields, copies, moves and swaps included,
  all that can be asked of the first one, but \<open>find_last_clear\<close>, is what the list of its bits answers: the size, every single bit, the iteration in
  both directions (which ends), the bytes on the wire with only zeros behind the last bit, the parallel count of set bits,
  whether all or none are set and the index of the first set bit. This holds on hosts of either byte order; the operations
  are called as the assertions of the code demand.
\<close>

theorem bitfield_refines:
  assumes "is_order hton" and "ops_ok ops ([], [])"
  shows "observe hton (fst (bf_run hton ops)) = spec_observe (fst (spec_run ops))"
  using assms(1) bf_run_represents [OF assms] little.observe_ok big.observe_ok by (auto simp: is_order_def)

theorem bitfield_refines_witness:
  "is_order byteswap \<and> ops_ok [Assign [0xa0, 0xff] 10, SetBit 1, Swap, Copy, ResizeVal 12 True] ([], [])
    \<and> observe byteswap (fst (bf_run byteswap [Assign [0xa0, 0xff] 10, SetBit 1, Swap, Copy, ResizeVal 12 True]))
      = spec_observe [True, True, True, False, False, False, False, False, True, True, True, True]"
proof -
  let ?ops = "[Assign [0xa0, 0xff] 10, SetBit 1, Swap, Copy, ResizeVal 12 True]"
  have ok: "is_order byteswap" "ops_ok ?ops ([], [])" by (simp_all add: is_order_def)
  have "fst (spec_run ?ops) = [True, True, True, False, False, False, False, False, True, True, True, True]" by code_simp
  with ok bitfield_refines [of byteswap ?ops] show ?thesis by simp
qed

text \<open>The index of the last clear bit, \<open>-1\<close> when there is none.\<close>

definition last_clear :: "bool list \<Rightarrow> int" where
  "last_clear xs = int (length (dropWhile (\<lambda>x. x) (rev xs))) - 1"

lemma last_clear_tail: "last_clear xs = int (length xs) - 1 - int (tail_ones xs)"
proof -
  have "length (takeWhile (\<lambda>x. x) (rev xs)) + length (dropWhile (\<lambda>x. x) (rev xs)) = length xs"
    by (metis length_append length_rev takeWhile_dropWhile_id)
  then show ?thesis by (simp add: last_clear_def tail_ones_def)
qed

lemma find_last_clear_value:
  "is_order hton \<Longrightarrow> represents hton b xs \<Longrightarrow> length xs mod 32 \<noteq> 0 \<Longrightarrow>
    find_last_clear hton b = Some (if tail_ones xs < length xs mod 32
      then int (32 * (length xs div 32) + 1 + tail_ones xs) else last_clear xs)"
  using little.find_last_clear_raw [of b xs] big.find_last_clear_raw [of b xs] by (auto simp: is_order_def last_clear_tail)

lemma find_last_clear_full:
  assumes "represents hton b xs" and "xs \<noteq> []" and "length xs mod 32 = 0"
  shows "find_last_clear hton b = None"
  using assms represents_bits [OF assms(1)] words_for_bounds(3) [of "length xs"]
  by (simp add: find_last_clear_def num_words_def words_for_def [symmetric])

text \<open>
  C38: when the last clear bit is found. \<open>find_last_clear\<close> returns the index of the last clear bit, as the header says,
  exactly if the bit field is empty, or its size is no multiple of 32 and, of the bits of the last word, all are set or those
  behind the last clear bit are one fewer than those before it. A size that is a multiple of 32 makes it shift by the width
  of the word, which is undefined; otherwise it returns the start of the last word plus the distance of the last clear bit
  from the end.
\<close>

theorem find_last_clear_right:
  assumes "is_order hton" and "ops_ok ops ([], [])"
  shows "find_last_clear hton (fst (bf_run hton ops)) = Some (last_clear (fst (spec_run ops)))
    \<longleftrightarrow> fst (spec_run ops) = [] \<or> length (fst (spec_run ops)) mod 32 \<noteq> 0
      \<and> (length (fst (spec_run ops)) mod 32 \<le> tail_ones (fst (spec_run ops))
        \<or> 2 * tail_ones (fst (spec_run ops)) + 2 = length (fst (spec_run ops)) mod 32)"
proof -
  define xs b where "xs = fst (spec_run ops)" and "b = fst (bf_run hton ops)"
  have rep: "represents hton b xs" unfolding xs_def b_def by (rule bf_run_represents [OF assms])
  have n: "length xs = 32 * (length xs div 32) + length xs mod 32" by simp
  consider "xs = []" | "xs \<noteq> []" "length xs mod 32 = 0" | "length xs mod 32 \<noteq> 0" by blast
  then have "find_last_clear hton b = Some (last_clear xs) \<longleftrightarrow> xs = [] \<or> length xs mod 32 \<noteq> 0
      \<and> (length xs mod 32 \<le> tail_ones xs \<or> 2 * tail_ones xs + 2 = length xs mod 32)"
  proof cases
    case 1
    then show ?thesis using rep by (simp add: represents_new find_last_clear_def last_clear_def)
  next
    case 2
    then show ?thesis using find_last_clear_full [OF rep] by simp
  next
    case 3
    then have "xs \<noteq> []" by auto
    moreover have "int (32 * (length xs div 32) + 1 + tail_ones xs) = last_clear xs \<longleftrightarrow> 2 * tail_ones xs + 2 = length xs mod 32"
      unfolding last_clear_tail using n by linarith
    ultimately show ?thesis
      using 3 find_last_clear_value [OF assms(1) rep 3] by (cases "tail_ones xs < length xs mod 32") (simp_all del: of_nat_add)
  qed
  then show ?thesis by (simp only: xs_def b_def)
qed

theorem find_last_clear_right_witness:
  "is_order byteswap \<and> ops_ok [Resize 3, SetBit 0] ([], []) \<and> last_clear (fst (spec_run [Resize 3, SetBit 0])) = 2
    \<and> find_last_clear byteswap (fst (bf_run byteswap [Resize 3, SetBit 0])) \<noteq> Some 2"
proof -
  let ?ops = "[Resize 3, SetBit 0]"
  have ok: "is_order byteswap" "ops_ok ?ops ([], [])" by (simp_all add: is_order_def)
  have "fst (spec_run ?ops) = [True, False, False]" by code_simp
  with ok find_last_clear_right [of byteswap ?ops] show ?thesis by (simp add: last_clear_def tail_ones_def)
qed

end
