(* ===== verification/Spec2Isabelle.thy ===== *)
theory Spec2Isabelle
  imports Disk_Job_Fence Bandwidth Bdecode Picker_Promises Ip_Filter Packet_Buffer Bitfield
begin

text \<open>
  Verification of the core of the BitTorrent engine under \<open>src/btdownloader/torrent\<close> (libtorrent, with its
  headers under \<open>src/btdownloader/include/libtorrent\<close>).

  \<^bold>\<open>The program.\<close> The engine downloads a torrent piece by piece. The \<^emph>\<open>piece picker\<close> of a torrent knows how
  many peers have each piece, which pieces we have, want or refuse, and which blocks are requested, being
  written or finished; it keeps the pieces that can be picked in one list sorted by priority. Peers take
  their requests from it and report what happened to a block. The \<^emph>\<open>bandwidth manager\<close> hands out quota to
  the peers under shared rate limits. The \<^emph>\<open>disk job fence\<close> of a storage delays disk jobs while one of them
  needs the storage for itself. \<^emph>\<open>Bencoding\<close> is the wire format of torrent files, of tracker answers, DHT
  messages and resume data; \<open>bdecode\<close> is the parser that meets untrusted bytes first. The \<^emph>\<open>IP filter\<close> and the port
  filter say which peers may be connected to. uTP streams keep packets that arrive out of order, or that are not yet
  acknowledged, in a \<^emph>\<open>packet buffer\<close>. Which pieces a peer has is a \<^emph>\<open>bit field\<close>, kept in the form it has on the wire.

  \<^bold>\<open>Theories and sources.\<close>
  \<^item> \<open>Prelude\<close>: machine types, the locale \<open>invariant_system\<close> (states reachable by steps and what every step
    keeps) that each state machine below interprets, facts on lists.
  \<^item> \<open>Disk_Job_Fence\<close>: \<open>disk_job_fence.cpp\<close>. \<open>raise_fence\<close>, \<open>is_blocked\<close>, \<open>job_complete\<close> on a record of the
    fence; \<open>fence_step\<close> closes the system with the jobs that are running. A fence job runs alone
    (\<open>fence_exclusive\<close>), blocked jobs are released (\<open>fence_drains\<close>) in their order (\<open>fence_complete_posts\<close>).
  \<^item> \<open>Bandwidth\<close>: \<open>bandwidth_limit.cpp\<close>, \<open>bandwidth_queue_entry.cpp\<close>, \<open>bandwidth_manager.cpp\<close>. Channels are
    shared by pointer, so they live in a store. No round overdraws a limited channel
    (\<open>bw_no_overdraft\<close>); \<open>m_queued_bytes\<close> is exact (\<open>bw_queued_bytes_exact\<close>); what happens with more than
    five and with more than ten channels.
  \<^item> \<open>Bencode\<close>: \<open>bencode.hpp\<close>, \<open>integer_to_str\<close> of \<open>entry.cpp\<close>. \<open>Bdecode\<close>: \<open>bdecode.cpp\<close>, the parser that turns a
    buffer into tokens, and the accessors of \<open>bdecode_node\<close>. Decoding undoes encoding
    (\<open>bencode_bdecode_roundtrip\<close>); no input makes a token point outside the tokens (\<open>bdecode_tokens_safe\<close>);
    the limits bound the tokens (\<open>bdecode_bounded\<close>); the caches of a node are invisible, whatever
    sequence of lookups and size queries is made (\<open>node_cache_transparent\<close>). The counts of \<open>bencode\<close> are
    32 bit words; they are the number of bytes below \<open>2 ^ 31\<close> bytes (\<open>bencode_count_exact\<close>).
  \<^item> \<open>Picker_Data\<close>, \<open>Picker_List\<close>, \<open>Picker_Blocks\<close>, \<open>Picker_Ops\<close>: \<open>piece_picker.hpp\<close> and \<open>piece_picker.cpp\<close>, in
    this order the state, the sorted list (\<open>add\<close>, \<open>remove\<close>, \<open>update\<close>, \<open>update_pieces\<close>), the download queues with
    the states of blocks, and the operations the torrent calls.
  \<^item> \<open>Picker_Order\<close> proves that each operation leaves the list dirty or in order, \<open>Picker_Rebuild\<close> that
    \<open>update_pieces\<close> makes a dirty list right, \<open>Picker_Counters\<close> that the counters of pieces and pad blocks
    and the cursors agree with the pieces, \<open>Picker_Avail\<close> that the availability operations refine plain
    counting, in any sequence that removes only what was added (\<open>availability_refines\<close>).
  \<^item> \<open>Picker_Downloads\<close> and \<open>Picker_Protocol\<close>: the life of a block. Every operation keeps the download queues sorted and
    in step with the states of the pieces, the slots of blocks disjoint, and the counters of a download equal to
    what counting its blocks gives. \<open>Picker_Frame\<close> says what the operations on the list leave alone.
  \<^item> \<open>Picker_Machine\<close>: the operations as steps of one transition system, each guarded by what the code asserts of
    its caller; two guards are not asserted: \<open>resize\<close> (of a picker in use, as in a forced recheck) is for the same
    number of pieces and for pickers without filtered pad blocks, and \<open>we_dont_have\<close> for pieces we have or that are
    open. Its invariant gives what the code's own \<open>check_invariant\<close> and \<open>check_piece_state\<close> assert of list,
    downloads, counters and cursors, in every reachable state (\<open>picker_list_sound\<close>, \<open>picker_downloads_sound\<close>,
    \<open>picker_counters_sound\<close>), the exact meaning of the reported numbers (\<open>picker_reports\<close>), and the two
    operations breaking it where these two guards fail (\<open>we_dont_have_breaks_list\<close>, \<open>resize_loses_filtered_pads\<close>).
  \<^item> \<open>Picker_Pick\<close>: \<open>pick_pieces\<close> with \<open>add_blocks\<close>, \<open>add_blocks_downloading\<close>, \<open>requested_from\<close>, \<open>expand_piece\<close> and
    its orders (partial, suggested, sequential, rarest first with extents, time critical, random, backups, end
    game), with its early returns as the constructor \<open>Return\<close>. \<open>Picker_Choice\<close>: for all options but \<open>align_expanded_pieces\<close>, which no caller
    sets and which can make \<open>expand_piece\<close> divide by zero (\<open>aligned_expansion_divides_by_zero\<close>), it returns and picks
    only blocks that may be picked (\<open>pick_pieces_safe\<close>, \<open>random_order_terminates\<close>). \<open>Picker_Candidates\<close>: without a
    preference for contiguous blocks it picks the first blocks of a list given in closed form
    (\<open>pick_pieces_candidates\<close>). \<open>Picker_Promises\<close> draws the consequences: in the rarest first order nothing is missed, and
    rarer pieces come first behind partial and suggested ones; a block is picked once, or as often as its piece is suggested;
    and two cases where the code does not do what it means to (\<open>sequential_starves_top\<close>,
    \<open>extent_affinity_repeats\<close>).

  \<^item> \<open>Ip_Filter\<close>: \<open>ip_filter.hpp\<close>, \<open>ip_filter.cpp\<close>. The template \<open>filter_impl\<close> over a record of address operations, whose
    laws are the locale \<open>address_space\<close>, interpreted for ports and for the bytes of IPv4 and IPv6 addresses. The
    last rule that covers an address wins (\<open>ip_filter_last_rule_wins\<close>, \<open>port_filter_last_rule_wins\<close>), an export has the
    minimum number of ranges (\<open>ip_export_minimal\<close>) and rebuilds the filter (\<open>ip_export_roundtrip\<close>).

  \<^item> \<open>Packet_Buffer\<close>: \<open>packet_buffer.cpp\<close>, \<open>packet_buffer.hpp\<close>, \<open>compare_less_wrap\<close> of \<open>utp_stream.cpp\<close>. A circular array under
    16 bit sequence numbers, on 32 bit words. It answers like a map while the numbers stay within reach,
    which the code does not check (\<open>packet_buffer_refines\<close>, with the invariant \<open>packet_buffer_sound\<close>), and puts packets into wrong places for numbers that
    wrap before its array does (\<open>wrapped_insert_aliases\<close>).

  \<^item> \<open>Bit_Tricks\<close> and \<open>Bitfield\<close>: \<open>bitfield.hpp\<close>, \<open>bitfield.cpp\<close>, \<open>ffs.cpp\<close>. The word tricks (parallel count, de Bruijn logarithm)
    and the bit field over 32 bit words in network byte order, with \<open>htonl\<close> as a parameter whose laws are the locale
    \<open>byte_order\<close>, interpreted for both kinds of host. Under all its operations every query but one answers like a list of bits
    (\<open>bitfield_refines\<close>); that one, \<open>find_last_clear\<close>, finds the last clear bit only sometimes (\<open>find_last_clear_right\<close>).

  \<^bold>\<open>Conventions.\<close> An operation is a function from the state to the new state and the results; a handler's
  early returns are branches. Assertions of the code (\<open>TORRENT_ASSERT\<close>, off in a release build) are not
  checked by the definitions: where a theorem needs one it is a hypothesis or a guard of the step relation.
  Integers that cannot leave their range in a run within the stated bounds are mathematical integers; bit
  fields wrap at their width, and \<open>bdecode\<close> works on the ranges of its 29 bit offsets. Random
  numbers come from an arbitrary sequence, so the theorems hold for every choice.

  \<^bold>\<open>Fuel and termination.\<close> Loops are structural recursion or \<open>function\<close> with a termination proof; the
  parser's loop recurses on the rest of the input and the space left for tokens. The random order of
  \<open>pick_pieces\<close> has fuel, because it can pass the piece it started at: \<open>(num_blocks + 1) * num_pieces + 1\<close> rounds, which
  \<open>random_order_terminates\<close> shows to be enough, since every time around picks a block. The doubling
  loop of \<open>packet_buffer::reserve\<close> has fuel too, which \<open>packet_buffer_refines\<close> shows to be enough. Iterating over
  a bit field has one round more than it has bits, enough by \<open>bitfield_refines\<close>.

  \<^bold>\<open>Not modelled.\<close> Sockets, timers, threads and alerts (\<open>session_impl\<close>, \<open>torrent\<close>, \<open>peer_connection\<close>, the disk
  threads), the DHT and the trackers, printing and formatting, the deprecated recursive decoder, and the
  vendored Boost headers. Of the picker, the debug checks (they are what the invariants state), \<open>print_pieces\<close> and the statistics counters
  of \<open>pick_pieces\<close> are left out; where \<open>std::sort\<close> leaves the order of equivalent partial pieces open, the
  model keeps the order of the queue. Of the bit fields, the variants of the counting and scanning routines by compiler
  builtins and inline assembly are left out.
\<close>

end
